(* ===== verification/JsPrelude.thy ===== *)
theory JsPrelude
  imports Main
begin

text \<open>
  Shared vocabulary of the development: the outcome of running script code, the
  JavaScript values the core of jQuery works on, and the generic lemmas and
  named collections that the component theories use.
\<close>

section \<open>Outcomes of script code\<close>

text \<open>
  Running script code from a world \<open>w\<close> either does not come back within the given
  fuel, returns a value, or throws one. A throw keeps the world reached so far,
  because a JavaScript exception does not undo assignments.
\<close>

datatype ('e, 'a, 'w) res = Diverge | Done 'a 'w | Exn 'e 'w

definition bindR :: "('e, 'a, 'w) res \<Rightarrow> ('a \<Rightarrow> 'w \<Rightarrow> ('e, 'b, 'w) res) \<Rightarrow> ('e, 'b, 'w) res" where
  "bindR m f = (case m of Diverge \<Rightarrow> Diverge | Done a w \<Rightarrow> f a w | Exn e w \<Rightarrow> Exn e w)"

text \<open>\<open>keeps I r\<close>: whichever way the code left off, the world it left satisfies \<open>I\<close>.\<close>

definition keeps :: "('w \<Rightarrow> bool) \<Rightarrow> ('e, 'a, 'w) res \<Rightarrow> bool" where
  "keeps I r = (case r of Diverge \<Rightarrow> True | Done a w \<Rightarrow> I w | Exn e w \<Rightarrow> I w)"

lemma bindR_simps [simp]:
  "bindR Diverge f = Diverge"
  "bindR (Done a w) f = f a w"
  "bindR (Exn e w) f = Exn e w"
  by (simp_all add: bindR_def)

lemma keeps_simps [simp]:
  "keeps I Diverge"
  "keeps I (Done a w) = I w"
  "keeps I (Exn e w) = I w"
  by (simp_all add: keeps_def)

named_theorems keeps_intro

lemma keeps_bindR [keeps_intro]:
  assumes "keeps I m" and "\<And>a w. I w \<Longrightarrow> keeps I (f a w)"
  shows "keeps I (bindR m f)"
  using assms by (cases m) auto

lemma keeps_if: "keeps I a \<Longrightarrow> keeps I b \<Longrightarrow> keeps I (if c then a else b)"
  by simp

lemma keeps_mono: "keeps I r \<Longrightarrow> (\<And>w. I w \<Longrightarrow> J w) \<Longrightarrow> keeps J r"
  by (cases r) auto

lemma keeps_Done: "keeps I r \<Longrightarrow> r = Done a w \<Longrightarrow> I w"
  by simp

lemma keeps_Exn: "keeps I r \<Longrightarrow> r = Exn e w \<Longrightarrow> I w"
  by simp

lemma keeps_conj: "keeps (\<lambda>w. I w \<and> J w) r \<longleftrightarrow> keeps I r \<and> keeps J r"
  by (cases r) auto

lemma bindR_eq_Done: "bindR m f = Done b w' \<longleftrightarrow> (\<exists>a w. m = Done a w \<and> f a w = Done b w')"
  by (cases m) auto

text \<open>\<open>within E I r\<close>: moreover, whatever was thrown satisfies \<open>E\<close>.\<close>

definition within :: "('e \<Rightarrow> bool) \<Rightarrow> ('w \<Rightarrow> bool) \<Rightarrow> ('e, 'a, 'w) res \<Rightarrow> bool" where
  "within E I r = (case r of Diverge \<Rightarrow> True | Done a w \<Rightarrow> I w | Exn e w \<Rightarrow> E e \<and> I w)"

lemma within_simps [simp]:
  "within E I Diverge"
  "within E I (Done a w) = I w"
  "within E I (Exn e w) = (E e \<and> I w)"
  by (simp_all add: within_def)

lemma within_bindR [keeps_intro]:
  assumes "within E I m" and "\<And>a w. I w \<Longrightarrow> within E J (f a w)" and "\<And>w. I w \<Longrightarrow> J w"
  shows "within E J (bindR m f)"
  using assms by (cases m) auto

lemma within_bindR_same:
  "within E I m \<Longrightarrow> (\<And>a w. I w \<Longrightarrow> within E I (f a w)) \<Longrightarrow> within E I (bindR m f)"
  by (rule within_bindR)

lemma within_mono: "within E I r \<Longrightarrow> (\<And>w. I w \<Longrightarrow> J w) \<Longrightarrow> within E J r"
  by (cases r) auto

lemma keeps_within: "keeps I r = within (\<lambda>_. True) I r"
  by (cases r) auto

section \<open>Values\<close>

text \<open>
  The values the core utilities inspect. Numbers are the integers (lengths, indices,
  counters) and \<open>NaN\<close>; an object is a reference into the heap.
\<close>

datatype jsval = Undef | Null | Bool bool | Num int | NaN | Str string | Obj nat

fun truthy :: "jsval \<Rightarrow> bool" where
  "truthy Undef = False"
| "truthy Null = False"
| "truthy (Bool b) = b"
| "truthy (Num n) = (n \<noteq> 0)"
| "truthy NaN = False"
| "truthy (Str s) = (s \<noteq> [])"
| "truthy (Obj r) = True"

text \<open>The language's \<open>===\<close>: equality, except that \<open>NaN\<close> is not equal to itself.\<close>

definition strict_eq :: "jsval \<Rightarrow> jsval \<Rightarrow> bool" where
  "strict_eq a b = (a \<noteq> NaN \<and> a = b)"

text \<open>The language's \<open>x == null\<close>.\<close>

definition nullish :: "jsval \<Rightarrow> bool" where
  "nullish v = (v = Undef \<or> v = Null)"

lemma nullish_simps [simp]:
  "nullish Undef" "nullish Null" "\<not> nullish (Bool b)" "\<not> nullish (Num n)"
  "\<not> nullish NaN" "\<not> nullish (Str s)" "\<not> nullish (Obj r)"
  by (simp_all add: nullish_def)

section \<open>Lists as JavaScript arrays\<close>

text \<open>
  An array that may have holes is a list of optional elements: \<open>None\<close> is an index that
  is not a property of the array.
\<close>

type_synonym 'a sparse = "'a option list"

text \<open>\<open>list.splice( i, 1 )\<close>.\<close>

definition splice1 :: "nat \<Rightarrow> 'a list \<Rightarrow> 'a list" where
  "splice1 i xs = take i xs @ drop (Suc i) xs"

lemma length_splice1 [simp]: "i < length xs \<Longrightarrow> length (splice1 i xs) = length xs - 1"
  by (simp add: splice1_def)

lemma set_splice1: "set (splice1 i xs) \<subseteq> set xs"
  by (auto simp: splice1_def dest: in_set_takeD in_set_dropD)

lemma distinct_splice1: "distinct xs \<Longrightarrow> distinct (splice1 i xs)"
proof -
  assume d: "distinct xs"
  then have "set (take i xs) \<inter> set (drop (Suc i) xs) = {}"
    by (rule set_take_disj_set_drop_if_distinct) simp
  with d show ?thesis by (simp add: splice1_def)
qed

text \<open>\<open>xs[ i ]\<close>: an index outside the array reads as a missing element.\<close>

definition arr_get :: "'a list \<Rightarrow> int \<Rightarrow> 'a option" where
  "arr_get xs i = (if 0 \<le> i \<and> nat i < length xs then Some (xs ! nat i) else None)"

lemma arr_get_Some_mem: "arr_get xs i = Some x \<Longrightarrow> x \<in> set xs"
  by (auto simp: arr_get_def split: if_splits)

lemma arr_get_in_range: "0 \<le> i \<Longrightarrow> i < int (length xs) \<Longrightarrow> arr_get xs i = Some (xs ! nat i)"
  by (simp add: arr_get_def nat_less_iff)

lemma arr_get_of_nat [simp]: "arr_get xs (int n) = (if n < length xs then Some (xs ! n) else None)"
  by (simp add: arr_get_def)

section \<open>Property names\<close>

text \<open>The decimal name under which an array index is a property.\<close>

definition digit_char :: "nat \<Rightarrow> char" where
  "digit_char d = char_of (48 + d :: nat)"

fun nat_str :: "nat \<Rightarrow> string" where
  "nat_str n = (if n < 10 then [digit_char n] else nat_str (n div 10) @ [digit_char (n mod 10)])"

declare nat_str.simps [simp del]

definition int_str :: "int \<Rightarrow> string" where
  "int_str n = (if n < 0 then CHR ''-'' # nat_str (nat (- n)) else nat_str (nat n))"

definition digit_val :: "char \<Rightarrow> nat" where
  "digit_val c = of_char c - 48"

definition str_nat :: "string \<Rightarrow> nat" where
  "str_nat s = foldl (\<lambda>n c. 10 * n + digit_val c) 0 s"

lemma digit_val_char [simp]: "d < 10 \<Longrightarrow> digit_val (digit_char d) = d"
  by (simp add: digit_val_def digit_char_def)

lemma str_nat_snoc: "str_nat (s @ [c]) = 10 * str_nat s + digit_val c"
  by (simp add: str_nat_def)

lemma str_nat_nat_str [simp]: "str_nat (nat_str n) = n"
proof (induction n rule: nat_str.induct)
  case (1 n)
  show ?case
  proof (cases "n < 10")
    case True
    then show ?thesis by (simp add: nat_str.simps [of n] str_nat_def)
  next
    case False
    with "1.IH" have "str_nat (nat_str (n div 10)) = n div 10" by simp
    with False show ?thesis by (simp add: nat_str.simps [of n] str_nat_snoc)
  qed
qed

lemma nat_str_inject [simp]: "nat_str m = nat_str n \<longleftrightarrow> m = n"
  by (metis str_nat_nat_str)

definition is_digit :: "char \<Rightarrow> bool" where
  "is_digit c = (48 \<le> (of_char c :: nat) \<and> (of_char c :: nat) < 58)"

lemma is_digit_char [simp]: "d < 10 \<Longrightarrow> is_digit (digit_char d)"
  by (simp add: is_digit_def digit_char_def)

lemma nat_str_digits: "c \<in> set (nat_str n) \<Longrightarrow> is_digit c"
proof (induction n rule: nat_str.induct)
  case (1 n)
  then show ?case
    by (cases "n < 10") (auto simp: nat_str.simps [of n])
qed

lemma nat_str_not_Nil [simp]: "nat_str n \<noteq> []"
  by (simp add: nat_str.simps [of n])

text \<open>ASCII case conversion, as \<open>toLowerCase\<close> and \<open>toUpperCase\<close> act on the names used here.\<close>

definition lower_char :: "char \<Rightarrow> char" where
  "lower_char c = (let n = of_char c :: nat in if 65 \<le> n \<and> n \<le> 90 then char_of (n + 32) else c)"

definition upper_char :: "char \<Rightarrow> char" where
  "upper_char c = (let n = of_char c :: nat in if 97 \<le> n \<and> n \<le> 122 then char_of (n - 32) else c)"

definition lower :: "string \<Rightarrow> string" where
  "lower s = map lower_char s"

definition upper :: "string \<Rightarrow> string" where
  "upper s = map upper_char s"

lemma lower_char_idem [simp]: "lower_char (lower_char c) = lower_char c"
  by (auto simp: lower_char_def Let_def)

lemma lower_idem [simp]: "lower (lower s) = lower s"
  by (simp add: lower_def)

lemma lower_append [simp]: "lower (s @ t) = lower s @ lower t"
  by (simp add: lower_def)

section \<open>Association lists as the own properties of an object\<close>

text \<open>
  Own properties are enumerated in the order they were created: assigning to an existing
  name keeps its place, a new name is appended, \<open>delete\<close> drops the name.
\<close>

fun put_prop :: "'k \<Rightarrow> 'v \<Rightarrow> ('k \<times> 'v) list \<Rightarrow> ('k \<times> 'v) list" where
  "put_prop k v [] = [(k, v)]"
| "put_prop k v ((k', v') # ps) = (if k' = k then (k, v) # ps else (k', v') # put_prop k v ps)"

definition del_prop :: "'k \<Rightarrow> ('k \<times> 'v) list \<Rightarrow> ('k \<times> 'v) list" where
  "del_prop k ps = filter (\<lambda>p. fst p \<noteq> k) ps"

lemma map_of_put_prop [simp]: "map_of (put_prop k v ps) = (map_of ps)(k \<mapsto> v)"
  by (induction k v ps rule: put_prop.induct) auto

lemma map_of_del_prop [simp]: "map_of (del_prop k ps) = (map_of ps)(k := None)"
  by (induction ps) (auto simp: del_prop_def fun_eq_iff)

lemma keys_put_prop: "set (map fst (put_prop k v ps)) = insert k (set (map fst ps))"
  by (induction k v ps rule: put_prop.induct) auto

lemma distinct_put_prop [simp]:
  "distinct (map fst ps) \<Longrightarrow> distinct (map fst (put_prop k v ps))"
proof (induction k v ps rule: put_prop.induct)
  case (2 k v k' v' ps)
  then show ?case using keys_put_prop [of k v ps] by auto
qed simp

lemma distinct_del_prop [simp]:
  "distinct (map fst ps) \<Longrightarrow> distinct (map fst (del_prop k ps))"
  by (simp add: del_prop_def distinct_map_filter)

section \<open>Simulation\<close>

text \<open>
  The contract of a component with the specification of its state: every operation keeps
  the invariant and does to the view of the state what the specification says.
\<close>

locale simulation =
  fixes ok :: "'w \<Rightarrow> bool" and vw :: "'w \<Rightarrow> 'm" and impl :: "'op \<Rightarrow> 'w \<Rightarrow> 'w" and spec :: "'op \<Rightarrow> 'm \<Rightarrow> 'm"
  assumes impl_ok: "ok w \<Longrightarrow> ok (impl c w)"
    and impl_vw: "ok w \<Longrightarrow> vw (impl c w) = spec c (vw w)"
begin

lemma run: "ok w \<Longrightarrow> ok (fold impl cs w)" "ok w \<Longrightarrow> vw (fold impl cs w) = fold spec cs (vw w)"
  by (induction cs arbitrary: w) (simp_all add: impl_ok impl_vw)

end

end
