(* ===== verification/JqCore.thy ===== *)
theory JqCore
  imports JsPrelude
begin

text \<open>
  The array helpers of \<open>democlient/js/jquery.js\<close> that the other components call: \<open>inArray\<close>,
  \<open>merge\<close>, \<open>grep\<close> and \<open>map\<close>. Loops are recursions over the index the source counts up; a
  callback may change the world, so the loops pass it along and read the collection again at
  every step, while the length is read once, as the code does.
\<close>

section \<open>inArray\<close>

text \<open>
  The search loop of the fallback branch. \<open>seq\<close> is the language's \<open>===\<close> on the elements;
  an index that is a hole is skipped (\<open>i in arr\<close>).
\<close>

function inArray_loop :: "('a \<Rightarrow> 'a \<Rightarrow> bool) \<Rightarrow> 'a \<Rightarrow> 'a sparse \<Rightarrow> nat \<Rightarrow> int" where
  "inArray_loop seq elem arr i =
     (if i < length arr
      then (case arr ! i of
              Some x \<Rightarrow> if seq x elem then int i else inArray_loop seq elem arr (Suc i)
            | None \<Rightarrow> inArray_loop seq elem arr (Suc i))
      else - 1)"
  by pat_completeness auto
termination
  by (relation "measure (\<lambda>(seq, elem, arr, i). length arr - i)") auto

declare inArray_loop.simps [simp del]

definition inArray_start :: "int option \<Rightarrow> int \<Rightarrow> int" where
  "inArray_start i len =
     (case i of None \<Rightarrow> 0
      | Some k \<Rightarrow> if k \<noteq> 0 then (if k < 0 then max 0 (len + k) else k) else 0)"

text \<open>
  \<open>Array.prototype.indexOf\<close> of the language standard (ECMA-262 5.1, 15.4.4.14), which the
  source calls when the host has it.
\<close>

definition native_indexOf :: "('a \<Rightarrow> 'a \<Rightarrow> bool) \<Rightarrow> 'a sparse \<Rightarrow> 'a \<Rightarrow> int option \<Rightarrow> int" where
  "native_indexOf seq arr elem from =
     (let len = int (length arr); n = (case from of None \<Rightarrow> 0 | Some k \<Rightarrow> k) in
      if len = 0 then - 1
      else if n \<ge> len then - 1
      else (let k = (if n \<ge> 0 then n else len - \<bar>n\<bar>);
                k' = (if k < 0 then 0 else k);
                hits = filter (\<lambda>j. k' \<le> int j \<and> (case arr ! j of Some x \<Rightarrow> seq x elem | None \<Rightarrow> False))
                         [0..<length arr]
            in case hits of [] \<Rightarrow> - 1 | j # _ \<Rightarrow> int j))"

text \<open>\<open>arr\<close> is \<open>None\<close> when the argument is falsy (an undefined list).\<close>

definition inArray :: "bool \<Rightarrow> ('a \<Rightarrow> 'a \<Rightarrow> bool) \<Rightarrow> 'a \<Rightarrow> 'a sparse option \<Rightarrow> int option \<Rightarrow> int" where
  "inArray native seq elem arr i =
     (case arr of None \<Rightarrow> - 1
      | Some a \<Rightarrow>
          if native then native_indexOf seq a elem i
          else inArray_loop seq elem a (nat (inArray_start i (int (length a)))))"

definition in_at :: "('a \<Rightarrow> 'a \<Rightarrow> bool) \<Rightarrow> 'a \<Rightarrow> 'a sparse \<Rightarrow> nat \<Rightarrow> bool" where
  "in_at seq elem arr j = (case arr ! j of Some x \<Rightarrow> seq x elem | None \<Rightarrow> False)"

lemma inArray_loop_filter:
  "inArray_loop seq elem arr i =
     (case filter (\<lambda>j. i \<le> j \<and> in_at seq elem arr j) [0..<length arr] of
        [] \<Rightarrow> - 1 | j # _ \<Rightarrow> int j)"
proof (induction seq elem arr i rule: inArray_loop.induct)
  case (1 seq elem arr i)
  show ?case
  proof (cases "i < length arr")
    case False
    then have none: "filter (\<lambda>j. i \<le> j \<and> in_at seq elem arr j) [0..<length arr] = []"
      by (auto simp: filter_empty_conv)
    show ?thesis
      unfolding inArray_loop.simps [of seq elem arr i] none using False by simp
  next
    case True
    have ivl: "[0..<length arr] = [0..<i] @ i # [Suc i..<length arr]"
      using True by (metis le0 less_imp_le_nat upt_add_eq_append upt_conv_Cons le_add_diff_inverse)
    have pre: "filter (\<lambda>j. i \<le> j \<and> in_at seq elem arr j) [0..<i] = []"
      "filter (\<lambda>j. Suc i \<le> j \<and> in_at seq elem arr j) [0..<i] = []"
      by (auto simp: filter_empty_conv)
    have post: "filter (\<lambda>j. i \<le> j \<and> in_at seq elem arr j) [Suc i..<length arr]
        = filter (\<lambda>j. Suc i \<le> j \<and> in_at seq elem arr j) [Suc i..<length arr]"
      by (rule filter_cong) auto
    show ?thesis
    proof (cases "in_at seq elem arr i")
      case hit: True
      have "inArray_loop seq elem arr i = int i"
        unfolding inArray_loop.simps [of seq elem arr i]
        using True hit by (auto simp: in_at_def split: option.splits)
      moreover have "filter (\<lambda>j. i \<le> j \<and> in_at seq elem arr j) [0..<length arr]
          = i # filter (\<lambda>j. Suc i \<le> j \<and> in_at seq elem arr j) [Suc i..<length arr]"
        unfolding ivl filter_append pre using hit post by simp
      ultimately show ?thesis by simp
    next
      case miss: False
      have "inArray_loop seq elem arr i = inArray_loop seq elem arr (Suc i)"
        unfolding inArray_loop.simps [of seq elem arr i]
        using True miss by (auto simp: in_at_def split: option.splits)
      moreover have "inArray_loop seq elem arr (Suc i)
          = (case filter (\<lambda>j. Suc i \<le> j \<and> in_at seq elem arr j) [0..<length arr] of
               [] \<Rightarrow> - 1 | j # _ \<Rightarrow> int j)"
      proof (cases "arr ! i")
        case None
        with "1.IH" True show ?thesis by simp
      next
        case (Some x)
        with miss have "\<not> seq x elem" by (simp add: in_at_def)
        with "1.IH" True Some show ?thesis by simp
      qed
      moreover have "filter (\<lambda>j. Suc i \<le> j \<and> in_at seq elem arr j) [0..<length arr]
          = filter (\<lambda>j. i \<le> j \<and> in_at seq elem arr j) [0..<length arr]"
        unfolding ivl filter_append pre using miss post by simp
      ultimately show ?thesis by simp
    qed
  qed
qed

lemma native_indexOf_eq:
  "native_indexOf seq arr elem from =
     inArray_loop seq elem arr (nat (inArray_start from (int (length arr))))"
proof -
  define n where "n = (case from of None \<Rightarrow> 0 | Some k \<Rightarrow> k)"
  define s where "s = nat (inArray_start from (int (length arr)))"
  have s_eq: "s = nat (if n < 0 then max 0 (int (length arr) + n) else n)"
    by (auto simp: s_def n_def inArray_start_def split: option.splits)
  have filt: "(\<lambda>j. (case arr ! j of Some x \<Rightarrow> seq x elem | None \<Rightarrow> False)) = in_at seq elem arr"
    by (rule ext) (simp add: in_at_def)
  show ?thesis
  proof (cases "int (length arr) = 0 \<or> n \<ge> int (length arr)")
    case True
    then have "filter (\<lambda>j. s \<le> j \<and> in_at seq elem arr j) [0..<length arr] = []"
      by (auto simp: filter_empty_conv s_eq split: if_splits)
    with True show ?thesis
      unfolding native_indexOf_def Let_def s_def [symmetric] n_def [symmetric] inArray_loop_filter
      by auto
  next
    case False
    have guard: "(\<lambda>j. (if (if n \<ge> 0 then n else int (length arr) - \<bar>n\<bar>) < 0 then 0
                   else (if n \<ge> 0 then n else int (length arr) - \<bar>n\<bar>)) \<le> int j
                 \<and> (case arr ! j of Some x \<Rightarrow> seq x elem | None \<Rightarrow> False))
        = (\<lambda>j. s \<le> j \<and> in_at seq elem arr j)"
      by (rule ext) (auto simp: s_eq in_at_def)
    from False show ?thesis
      unfolding native_indexOf_def Let_def s_def [symmetric] n_def [symmetric] inArray_loop_filter guard
      by simp
  qed
qed

text \<open>The search starts at the given index and finds the first equal element.\<close>

lemma inArray_loop_hit:
  assumes "inArray_loop seq elem arr i = int j"
  shows "i \<le> j \<and> j < length arr \<and> in_at seq elem arr j"
proof -
  from assms have "\<exists>js. filter (\<lambda>j. i \<le> j \<and> in_at seq elem arr j) [0..<length arr] = j # js"
    unfolding inArray_loop_filter by (auto split: list.splits)
  then have "j \<in> set (filter (\<lambda>j. i \<le> j \<and> in_at seq elem arr j) [0..<length arr])"
    by (metis list.set_intros(1))
  then show ?thesis by simp
qed

lemma inArray_loop_miss:
  "inArray_loop seq elem arr i = - 1 \<longleftrightarrow> (\<forall>j. i \<le> j \<and> j < length arr \<longrightarrow> \<not> in_at seq elem arr j)"
proof -
  have "inArray_loop seq elem arr i = - 1
      \<longleftrightarrow> filter (\<lambda>j. i \<le> j \<and> in_at seq elem arr j) [0..<length arr] = []"
    unfolding inArray_loop_filter by (auto split: list.splits)
  then show ?thesis by (auto simp: filter_empty_conv)
qed

lemma inArray_loop_cases: "inArray_loop seq elem arr i = - 1 \<or> (\<exists>j. inArray_loop seq elem arr i = int j)"
  unfolding inArray_loop_filter by (auto split: list.splits)

lemma inArray_loop_found: "- 1 < inArray_loop seq elem arr i \<longleftrightarrow> inArray_loop seq elem arr i \<noteq> - 1"
  using inArray_loop_cases [of seq elem arr i] by auto

section \<open>Array helpers: merge, grep, map\<close>

text \<open>
  An array-like object as \<open>merge\<close> sees it: its \<open>length\<close> property, which need not be a
  number, and its indexed properties.
\<close>

record alike =
  alen :: jsval
  aidx :: "jsval sparse"

definition aget :: "alike \<Rightarrow> nat \<Rightarrow> jsval" where
  "aget a i = (if i < length (aidx a) then (case aidx a ! i of Some v \<Rightarrow> v | None \<Rightarrow> Undef) else Undef)"

definition aput :: "alike \<Rightarrow> nat \<Rightarrow> jsval \<Rightarrow> alike" where
  "aput a i v = a\<lparr>aidx := (aidx a @ replicate (Suc i - length (aidx a)) None)[i := Some v]\<rparr>"

function merge_for :: "alike \<Rightarrow> alike \<Rightarrow> nat \<Rightarrow> nat \<Rightarrow> nat \<Rightarrow> alike \<times> nat" where
  "merge_for first second l i j =
     (if j < l then merge_for (aput first i (aget second j)) second l (Suc i) (Suc j) else (first, i))"
  by pat_completeness auto
termination
  by (relation "measure (\<lambda>(first, second, l, i, j). l - j)") auto

function merge_while :: "alike \<Rightarrow> alike \<Rightarrow> nat \<Rightarrow> nat \<Rightarrow> alike \<times> nat" where
  "merge_while first second i j =
     (if aget second j \<noteq> Undef
      then merge_while (aput first i (aget second j)) second (Suc i) (Suc j) else (first, i))"
  by pat_completeness auto
termination
  by (relation "measure (\<lambda>(first, second, i, j). length (aidx second) - j)")
    (auto simp: aget_def split: if_splits)

declare merge_for.simps [simp del] merge_while.simps [simp del]

definition merge :: "alike \<Rightarrow> alike \<Rightarrow> alike" where
  "merge first second =
     (let i = (case alen first of Num n \<Rightarrow> nat n | _ \<Rightarrow> 0);
          (r, i') = (case alen second of
                       Num l \<Rightarrow> merge_for first second (nat l) i 0
                     | _ \<Rightarrow> merge_while first second i 0)
      in r\<lparr>alen := Num (int i')\<rparr>)"

definition alike_of :: "jsval list \<Rightarrow> alike" where
  "alike_of xs = \<lparr>alen = Num (int (length xs)), aidx = map Some xs\<rparr>"

lemma aget_alike_of [simp]: "j < length xs \<Longrightarrow> aget (alike_of xs) j = xs ! j"
  by (simp add: aget_def alike_of_def)

lemma aput_at_end:
  "aput \<lparr>alen = n, aidx = map Some xs\<rparr> (length xs) v = \<lparr>alen = n, aidx = map Some (xs @ [v])\<rparr>"
  by (simp add: aput_def list_update_append)

lemma merge_for_dense:
  assumes "j \<le> length ys"
  shows "merge_for \<lparr>alen = n, aidx = map Some xs\<rparr> (alike_of ys) (length ys) (length xs) j
    = (\<lparr>alen = n, aidx = map Some (xs @ drop j ys)\<rparr>, length xs + (length ys - j))"
  using assms
proof (induction "length ys - j" arbitrary: j xs)
  case 0
  then show ?case by (subst merge_for.simps) simp
next
  case (Suc m)
  then have j: "j < length ys" by simp
  have m: "m = length ys - Suc j" using Suc.hyps(2) by simp
  have "drop j ys = ys ! j # drop (Suc j) ys" using j by (rule Cons_nth_drop_Suc [symmetric])
  then show ?case
    using Suc.hyps(1) [OF m, of "xs @ [ys ! j]"] j
    by (subst merge_for.simps) (simp add: aput_at_end [of n xs] Suc_diff_Suc)
qed

lemma merge_dense: "merge (alike_of xs) (alike_of ys) = alike_of (xs @ ys)"
  using merge_for_dense [of 0 ys "Num (int (length xs))" xs]
  by (simp add: merge_def alike_of_def)

lemma merge_while_dense:
  assumes "Undef \<notin> set ys" "j \<le> length ys"
  shows "merge_while \<lparr>alen = n, aidx = map Some xs\<rparr> \<lparr>alen = m, aidx = map Some ys\<rparr> (length xs) j
    = (\<lparr>alen = n, aidx = map Some (xs @ drop j ys)\<rparr>, length xs + (length ys - j))"
  using assms(2)
proof (induction "length ys - j" arbitrary: j xs)
  case 0
  then show ?case by (subst merge_while.simps) (simp add: aget_def)
next
  case (Suc k)
  then have j: "j < length ys" by simp
  then have nu: "ys ! j \<noteq> Undef" using assms(1) nth_mem by metis
  have k: "k = length ys - Suc j" using Suc.hyps(2) by simp
  have "drop j ys = ys ! j # drop (Suc j) ys" using j by (rule Cons_nth_drop_Suc [symmetric])
  then show ?case
    using Suc.hyps(1) [OF k, of "xs @ [ys ! j]"] j nu
    by (subst merge_while.simps) (simp add: aput_at_end [of n xs] aget_def Suc_diff_Suc)
qed

text \<open>
  \<open>grep\<close>: the callback gets the element and its index. \<open>rd w i\<close> reads \<open>elems[ i ]\<close> in the
  current world.
\<close>

function grep_loop :: "('w \<Rightarrow> nat \<Rightarrow> jsval) \<Rightarrow> (jsval \<Rightarrow> nat \<Rightarrow> 'w \<Rightarrow> ('e, jsval, 'w) res) \<Rightarrow> bool
    \<Rightarrow> nat \<Rightarrow> nat \<Rightarrow> jsval list \<Rightarrow> 'w \<Rightarrow> ('e, jsval list, 'w) res" where
  "grep_loop rd callback invert i len ret w =
     (if i < len
      then bindR (callback (rd w i) i w) (\<lambda>retVal w'.
             grep_loop rd callback invert (Suc i) len
               (if invert \<noteq> truthy retVal then ret @ [rd w' i] else ret) w')
      else Done ret w)"
  by pat_completeness auto
termination
  by (relation "measure (\<lambda>(rd, callback, invert, i, len, ret, w). len - i)") auto

declare grep_loop.simps [simp del]

definition grep :: "('w \<Rightarrow> nat \<Rightarrow> jsval) \<Rightarrow> nat \<Rightarrow> (jsval \<Rightarrow> nat \<Rightarrow> 'w \<Rightarrow> ('e, jsval, 'w) res) \<Rightarrow> jsval
    \<Rightarrow> 'w \<Rightarrow> ('e, jsval list, 'w) res" where
  "grep rd len callback invert w = grep_loop rd callback (truthy invert) 0 len [] w"

text \<open>With a callback that has no effect, \<open>grep\<close> is the filter, or its complement.\<close>

lemma grep_loop_pure:
  assumes "\<And>i. i < length xs \<Longrightarrow> rd w i = xs ! i"
    and "\<And>i x. callback x i w = Done (f x) w"
    and "i \<le> length xs"
  shows "grep_loop rd callback invert i (length xs) ret w
    = Done (ret @ filter (\<lambda>x. truthy (f x) \<noteq> invert) (drop i xs)) w"
  using assms(3)
proof (induction "length xs - i" arbitrary: i ret)
  case 0
  then show ?case by (subst grep_loop.simps) simp
next
  case (Suc m)
  then have i: "i < length xs" by simp
  have m: "m = length xs - Suc i" using Suc.hyps(2) by simp
  have d: "drop i xs = xs ! i # drop (Suc i) xs" using i by (rule Cons_nth_drop_Suc [symmetric])
  show ?case
    using Suc.hyps(1) [OF m] i
    by (subst grep_loop.simps) (simp add: assms(1,2) d)
qed

text \<open>
  \<open>map\<close>: null and undefined results are dropped, and \<open>concat\<close> splices the results that are
  arrays (\<open>arr_of w r\<close> is the content of the object \<open>r\<close> when it is an array).
  The keys are the indices of an array-like object, or the enumerated names.
\<close>

fun map_loop :: "('w \<Rightarrow> 'k \<Rightarrow> jsval) \<Rightarrow> (jsval \<Rightarrow> 'k \<Rightarrow> 'w \<Rightarrow> ('e, jsval, 'w) res) \<Rightarrow> 'k list
    \<Rightarrow> jsval list \<Rightarrow> 'w \<Rightarrow> ('e, jsval list, 'w) res" where
  "map_loop rd callback [] ret w = Done ret w"
| "map_loop rd callback (k # ks) ret w =
     bindR (callback (rd w k) k w) (\<lambda>value w'.
       map_loop rd callback ks (if \<not> nullish value then ret @ [value] else ret) w')"

definition concat_apply :: "(nat \<Rightarrow> jsval list option) \<Rightarrow> jsval list \<Rightarrow> jsval list" where
  "concat_apply arr ret =
     concat (map (\<lambda>v. case v of Obj r \<Rightarrow> (case arr r of Some xs \<Rightarrow> xs | None \<Rightarrow> [v]) | _ \<Rightarrow> [v]) ret)"

definition map_js :: "('w \<Rightarrow> nat \<Rightarrow> jsval list option) \<Rightarrow> ('w \<Rightarrow> 'k \<Rightarrow> jsval)
    \<Rightarrow> (jsval \<Rightarrow> 'k \<Rightarrow> 'w \<Rightarrow> ('e, jsval, 'w) res) \<Rightarrow> 'k list \<Rightarrow> 'w \<Rightarrow> ('e, jsval list, 'w) res" where
  "map_js arr_of rd callback ks w =
     bindR (map_loop rd callback ks [] w) (\<lambda>ret w'. Done (concat_apply (arr_of w') ret) w')"

lemma map_loop_pure:
  assumes "\<And>x k. callback x k w = Done (f x) w"
  shows "map_loop rd callback ks ret w = Done (ret @ filter (\<lambda>v. \<not> nullish v) (map (\<lambda>k. f (rd w k)) ks)) w"
  by (induction ks arbitrary: ret) (simp_all add: assms)

end
