(* ===== verification/JqCallbacks.thy ===== *)
theory JqCallbacks
  imports JqCore
begin

text \<open>
  \<open>jQuery.Callbacks\<close> of \<open>democlient/js/jquery.js\<close>: the callback list with its flags
  \<open>once\<close>, \<open>memory\<close>, \<open>unique\<close> and \<open>stopOnFalse\<close>. The closure variables of the source are
  the fields of a record; every list lives in a world under an identifier, because a
  callback may add to, remove from, lock, disable or fire any list while a list is
  firing. Calling a function value is a parameter (\<open>call\<close>) of the operations that fire; the
  theory of Deferreds closes that recursion.
\<close>

section \<open>Function values and data\<close>

text \<open>
  The identity of a list: one that a client created, or one of the three lists (0 done,
  1 fail, 2 progress) private to a Deferred.
\<close>

datatype oid = Own nat | Def nat nat

text \<open>
  Function values that client code can hold: its own functions, and the methods
  \<open>resolve\<close>, \<open>reject\<close>, \<open>notify\<close> (0, 1, 2) of a Deferred.
\<close>

datatype ufn = FUser nat | FSettle nat nat

datatype val = VUndef | VNull | VBool bool | VNum int | VStr string | VArr "val list"
  | VFn ufn | VDeferred nat | VPromise nat | VObj nat | VTypeError

text \<open>
  All functions that may be in a list: those, and the closures the source creates: the
  state setter, the methods \<open>disable\<close> and \<open>lock\<close> of a list, the listeners of \<open>then\<close> and
  the update functions of \<open>when\<close>.
\<close>

datatype fn = Pub ufn | FSetState nat string | FDisable oid | FLock oid
  | FThen nat nat "ufn option" nat | FWhen nat nat bool

type_synonym data = "val \<times> val list"

record cbs =
  o_once :: bool
  o_memory :: bool
  o_unique :: bool
  o_stopOnFalse :: bool
  firing :: bool
  memory :: "data option"
  fired :: bool
  firingLength :: int
  firingIndex :: int
  firingStart :: int
  cblist :: "fn list option"      \<comment> \<open>\<open>None\<close>: the list is disabled\<close>
  cbstack :: "data list option"   \<comment> \<open>\<open>None\<close>: \<open>false\<close> or \<open>undefined\<close>\<close>

section \<open>Options\<close>

definition is_white :: "char \<Rightarrow> bool" where
  "is_white c = (of_char c \<in> {9, 10, 11, 12, 13, 32, 160 :: nat})"

text \<open>\<open>options.match( core_rnotwhite ) || []\<close>: the maximal runs of non-space characters.\<close>

fun words_aux :: "string \<Rightarrow> string \<Rightarrow> string list" where
  "words_aux cur [] = (if cur = [] then [] else [rev cur])"
| "words_aux cur (c # s) =
     (if is_white c then (if cur = [] then words_aux [] s else rev cur # words_aux [] s)
      else words_aux (c # cur) s)"

definition match_notwhite :: "string \<Rightarrow> string list" where
  "match_notwhite s = words_aux [] s"

text \<open>The options object: the flags set to \<open>true\<close>.\<close>

definition createOptions :: "string \<Rightarrow> string \<Rightarrow> bool" where
  "createOptions options = foldl (\<lambda>obj flag. obj(flag := True)) (\<lambda>_. False) (match_notwhite options)"

definition new_callbacks :: "(string \<Rightarrow> bool) \<Rightarrow> cbs" where
  "new_callbacks opts =
     \<lparr>o_once = opts ''once'', o_memory = opts ''memory'', o_unique = opts ''unique'',
      o_stopOnFalse = opts ''stopOnFalse'', firing = False, memory = None, fired = False,
      firingLength = 0, firingIndex = 0, firingStart = 0, cblist = Some [],
      cbstack = (if opts ''once'' then None else Some [])\<rparr>"

section \<open>Operations that call nothing\<close>

definition list_index :: "fn \<Rightarrow> fn list option \<Rightarrow> int option \<Rightarrow> int" where
  "list_index f l i = inArray True (=) f (map_option (map Some) l) i"

definition cb_has :: "fn option \<Rightarrow> cbs \<Rightarrow> bool" where
  "cb_has f c = (case f of Some g \<Rightarrow> list_index g (cblist c) None > - 1
                 | None \<Rightarrow> (case cblist c of Some l \<Rightarrow> l \<noteq> [] | None \<Rightarrow> False))"

text \<open>
  The arguments of \<open>add\<close>: functions, nested collections of arguments, and anything else,
  which is ignored.
\<close>

datatype cbarg = AFn fn | AArr "cbarg list" | AOther

fun add_args :: "cbarg list \<Rightarrow> cbs \<Rightarrow> cbs"
  and add_arg :: "cbarg \<Rightarrow> cbs \<Rightarrow> cbs" where
  "add_args [] c = c"
| "add_args (a # as) c = add_args as (add_arg a c)"
| "add_arg (AFn f) c =
     (if \<not> o_unique c \<or> \<not> cb_has (Some f) c
      then c\<lparr>cblist := map_option (\<lambda>l. l @ [f]) (cblist c)\<rparr> else c)"
| "add_arg (AArr as) c = add_args as c"
| "add_arg AOther c = c"

text \<open>The \<open>while\<close> loop of \<open>remove\<close>; \<open>index\<close> carries over from one round to the next.\<close>

definition remove_at :: "nat \<Rightarrow> fn list \<Rightarrow> cbs \<Rightarrow> cbs" where
  "remove_at index l c =
     (let c1 = c\<lparr>cblist := Some (splice1 index l)\<rparr> in
      if firing c
      then (let c2 = (if int index \<le> firingLength c1 then c1\<lparr>firingLength := firingLength c1 - 1\<rparr> else c1)
            in (if int index \<le> firingIndex c2 then c2\<lparr>firingIndex := firingIndex c2 - 1\<rparr> else c2))
      else c1)"

lemma cblist_remove_at [simp]: "cblist (remove_at i l c) = Some (splice1 i l)"
  by (simp add: remove_at_def Let_def)

lemma list_index_eq:
  "list_index f (Some l) i = inArray_loop (=) f (map Some l) (nat (inArray_start i (int (length l))))"
  by (simp add: list_index_def inArray_def native_indexOf_eq)

lemma in_at_map_Some: "j < length l \<Longrightarrow> in_at (=) f (map Some l) j \<longleftrightarrow> l ! j = f"
  by (simp add: in_at_def)

lemma list_index_hit:
  assumes "list_index f (Some l) i = n" "n > - 1"
  shows "nat n < length l" "l ! nat n = f"
proof -
  from assms inArray_loop_cases [of "(=)" f "map Some l"] obtain j where j: "n = int j"
    unfolding list_index_eq by (metis less_irrefl)
  with assms(1) inArray_loop_hit [of "(=)" f "map Some l" _ j]
  have "j < length (map Some l) \<and> in_at (=) f (map Some l) j" by (auto simp: list_index_eq)
  with j show "nat n < length l" "l ! nat n = f" by (auto simp: in_at_map_Some)
qed

lemma cb_has_iff: "cb_has (Some f) c \<longleftrightarrow> (\<exists>l. cblist c = Some l \<and> f \<in> set l)"
proof (cases "cblist c")
  case None
  then show ?thesis by (simp add: cb_has_def list_index_def inArray_def)
next
  case (Some l)
  have "list_index f (Some l) None = - 1 \<longleftrightarrow> f \<notin> set l"
    unfolding list_index_eq inArray_loop_miss by (auto simp: inArray_start_def in_set_conv_nth in_at_map_Some)
  moreover have "list_index f (Some l) None > - 1 \<longleftrightarrow> list_index f (Some l) None \<noteq> - 1"
    by (simp only: list_index_eq inArray_loop_found)
  ultimately show ?thesis using Some by (simp add: cb_has_def)
qed

function remove_loop :: "fn \<Rightarrow> int option \<Rightarrow> cbs \<Rightarrow> cbs" where
  "remove_loop arg index c =
     (case cblist c of
        None \<Rightarrow> c
      | Some l \<Rightarrow>
          (let i = list_index arg (Some l) index in
           if i > - 1 then remove_loop arg (Some i) (remove_at (nat i) l c) else c))"
  by pat_completeness auto
termination
proof (relation "measure (\<lambda>(arg, index, c). case cblist c of None \<Rightarrow> 0 | Some l \<Rightarrow> length l)")
  fix arg index l i and c :: cbs
  assume "cblist c = Some l" "i = list_index arg (Some l) index" "- 1 < i"
  then have "nat i < length l" using list_index_hit(1) by blast
  with \<open>cblist c = Some l\<close>
  show "((arg, Some i, remove_at (nat i) l c), arg, index, c)
    \<in> measure (\<lambda>(arg, index, c). case cblist c of None \<Rightarrow> 0 | Some l \<Rightarrow> length l)"
    by simp
qed simp

declare remove_loop.simps [simp del]

definition cb_remove :: "fn list \<Rightarrow> cbs \<Rightarrow> cbs" where
  "cb_remove args c =
     (case cblist c of None \<Rightarrow> c | Some _ \<Rightarrow> foldl (\<lambda>c arg. remove_loop arg None c) c args)"

definition cb_empty :: "cbs \<Rightarrow> cbs" where
  "cb_empty c = c\<lparr>cblist := Some [], firingLength := 0\<rparr>"

definition cb_disable :: "cbs \<Rightarrow> cbs" where
  "cb_disable c = c\<lparr>cblist := None, cbstack := None, memory := None\<rparr>"

definition cb_disabled :: "cbs \<Rightarrow> bool" where
  "cb_disabled c = (cblist c = None)"

definition cb_lock :: "cbs \<Rightarrow> cbs" where
  "cb_lock c = (let c1 = c\<lparr>cbstack := None\<rparr> in if memory c1 = None then cb_disable c1 else c1)"

definition cb_locked :: "cbs \<Rightarrow> bool" where
  "cb_locked c = (cbstack c = None)"

definition cb_fired :: "cbs \<Rightarrow> bool" where
  "cb_fired c = fired c"

section \<open>Operations that fire\<close>

record cworld =
  objs :: "oid \<Rightarrow> cbs"

type_synonym 'z outcome = "(val, val, 'z cworld_scheme) res"
type_synonym 'z effect = "(val, unit, 'z cworld_scheme) res"
type_synonym 'z caller = "fn \<Rightarrow> val \<Rightarrow> val list \<Rightarrow> 'z cworld_scheme \<Rightarrow> 'z outcome"

definition upd :: "oid \<Rightarrow> (cbs \<Rightarrow> cbs) \<Rightarrow> 'z cworld_scheme \<Rightarrow> 'z cworld_scheme" where
  "upd i f w = w\<lparr>objs := (objs w)(i := f (objs w i))\<rparr>"

text \<open>
  The loop of \<open>fire\<close>. Its bounds are re-read after every call, since a callback may have
  changed them; an index without an element would be a call of \<open>undefined\<close>.
\<close>

fun fire_loop :: "'z caller \<Rightarrow> nat \<Rightarrow> oid \<Rightarrow> data \<Rightarrow> 'z cworld_scheme \<Rightarrow> 'z effect" where
  "fire_loop call 0 i d w = Diverge"
| "fire_loop call (Suc n) i d w =
     (let c = objs w i in
      case cblist c of
        None \<Rightarrow> Done () w
      | Some l \<Rightarrow>
          if firingIndex c < firingLength c
          then (case arr_get l (firingIndex c) of
                  None \<Rightarrow> Exn VTypeError w
                | Some f \<Rightarrow> bindR (call f (fst d) (snd d) w) (\<lambda>ret w'.
                    if ret = VBool False \<and> o_stopOnFalse (objs w' i)
                    then Done () (upd i (\<lambda>c. c\<lparr>memory := None\<rparr>) w')
                    else fire_loop call n i d (upd i (\<lambda>c. c\<lparr>firingIndex := firingIndex c + 1\<rparr>) w')))
          else Done () w)"

definition start_fire :: "data \<Rightarrow> fn list \<Rightarrow> cbs \<Rightarrow> cbs" where
  "start_fire d l c = c\<lparr>memory := (if o_memory c then Some d else None), fired := True,
     firingIndex := firingStart c, firingStart := 0, firingLength := int (length l), firing := True\<rparr>"

text \<open>After the loop: the next queued call, or what \<open>once\<close> leaves behind.\<close>

fun fire :: "'z caller \<Rightarrow> nat \<Rightarrow> oid \<Rightarrow> data \<Rightarrow> 'z cworld_scheme \<Rightarrow> 'z effect" where
  "fire call 0 i d w = Diverge"
| "fire call (Suc n) i d w =
     (case cblist (objs w i) of
        None \<Rightarrow> Exn VTypeError w
      | Some l \<Rightarrow> bindR (fire_loop call n i d (upd i (start_fire d l) w)) (\<lambda>_ w1.
          let w2 = upd i (\<lambda>c. c\<lparr>firing := False\<rparr>) w1; c = objs w2 i in
          case cblist c of
            None \<Rightarrow> Done () w2
          | Some _ \<Rightarrow>
              (case cbstack c of
                 Some [] \<Rightarrow> Done () w2
               | Some (d' # ds) \<Rightarrow> fire call n i d' (upd i (\<lambda>c. c\<lparr>cbstack := Some ds\<rparr>) w2)
               | None \<Rightarrow>
                   if memory c \<noteq> None then Done () (upd i (\<lambda>c. c\<lparr>cblist := Some []\<rparr>) w2)
                   else Done () (upd i cb_disable w2))))"

definition cb_fireWith :: "'z caller \<Rightarrow> nat \<Rightarrow> oid \<Rightarrow> val \<Rightarrow> val list \<Rightarrow> 'z cworld_scheme \<Rightarrow> 'z effect" where
  "cb_fireWith call n i context args w =
     (let c = objs w i in
      if cblist c \<noteq> None \<and> (\<not> fired c \<or> cbstack c \<noteq> None)
      then (if firing c
            then (case cbstack c of
                    None \<Rightarrow> Exn VTypeError w
                  | Some ds \<Rightarrow> Done () (upd i (\<lambda>c. c\<lparr>cbstack := Some (ds @ [(context, args)])\<rparr>) w))
            else fire call n i (context, args) w)
      else Done () w)"

definition list_len :: "cbs \<Rightarrow> int" where
  "list_len c = (case cblist c of None \<Rightarrow> 0 | Some l \<Rightarrow> int (length l))"

definition cb_add :: "'z caller \<Rightarrow> nat \<Rightarrow> oid \<Rightarrow> cbarg list \<Rightarrow> 'z cworld_scheme \<Rightarrow> 'z effect" where
  "cb_add call n i args w =
     (if cblist (objs w i) = None then Done () w
      else (let start = list_len (objs w i);
                w1 = upd i (add_args args) w; c = objs w1 i in
            if firing c then Done () (upd i (\<lambda>c. c\<lparr>firingLength := list_len c\<rparr>) w1)
            else (case memory c of
                    Some d \<Rightarrow> fire call n i d (upd i (\<lambda>c. c\<lparr>firingStart := start\<rparr>) w1)
                  | None \<Rightarrow> Done () w1)))"

section \<open>Frame lemmas of the operations\<close>

lemma objs_upd [simp]: "objs (upd i f w) = (objs w)(i := f (objs w i))"
  by (simp add: upd_def)

text \<open>Adding changes nothing but the list, and only appends to it.\<close>

lemma add_args_frame:
  "firing (add_args as c) = firing c" "memory (add_args as c) = memory c"
  "firingIndex (add_args as c) = firingIndex c" "firingStart (add_args as c) = firingStart c"
  "firingLength (add_args as c) = firingLength c" "fired (add_args as c) = fired c"
  "cbstack (add_args as c) = cbstack c" "o_unique (add_args as c) = o_unique c"
  "o_memory (add_args as c) = o_memory c" "o_stopOnFalse (add_args as c) = o_stopOnFalse c"
  "o_once (add_args as c) = o_once c"
  "firing (add_arg a c) = firing c" "memory (add_arg a c) = memory c"
  "firingIndex (add_arg a c) = firingIndex c" "firingStart (add_arg a c) = firingStart c"
  "firingLength (add_arg a c) = firingLength c" "fired (add_arg a c) = fired c"
  "cbstack (add_arg a c) = cbstack c" "o_unique (add_arg a c) = o_unique c"
  "o_memory (add_arg a c) = o_memory c" "o_stopOnFalse (add_arg a c) = o_stopOnFalse c"
  "o_once (add_arg a c) = o_once c"
  by (induction as c and a c rule: add_args_add_arg.induct) auto

fun arg_fns :: "cbarg \<Rightarrow> fn list"
  and args_fns :: "cbarg list \<Rightarrow> fn list" where
  "arg_fns (AFn f) = [f]"
| "arg_fns (AArr as) = args_fns as"
| "arg_fns AOther = []"
| "args_fns [] = []"
| "args_fns (a # as) = arg_fns a @ args_fns as"

lemma add_args_list:
  "cblist (add_args as c) = None \<longleftrightarrow> cblist c = None"
  "cblist c = Some l \<Longrightarrow> \<exists>fs. cblist (add_args as c) = Some (l @ fs) \<and> set fs \<subseteq> set (args_fns as)"
  "cblist (add_arg a c) = None \<longleftrightarrow> cblist c = None"
  "cblist c = Some l \<Longrightarrow> \<exists>fs. cblist (add_arg a c) = Some (l @ fs) \<and> set fs \<subseteq> set (arg_fns a)"
proof (induction as c and a c arbitrary: l and l rule: add_args_add_arg.induct)
  case (2 a as c)
  { case 1 show ?case using 2 by auto }
  { case 2
    with "2.IH"(2) obtain fs where fs: "cblist (add_arg a c) = Some (l @ fs)" "set fs \<subseteq> set (arg_fns a)" by blast
    from "2.IH"(4) [OF fs(1)] fs(2) show ?case by fastforce }
qed auto

text \<open>Without \<open>unique\<close> every function argument is appended, in order.\<close>

lemma add_args_append:
  "\<not> o_unique c \<Longrightarrow> cblist c = Some l \<Longrightarrow> cblist (add_args as c) = Some (l @ args_fns as)"
  "\<not> o_unique c \<Longrightarrow> cblist c = Some l \<Longrightarrow> cblist (add_arg a c) = Some (l @ arg_fns a)"
  by (induction as c and a c arbitrary: l and l rule: add_args_add_arg.induct)
    (auto simp: add_args_frame)

text \<open>With \<open>unique\<close> a list without duplicates stays one.\<close>

lemma add_args_distinct:
  "o_unique c \<Longrightarrow> cblist c = Some l \<Longrightarrow> distinct l \<Longrightarrow> \<exists>l'. cblist (add_args as c) = Some l' \<and> distinct l'"
  "o_unique c \<Longrightarrow> cblist c = Some l \<Longrightarrow> distinct l \<Longrightarrow> \<exists>l'. cblist (add_arg a c) = Some l' \<and> distinct l'"
proof (induction as c and a c arbitrary: l and l rule: add_args_add_arg.induct)
  case (2 a as c)
  from "2.IH"(1) [OF "2.prems"] obtain l' where "cblist (add_arg a c) = Some l'" "distinct l'" by blast
  with "2.IH"(2) 2(3) show ?case by (auto simp: add_args_frame)
qed (auto simp: cb_has_iff)

section \<open>The firing indices stay in bounds\<close>

text \<open>
  \<open>idx_ok\<close>: while a list is firing, \<open>firingLength\<close> is its current length and
  \<open>firingIndex\<close> is at least \<open>- 1\<close>; \<open>firingStart\<close> is never negative.
  \<open>indexed fresh F w\<close>: so it is for every list, the lists of \<open>F\<close> are firing, and a list
  that is not yet allocated (\<open>fresh\<close>) is neither there nor firing.
\<close>

definition idx_ok :: "cbs \<Rightarrow> bool" where
  "idx_ok c \<longleftrightarrow> 0 \<le> firingStart c \<and>
     (firing c \<longrightarrow> fired c \<and> - 1 \<le> firingIndex c \<and>
        (\<forall>l. cblist c = Some l \<longrightarrow> firingLength c = int (length l)))"

definition indexed :: "('z cworld_scheme \<Rightarrow> oid \<Rightarrow> bool) \<Rightarrow> oid set \<Rightarrow> 'z cworld_scheme \<Rightarrow> bool" where
  "indexed fresh F w \<longleftrightarrow> (\<forall>i. idx_ok (objs w i)) \<and> (\<forall>i \<in> F. firing (objs w i)) \<and>
     (\<forall>i. fresh w i \<longrightarrow> cblist (objs w i) = None \<and> \<not> firing (objs w i))"

lemma indexedD: "indexed fresh F w \<Longrightarrow> idx_ok (objs w i)" "indexed fresh F w \<Longrightarrow> i \<in> F \<Longrightarrow> firing (objs w i)"
  "indexed fresh F w \<Longrightarrow> i \<in> F \<Longrightarrow> \<not> fresh w i"
  "indexed fresh F w \<Longrightarrow> cblist (objs w i) \<noteq> None \<Longrightarrow> \<not> fresh w i"
  "indexed fresh F w \<Longrightarrow> firing (objs w i) \<Longrightarrow> \<not> fresh w i"
  by (auto simp: indexed_def)

lemma indexed_mono: "indexed fresh F w \<Longrightarrow> G \<subseteq> F \<Longrightarrow> indexed fresh G w"
  by (auto simp: indexed_def)

lemma idx_ok_new [simp]: "idx_ok (new_callbacks opts)"
  by (simp add: idx_ok_def new_callbacks_def)

lemma idx_ok_disable [simp]: "idx_ok c \<Longrightarrow> idx_ok (cb_disable c)"
  by (auto simp: idx_ok_def cb_disable_def)

lemma idx_ok_lock [simp]: "idx_ok c \<Longrightarrow> idx_ok (cb_lock c)"
  by (auto simp: idx_ok_def cb_lock_def cb_disable_def Let_def)

lemma idx_ok_empty [simp]: "idx_ok c \<Longrightarrow> idx_ok (cb_empty c)"
  by (auto simp: idx_ok_def cb_empty_def)

lemma firing_disable_lock [simp]: "firing (cb_disable c) = firing c" "firing (cb_lock c) = firing c"
  by (simp_all add: cb_disable_def cb_lock_def Let_def)

lemma idx_ok_remove_at:
  "idx_ok c \<Longrightarrow> cblist c = Some l \<Longrightarrow> i < length l \<Longrightarrow> idx_ok (remove_at i l c)"
  by (auto simp: idx_ok_def remove_at_def Let_def)

lemma firing_remove_at [simp]: "firing (remove_at i l c) = firing c"
  by (simp add: remove_at_def Let_def)

lemma idx_ok_remove_loop: "idx_ok c \<Longrightarrow> idx_ok (remove_loop arg index c) \<and> firing (remove_loop arg index c) = firing c"
proof (induction arg index c rule: remove_loop.induct)
  case (1 arg index c)
  show ?case
  proof (cases "cblist c")
    case None
    with "1.prems" show ?thesis by (simp add: remove_loop.simps [of arg index c])
  next
    case (Some l)
    let ?i = "list_index arg (Some l) index"
    show ?thesis
    proof (cases "?i > - 1")
      case True
      then have "nat ?i < length l" using list_index_hit(1) by blast
      with "1.prems" Some have "idx_ok (remove_at (nat ?i) l c)" by (intro idx_ok_remove_at)
      with "1.IH" [OF Some refl True] True Some show ?thesis
        by (simp add: remove_loop.simps [of arg index c] Let_def)
    next
      case False
      with "1.prems" Some show ?thesis by (simp add: remove_loop.simps [of arg index c] Let_def)
    qed
  qed
qed

lemma idx_ok_remove: "idx_ok c \<Longrightarrow> idx_ok (cb_remove args c) \<and> firing (cb_remove args c) = firing c"
proof -
  have "idx_ok c \<Longrightarrow> idx_ok (foldl (\<lambda>c arg. remove_loop arg None c) c args)
      \<and> firing (foldl (\<lambda>c arg. remove_loop arg None c) c args) = firing c"
    by (induction args arbitrary: c) (auto simp: idx_ok_remove_loop)
  then show "idx_ok c \<Longrightarrow> ?thesis" by (auto simp: cb_remove_def split: option.splits)
qed

text \<open>
  The contract between the lists and whatever runs function values: a call keeps every
  firing list firing with its indices in bounds, and throws only what \<open>E\<close> allows.
\<close>

locale indexed_caller =
  fixes call :: "'z caller" and E :: "val \<Rightarrow> bool" and fresh :: "'z cworld_scheme \<Rightarrow> oid \<Rightarrow> bool"
  assumes call_indexed: "indexed fresh F w \<Longrightarrow> within E (indexed fresh F) (call f this args w)"
    and fresh_upd: "fresh (upd i g w) = fresh w"
begin

lemma indexed_upd:
  "indexed fresh F w \<Longrightarrow> \<not> fresh w i \<Longrightarrow> idx_ok (f (objs w i)) \<Longrightarrow> (i \<in> F \<Longrightarrow> firing (f (objs w i)))
    \<Longrightarrow> indexed fresh F (upd i f w)"
  by (auto simp: indexed_def fresh_upd)

lemma loop_indexed:
  "indexed fresh F w \<Longrightarrow> i \<in> F \<Longrightarrow> 0 \<le> firingIndex (objs w i)
    \<Longrightarrow> within E (indexed fresh F) (fire_loop call n i d w)"
proof (induction n arbitrary: w)
  case (Suc n)
  show ?case
  proof (cases "cblist (objs w i)")
    case None
    with Suc.prems show ?thesis by simp
  next
    case (Some l)
    have ok: "firingLength (objs w i) = int (length l)"
      using Suc.prems(1,2) Some by (auto simp: indexed_def idx_ok_def)
    show ?thesis
    proof (cases "firingIndex (objs w i) < firingLength (objs w i)")
      case False
      with Some Suc.prems show ?thesis by (simp add: Let_def)
    next
      case True
      with ok Suc.prems(3) have g: "arr_get l (firingIndex (objs w i)) = Some (l ! nat (firingIndex (objs w i)))"
        by (intro arr_get_in_range) auto
      have step: "within E (indexed fresh F)
          (if ret = VBool False \<and> o_stopOnFalse (objs w' i)
           then Done () (upd i (\<lambda>c. c\<lparr>memory := None\<rparr>) w')
           else fire_loop call n i d (upd i (\<lambda>c. c\<lparr>firingIndex := firingIndex c + 1\<rparr>) w'))"
        if "indexed fresh F w'" for ret w'
      proof -
        have fi: "idx_ok (objs w' i)" "firing (objs w' i)" using that Suc.prems(2) by (auto simp: indexed_def)
        have nf: "\<not> fresh w' i" using that Suc.prems(2) by (rule indexedD)
        have a: "indexed fresh F (upd i (\<lambda>c. c\<lparr>memory := None\<rparr>) w')"
          using that nf fi by (intro indexed_upd) (auto simp: idx_ok_def)
        have b: "indexed fresh F (upd i (\<lambda>c. c\<lparr>firingIndex := firingIndex c + 1\<rparr>) w')"
          using that nf fi by (intro indexed_upd) (auto simp: idx_ok_def)
        from fi have "0 \<le> firingIndex (objs (upd i (\<lambda>c. c\<lparr>firingIndex := firingIndex c + 1\<rparr>) w') i)"
          by (simp add: idx_ok_def)
        with a Suc.IH [OF b Suc.prems(2)] show ?thesis by simp
      qed
      have "within E (indexed fresh F) (bindR (call (l ! nat (firingIndex (objs w i))) (fst d) (snd d) w)
          (\<lambda>ret w'. if ret = VBool False \<and> o_stopOnFalse (objs w' i)
           then Done () (upd i (\<lambda>c. c\<lparr>memory := None\<rparr>) w')
           else fire_loop call n i d (upd i (\<lambda>c. c\<lparr>firingIndex := firingIndex c + 1\<rparr>) w')))"
        by (rule within_bindR [OF call_indexed [OF Suc.prems(1)]]) (use step in auto)
      with Some True g show ?thesis by (simp add: Let_def)
    qed
  qed
qed simp

lemma fire_indexed:
  "indexed fresh F w \<Longrightarrow> i \<notin> F \<Longrightarrow> cblist (objs w i) \<noteq> None
    \<Longrightarrow> within E (indexed fresh F) (fire call n i d w)"
proof (induction n arbitrary: d w)
  case (Suc n)
  then obtain l where l: "cblist (objs w i) = Some l" by blast
  let ?w0 = "upd i (start_fire d l) w"
  have oki: "idx_ok (objs w i)" "\<not> fresh w i" using Suc.prems(1,3) by (auto dest: indexedD)
  have w0: "indexed fresh (insert i F) ?w0"
    using Suc.prems(1) oki l
    by (auto simp: indexed_def idx_ok_def start_fire_def fresh_upd intro: order_trans [of "- 1" 0])
  have ge: "0 \<le> firingIndex (objs ?w0 i)" using oki by (simp add: idx_ok_def start_fire_def)
  have fin: "indexed fresh F (upd i g (upd i (\<lambda>c. c\<lparr>firing := False\<rparr>) w1))"
    if w1: "indexed fresh (insert i F) w1" and g: "\<And>c. \<not> firing c \<Longrightarrow> idx_ok c \<Longrightarrow> \<not> firing (g c) \<and> idx_ok (g c)"
    for g and w1 :: "'z cworld_scheme"
  proof -
    have nf: "\<not> fresh w1 i" using w1 by (rule indexedD) simp
    have c: "idx_ok ((objs w1 i)\<lparr>firing := False\<rparr>)" using w1 by (auto simp: indexed_def idx_ok_def)
    then have "idx_ok (g ((objs w1 i)\<lparr>firing := False\<rparr>))" using g by simp
    with w1 Suc.prems(2) nf show ?thesis by (auto simp: indexed_def fresh_upd)
  qed
  have id: "upd i (\<lambda>c. c) w1 = w1" for w1 :: "'z cworld_scheme" by (simp add: upd_def)
  show ?case
    unfolding fire.simps l option.case
  proof (rule within_bindR [OF loop_indexed [OF w0 _ ge]], simp)
    fix a and w1 :: "'z cworld_scheme"
    assume w1: "indexed fresh (insert i F) w1"
    let ?w2 = "upd i (\<lambda>c. c\<lparr>firing := False\<rparr>) w1"
    have "indexed fresh F (upd i (\<lambda>c. c) ?w2)" by (rule fin [OF w1]) auto
    then have w2: "indexed fresh F ?w2" by (simp only: id)
    have e: "indexed fresh F (upd i (\<lambda>c. c\<lparr>cblist := Some []\<rparr>) ?w2)"
      by (rule fin [OF w1]) (auto simp: idx_ok_def)
    have di: "indexed fresh F (upd i cb_disable ?w2)"
      by (rule fin [OF w1]) simp
    have nx: "within E (indexed fresh F) (fire call n i d' (upd i (\<lambda>c. c\<lparr>cbstack := Some ds\<rparr>) ?w2))"
      if "cblist (objs ?w2 i) \<noteq> None" for d' ds
      by (rule Suc.IH [OF fin [OF w1] Suc.prems(2)]) (use that in \<open>auto simp: idx_ok_def\<close>)
    show "within E (indexed fresh F) (let w2 = ?w2; c = objs w2 i in
        case cblist c of None \<Rightarrow> Done () w2
        | Some _ \<Rightarrow> (case cbstack c of
             None \<Rightarrow> if memory c \<noteq> None then Done () (upd i (\<lambda>c. c\<lparr>cblist := Some []\<rparr>) w2)
                     else Done () (upd i cb_disable w2)
           | Some [] \<Rightarrow> Done () w2
           | Some (d' # ds) \<Rightarrow> fire call n i d' (upd i (\<lambda>c. c\<lparr>cbstack := Some ds\<rparr>) w2)))"
      using w2 e di nx by (auto simp: Let_def split: option.split list.split)
  next
    fix w1 :: "'z cworld_scheme"
    assume "indexed fresh (insert i F) w1"
    then show "indexed fresh F w1" by (rule indexed_mono) blast
  qed
qed simp

text \<open>An exception that leaves \<open>fire\<close> comes out of the loop, and the list stays marked as firing.\<close>

lemma fire_throws:
  "indexed fresh {} w \<Longrightarrow> cblist (objs w i) \<noteq> None \<Longrightarrow> \<not> firing (objs w i) \<Longrightarrow> fire call n i d w = Exn e w'
    \<Longrightarrow> indexed fresh {i} w'"
proof (induction n arbitrary: d w)
  case (Suc n)
  then obtain l where l: "cblist (objs w i) = Some l" by blast
  let ?w0 = "upd i (start_fire d l) w"
  have oki: "idx_ok (objs w i)" "\<not> fresh w i" using Suc.prems(1,2) by (auto dest: indexedD)
  have w0: "indexed fresh {i} ?w0"
    using Suc.prems(1) oki l
    by (auto simp: indexed_def idx_ok_def start_fire_def fresh_upd intro: order_trans [of "- 1" 0])
  have ge: "0 \<le> firingIndex (objs ?w0 i)" using oki by (simp add: idx_ok_def start_fire_def)
  have loop: "within E (indexed fresh {i}) (fire_loop call n i d ?w0)" using w0 ge by (intro loop_indexed) simp_all
  show ?case
  proof (cases "fire_loop call n i d ?w0")
    case Diverge
    then show ?thesis using Suc.prems(4) l by simp
  next
    case (Exn e1 w1)
    then show ?thesis using Suc.prems(4) l loop by simp
  next
    case (Done u w1)
    let ?w2 = "upd i (\<lambda>c. c\<lparr>firing := False\<rparr>) w1"
    have w1: "indexed fresh {i} w1" using loop Done by simp
    then have nf: "\<not> fresh w1 i" by (rule indexedD) simp
    obtain d' ds where ds: "cblist (objs ?w2 i) \<noteq> None" "cbstack (objs ?w2 i) = Some (d' # ds)"
      "fire call n i d' (upd i (\<lambda>c. c\<lparr>cbstack := Some ds\<rparr>) ?w2) = Exn e w'"
      using Suc.prems(4) l Done by (auto simp: Let_def split: option.splits list.splits if_splits)
    have "indexed fresh {} (upd i (\<lambda>c. c\<lparr>cbstack := Some ds\<rparr>) ?w2)"
      using w1 nf by (auto simp: indexed_def idx_ok_def fresh_upd)
    then show ?thesis using Suc.IH [OF _ _ _ ds(3)] ds(1) by simp
  qed
qed simp

lemma fireWith_throws:
  assumes "indexed fresh {} w" and "cb_fireWith call n i context args w = Exn e w'"
  shows "indexed fresh {i} w'"
proof -
  have ok: "idx_ok (objs w i)" using assms(1) by (rule indexedD)
  have "fire call n i (context, args) w = Exn e w' \<and> cblist (objs w i) \<noteq> None \<and> \<not> firing (objs w i)"
    using assms(2) ok by (auto simp: cb_fireWith_def Let_def idx_ok_def split: if_splits option.splits)
  then show ?thesis using fire_throws assms(1) by blast
qed

lemma fireWith_indexed:
  "indexed fresh F w \<Longrightarrow> within E (indexed fresh F) (cb_fireWith call n i context args w)"
proof -
  assume w: "indexed fresh F w"
  then have ok: "idx_ok (objs w i)" by (rule indexedD)
  show ?thesis
  proof (cases "cblist (objs w i) \<noteq> None \<and> (\<not> fired (objs w i) \<or> cbstack (objs w i) \<noteq> None)")
    case False
    with w show ?thesis by (auto simp: cb_fireWith_def Let_def)
  next
    case True
    show ?thesis
    proof (cases "firing (objs w i)")
      case f: True
      with ok True obtain ds where ds: "cbstack (objs w i) = Some ds" by (auto simp: idx_ok_def)
      have "indexed fresh F (upd i (\<lambda>c. c\<lparr>cbstack := Some (ds @ [(context, args)])\<rparr>) w)"
        by (rule indexed_upd [OF w]) (use w ok f in \<open>auto simp: idx_ok_def indexed_def\<close>)
      with True f ds show ?thesis by (simp add: cb_fireWith_def Let_def)
    next
      case nf: False
      with w have "i \<notin> F" by (auto simp: indexed_def)
      from fire_indexed [OF w this] True nf show ?thesis by (simp add: cb_fireWith_def Let_def)
    qed
  qed
qed

lemma add_indexed: "indexed fresh F w \<Longrightarrow> within E (indexed fresh F) (cb_add call n i args w)"
proof -
  assume w: "indexed fresh F w"
  then have ok: "idx_ok (objs w i)" by (rule indexedD)
  show ?thesis
  proof (cases "cblist (objs w i)")
    case None
    with w show ?thesis by (simp add: cb_add_def)
  next
    case (Some l)
    obtain l' where l': "cblist (add_args args (objs w i)) = Some l'"
      using add_args_list(2) [OF Some, of args] by blast
    have nf: "\<not> fresh w i" using w Some by (auto dest: indexedD)
    have comp: "upd i g (upd i h w) = upd i (\<lambda>c. g (h c)) w" for g h by (simp add: upd_def)
    show ?thesis
    proof (cases "firing (objs w i)")
      case True
      have "indexed fresh F (upd i (\<lambda>c. (add_args args c)\<lparr>firingLength := list_len (add_args args c)\<rparr>) w)"
        by (rule indexed_upd [OF w nf]) (use ok True l' in \<open>auto simp: idx_ok_def add_args_frame list_len_def\<close>)
      with Some True show ?thesis by (simp add: cb_add_def Let_def add_args_frame comp)
    next
      case False
      have iF: "i \<notin> F" using w False by (auto simp: indexed_def)
      have a: "indexed fresh F (upd i (add_args args) w)"
        by (rule indexed_upd [OF w nf]) (use ok False iF in \<open>auto simp: idx_ok_def add_args_frame\<close>)
      have b: "indexed fresh F (upd i (\<lambda>c. (add_args args c)\<lparr>firingStart := list_len (objs w i)\<rparr>) w)"
        by (rule indexed_upd [OF w nf])
          (use ok False iF in \<open>auto simp: idx_ok_def add_args_frame list_len_def split: option.split\<close>)
      have ne: "cblist (objs (upd i (\<lambda>c. (add_args args c)\<lparr>firingStart := list_len (objs w i)\<rparr>) w) i) \<noteq> None"
        using l' by simp
      from fire_indexed [OF b iF ne] Some False a show ?thesis
        by (auto simp: cb_add_def Let_def add_args_frame comp split: option.splits)
    qed
  qed
qed

end

section \<open>Invariants that firing keeps\<close>

text \<open>
  A second contract, for invariants about the contents of the lists: \<open>live\<close> lists may be
  booked on freely, their members may be called, and calling such a function keeps \<open>I\<close>.
\<close>

locale list_keeper =
  fixes call :: "'z caller" and I :: "'z cworld_scheme \<Rightarrow> bool"
    and live :: "oid set" and okf :: "'z cworld_scheme \<Rightarrow> fn \<Rightarrow> bool"
  assumes call_keeps: "I w \<Longrightarrow> okf w f \<Longrightarrow> keeps I (call f this args w)"
    and members: "I w \<Longrightarrow> i \<in> live \<Longrightarrow> cblist (objs w i) = Some l \<Longrightarrow> f \<in> set l \<Longrightarrow> okf w f"
    and book: "I w \<Longrightarrow> i \<in> live \<Longrightarrow>
      cblist (g (objs w i)) = cblist (objs w i) \<or> cblist (g (objs w i)) = None \<or>
      (cblist (objs w i) \<noteq> None \<and> cblist (g (objs w i)) = Some []) \<Longrightarrow> I (upd i g w)"
begin

lemma loop_keeps: "I w \<Longrightarrow> i \<in> live \<Longrightarrow> keeps I (fire_loop call n i d w)"
proof (induction n arbitrary: w)
  case (Suc n)
  have step: "keeps I (if ret = VBool False \<and> o_stopOnFalse (objs w' i)
      then Done () (upd i (\<lambda>c. c\<lparr>memory := None\<rparr>) w')
      else fire_loop call n i d (upd i (\<lambda>c. c\<lparr>firingIndex := firingIndex c + 1\<rparr>) w'))"
    if "I w'" for ret w'
    using Suc.IH [OF book [OF that Suc.prems(2)] Suc.prems(2)] book [OF that Suc.prems(2)] by auto
  show ?case
  proof (cases "cblist (objs w i)")
    case None
    with Suc.prems show ?thesis by simp
  next
    case (Some l)
    show ?thesis
    proof (cases "firingIndex (objs w i) < firingLength (objs w i)")
      case False
      with Some Suc.prems show ?thesis by (simp add: Let_def)
    next
      case True
      show ?thesis
      proof (cases "arr_get l (firingIndex (objs w i))")
        case None
        with Some True Suc.prems show ?thesis by (simp add: Let_def)
      next
        case g: (Some f)
        then have ok: "okf w f" by (rule members [OF Suc.prems Some arr_get_Some_mem])
        have eq: "fire_loop call (Suc n) i d w = bindR (call f (fst d) (snd d) w) (\<lambda>ret w'.
            if ret = VBool False \<and> o_stopOnFalse (objs w' i)
            then Done () (upd i (\<lambda>c. c\<lparr>memory := None\<rparr>) w')
            else fire_loop call n i d (upd i (\<lambda>c. c\<lparr>firingIndex := firingIndex c + 1\<rparr>) w'))"
          using Some True g by (simp add: Let_def)
        show ?thesis
          unfolding eq by (rule keeps_bindR [OF call_keeps [OF Suc.prems(1) ok]]) (rule step)
      qed
    qed
  qed
qed simp

lemma after_fire_keeps:
  assumes IH: "\<And>d w. I w \<Longrightarrow> keeps I (fire call n i d w)" and w: "I w" and i: "i \<in> live"
  shows "keeps I (let w2 = upd i (\<lambda>c. c\<lparr>firing := False\<rparr>) w; c = objs w2 i in
        case cblist c of None \<Rightarrow> Done () w2
        | Some _ \<Rightarrow> (case cbstack c of
             None \<Rightarrow> if memory c \<noteq> None then Done () (upd i (\<lambda>c. c\<lparr>cblist := Some []\<rparr>) w2)
                     else Done () (upd i cb_disable w2)
           | Some [] \<Rightarrow> Done () w2
           | Some (d' # ds) \<Rightarrow> fire call n i d' (upd i (\<lambda>c. c\<lparr>cbstack := Some ds\<rparr>) w2)))"
proof -
  let ?w2 = "upd i (\<lambda>c. c\<lparr>firing := False\<rparr>) w"
  have w2: "I ?w2" by (rule book [OF w i]) simp
  have e: "I (upd i (\<lambda>c. c\<lparr>cblist := Some []\<rparr>) ?w2)" if "cblist (objs ?w2 i) \<noteq> None"
    by (rule book [OF w2 i]) (use that in simp)
  have d: "I (upd i cb_disable ?w2)"
    by (rule book [OF w2 i]) (simp add: cb_disable_def)
  have n: "keeps I (fire call n i d' (upd i (\<lambda>c. c\<lparr>cbstack := Some ds\<rparr>) ?w2))" for d' ds
    by (rule IH, rule book [OF w2 i]) simp
  show ?thesis using w2 e d n by (auto simp: Let_def split: option.split list.split)
qed

lemma fire_keeps: "I w \<Longrightarrow> i \<in> live \<Longrightarrow> keeps I (fire call n i d w)"
proof (induction n arbitrary: d w)
  case (Suc n)
  show ?case
  proof (cases "cblist (objs w i)")
    case None
    with Suc.prems show ?thesis by simp
  next
    case (Some l)
    have w0: "I (upd i (start_fire d l) w)"
      by (rule book [OF Suc.prems]) (simp add: start_fire_def)
    show ?thesis
      unfolding fire.simps Some option.case
      by (rule keeps_bindR [OF loop_keeps [OF w0 Suc.prems(2)]])
        (rule after_fire_keeps [OF Suc.IH [OF _ Suc.prems(2)] _ Suc.prems(2)])
  qed
qed simp

lemma fireWith_keeps:
  assumes w: "I w" and i: "i \<in> live"
  shows "keeps I (cb_fireWith call n i context args w)"
proof -
  have p: "I (upd i (\<lambda>c. c\<lparr>cbstack := Some ds\<rparr>) w)" for ds by (rule book [OF w i]) simp
  show ?thesis
    unfolding cb_fireWith_def Let_def using p fire_keeps [OF w i] w by (simp split: option.split)
qed

end

text \<open>The same with a class of functions that may be added to a live list.\<close>

locale list_appender = list_keeper call I live okf
  for call :: "'z caller" and I live okf +
  fixes addable :: "fn \<Rightarrow> bool"
  assumes append: "I w \<Longrightarrow> i \<in> live \<Longrightarrow> \<forall>f \<in> set (args_fns args). addable f \<Longrightarrow> I (upd i (add_args args) w)"
begin

lemma add_keeps:
  assumes w: "I w" and i: "i \<in> live" and args: "\<forall>f \<in> set (args_fns args). addable f"
  shows "keeps I (cb_add call n i args w)"
proof -
  let ?w1 = "upd i (add_args args) w"
  have w1: "I ?w1" by (rule append [OF w i args])
  have l: "I (upd i (\<lambda>c. c\<lparr>firingLength := m\<rparr>) ?w1)" for m by (rule book [OF w1 i]) simp
  have ll: "I (upd i (\<lambda>c. c\<lparr>firingLength := list_len c\<rparr>) ?w1)" by (rule book [OF w1 i]) simp
  have f: "keeps I (fire call n i d (upd i (\<lambda>c. c\<lparr>firingStart := m\<rparr>) ?w1))" for d m
    by (rule fire_keeps [OF book [OF w1 i] i]) simp
  show ?thesis
    unfolding cb_add_def Let_def using w w1 ll f by (simp split: option.split)
qed

end

section \<open>What firing calls\<close>

text \<open>The callbacks a firing reaches: with \<open>stopOnFalse\<close>, up to the first that returns \<open>false\<close>.\<close>

fun reached :: "bool \<Rightarrow> (fn \<Rightarrow> val) \<Rightarrow> fn list \<Rightarrow> fn list" where
  "reached stop g [] = []"
| "reached stop g (f # fs) = f # (if g f = VBool False \<and> stop then [] else reached stop g fs)"

definition stopped :: "bool \<Rightarrow> (fn \<Rightarrow> val) \<Rightarrow> fn list \<Rightarrow> bool" where
  "stopped stop g l = (stop \<and> (\<exists>f \<in> set l. g f = VBool False))"

text \<open>Callbacks that only act outside the lists: \<open>eff\<close> is what one call does.\<close>

definition pure_caller :: "fn set \<Rightarrow> 'z caller \<Rightarrow> (fn \<Rightarrow> val) \<Rightarrow> (fn \<Rightarrow> data \<Rightarrow> 'z cworld_scheme \<Rightarrow> 'z cworld_scheme) \<Rightarrow> bool" where
  "pure_caller P call g eff \<longleftrightarrow>
     (\<forall>f \<in> P. \<forall>t as w. call f t as w = Done (g f) (eff f (t, as) w)) \<and>
     (\<forall>f d w. objs (eff f d w) = objs w) \<and>
     (\<forall>f d i h w. eff f d (upd i h w) = upd i h (eff f d w))"

lemma pure_callerD:
  assumes "pure_caller P call g eff"
  shows "f \<in> P \<Longrightarrow> call f (fst d) (snd d) w = Done (g f) (eff f d w)" "objs (eff f d w) = objs w"
    "eff f d (upd i h w) = upd i h (eff f d w)"
  using assms by (cases d, simp add: pure_caller_def)+

lemma fold_pure:
  assumes "pure_caller P call g eff"
  shows "objs (fold (\<lambda>f. eff f d) fs w) = objs w"
    "fold (\<lambda>f. eff f d) fs (upd i h w) = upd i h (fold (\<lambda>f. eff f d) fs w)"
  by (induction fs arbitrary: w) (simp_all add: pure_callerD [OF assms])

lemma upd_upd [simp]: "upd i g (upd i h w) = upd i (\<lambda>c. g (h c)) w"
  by (simp add: upd_def)

lemma record_same:
  "firingIndex c = x \<Longrightarrow> c\<lparr>firingIndex := x\<rparr> = (c :: cbs)"
  "firingIndex c = x \<Longrightarrow> c\<lparr>firingIndex := x, memory := m\<rparr> = (c :: cbs)\<lparr>memory := m\<rparr>"
  by (cases c, simp)+

lemma start_fire_frame [simp]:
  "cblist (start_fire d l c) = cblist c" "cbstack (start_fire d l c) = cbstack c"
  "o_stopOnFalse (start_fire d l c) = o_stopOnFalse c"
  by (simp_all add: start_fire_def)

lemma fire_loop_pure:
  assumes pure: "pure_caller P call g eff"
  shows "cblist (objs w i) = Some l \<Longrightarrow> firingLength (objs w i) = int (length l)
    \<Longrightarrow> firingIndex (objs w i) = int k \<Longrightarrow> k \<le> length l \<Longrightarrow> length l - k < n
    \<Longrightarrow> set (drop k l) \<subseteq> P \<Longrightarrow> \<exists>ix. fire_loop call n i d w = Done () (upd i
          (\<lambda>c. c\<lparr>firingIndex := ix,
                 memory := (if stopped (o_stopOnFalse (objs w i)) g (drop k l) then None else memory c)\<rparr>)
          (fold (\<lambda>f. eff f d) (reached (o_stopOnFalse (objs w i)) g (drop k l)) w))"
proof (induction n arbitrary: k w)
  case (Suc n)
  let ?stop = "o_stopOnFalse (objs w i)"
  show ?case
  proof (cases "k < length l")
    case False
    then have k: "k = length l" using Suc.prems(4) by simp
    have "upd i (\<lambda>c. c\<lparr>firingIndex := int k, memory := memory c\<rparr>) w = w"
      using Suc.prems(3) by (simp add: upd_def record_same)
    then show ?thesis using Suc.prems k
      by (intro exI [of _ "int k"]) (simp add: stopped_def)
  next
    case True
    have d: "drop k l = l ! k # drop (Suc k) l" using True by (rule Cons_nth_drop_Suc [symmetric])
    let ?f = "l ! k" and ?w1 = "eff (l ! k) d w"
    from Suc.prems(6) d have "?f \<in> P" by simp
    note call = pure_callerD(1) [OF pure this, of d w] and ob = pure_callerD(2) [OF pure, of ?f d w]
    show ?thesis
    proof (cases "g ?f = VBool False \<and> ?stop")
      case stop: True
      have "upd i (\<lambda>c. c\<lparr>memory := None\<rparr>) ?w1
          = upd i (\<lambda>c. c\<lparr>firingIndex := int k, memory := None\<rparr>) ?w1"
        using Suc.prems(3) ob by (simp add: upd_def record_same)
      then show ?thesis using Suc.prems True stop call ob
        by (intro exI [of _ "int k"]) (simp add: Let_def d stopped_def)
    next
      case go: False
      let ?w2 = "upd i (\<lambda>c. c\<lparr>firingIndex := firingIndex c + 1\<rparr>) ?w1"
      have st: "stopped ?stop g (drop k l) = stopped ?stop g (drop (Suc k) l)"
        using go by (auto simp: d stopped_def)
      have P: "set (drop (Suc k) l) \<subseteq> P" using Suc.prems(6) d by simp
      have "cblist (objs ?w2 i) = Some l" "firingLength (objs ?w2 i) = int (length l)"
        "firingIndex (objs ?w2 i) = int (Suc k)" "Suc k \<le> length l" "length l - Suc k < n"
        "o_stopOnFalse (objs ?w2 i) = ?stop"
        using Suc.prems True ob by auto
      with Suc.IH [of ?w2 "Suc k"] P obtain ix where ix: "fire_loop call n i d ?w2 = Done () (upd i
          (\<lambda>c. c\<lparr>firingIndex := ix, memory := (if stopped ?stop g (drop (Suc k) l) then None else memory c)\<rparr>)
          (fold (\<lambda>f. eff f d) (reached ?stop g (drop (Suc k) l)) ?w2))" by auto
      have "fire_loop call (Suc n) i d w = fire_loop call n i d ?w2"
        using Suc.prems(1-3) True go call ob by (auto simp: Let_def)
      then show ?thesis
        using ix go st by (intro exI [of _ ix]) (auto simp: d fold_pure [OF pure] cong: if_cong)
    qed
  qed
qed simp

text \<open>
  C4: firing an idle repeatable list calls the registered callbacks in their order, once
  each, up to the first that returns \<open>false\<close> under \<open>stopOnFalse\<close>, and leaves the list as
  it was, marked as fired, with the data remembered exactly when \<open>memory\<close> was asked for
  and the round was not cut short.
\<close>

theorem fire_calls_in_order:
  assumes "pure_caller (set l) call g eff" and "cblist (objs w i) = Some l" and "\<not> firing (objs w i)"
    and "firingStart (objs w i) = 0" and "cbstack (objs w i) = Some []" and "length l < n"
  shows "\<exists>ix. cb_fireWith call (Suc n) i context args w = Done () (upd i
      (\<lambda>c. c\<lparr>fired := True, firing := False, firingIndex := ix, firingLength := int (length l),
             memory := (if o_memory c \<and> \<not> stopped (o_stopOnFalse c) g l then Some (context, args) else None)\<rparr>)
      (fold (\<lambda>f. eff f (context, args)) (reached (o_stopOnFalse (objs w i)) g l) w))"
proof -
  let ?d = "(context, args)" and ?w0 = "upd i (start_fire (context, args) l) w"
  have "cblist (objs ?w0 i) = Some l" "firingLength (objs ?w0 i) = int (length l)"
    "firingIndex (objs ?w0 i) = int 0" "o_stopOnFalse (objs ?w0 i) = o_stopOnFalse (objs w i)"
    using assms by (simp_all add: start_fire_def)
  with fire_loop_pure [OF assms(1), of ?w0 i l 0 n ?d] assms(6)
  obtain ix where ix: "fire_loop call n i ?d ?w0 = Done () (upd i
      (\<lambda>c. c\<lparr>firingIndex := ix, memory := (if stopped (o_stopOnFalse (objs w i)) g l then None else memory c)\<rparr>)
      (fold (\<lambda>f. eff f ?d) (reached (o_stopOnFalse (objs w i)) g l) ?w0))" by auto
  let ?u = "fold (\<lambda>f. eff f ?d) (reached (o_stopOnFalse (objs w i)) g l) w"
  have ob: "objs ?u = objs w" using fold_pure(1) [OF assms(1)] .
  have "cb_fireWith call (Suc n) i context args w = Done () (upd i
      (\<lambda>c. (start_fire ?d l c)\<lparr>firingIndex := ix,
         memory := (if stopped (o_stopOnFalse (objs w i)) g l then None else memory (start_fire ?d l c)),
         firing := False\<rparr>) ?u)"
    using assms ob
    by (simp add: cb_fireWith_def ix fold_pure [OF assms(1)] Let_def)
  also have "\<dots> = Done () (upd i
      (\<lambda>c. c\<lparr>fired := True, firing := False, firingIndex := ix, firingLength := int (length l),
         memory := (if o_memory c \<and> \<not> stopped (o_stopOnFalse c) g l then Some ?d else None)\<rparr>) ?u)"
    using assms(4) ob by (cases "objs w i") (simp add: upd_def start_fire_def)
  finally show ?thesis by blast
qed

lemma fire_calls_in_order_witness:
  "\<exists>ix. cb_fireWith (\<lambda>f this args w. Done (if f = Pub (FUser 1) then VBool False else VUndef) w) 4 (Own 0) VNull []
      \<lparr>objs = (\<lambda>_. (new_callbacks (\<lambda>k. k = ''stopOnFalse''))\<lparr>cblist := Some [Pub (FUser 1), Pub (FUser 2)]\<rparr>)\<rparr>
    = Done () (upd (Own 0) (\<lambda>c. c\<lparr>fired := True, firing := False, firingIndex := ix, firingLength := 2, memory := None\<rparr>)
      \<lparr>objs = (\<lambda>_. (new_callbacks (\<lambda>k. k = ''stopOnFalse''))\<lparr>cblist := Some [Pub (FUser 1), Pub (FUser 2)]\<rparr>)\<rparr>)"
proof -
  let ?call = "(\<lambda>f this args w. Done (if f = Pub (FUser 1) then VBool False else VUndef) w) :: unit caller"
  let ?l = "[Pub (FUser 1), Pub (FUser 2)]"
  let ?w = "\<lparr>objs = (\<lambda>_. (new_callbacks (\<lambda>k. k = ''stopOnFalse''))\<lparr>cblist := Some ?l\<rparr>)\<rparr>"
  have "pure_caller (set ?l) ?call (\<lambda>f. if f = Pub (FUser 1) then VBool False else VUndef) (\<lambda>f d w. w)"
    by (simp add: pure_caller_def)
  from fire_calls_in_order [OF this, of ?w "Own 0" 3 VNull "[]"]
  show ?thesis by (simp add: new_callbacks_def stopped_def numeral_eq_Suc upd_def)
qed

section \<open>Callbacks that throw\<close>

text \<open>What firing and adding do to a list that is marked as firing, whoever does the calls.\<close>

lemma firing_only_queues:
  assumes "firing (objs w i)" and "idx_ok (objs w i)"
  shows "cb_fireWith call n i this args w = Done () w \<or>
    (\<exists>ds. cb_fireWith call n i this args w = Done () (upd i (\<lambda>c. c\<lparr>cbstack := Some (ds @ [(this, args)])\<rparr>) w))"
  using assms by (auto simp: cb_fireWith_def Let_def idx_ok_def)

lemma firing_add_only_appends:
  assumes "firing (objs w i)"
  shows "\<exists>w'. \<forall>call n. cb_add call n i args w = Done () w'"
  using assms by (cases "cblist (objs w i)") (simp_all add: cb_add_def Let_def add_args_frame)

section \<open>Removing callbacks, also while firing\<close>

lemma in_at_between:
  assumes "list_index f (Some l) i = n" "n > - 1" "nat (inArray_start i (int (length l))) \<le> j" "j < nat n"
  shows "l ! j \<noteq> f"
proof -
  let ?s = "nat (inArray_start i (int (length l)))"
  let ?F = "filter (\<lambda>j. ?s \<le> j \<and> in_at (=) f (map Some l) j) [0..<length (map Some l)]"
  have n: "n < int (length l)" using list_index_hit(1) [OF assms(1,2)] assms(2) by linarith
  have "n = (case ?F of [] \<Rightarrow> - 1 | j # _ \<Rightarrow> int j)"
    using assms(1) unfolding list_index_eq inArray_loop_filter by simp
  with assms(2) obtain k ks where F: "?F = k # ks" "n = int k" by (cases ?F) auto
  have "sorted ?F" by (rule sorted_wrt_filter) simp
  then have low: "k \<le> k'" if "k' \<in> set ?F" for k' using F(1) that by auto
  show ?thesis
  proof
    assume "l ! j = f"
    then have "j \<in> set ?F" using assms(3,4) n by (simp add: in_at_map_Some)
    then have "k \<le> j" by (rule low)
    with assms(4) F(2) show False by simp
  qed
qed

text \<open>The members of the list that the current firing has still to call.\<close>

definition todo :: "cbs \<Rightarrow> fn list" where
  "todo c = (case cblist c of None \<Rightarrow> [] | Some l \<Rightarrow> drop (nat (firingIndex c + 1)) l)"

lemma filter_splice1: "i < length l \<Longrightarrow> \<not> P (l ! i) \<Longrightarrow> filter P (splice1 i l) = filter P l"
  using arg_cong [OF id_take_nth_drop [of i l], of "filter P"] by (simp add: splice1_def)

lemma drop_splice1_le: "i \<le> k \<Longrightarrow> i < length l \<Longrightarrow> drop k (splice1 i l) = drop (Suc k) l"
  by (simp add: splice1_def min_def)

lemma drop_splice1_gt: "k < i \<Longrightarrow> i < length l \<Longrightarrow> drop (Suc k) (splice1 i l) = splice1 (i - Suc k) (drop (Suc k) l)"
  by (simp add: splice1_def take_drop)

lemma todo_remove_at:
  assumes c: "cblist c = Some l" "firing c" "- 1 \<le> firingIndex c" and i: "i < length l" "\<not> P (l ! i)"
  shows "filter P (todo (remove_at i l c)) = filter P (todo c)"
proof (cases "int i \<le> firingIndex c")
  case True
  then obtain k where k: "firingIndex c = int k" "i \<le> k" by (metis nonneg_int_cases of_nat_0_le_iff order_trans of_nat_le_iff)
  then have "todo (remove_at i l c) = drop k (splice1 i l)"
    using c by (simp add: todo_def) (simp add: remove_at_def Let_def)
  with k i c show ?thesis by (simp add: todo_def drop_splice1_le nat_add_distrib)
next
  case False
  define k where "k = nat (firingIndex c + 1)"
  have k: "k \<le> i" using False by (simp add: k_def)
  have "todo (remove_at i l c) = drop k (splice1 i l)"
    using c False by (simp add: todo_def k_def) (simp add: remove_at_def Let_def)
  moreover have "filter P (drop k (splice1 i l)) = filter P (drop k l)"
  proof (cases k)
    case 0
    with i show ?thesis by (simp add: filter_splice1)
  next
    case (Suc k')
    with k have "k' < i" by simp
    with Suc i show ?thesis by (simp add: drop_splice1_gt filter_splice1)
  qed
  ultimately show ?thesis using c by (simp add: todo_def k_def)
qed

text \<open>One \<open>while\<close> loop removes every occurrence from the start index on.\<close>

lemma remove_loop_spec:
  assumes "\<forall>j < nat (inArray_start index (list_len c)). \<forall>l. cblist c = Some l \<longrightarrow> j < length l \<longrightarrow> l ! j \<noteq> arg"
    and "cblist c \<noteq> None"
  shows "cblist (remove_loop arg index c) = map_option (filter (\<lambda>f. f \<noteq> arg)) (cblist c)
    \<and> (firing c \<longrightarrow> idx_ok c \<longrightarrow> todo (remove_loop arg index c) = filter (\<lambda>f. f \<noteq> arg) (todo c))"
  using assms
proof (induction arg index c rule: remove_loop.induct)
  case (1 arg index c)
  let ?P = "\<lambda>f. f \<noteq> arg"
  obtain l where l: "cblist c = Some l" using "1.prems"(2) by blast
  let ?i = "list_index arg (Some l) index"
  have pre: "\<forall>j < nat (inArray_start index (int (length l))). j < length l \<longrightarrow> l ! j \<noteq> arg"
    using "1.prems"(1) l by (simp add: list_len_def)
  show ?case
  proof (cases "?i > - 1")
    case False
    then have "inArray_loop (=) arg (map Some l) (nat (inArray_start index (int (length l)))) = - 1"
      by (simp only: list_index_eq inArray_loop_found) simp
    then have "\<forall>j. nat (inArray_start index (int (length l))) \<le> j \<and> j < length l \<longrightarrow> l ! j \<noteq> arg"
      unfolding inArray_loop_miss by (simp add: in_at_map_Some)
    with pre have "\<forall>j < length l. l ! j \<noteq> arg" using not_le by blast
    then have no: "arg \<notin> set l" by (metis in_set_conv_nth)
    then have "filter ?P l = l" by (auto simp: filter_id_conv)
    moreover have "filter ?P (todo c) = todo c"
      using no l by (auto simp: todo_def filter_id_conv dest: in_set_dropD)
    ultimately show ?thesis using False l by (simp add: remove_loop.simps [of arg index c] Let_def)
  next
    case True
    note hit = list_index_hit [OF refl True]
    let ?c = "remove_at (nat ?i) l c"
    have eq: "remove_loop arg index c = remove_loop arg (Some ?i) ?c"
      using True l by (simp add: remove_loop.simps [of arg index c] Let_def)
    have st: "nat (inArray_start (Some ?i) n) = nat ?i" for n
      using True by (auto simp: inArray_start_def)
    have "l ! j \<noteq> arg" if "j < nat ?i" for j
      using in_at_between [OF refl True, of j] pre that hit(1)
      by (cases "nat (inArray_start index (int (length l))) \<le> j") auto
    then have p: "\<forall>j < nat (inArray_start (Some ?i) (list_len ?c)). \<forall>l'. cblist ?c = Some l' \<longrightarrow> j < length l' \<longrightarrow> l' ! j \<noteq> arg"
      unfolding st using hit(1) by (auto simp: splice1_def nth_append)
    have f: "filter ?P (splice1 (nat ?i) l) = filter ?P l"
      by (rule filter_splice1) (use hit in auto)
    have t: "firing c \<Longrightarrow> idx_ok c \<Longrightarrow> filter ?P (todo ?c) = filter ?P (todo c)"
      by (rule todo_remove_at) (use hit l in \<open>auto simp: idx_ok_def\<close>)
    from "1.IH" [OF l refl True p] show ?thesis
      using eq l f t idx_ok_remove_at [of c l "nat ?i"] hit(1) by auto
  qed
qed

lemma remove_one:
  assumes "cblist c \<noteq> None"
  shows "cblist (remove_loop arg None c) = map_option (filter (\<lambda>f. f \<noteq> arg)) (cblist c)"
    "firing c \<Longrightarrow> idx_ok c \<Longrightarrow> todo (remove_loop arg None c) = filter (\<lambda>f. f \<noteq> arg) (todo c)"
  using remove_loop_spec [of None c arg] assms by (auto simp: inArray_start_def)

lemma remove_many:
  "cblist c \<noteq> None \<Longrightarrow>
     cblist (foldl (\<lambda>c arg. remove_loop arg None c) c args) = map_option (filter (\<lambda>f. f \<notin> set args)) (cblist c)
     \<and> (firing c \<longrightarrow> idx_ok c \<longrightarrow>
         todo (foldl (\<lambda>c arg. remove_loop arg None c) c args) = filter (\<lambda>f. f \<notin> set args) (todo c))"
proof (induction args arbitrary: c)
  case Nil
  then show ?case by (cases "cblist c") auto
next
  case (Cons a as)
  let ?c = "remove_loop a None c"
  have c1: "cblist ?c = map_option (filter (\<lambda>f. f \<noteq> a)) (cblist c)" by (rule remove_one [OF Cons.prems])
  with Cons.prems have ne: "cblist ?c \<noteq> None" by simp
  have idx: "idx_ok c \<Longrightarrow> idx_ok ?c \<and> firing ?c = firing c" by (rule idx_ok_remove_loop)
  have comb: "(\<lambda>f. f \<noteq> a \<and> f \<notin> set as) = (\<lambda>f. f \<notin> set (a # as))" by auto
  have ff: "filter (\<lambda>f. f \<notin> set as) (filter (\<lambda>f. f \<noteq> a) xs) = filter (\<lambda>f. f \<notin> set (a # as)) xs" for xs
    unfolding filter_filter comb ..
  from Cons.IH [OF ne] c1 idx remove_one(2) [OF Cons.prems, of a] show ?case
    by (simp only: foldl_Cons option.map_comp comp_def ff) (auto simp: ff)
qed

text \<open>
  C6: \<open>remove\<close> takes every occurrence of every argument out of the list and keeps the
  others in their order; when the list is firing, what is still to be called is what was
  to be called without the removed callbacks: none is skipped and none is called again.
\<close>

theorem remove_while_firing:
  assumes "cblist c = Some l"
  shows "cblist (cb_remove args c) = Some (filter (\<lambda>f. f \<notin> set args) l) \<and>
    (firing c \<and> idx_ok c \<longrightarrow> todo (cb_remove args c) = filter (\<lambda>f. f \<notin> set args) (todo c))"
  using remove_many [of c args] assms by (simp add: cb_remove_def)

definition demo_firing :: cbs where
  "demo_firing = (new_callbacks (\<lambda>k. False))\<lparr>cblist := Some (map (\<lambda>k. Pub (FUser k)) [1, 2, 1, 3]),
     firing := True, fired := True, firingIndex := 1, firingLength := 4\<rparr>"

lemma remove_while_firing_witness:
  "cblist (cb_remove [Pub (FUser 1)] demo_firing) = Some [Pub (FUser 2), Pub (FUser 3)] \<and>
   todo (cb_remove [Pub (FUser 1)] demo_firing) = [Pub (FUser 3)]"
proof -
  have l: "cblist demo_firing = Some (map (\<lambda>k. Pub (FUser k)) [1, 2, 1, 3])"
    and f: "firing demo_firing" "idx_ok demo_firing"
    and t: "todo demo_firing = map (\<lambda>k. Pub (FUser k)) [1, 3]"
    by (simp_all add: demo_firing_def new_callbacks_def idx_ok_def todo_def)
  from remove_while_firing [OF l, of "[Pub (FUser 1)]"] f show ?thesis
    by (simp only: t) simp
qed

end
