(* ===== verification/JqDeferred.thy ===== *)
theory JqDeferred
  imports JqCallbacks
begin

text \<open>
  \<open>jQuery.Deferred\<close> and \<open>jQuery.when\<close> of \<open>democlient/js/jquery.js\<close> over the callback lists
  of \<open>JqCallbacks\<close>. A Deferred owns three lists (done, fail, progress) and its state
  string; the closures the source creates are the function values of \<open>JqCallbacks\<close>, and
  \<open>call_fn\<close> says what each of them does. Client code is any program of the datatype
  \<open>prog\<close>: it may call every public method, on any Deferred or list, from within any
  callback. Calls nest without bound, so \<open>call_fn\<close> takes fuel.
\<close>

section \<open>The world of lists and Deferreds\<close>

record whenrec =
  w_remaining :: int
  w_values :: "val list"        \<comment> \<open>\<open>resolveValues\<close>\<close>
  w_contexts :: "val list"      \<comment> \<open>\<open>resolveContexts\<close>\<close>
  w_pvalues :: "val list"       \<comment> \<open>\<open>progressValues\<close>\<close>
  w_pcontexts :: "val list"     \<comment> \<open>\<open>progressContexts\<close>\<close>
  w_master :: nat               \<comment> \<open>the Deferred behind the returned promise\<close>

record dworld = cworld +
  dstate :: "nat \<Rightarrow> string"
  ndef :: nat
  nown :: nat
  whens :: "nat \<Rightarrow> whenrec"
  nwhen :: nat
  calls :: "(nat \<times> data) list"   \<comment> \<open>the calls of client functions so far\<close>

text \<open>What client code does: commands, a value returned or thrown, and looking at the world.\<close>

datatype cmd =
    LNew string | LAdd nat "ufn list" | LRemove nat "ufn list" | LEmpty nat | LDisable nat | LLock nat
  | LFireWith nat val "val list"
  | DNew | DOn nat nat "ufn list" | DAlways nat "ufn list" | DSettleWith nat nat val "val list"
  | DThen nat "ufn option list" | DWhen "val list"

datatype prog = PRet val | PThrow val | PDo cmd prog | PGet "dworld \<Rightarrow> prog"

type_synonym dcaller = "fn \<Rightarrow> val \<Rightarrow> val list \<Rightarrow> dworld \<Rightarrow> (val, val, dworld) res"

section \<open>Deferred\<close>

definition action_state :: "nat \<Rightarrow> string" where
  "action_state i = (if i = 0 then ''resolved'' else ''rejected'')"

text \<open>\<open>i ^ 1\<close> for the tuple indices 0 and 1.\<close>

definition other :: "nat \<Rightarrow> nat" where
  "other i = (if i = 0 then 1 else 0)"

lemma other_neq [simp]: "other j \<noteq> j" "j \<noteq> other j"
  by (auto simp: other_def)

text \<open>The state setter, the opposite list's \<open>disable\<close> and the progress list's \<open>lock\<close>.\<close>

definition state_handlers :: "nat \<Rightarrow> nat \<Rightarrow> fn list" where
  "state_handlers d i = [FSetState d (action_state i), FDisable (Def d (other i)), FLock (Def d 2)]"

definition new_deferred :: "dworld \<Rightarrow> dworld" where
  "new_deferred w =
     (let d = ndef w;
          once_memory = new_callbacks (createOptions ''once memory'');
          w1 = w\<lparr>objs := (objs w)
                   (Def d 0 := add_args (map AFn (state_handlers d 0)) once_memory,
                    Def d 1 := add_args (map AFn (state_handlers d 1)) once_memory,
                    Def d 2 := new_callbacks (createOptions ''memory''))\<rparr>
      in w1\<lparr>dstate := (dstate w1)(d := ''pending''), ndef := Suc d\<rparr>)"

text \<open>\<open>this === deferred ? promise : this\<close>.\<close>

definition settle_this :: "nat \<Rightarrow> val \<Rightarrow> val" where
  "settle_this d this = (if this = VDeferred d then VPromise d else this)"

definition d_settle :: "dcaller \<Rightarrow> nat \<Rightarrow> nat \<Rightarrow> nat \<Rightarrow> val \<Rightarrow> val list \<Rightarrow> dworld \<Rightarrow> (val, unit, dworld) res" where
  "d_settle call n d i this args w = cb_fireWith call n (Def d i) (settle_this d this) args w"

definition d_always :: "dcaller \<Rightarrow> nat \<Rightarrow> nat \<Rightarrow> ufn list \<Rightarrow> dworld \<Rightarrow> (val, unit, dworld) res" where
  "d_always call n d fs w =
     bindR (cb_add call n (Def d 0) [AArr (map (\<lambda>f. AFn (Pub f)) fs)] w)
       (\<lambda>_ w'. cb_add call n (Def d 1) [AArr (map (\<lambda>f. AFn (Pub f)) fs)] w')"

text \<open>A value with a \<open>promise\<close> method, and the Deferred behind it.\<close>

fun promise_of :: "val \<Rightarrow> nat option" where
  "promise_of (VDeferred d) = Some d"
| "promise_of (VPromise d) = Some d"
| "promise_of _ = None"

definition fn_at :: "ufn option list \<Rightarrow> nat \<Rightarrow> ufn option" where
  "fn_at fns i = (if i < length fns then fns ! i else None)"

text \<open>\<open>then\<close>: one listener per tuple, all bound to a new Deferred.\<close>

definition d_then :: "dcaller \<Rightarrow> nat \<Rightarrow> nat \<Rightarrow> ufn option list \<Rightarrow> dworld \<Rightarrow> (val, unit, dworld) res" where
  "d_then call n d fns w =
     (let newDefer = ndef w; listener = (\<lambda>i. [AFn (FThen d i (fn_at fns i) newDefer)]) in
      bindR (cb_add call n (Def d 0) (listener 0) (new_deferred w)) (\<lambda>_ w1.
      bindR (cb_add call n (Def d 1) (listener 1) w1) (\<lambda>_ w2.
        cb_add call n (Def d 2) (listener 2) w2)))"

text \<open>
  The listener of \<open>then\<close>: a promise returned by the handler is followed, any other value is
  passed on; without a handler the arguments are passed through.
\<close>

definition forward :: "dcaller \<Rightarrow> nat \<Rightarrow> nat \<Rightarrow> nat \<Rightarrow> dworld \<Rightarrow> (val, val, dworld) res" where
  "forward call n p newDefer w =
     bindR (cb_add call n (Def p 0) [AFn (Pub (FSettle newDefer 0))] w) (\<lambda>_ w1.
     bindR (cb_add call n (Def p 1) [AFn (Pub (FSettle newDefer 1))] w1) (\<lambda>_ w2.
     bindR (cb_add call n (Def p 2) [AFn (Pub (FSettle newDefer 2))] w2) (\<lambda>_ w3. Done VUndef w3)))"

definition then_listener :: "dcaller \<Rightarrow> nat \<Rightarrow> nat \<Rightarrow> nat \<Rightarrow> ufn option \<Rightarrow> nat \<Rightarrow> val \<Rightarrow> val list
    \<Rightarrow> dworld \<Rightarrow> (val, val, dworld) res" where
  "then_listener call n d i f newDefer this args w =
     (let this' = (if this = VPromise d then VPromise newDefer else this) in
      case f of
        None \<Rightarrow> bindR (cb_fireWith call n (Def newDefer i) this' args w) (\<lambda>_ w'. Done VUndef w')
      | Some g \<Rightarrow>
          bindR (call (Pub g) this args w) (\<lambda>returned w1.
            case promise_of returned of
              Some p \<Rightarrow> forward call n p newDefer w1
            | None \<Rightarrow> bindR (cb_fireWith call n (Def newDefer i) this' [returned] w1) (\<lambda>_ w'. Done VUndef w')))"

section \<open>when\<close>

definition set_when :: "nat \<Rightarrow> (whenrec \<Rightarrow> whenrec) \<Rightarrow> dworld \<Rightarrow> dworld" where
  "set_when k f w = w\<lparr>whens := (whens w)(k := f (whens w k))\<rparr>"

text \<open>The update function \<open>updateFunc( i, contexts, values )\<close>.\<close>

definition when_update :: "dcaller \<Rightarrow> nat \<Rightarrow> nat \<Rightarrow> nat \<Rightarrow> bool \<Rightarrow> val \<Rightarrow> val list
    \<Rightarrow> dworld \<Rightarrow> (val, val, dworld) res" where
  "when_update call n k i progress this args w =
     (let v = (if length args > 1 then VArr args else case args of [] \<Rightarrow> VUndef | a # _ \<Rightarrow> a) in
      if progress
      then (let w1 = set_when k (\<lambda>r. r\<lparr>w_pcontexts := (w_pcontexts r)[i := this], w_pvalues := (w_pvalues r)[i := v]\<rparr>) w;
                r = whens w1 k in
            bindR (cb_fireWith call n (Def (w_master r) 2) (VArr (w_pcontexts r)) (w_pvalues r) w1) (\<lambda>_ w'. Done VUndef w'))
      else (let w1 = set_when k (\<lambda>r. r\<lparr>w_contexts := (w_contexts r)[i := this], w_values := (w_values r)[i := v],
                                      w_remaining := w_remaining r - 1\<rparr>) w;
                r = whens w1 k in
            if w_remaining r = 0
            then bindR (cb_fireWith call n (Def (w_master r) 0) (VArr (w_contexts r)) (w_values r) w1) (\<lambda>_ w'. Done VUndef w')
            else Done VUndef w1))"

text \<open>The loop over the subordinates.\<close>

fun when_loop :: "dcaller \<Rightarrow> nat \<Rightarrow> nat \<Rightarrow> nat list \<Rightarrow> dworld \<Rightarrow> (val, unit, dworld) res" where
  "when_loop call n k [] w = Done () w"
| "when_loop call n k (i # is) w =
     (let r = whens w k in
      case promise_of (w_values r ! i) of
        Some p \<Rightarrow>
          bindR (cb_add call n (Def p 0) [AFn (FWhen k i False)] w) (\<lambda>_ w1.
          bindR (cb_add call n (Def p 1) [AFn (Pub (FSettle (w_master r) 1))] w1) (\<lambda>_ w2.
          bindR (cb_add call n (Def p 2) [AFn (FWhen k i True)] w2) (\<lambda>_ w3.
            when_loop call n k is w3)))
      | None \<Rightarrow> when_loop call n k is (set_when k (\<lambda>r. r\<lparr>w_remaining := w_remaining r - 1\<rparr>) w))"

definition d_when :: "dcaller \<Rightarrow> nat \<Rightarrow> val list \<Rightarrow> dworld \<Rightarrow> (val, unit, dworld) res" where
  "d_when call n args w =
     (let len = length args;
          remaining = (if len \<noteq> 1 \<or> promise_of (args ! 0) \<noteq> None then int len else 0)
      in if remaining = 1
         then Done () w
         else
          (let k = nwhen w; master = ndef w;
               w0 = new_deferred w;
               w1 = w0\<lparr>whens := (whens w0)(k := \<lparr>w_remaining = remaining, w_values = args,
                      w_contexts = (if len > 1 then replicate len VUndef else []),
                      w_pvalues = (if len > 1 then replicate len VUndef else []),
                      w_pcontexts = (if len > 1 then replicate len VUndef else []),
                      w_master = master\<rparr>), nwhen := Suc k\<rparr>
           in bindR (if len > 1 then when_loop call n k [0..<len] w1 else Done () w1) (\<lambda>_ w2.
                let r = whens w2 k in
                if w_remaining r = 0
                then cb_fireWith call n (Def (w_master r) 0)
                       (if len > 1 then VArr (w_contexts r) else VUndef) (w_values r) w2
                else Done () w2)))"

section \<open>Client programs and function values\<close>

text \<open>A command on a list that was never created finds no list and does nothing.\<close>

definition new_list :: "string \<Rightarrow> dworld \<Rightarrow> dworld" where
  "new_list options w = w\<lparr>objs := (objs w)(Own (nown w) := new_callbacks (createOptions options)),
     nown := Suc (nown w)\<rparr>"

fun exec_cmd :: "dcaller \<Rightarrow> nat \<Rightarrow> cmd \<Rightarrow> dworld \<Rightarrow> (val, unit, dworld) res" where
  "exec_cmd call n (LNew options) w = Done () (new_list options w)"
| "exec_cmd call n (LAdd k fs) w = cb_add call n (Own k) (map (\<lambda>f. AFn (Pub f)) fs) w"
| "exec_cmd call n (LRemove k fs) w = Done () (upd (Own k) (cb_remove (map Pub fs)) w)"
| "exec_cmd call n (LEmpty k) w = Done () (if k < nown w then upd (Own k) cb_empty w else w)"
| "exec_cmd call n (LDisable k) w = Done () (upd (Own k) cb_disable w)"
| "exec_cmd call n (LLock k) w = Done () (upd (Own k) cb_lock w)"
| "exec_cmd call n (LFireWith k t as) w = cb_fireWith call n (Own k) t as w"
| "exec_cmd call n DNew w = Done () (new_deferred w)"
| "exec_cmd call n (DOn d i fs) w = cb_add call n (Def d i) (map (\<lambda>f. AFn (Pub f)) fs) w"
| "exec_cmd call n (DAlways d fs) w = d_always call n d fs w"
| "exec_cmd call n (DSettleWith d i t as) w = cb_fireWith call n (Def d i) t as w"
| "exec_cmd call n (DThen d fns) w = d_then call n d fns w"
| "exec_cmd call n (DWhen args) w = d_when call n args w"

primrec run_prog :: "prog \<Rightarrow> dcaller \<Rightarrow> nat \<Rightarrow> dworld \<Rightarrow> (val, val, dworld) res" where
  "run_prog (PRet v) = (\<lambda>call n w. Done v w)"
| "run_prog (PThrow e) = (\<lambda>call n w. Exn e w)"
| "run_prog (PDo c p) = (\<lambda>call n w. bindR (exec_cmd call n c w) (\<lambda>_ w'. run_prog p call n w'))"
| "run_prog (PGet f) = (\<lambda>call n w. run_prog (f w) call n w)"

text \<open>What a function value does when it is called; \<open>code\<close> is the body of each client function.\<close>

fun call_fn :: "(nat \<Rightarrow> data \<Rightarrow> prog) \<Rightarrow> nat \<Rightarrow> dcaller" where
  "call_fn code 0 f this args w = Diverge"
| "call_fn code (Suc n) f this args w =
     (case f of
        Pub (FUser k) \<Rightarrow>
          run_prog (code k (this, args)) (call_fn code n) n (w\<lparr>calls := calls w @ [(k, (this, args))]\<rparr>)
      | Pub (FSettle d i) \<Rightarrow> bindR (d_settle (call_fn code n) n d i this args w) (\<lambda>_ w'. Done this w')
      | FSetState d s \<Rightarrow> Done VUndef (w\<lparr>dstate := (dstate w)(d := s)\<rparr>)
      | FDisable i \<Rightarrow> Done this (upd i cb_disable w)
      | FLock i \<Rightarrow> Done this (upd i cb_lock w)
      | FThen d i g newDefer \<Rightarrow> then_listener (call_fn code n) n d i g newDefer this args w
      | FWhen k i progress \<Rightarrow> when_update (call_fn code n) n k i progress this args w)"

definition init_world :: dworld where
  "init_world = \<lparr>objs = (\<lambda>_. (new_callbacks (\<lambda>_. False))\<lparr>cblist := None, cbstack := None\<rparr>),
     dstate = (\<lambda>_. ''pending''), ndef = 0, nown = 0, whens = (\<lambda>_. \<lparr>w_remaining = 0, w_values = [],
       w_contexts = [], w_pvalues = [], w_pcontexts = [], w_master = 0\<rparr>), nwhen = 0, calls = []\<rparr>"

section \<open>Well-formed worlds\<close>

text \<open>The functions that are not part of the machinery of one Deferred.\<close>

definition plain :: "fn \<Rightarrow> bool" where
  "plain f = (case f of FSetState d s \<Rightarrow> False | FDisable i \<Rightarrow> False | FLock i \<Rightarrow> False | _ \<Rightarrow> True)"

text \<open>A list of a pending Deferred: it has not fired, and starts with its state handlers.\<close>

definition pend_list :: "nat \<Rightarrow> nat \<Rightarrow> cbs \<Rightarrow> bool" where
  "pend_list d j c \<longleftrightarrow>
     (\<exists>rest. cblist c = Some (state_handlers d j @ rest) \<and> (\<forall>f \<in> set rest. plain f)) \<and>
     \<not> fired c \<and> \<not> firing c \<and> memory c = None \<and> cbstack c = None \<and> firingStart c = 0 \<and>
     o_memory c \<and> \<not> o_stopOnFalse c \<and> \<not> o_unique c"

text \<open>What the list \<open>i\<close> may look like, given the state of its Deferred.\<close>

definition okl :: "dworld \<Rightarrow> oid \<Rightarrow> cbs \<Rightarrow> bool" where
  "okl w i c =
     (case i of
        Own k \<Rightarrow> \<forall>l. cblist c = Some l \<longrightarrow> (\<forall>f \<in> set l. plain f)
      | Def d j \<Rightarrow>
          if ndef w \<le> d \<or> 3 \<le> j then cblist c = None
          else if j = 2 then \<forall>l. cblist c = Some l \<longrightarrow> (\<forall>f \<in> set l. plain f)
          else if dstate w d = ''pending'' then pend_list d j c
          else if dstate w d = action_state j
               then \<forall>l. cblist c = Some l \<longrightarrow> (\<forall>f \<in> set l. plain f \<or> f \<in> set (state_handlers d j))
          else cblist c = None)"

text \<open>
  \<open>wfd \<sigma> w\<close>: every list is as it may be, every Deferred is in one of the three states, and
  the Deferreds that \<open>\<sigma>\<close> names are settled in the state it gives.
\<close>

definition wfd :: "(nat \<Rightarrow> string option) \<Rightarrow> dworld \<Rightarrow> bool" where
  "wfd \<sigma> w \<longleftrightarrow> (\<forall>i. okl w i (objs w i)) \<and>
     (\<forall>d < ndef w. dstate w d \<in> {''pending'', ''resolved'', ''rejected''}) \<and>
     (\<forall>d s. \<sigma> d = Some s \<longrightarrow> d < ndef w \<and> dstate w d = s \<and> s \<noteq> ''pending'')"

definition live :: "(nat \<Rightarrow> string option) \<Rightarrow> oid set" where
  "live \<sigma> = {i. case i of Own k \<Rightarrow> True | Def d j \<Rightarrow> 2 \<le> j \<or> \<sigma> d \<noteq> None}"

definition okf :: "dworld \<Rightarrow> fn \<Rightarrow> bool" where
  "okf w f = (case f of
     FSetState d s \<Rightarrow> d < ndef w \<and> dstate w d = s \<and> s \<noteq> ''pending''
   | FDisable i \<Rightarrow> (case i of Own k \<Rightarrow> False
        | Def d m \<Rightarrow> m < 2 \<and> d < ndef w \<and> dstate w d = action_state (other m))
   | FLock i \<Rightarrow> (case i of Own k \<Rightarrow> False | Def d m \<Rightarrow> m = 2)
   | _ \<Rightarrow> True)"

lemma okf_plain: "plain f \<Longrightarrow> okf w f"
  by (cases f) (auto simp: plain_def okf_def)

lemma action_state_simps [simp]:
  "action_state j \<noteq> ''pending''" "''pending'' \<noteq> action_state j" "action_state 0 = ''resolved''" "action_state (Suc 0) = ''rejected''"
  by (simp_all add: action_state_def)

lemma plain_simps [simp]:
  "plain (Pub u)" "plain (FThen d i g m)" "plain (FWhen k m p)"
  "\<not> plain (FSetState d s)" "\<not> plain (FDisable x)" "\<not> plain (FLock x)"
  by (simp_all add: plain_def)

lemma okl_cong: "ndef w' = ndef w \<Longrightarrow> dstate w' = dstate w \<Longrightarrow> okl w' i c = okl w i c"
  by (simp only: okl_def)

lemma upd_frame [simp]: "ndef (upd i g w) = ndef w" "dstate (upd i g w) = dstate w"
  "whens (upd i g w) = whens w" "nwhen (upd i g w) = nwhen w" "calls (upd i g w) = calls w"
  "nown (upd i g w) = nown w"
  by (simp_all add: upd_def)

lemma wfd_upd: "wfd \<sigma> w \<Longrightarrow> okl w i (g (objs w i)) \<Longrightarrow> wfd \<sigma> (upd i g w)"
  by (auto simp: wfd_def okl_cong [of "upd i g w" w])

lemma wfdD: "wfd \<sigma> w \<Longrightarrow> okl w i (objs w i)"
  by (simp add: wfd_def)

lemma wfd_mono: "wfd \<sigma>' w \<Longrightarrow> \<sigma> \<subseteq>\<^sub>m \<sigma>' \<Longrightarrow> wfd \<sigma> w"
proof -
  assume w: "wfd \<sigma>' w" and le: "\<sigma> \<subseteq>\<^sub>m \<sigma>'"
  have "\<sigma>' d = Some s" if "\<sigma> d = Some s" for d s
    using le that by (force simp: map_le_def dom_def)
  with w show ?thesis unfolding wfd_def by blast
qed

lemma wfd_state: "wfd \<sigma> w \<Longrightarrow> \<sigma> d = Some s \<Longrightarrow> d < ndef w \<and> dstate w d = s \<and> s \<noteq> ''pending''"
  by (auto simp: wfd_def)

text \<open>Booking on a live list.\<close>

lemma okl_book:
  assumes "wfd \<sigma> w" "i \<in> live \<sigma>"
    and "cblist c = cblist (objs w i) \<or> cblist c = None \<or> (cblist (objs w i) \<noteq> None \<and> cblist c = Some [])"
  shows "okl w i c"
proof (cases i)
  case (Own k)
  with wfdD [OF assms(1), of i] assms(3) show ?thesis by (auto simp: okl_def)
next
  case (Def d j)
  then have "2 \<le> j \<or> (\<exists>s. \<sigma> d = Some s)" using assms(2) by (auto simp: live_def)
  then have "2 \<le> j \<or> dstate w d \<noteq> ''pending''" using wfd_state [OF assms(1)] by blast
  with wfdD [OF assms(1), of i] Def assms(3) show ?thesis by (auto simp: okl_def split: if_splits)
qed

lemma okl_append:
  assumes w: "wfd \<sigma> w" and args: "\<forall>f \<in> set (args_fns args). plain f"
  shows "okl w i (add_args args (objs w i))"
proof (cases "cblist (objs w i)")
  case None
  then have n: "cblist (add_args args (objs w i)) = None" by (simp add: add_args_list(1))
  have "\<not> pend_list d j (objs w i)" for d j using None by (simp add: pend_list_def)
  with wfdD [OF w, of i] n show ?thesis by (auto simp: okl_def split: oid.splits if_splits)
next
  case (Some l)
  obtain fs where fs: "cblist (add_args args (objs w i)) = Some (l @ fs)" "set fs \<subseteq> set (args_fns args)"
    using add_args_list(2) [OF Some] by blast
  with args have pl: "\<forall>f \<in> set fs. plain f" by blast
  have pend: "pend_list d j (add_args args (objs w i))" if "pend_list d j (objs w i)" for d j
    using that pl fs Some by (auto simp: pend_list_def add_args_frame)
  show ?thesis
  proof (cases i)
    case (Own k)
    with wfdD [OF w, of i] Some fs pl show ?thesis by (auto simp: okl_def)
  next
    case (Def d j)
    with wfdD [OF w, of i] Some fs pl pend show ?thesis
      by (auto simp: okl_def split: if_splits)
  qed
qed

lemma members_ok:
  assumes w: "wfd \<sigma> w" and i: "i \<in> live \<sigma>" and l: "cblist (objs w i) = Some l" and f: "f \<in> set l"
  shows "okf w f"
proof (cases "plain f")
  case True
  then show ?thesis by (rule okf_plain)
next
  case False
  from wfdD [OF w, of i] False l f obtain d j where ij: "i = Def d j" "d < ndef w" "j < 2"
    by (cases i) (auto simp: okl_def split: if_splits)
  then obtain s where "\<sigma> d = Some s" using i by (auto simp: live_def)
  with wfd_state [OF w] have np: "dstate w d \<noteq> ''pending''" by blast
  from wfdD [OF w, of i] ij l np have "dstate w d = action_state j"
    and "f \<in> set (state_handlers d j)" using f False by (auto simp: okl_def split: if_splits)
  with ij show ?thesis by (auto simp: okf_def state_handlers_def other_def action_state_def)
qed

section \<open>Settling\<close>

text \<open>
  The contract of a caller of function values with the Deferreds: the machinery functions
  do what they do or run out of fuel, and a call of any function that may be called keeps
  the world well-formed, for every assignment \<open>\<sigma>\<close> of settled states.
\<close>

locale deferred_caller =
  fixes call :: dcaller
  assumes call_wfd: "wfd \<sigma> w \<Longrightarrow> okf w f \<Longrightarrow> keeps (wfd \<sigma>) (call f this args w)"
    and call_set: "call (FSetState d s) this args w \<in> {Diverge, Done VUndef (w\<lparr>dstate := (dstate w)(d := s)\<rparr>)}"
    and call_disable: "call (FDisable i) this args w \<in> {Diverge, Done this (upd i cb_disable w)}"
begin

sublocale step: list_appender call "wfd \<sigma>" "live \<sigma>" okf plain for \<sigma>
proof
  fix w f this args
  assume "wfd \<sigma> w" "okf w f"
  then show "keeps (wfd \<sigma>) (call f this args w)" by (rule call_wfd)
next
  fix w i l f
  assume "wfd \<sigma> w" "i \<in> live \<sigma>" "cblist (objs w i) = Some l" "f \<in> set l"
  then show "okf w f" by (rule members_ok)
next
  fix w i and g :: "cbs \<Rightarrow> cbs"
  assume "wfd \<sigma> w" "i \<in> live \<sigma>" "cblist (g (objs w i)) = cblist (objs w i) \<or> cblist (g (objs w i)) = None \<or>
      (cblist (objs w i) \<noteq> None \<and> cblist (g (objs w i)) = Some [])"
  then show "wfd \<sigma> (upd i g w)" by (intro wfd_upd okl_book)
next
  fix w i args
  assume "wfd \<sigma> w" "i \<in> live \<sigma>" "\<forall>f \<in> set (args_fns args). plain f"
  then show "wfd \<sigma> (upd i (add_args args) w)" by (intro wfd_upd okl_append)
qed

text \<open>
  Firing the done or fail list of a pending Deferred: its first two entries set the state
  and disable the opposite list before any client code runs.
\<close>

lemma settle_start:
  assumes w: "wfd \<sigma> w" and d: "d < ndef w" and j: "j < 2" and p: "dstate w d = ''pending''"
    and l: "cblist (objs w (Def d j)) = Some (state_handlers d j @ rest)"
  defines "s \<equiv> action_state j"
  shows "wfd (\<sigma>(d \<mapsto> s)) (upd (Def d j) (\<lambda>c. c\<lparr>firingIndex := x\<rparr>)
     (upd (Def d (other j)) cb_disable (upd (Def d j) (\<lambda>c. c\<lparr>firingIndex := y\<rparr>)
       ((upd (Def d j) (start_fire dd l') w)\<lparr>dstate := (dstate w)(d := s)\<rparr>))))"
    (is "wfd _ ?w")
proof -
  have obs: "objs ?w i =
      (if i = Def d j then (start_fire dd l' (objs w i))\<lparr>firingIndex := x\<rparr>
       else if i = Def d (other j) then cb_disable (objs w i) else objs w i)" for i
    using j by (auto simp: other_def)
  have frame: "ndef ?w = ndef w" "dstate ?w = (dstate w)(d := s)" by simp_all
  have pl: "pend_list d j (objs w (Def d j))"
    using wfdD [OF w, of "Def d j"] d j p by (simp add: okl_def)
  have "okl ?w i (objs ?w i)" for i
  proof (cases "i = Def d j")
    case True
    have "\<forall>f \<in> set (state_handlers d j @ rest). plain f \<or> f \<in> set (state_handlers d j)"
      using pl l by (auto simp: pend_list_def)
    then show ?thesis using True d j l by (simp add: okl_def frame obs s_def)
  next
    case nj: False
    show ?thesis
    proof (cases "i = Def d (other j)")
      case True
      then show ?thesis using nj d j
        by (auto simp: okl_def frame obs s_def cb_disable_def other_def action_state_def)
    next
      case False
      have "okl ?w i (objs w i) = okl w i (objs w i)"
      proof (cases i)
        case (Def d' j')
        have "d' \<noteq> d \<or> 2 \<le> j'" using nj False j Def by (auto simp: other_def split: if_splits)
        then show ?thesis unfolding okl_def frame Def oid.case by auto
      qed (simp add: okl_def)
      moreover have "objs ?w i = objs w i" unfolding obs using nj False by (simp only: if_False)
      ultimately show ?thesis using wfdD [OF w, of i] by (simp only:)
    qed
  qed
  moreover have "dstate ?w d' \<in> {''pending'', ''resolved'', ''rejected''}" if "d' < ndef w" for d'
    using w that by (auto simp: frame wfd_def s_def action_state_def)
  moreover have "\<sigma> d = None"
    using wfd_state [OF w, of d] p by (cases "\<sigma> d") auto
  ultimately show ?thesis
    using w d by (auto simp: wfd_def frame s_def)
qed

lemma map_le_settle: "\<sigma> d = None \<Longrightarrow> \<sigma> \<subseteq>\<^sub>m \<sigma>(d \<mapsto> s)"
  by (auto simp: map_le_def)

lemma pending_unknown: "wfd \<sigma> w \<Longrightarrow> dstate w d = ''pending'' \<Longrightarrow> \<sigma> d = None"
  using wfd_state [of \<sigma> w d] by (cases "\<sigma> d") auto

lemma fire_pending:
  assumes w: "wfd \<sigma> w" and d: "d < ndef w" and j: "j < 2" and p: "dstate w d = ''pending''"
  shows "keeps (wfd (\<sigma>(d \<mapsto> action_state j))) (fire call n (Def d j) dd w)"
proof (cases n)
  case 0
  then show ?thesis by simp
next
  case (Suc m)
  let ?i = "Def d j" and ?s = "action_state j" and ?\<sigma> = "\<sigma>(d \<mapsto> action_state j)"
  have pl: "pend_list d j (objs w ?i)"
    using wfdD [OF w, of ?i] d j p by (simp add: okl_def)
  then obtain rest where l: "cblist (objs w ?i) = Some (state_handlers d j @ rest)"
    and st: "firingStart (objs w ?i) = 0" "\<not> o_stopOnFalse (objs w ?i)"
    by (auto simp: pend_list_def)
  let ?l = "state_handlers d j @ rest"
  let ?w0 = "upd ?i (start_fire dd ?l) w"
  have lv: "?i \<in> live ?\<sigma>" by (simp add: live_def)
  have "keeps (wfd ?\<sigma>) (fire_loop call m ?i dd ?w0)"
  proof (cases m)
    case (Suc m1)
    let ?wa = "upd ?i (\<lambda>c. c\<lparr>firingIndex := 1\<rparr>) (?w0\<lparr>dstate := (dstate w)(d := ?s)\<rparr>)"
    have one: "fire_loop call m ?i dd ?w0 = Diverge
        \<or> fire_loop call m ?i dd ?w0 = fire_loop call m1 ?i dd ?wa"
      using call_set [of d ?s "fst dd" "snd dd" ?w0] Suc l st
      by (auto simp: Let_def state_handlers_def arr_get_def start_fire_def upd_def)
    have "keeps (wfd ?\<sigma>) (fire_loop call m1 ?i dd ?wa)"
    proof (cases m1)
      case (Suc m2)
      let ?wb = "upd ?i (\<lambda>c. c\<lparr>firingIndex := 2\<rparr>) (upd (Def d (other j)) cb_disable ?wa)"
      have oj: "other j \<noteq> j" using j by (auto simp: other_def)
      have two: "fire_loop call m1 ?i dd ?wa = Diverge
          \<or> fire_loop call m1 ?i dd ?wa = fire_loop call m2 ?i dd ?wb"
        using call_disable [of "Def d (other j)" "fst dd" "snd dd" ?wa] Suc l st oj
        by (auto simp: Let_def state_handlers_def arr_get_def start_fire_def upd_def)
      have "wfd ?\<sigma> ?wb"
        by (rule settle_start [OF w d j p l])
      then have "keeps (wfd ?\<sigma>) (fire_loop call m2 ?i dd ?wb)"
        by (rule step.loop_keeps [OF _ lv])
      with two show ?thesis by auto
    qed simp
    with one show ?thesis by auto
  qed simp
  then show ?thesis
    unfolding Suc fire.simps l option.case
    by (rule keeps_bindR) (rule step.after_fire_keeps [OF step.fire_keeps [OF _ lv] _ lv])
qed

lemma fireWith_wfd: "wfd \<sigma> w \<Longrightarrow> keeps (wfd \<sigma>) (cb_fireWith call n i t as w)"
proof (cases "i \<in> live \<sigma>")
  case True
  then show "wfd \<sigma> w \<Longrightarrow> ?thesis" by (intro step.fireWith_keeps)
next
  case False
  assume w: "wfd \<sigma> w"
  from False obtain d j where i: "i = Def d j" "j < 2" "\<sigma> d = None"
    by (cases i) (auto simp: live_def)
  show ?thesis
  proof (cases "d < ndef w")
    case nd: False
    then have "cblist (objs w i) = None" using wfdD [OF w, of i] i by (simp add: okl_def)
    with w show ?thesis by (simp add: cb_fireWith_def Let_def)
  next
    case d: True
    show ?thesis
    proof (cases "dstate w d = ''pending''")
      case True
      have "keeps (wfd \<sigma>) (fire call n i (t, as) w)"
        unfolding i(1)
        by (rule keeps_mono [OF fire_pending [OF w d i(2) True]])
          (erule wfd_mono, rule map_le_settle, rule i(3))
      moreover have "\<not> firing (objs w i)"
        using wfdD [OF w, of i] d i True by (simp add: okl_def pend_list_def)
      ultimately show ?thesis using w by (simp add: cb_fireWith_def Let_def)
    next
      case False
      let ?\<sigma> = "\<sigma>(d \<mapsto> dstate w d)"
      have "wfd ?\<sigma> w" using w d False by (auto simp: wfd_def)
      moreover have "i \<in> live ?\<sigma>" using i by (simp add: live_def)
      ultimately have "keeps (wfd ?\<sigma>) (cb_fireWith call n i t as w)" by (rule step.fireWith_keeps)
      then show ?thesis by (rule keeps_mono) (erule wfd_mono, rule map_le_settle, rule i(3))
    qed
  qed
qed

lemma add_wfd:
  assumes w: "wfd \<sigma> w" and args: "\<forall>f \<in> set (args_fns args). plain f"
  shows "keeps (wfd \<sigma>) (cb_add call n i args w)"
proof (cases "i \<in> live \<sigma>")
  case True
  with w args show ?thesis by (intro step.add_keeps)
next
  case False
  from False obtain d j where i: "i = Def d j" "j < 2" "\<sigma> d = None"
    by (cases i) (auto simp: live_def)
  show ?thesis
  proof (cases "d < ndef w")
    case nd: False
    then have "cblist (objs w i) = None" using wfdD [OF w, of i] i by (simp add: okl_def)
    with w show ?thesis by (simp add: cb_add_def Let_def)
  next
    case d: True
    show ?thesis
    proof (cases "dstate w d = ''pending''")
      case True
      then have "pend_list d j (objs w i)" using wfdD [OF w, of i] d i by (simp add: okl_def)
      moreover have "wfd \<sigma> (upd i (add_args args) w)"
        by (rule wfd_upd, rule w, rule okl_append, rule w, rule args)
      ultimately show ?thesis using w by (auto simp: cb_add_def Let_def add_args_frame pend_list_def)
    next
      case False
      let ?\<sigma> = "\<sigma>(d \<mapsto> dstate w d)"
      have "wfd ?\<sigma> w" using w d False by (auto simp: wfd_def)
      moreover have "i \<in> live ?\<sigma>" using i by (simp add: live_def)
      ultimately have "keeps (wfd ?\<sigma>) (cb_add call n i args w)" using args by (rule step.add_keeps)
      then show ?thesis by (rule keeps_mono) (erule wfd_mono, rule map_le_settle, rule i(3))
    qed
  qed
qed

end

section \<open>Every operation keeps the world well-formed\<close>

lemma wfd_cong:
  "objs w' = objs w \<Longrightarrow> ndef w' = ndef w \<Longrightarrow> dstate w' = dstate w \<Longrightarrow> wfd \<sigma> w' = wfd \<sigma> w"
  by (simp only: wfd_def okl_cong [of w' w])

lemma options_values [simp]:
  "createOptions ''once memory'' k \<longleftrightarrow> k = ''once'' \<or> k = ''memory''"
  "createOptions ''memory'' k \<longleftrightarrow> k = ''memory''"
  by (simp_all add: createOptions_def match_notwhite_def is_white_def)

lemma args_fns_map [simp]: "args_fns (map (\<lambda>f. AFn (h f)) fs) = map h fs"
  by (induction fs) auto

lemma args_fns_AFn [simp]: "args_fns (map AFn fs) = fs"
  by (induction fs) auto

lemma new_list_pend:
  "pend_list d j (add_args (map AFn (state_handlers d j)) (new_callbacks (createOptions ''once memory'')))"
proof -
  let ?c = "new_callbacks (createOptions ''once memory'')"
  have "cblist (add_args (map AFn (state_handlers d j)) ?c) = Some ([] @ args_fns (map AFn (state_handlers d j)))"
    by (rule add_args_append) (simp_all add: new_callbacks_def)
  then show ?thesis
    by (simp add: pend_list_def add_args_frame new_callbacks_def)
qed

lemma new_deferred_wfd: "wfd \<sigma> w \<Longrightarrow> wfd \<sigma> (new_deferred w)"
proof -
  assume w: "wfd \<sigma> w"
  let ?w = "new_deferred w"
  have frame: "ndef ?w = Suc (ndef w)" "dstate ?w = (dstate w)(ndef w := ''pending'')"
    by (simp_all add: new_deferred_def Let_def)
  have "okl ?w i (objs ?w i)" for i
  proof (cases i)
    case (Own k)
    with wfdD [OF w, of i] show ?thesis by (simp add: okl_def new_deferred_def Let_def)
  next
    case (Def d j)
    show ?thesis
    proof (cases "d = ndef w \<and> j < 3")
      case True
      then consider "j = 0" | "j = 1" | "j = 2" by linarith
      then show ?thesis
      proof cases
        case 1
        then have "objs ?w i = add_args (map AFn (state_handlers d 0)) (new_callbacks (createOptions ''once memory''))"
          using True Def by (simp add: new_deferred_def Let_def)
        with 1 True Def new_list_pend [of d 0] show ?thesis by (simp add: okl_def frame)
      next
        case 2
        then have "objs ?w i = add_args (map AFn (state_handlers d 1)) (new_callbacks (createOptions ''once memory''))"
          using True Def by (simp add: new_deferred_def Let_def)
        with 2 True Def new_list_pend [of d 1] show ?thesis by (simp add: okl_def frame)
      next
        case 3
        then have "objs ?w i = new_callbacks (createOptions ''memory'')"
          using True Def by (simp add: new_deferred_def Let_def)
        with 3 True Def show ?thesis by (simp add: okl_def frame new_callbacks_def)
      qed
    next
      case False
      then have "objs ?w i = objs w i" using Def by (auto simp: new_deferred_def Let_def)
      moreover have "okl ?w i c = okl w i c" if "d \<noteq> ndef w" for c
      proof -
        have "(Suc (ndef w) \<le> d) = (ndef w \<le> d)" using that by linarith
        then show ?thesis by (simp only: okl_def frame Def oid.case that fun_upd_def if_False)
      qed
      moreover have "cblist (objs w i) = None" if "d = ndef w"
        using wfdD [OF w, of i] Def that by (simp add: okl_def)
      ultimately show ?thesis using wfdD [OF w, of i] False Def
        by (cases "d = ndef w") (auto simp: okl_def frame)
    qed
  qed
  moreover have "dstate ?w d \<in> {''pending'', ''resolved'', ''rejected''}" if "d < ndef ?w" for d
    using w that by (auto simp: frame wfd_def less_Suc_eq)
  ultimately show ?thesis using w by (auto simp: wfd_def frame less_Suc_eq)
qed

lemma remove_loop_list:
  "cblist (remove_loop arg index c) = Some l' \<Longrightarrow> \<exists>l. cblist c = Some l \<and> set l' \<subseteq> set l"
proof (induction arg index c rule: remove_loop.induct)
  case (1 arg index c)
  show ?case
  proof (cases "cblist c")
    case None
    with "1.prems" show ?thesis by (simp add: remove_loop.simps [of arg index c])
  next
    case (Some l)
    let ?i = "list_index arg (Some l) index"
    show ?thesis
    proof (cases "?i > - 1")
      case True
      with "1.prems" Some have "cblist (remove_loop arg (Some ?i) (remove_at (nat ?i) l c)) = Some l'"
        by (simp add: remove_loop.simps [of arg index c] Let_def)
      from "1.IH" [OF Some refl True this] have "set l' \<subseteq> set (splice1 (nat ?i) l)" by simp
      from this set_splice1 [of "nat ?i" l] have "set l' \<subseteq> set l" by (rule subset_trans)
      with Some show ?thesis by simp
    next
      case False
      with "1.prems" Some show ?thesis by (simp add: remove_loop.simps [of arg index c] Let_def)
    qed
  qed
qed

lemma remove_list: "cblist (cb_remove args c) = Some l' \<Longrightarrow> \<exists>l. cblist c = Some l \<and> set l' \<subseteq> set l"
proof -
  have "cblist (foldl (\<lambda>c arg. remove_loop arg None c) c args) = Some l'
      \<Longrightarrow> \<exists>l. cblist c = Some l \<and> set l' \<subseteq> set l"
  proof (induction args arbitrary: c)
    case (Cons a as)
    then obtain l where "cblist (remove_loop a None c) = Some l" "set l' \<subseteq> set l" by auto
    with remove_loop_list [of a None c l] show ?case by blast
  qed auto
  then show "cblist (cb_remove args c) = Some l' \<Longrightarrow> ?thesis"
    by (auto simp: cb_remove_def split: option.splits)
qed

lemma own_upd_wfd:
  assumes w: "wfd \<sigma> w"
    and g: "\<And>l'. cblist (g (objs w (Own k))) = Some l' \<Longrightarrow> \<exists>l. set l' \<subseteq> set l \<and> (cblist (objs w (Own k)) = Some l \<or> l = [])"
  shows "wfd \<sigma> (upd (Own k) g w)"
proof (rule wfd_upd [OF w])
  show "okl w (Own k) (g (objs w (Own k)))"
    using wfdD [OF w, of "Own k"] g by (fastforce simp: okl_def)
qed

context deferred_caller
begin

lemmas keeps_ops = keeps_bindR fireWith_wfd add_wfd new_deferred_wfd call_wfd okf_plain

lemma always_wfd: "wfd \<sigma> w \<Longrightarrow> keeps (wfd \<sigma>) (d_always call n d fs w)"
  unfolding d_always_def by (intro keeps_ops) auto

lemma then_wfd: "wfd \<sigma> w \<Longrightarrow> keeps (wfd \<sigma>) (d_then call n d fns w)"
  unfolding d_then_def Let_def by (intro keeps_ops) auto

lemma forward_wfd: "wfd \<sigma> w \<Longrightarrow> keeps (wfd \<sigma>) (forward call n p m w)"
  unfolding forward_def by (intro keeps_ops) auto

lemma listener_wfd: "wfd \<sigma> w \<Longrightarrow> keeps (wfd \<sigma>) (then_listener call n d i g m this args w)"
  unfolding then_listener_def Let_def
  by (cases g) (auto intro!: keeps_ops forward_wfd split: option.split)

lemma set_when_wfd [simp]: "wfd \<sigma> (set_when k f w) = wfd \<sigma> w"
  by (rule wfd_cong) (simp_all add: set_when_def)

lemma when_update_wfd: "wfd \<sigma> w \<Longrightarrow> keeps (wfd \<sigma>) (when_update call n k i p this args w)"
  unfolding when_update_def Let_def by (auto intro!: keeps_ops)

lemma when_loop_wfd: "wfd \<sigma> w \<Longrightarrow> keeps (wfd \<sigma>) (when_loop call n k is w)"
proof (induction "is" arbitrary: w)
  case (Cons i "is")
  show ?case
  proof (cases "promise_of (w_values (whens w k) ! i)")
    case None
    with Cons show ?thesis by (simp add: Let_def)
  next
    case (Some p)
    show ?thesis
      unfolding when_loop.simps Let_def Some option.case
      by (intro keeps_ops Cons.IH) (auto intro: Cons.prems)
  qed
qed simp

lemma when_wfd: "wfd \<sigma> w \<Longrightarrow> keeps (wfd \<sigma>) (d_when call n args w)"
proof -
  assume w: "wfd \<sigma> w"
  have n: "wfd \<sigma> ((new_deferred w)\<lparr>whens := x, nwhen := y\<rparr>)" for x y
    using new_deferred_wfd [OF w] by (subst wfd_cong [of _ "new_deferred w"]) simp_all
  show ?thesis
    unfolding d_when_def Let_def using w n by (auto intro!: keeps_ops when_loop_wfd)
qed

lemma exec_cmd_wfd: "wfd \<sigma> w \<Longrightarrow> keeps (wfd \<sigma>) (exec_cmd call n c w)"
proof -
  assume w: "wfd \<sigma> w"
  have nl: "wfd \<sigma> (new_list opts w)" for opts
  proof -
    have "wfd \<sigma> (upd (Own (nown w)) (\<lambda>_. new_callbacks (createOptions opts)) w)"
      by (rule own_upd_wfd [OF w]) (auto simp: new_callbacks_def)
    then show ?thesis by (subst (asm) wfd_cong [of _ "new_list opts w"]) (simp_all add: new_list_def upd_def)
  qed
  have "wfd \<sigma> (upd (Own k) (cb_remove fs) w)" "wfd \<sigma> (upd (Own k) cb_empty w)"
    "wfd \<sigma> (upd (Own k) cb_disable w)" "wfd \<sigma> (upd (Own k) cb_lock w)" for k fs
    by (rule own_upd_wfd [OF w],
        auto simp: cb_empty_def cb_disable_def cb_lock_def Let_def dest: remove_list split: if_splits)+
  with nl w show ?thesis
    by (cases c) (auto intro!: add_wfd fireWith_wfd always_wfd then_wfd when_wfd new_deferred_wfd)
qed

lemma run_prog_wfd: "wfd \<sigma> w \<Longrightarrow> keeps (wfd \<sigma>) (run_prog p call n w)"
proof (induction p arbitrary: w)
  case (PDo c p)
  show ?case
    unfolding run_prog.simps by (rule keeps_bindR [OF exec_cmd_wfd [OF PDo.prems] PDo.IH])
qed auto

end

text \<open>The model's own caller meets the contract, whatever the client's functions do.\<close>

lemma okl_lock: "okl w (Def d 2) c \<Longrightarrow> okl w (Def d 2) (cb_lock c)"
  by (auto simp: okl_def cb_lock_def cb_disable_def Let_def split: if_splits)

lemma call_fn_machinery:
  "call_fn code n (FSetState d s) this args w \<in> {Diverge, Done VUndef (w\<lparr>dstate := (dstate w)(d := s)\<rparr>)}"
  "call_fn code n (FDisable i) this args w \<in> {Diverge, Done this (upd i cb_disable w)}"
  by (cases n; simp)+

lemma deferred_caller_call_fn: "deferred_caller (call_fn code n)"
proof (induction n)
  case 0
  show ?case by unfold_locales auto
next
  case (Suc n)
  show ?case
  proof (unfold_locales, goal_cases)
    case (1 \<sigma> w f this args)
    note dc = Suc.IH
    show ?case
    proof (cases f)
      case (Pub u)
      have log: "wfd \<sigma> (w\<lparr>calls := x\<rparr>)" for x
        using 1(1) by (subst wfd_cong [of _ w]) simp_all
      show ?thesis
        using Pub deferred_caller.run_prog_wfd [OF dc log] deferred_caller.fireWith_wfd [OF dc 1(1)]
        by (cases u) (auto simp: d_settle_def intro!: keeps_bindR)
    next
      case (FSetState d s)
      with 1 have "(dstate w)(d := s) = dstate w" by (auto simp: okf_def)
      with FSetState 1 show ?thesis by simp
    next
      case (FDisable i)
      with 1(2) obtain d m where i: "i = Def d m" "m < 2" "d < ndef w" "dstate w d = action_state (other m)"
        by (auto simp: okf_def split: oid.splits)
      have "wfd \<sigma> (upd i cb_disable w)"
        by (rule wfd_upd [OF 1(1)])
          (use i in \<open>auto simp: okl_def cb_disable_def other_def action_state_def\<close>)
      with FDisable show ?thesis by simp
    next
      case (FLock i)
      with 1(2) obtain d where i: "i = Def d 2" by (auto simp: okf_def split: oid.splits)
      have "wfd \<sigma> (upd i cb_lock w)"
        unfolding i by (rule wfd_upd [OF 1(1)], rule okl_lock, rule wfdD [OF 1(1)])
      with FLock show ?thesis by simp
    next
      case (FThen d i g m)
      with deferred_caller.listener_wfd [OF dc 1(1)] show ?thesis by simp
    next
      case (FWhen k i p)
      with deferred_caller.when_update_wfd [OF dc 1(1)] show ?thesis by simp
    qed
  next
    case 2
    show ?case by (rule call_fn_machinery)
  next
    case 3
    show ?case by (rule call_fn_machinery)
  qed
qed

interpretation model: deferred_caller "call_fn code n" for code n
  by (rule deferred_caller_call_fn)

section \<open>Bounds and errors\<close>

definition dfresh :: "dworld \<Rightarrow> oid \<Rightarrow> bool" where
  "dfresh w i = (case i of Own k \<Rightarrow> nown w \<le> k | Def d j \<Rightarrow> ndef w \<le> d)"

lemma dfresh_upd: "dfresh (upd i g w) = dfresh w"
  by (rule ext) (simp only: dfresh_def upd_frame)

primrec throws_only :: "(val \<Rightarrow> bool) \<Rightarrow> prog \<Rightarrow> bool" where
  "throws_only E (PRet v) = True"
| "throws_only E (PThrow e) = E e"
| "throws_only E (PDo c p) = throws_only E p"
| "throws_only E (PGet f) = (\<forall>w. throws_only E (f w))"

lemma throws_anything: "throws_only (\<lambda>_. True) p"
  by (induction p) auto

locale bounded_caller = indexed_caller call E dfresh for call :: dcaller and E
begin

abbreviation inb :: "oid set \<Rightarrow> dworld \<Rightarrow> bool" where
  "inb \<equiv> indexed dfresh"

lemma inb_cong:
  "objs w' = objs w \<Longrightarrow> ndef w' = ndef w \<Longrightarrow> nown w' = nown w \<Longrightarrow> inb F w' = inb F w"
  by (simp only: indexed_def dfresh_def)

lemmas within_ops = within_bindR_same fireWith_indexed add_indexed call_indexed

lemma idx_ok_add_args: "idx_ok c \<Longrightarrow> \<not> firing c \<Longrightarrow> idx_ok (add_args as c) \<and> \<not> firing (add_args as c)"
  by (auto simp: idx_ok_def add_args_frame)

lemma not_firing_new [simp]: "\<not> firing (new_callbacks opts)"
  by (simp add: new_callbacks_def)

lemma new_deferred_indexed: "inb F w \<Longrightarrow> inb F (new_deferred w)"
proof -
  assume w: "inb F w"
  have "Def (ndef w) j \<notin> F" for j using indexedD(3) [OF w, of "Def (ndef w) j"] by (auto simp: dfresh_def)
  with w idx_ok_add_args show ?thesis
    by (auto simp: indexed_def new_deferred_def Let_def dfresh_def split: oid.splits)
qed

lemma new_list_indexed: "inb F w \<Longrightarrow> inb F (new_list opts w)"
proof -
  assume w: "inb F w"
  have "Own (nown w) \<notin> F" using indexedD(3) [OF w, of "Own (nown w)"] by (auto simp: dfresh_def)
  with w show ?thesis by (auto simp: indexed_def new_list_def dfresh_def split: oid.splits)
qed

lemma upd_keep_indexed:
  assumes w: "inb F w" and g: "\<And>c. idx_ok c \<Longrightarrow> idx_ok (g c) \<and> firing (g c) = firing c"
    and n: "\<And>c. cblist c = None \<Longrightarrow> cblist (g c) = None"
  shows "inb F (upd i g w)"
  using w g n by (auto simp: indexed_def fresh_upd)

lemma set_when_indexed: "inb F w \<Longrightarrow> inb F (set_when k f w)"
  by (subst inb_cong [of _ w]) (simp_all add: set_when_def)

lemma always_indexed: "inb F w \<Longrightarrow> within E (inb F) (d_always call n d fs w)"
  unfolding d_always_def by (intro within_ops) auto

lemma then_indexed: "inb F w \<Longrightarrow> within E (inb F) (d_then call n d fns w)"
  unfolding d_then_def Let_def by (intro within_ops new_deferred_indexed) auto

lemma forward_indexed: "inb F w \<Longrightarrow> within E (inb F) (forward call n p m w)"
  unfolding forward_def by (intro within_ops) auto

lemma listener_indexed: "inb F w \<Longrightarrow> within E (inb F) (then_listener call n d i g m this args w)"
  unfolding then_listener_def Let_def
  by (cases g) (auto intro!: within_ops forward_indexed split: option.split)

lemma when_update_indexed: "inb F w \<Longrightarrow> within E (inb F) (when_update call n k i p this args w)"
  unfolding when_update_def Let_def by (auto intro!: within_ops set_when_indexed)

lemma when_loop_indexed: "inb F w \<Longrightarrow> within E (inb F) (when_loop call n k is w)"
proof (induction "is" arbitrary: w)
  case (Cons i "is")
  show ?case
  proof (cases "promise_of (w_values (whens w k) ! i)")
    case None
    with Cons show ?thesis by (simp add: Let_def set_when_indexed)
  next
    case (Some p)
    show ?thesis
      unfolding when_loop.simps Let_def Some option.case
      by (intro within_ops Cons.IH) (auto intro: Cons.prems)
  qed
qed simp

lemma when_indexed: "inb F w \<Longrightarrow> within E (inb F) (d_when call n args w)"
proof -
  assume w: "inb F w"
  have n: "inb F ((new_deferred w)\<lparr>whens := x, nwhen := y\<rparr>)" for x y
    using new_deferred_indexed [OF w] by (subst inb_cong [of _ "new_deferred w"]) simp_all
  show ?thesis
    unfolding d_when_def Let_def using w n by (auto intro!: within_ops when_loop_indexed)
qed

lemma exec_cmd_indexed: "inb F w \<Longrightarrow> within E (inb F) (exec_cmd call n c w)"
proof -
  assume w: "inb F w"
  have rm: "inb F (upd i (cb_remove fs) w)" for i fs
    by (rule upd_keep_indexed [OF w]) (auto simp: idx_ok_remove, simp add: cb_remove_def)
  have di: "inb F (upd i cb_disable w)" for i
    by (rule upd_keep_indexed [OF w]) (auto, auto simp: cb_disable_def)
  have lo: "inb F (upd i cb_lock w)" for i
    by (rule upd_keep_indexed [OF w]) (auto, auto simp: cb_lock_def cb_disable_def Let_def)
  have em: "inb F (upd (Own k) cb_empty w)" if "k < nown w" for k
  proof (rule indexed_upd [OF w])
    show "\<not> dfresh w (Own k)" using that by (simp add: dfresh_def)
    show "idx_ok (cb_empty (objs w (Own k)))" using w by (intro idx_ok_empty indexedD)
    show "firing (cb_empty (objs w (Own k)))" if "Own k \<in> F"
      using indexedD(2) [OF w that] by (simp add: cb_empty_def)
  qed
  show ?thesis
    using rm di lo em w
    by (cases c) (auto intro!: add_indexed fireWith_indexed always_indexed then_indexed when_indexed
        new_deferred_indexed new_list_indexed)
qed

lemma run_prog_indexed: "inb F w \<Longrightarrow> throws_only E p \<Longrightarrow> within E (inb F) (run_prog p call n w)"
proof (induction p arbitrary: w)
  case (PDo c p)
  show ?case
    unfolding run_prog.simps
    by (rule within_bindR [OF exec_cmd_indexed [OF PDo.prems(1)]]) (use PDo in auto)
qed auto

end

lemma bounded_caller_call_fn:
  assumes code: "\<And>k d. throws_only E (code k d)"
  shows "bounded_caller (call_fn code n) E"
proof (induction n)
  case 0
  show ?case by unfold_locales (simp_all add: dfresh_upd)
next
  case (Suc n)
  note bc = Suc.IH
  show ?case
  proof (unfold_locales, goal_cases)
    case (1 F w f this args)
    have log: "indexed dfresh F (w\<lparr>calls := x\<rparr>)" for x
      using 1 by (subst bounded_caller.inb_cong [OF bc, of _ w]) simp_all
    have ds: "indexed dfresh F (w\<lparr>dstate := x\<rparr>)" for x
      using 1 by (subst bounded_caller.inb_cong [OF bc, of _ w]) simp_all
    have di: "indexed dfresh F (upd i cb_disable w)" for i
      by (rule bounded_caller.upd_keep_indexed [OF bc 1]) (auto, auto simp: cb_disable_def)
    have lo: "indexed dfresh F (upd i cb_lock w)" for i
      by (rule bounded_caller.upd_keep_indexed [OF bc 1]) (auto, auto simp: cb_lock_def cb_disable_def Let_def)
    have fw: "within E (indexed dfresh F) (cb_fireWith (call_fn code n) n i t as w)" for i t as
      using bc 1 unfolding bounded_caller_def by (rule indexed_caller.fireWith_indexed)
    show ?case
    proof (cases f)
      case (Pub u)
      show ?thesis
        using Pub bounded_caller.run_prog_indexed [OF bc log code] fw
        by (cases u) (auto simp: d_settle_def intro!: within_bindR)
    next
      case (FThen d i g m)
      with bounded_caller.listener_indexed [OF bc 1] show ?thesis by simp
    next
      case (FWhen k i p)
      with bounded_caller.when_update_indexed [OF bc 1] show ?thesis by simp
    qed (use ds di lo in auto)
  next
    case (2 i g w)
    show ?case by (rule dfresh_upd)
  qed
qed

interpretation anything: bounded_caller "call_fn code n" "\<lambda>_. True" for code n
  by (rule bounded_caller_call_fn) (rule throws_anything)

section \<open>What a Deferred promises\<close>

definition well_formed :: "dworld \<Rightarrow> bool" where
  "well_formed w \<longleftrightarrow> wfd Map.empty w \<and> indexed dfresh {} w"

lemma init_well_formed: "well_formed init_world"
  by (auto simp: well_formed_def wfd_def okl_def indexed_def idx_ok_def init_world_def new_callbacks_def
      split: oid.splits)

lemma run_well_formed:
  assumes w: "well_formed w"
  shows "keeps well_formed (run_prog p (call_fn code n) n w)"
proof -
  have "keeps (wfd Map.empty) (run_prog p (call_fn code n) n w)"
    using w by (intro model.run_prog_wfd) (simp add: well_formed_def)
  moreover have "keeps (indexed dfresh {}) (run_prog p (call_fn code n) n w)"
    using w unfolding keeps_within
    by (intro anything.run_prog_indexed) (simp_all add: well_formed_def throws_anything)
  ultimately show ?thesis
    by (simp add: keeps_conj well_formed_def [abs_def])
qed

text \<open>
  C1: a Deferred settles at most once. From any well-formed world in which it is resolved
  or rejected, any client program, with any client functions and however it ends (return
  or throw), leaves its state as it is, and the list of the opposite outcome stays
  disabled, so its callbacks never run.
\<close>

theorem deferred_settles_once:
  assumes "well_formed w" and "d < ndef w" and "j < 2" and "dstate w d = action_state j"
  shows "keeps (\<lambda>w'. well_formed w' \<and> dstate w' d = action_state j \<and> cb_disabled (objs w' (Def d (other j))))
    (run_prog p (call_fn code n) n w)"
proof -
  let ?\<sigma> = "[d \<mapsto> action_state j]"
  have "wfd ?\<sigma> w" using assms by (auto simp: well_formed_def wfd_def)
  then have a: "keeps (wfd ?\<sigma>) (run_prog p (call_fn code n) n w)" by (rule model.run_prog_wfd)
  have b: "keeps well_formed (run_prog p (call_fn code n) n w)" using assms(1) by (rule run_well_formed)
  have "dstate w' d = action_state j \<and> cb_disabled (objs w' (Def d (other j)))" if "wfd ?\<sigma> w'" for w'
  proof -
    have "d < ndef w'" "dstate w' d = action_state j" using wfd_state [OF that, of d] by auto
    with wfdD [OF that, of "Def d (other j)"] assms(3) show ?thesis
      by (auto simp: okl_def cb_disabled_def other_def action_state_def split: if_splits)
  qed
  with a have "keeps (\<lambda>w'. dstate w' d = action_state j \<and> cb_disabled (objs w' (Def d (other j))))
      (run_prog p (call_fn code n) n w)" by (rule keeps_mono)
  with b show ?thesis by (simp add: keeps_conj)
qed

text \<open>A world with one pending Deferred that has one done callback, and the world after it resolved.\<close>

definition demo_code :: "nat \<Rightarrow> data \<Rightarrow> prog" where
  "demo_code k d = PRet (VNum (int k))"

definition demo_pending :: dworld where
  "demo_pending = (let w = new_deferred init_world in
     w\<lparr>objs := (objs w)(Def 0 0 := add_args [AFn (Pub (FUser 7))] (objs w (Def 0 0)))\<rparr>)"

lemma demo_pending_well_formed: "well_formed demo_pending"
proof -
  have eq: "demo_pending = upd (Def 0 0) (add_args [AFn (Pub (FUser 7))]) (new_deferred init_world)"
    by (simp add: demo_pending_def upd_def Let_def)
  have iw: "wfd Map.empty (new_deferred init_world)" "indexed dfresh {} (new_deferred init_world)"
    using init_well_formed new_deferred_wfd anything.new_deferred_indexed
    by (auto simp: well_formed_def)
  have "wfd Map.empty demo_pending"
    unfolding eq by (rule wfd_upd [OF iw(1)], rule okl_append [OF iw(1)]) simp
  moreover have "indexed dfresh {} demo_pending"
    unfolding eq
  proof (rule anything.indexed_upd [OF iw(2)])
    show "\<not> dfresh (new_deferred init_world) (Def 0 0)"
      by (simp add: dfresh_def new_deferred_def init_world_def Let_def)
    show "idx_ok (add_args [AFn (Pub (FUser 7))] (objs (new_deferred init_world) (Def 0 0)))"
      using indexedD(1) [OF iw(2), of "Def 0 0"]
      by (auto simp: idx_ok_def add_args_frame new_deferred_def Let_def new_callbacks_def init_world_def)
  qed simp
  ultimately show ?thesis by (simp add: well_formed_def)
qed

lemma demo_pending_facts:
  "ndef demo_pending = 1" "dstate demo_pending 0 = ''pending''" "calls demo_pending = []"
  by (simp_all add: demo_pending_def new_deferred_def init_world_def Let_def)

text \<open>
  C2: \<open>resolveWith\<close> (\<open>j = 0\<close>) and \<open>rejectWith\<close> (\<open>j = 1\<close>) on a pending Deferred settle it,
  whatever its callbacks do: once the first callbacks have run the state is set and the
  opposite list is disabled, also when a client callback throws.
\<close>

theorem deferred_settle_sets_state:
  assumes "well_formed w" and "d < ndef w" and "j < 2" and "dstate w d = ''pending''"
  shows "keeps (\<lambda>w'. dstate w' d = action_state j \<and> cb_disabled (objs w' (Def d (other j))))
    (cb_fireWith (call_fn code n) n (Def d j) context args w)"
proof -
  have w: "wfd Map.empty w" using assms(1) by (simp add: well_formed_def)
  have pl: "pend_list d j (objs w (Def d j))"
    using wfdD [OF w, of "Def d j"] assms by (simp add: okl_def)
  let ?\<sigma> = "[d \<mapsto> action_state j]"
  have "keeps (wfd ?\<sigma>) (fire (call_fn code n) n (Def d j) (context, args) w)"
    using model.fire_pending [OF w assms(2-4), of code n n "(context, args)"] by simp
  moreover have "dstate w' d = action_state j \<and> cb_disabled (objs w' (Def d (other j)))" if "wfd ?\<sigma> w'" for w'
  proof -
    have "d < ndef w'" "dstate w' d = action_state j" using wfd_state [OF that, of d] by auto
    with wfdD [OF that, of "Def d (other j)"] assms(3) show ?thesis
      by (auto simp: okl_def cb_disabled_def other_def action_state_def split: if_splits)
  qed
  ultimately have "keeps (\<lambda>w'. dstate w' d = action_state j \<and> cb_disabled (objs w' (Def d (other j))))
      (fire (call_fn code n) n (Def d j) (context, args) w)" by (rule keeps_mono)
  then show ?thesis using pl by (auto simp: cb_fireWith_def Let_def pend_list_def)
qed

lemma deferred_settle_sets_state_witness:
  "keeps (\<lambda>w'. dstate w' 0 = ''resolved'' \<and> cb_disabled (objs w' (Def 0 1)))
    (cb_fireWith (call_fn demo_code 9) 9 (Def 0 0) VUndef [VNum 3] demo_pending)"
  using deferred_settle_sets_state [OF demo_pending_well_formed, of 0 0 demo_code 9 VUndef "[VNum 3]"]
  by (simp add: demo_pending_facts other_def)

section \<open>Resolving calls the done callbacks\<close>

text \<open>Client functions that only return: what a call of one leaves is a longer log.\<close>

definition log_call :: "fn \<Rightarrow> data \<Rightarrow> dworld \<Rightarrow> dworld" where
  "log_call f d w = (case f of Pub (FUser k) \<Rightarrow> w\<lparr>calls := calls w @ [(k, d)]\<rparr> | _ \<Rightarrow> w)"

definition user_value :: "(nat \<Rightarrow> val) \<Rightarrow> fn \<Rightarrow> val" where
  "user_value v f = (case f of Pub (FUser k) \<Rightarrow> v k | _ \<Rightarrow> VUndef)"

lemma pure_user_calls:
  assumes "\<And>k d. code k d = PRet (v k)"
  shows "pure_caller (range (\<lambda>k. Pub (FUser k))) (call_fn code (Suc n)) (user_value v) log_call"
  unfolding pure_caller_def
  by (auto simp: assms user_value_def log_call_def upd_def split: fn.split ufn.split)

lemma fold_log_calls:
  "calls (fold (\<lambda>f. log_call f d) (map (\<lambda>k. Pub (FUser k)) ks) w) = calls w @ map (\<lambda>k. (k, d)) ks"
  "dstate (fold (\<lambda>f. log_call f d) (map (\<lambda>k. Pub (FUser k)) ks) w) = dstate w"
  by (induction ks arbitrary: w) (simp_all add: log_call_def)

lemma reached_all: "reached False g fs = fs"
  by (induction fs) auto

lemma resolve_calls:
  assumes wf: "well_formed w" and d: "d < ndef w" and p: "dstate w d = ''pending''"
    and l: "cblist (objs w (Def d 0)) = Some (state_handlers d 0 @ map (\<lambda>k. Pub (FUser k)) ks)"
    and code: "\<And>k d. code k d = PRet (v k)" and n: "length ks + 4 < n"
  shows "\<exists>w'. cb_fireWith (call_fn code n) n (Def d 0) context args w = Done () w'
    \<and> calls w' = calls w @ map (\<lambda>k. (k, (context, args))) ks \<and> dstate w' d = ''resolved''"
proof -
  obtain m where m: "n = Suc (Suc (Suc (Suc m)))" "length ks < m"
    using n by (intro that [of "n - 4"]) auto
  let ?i = "Def d 0" and ?dd = "(context, args)" and ?call = "call_fn code n"
  let ?us = "map (\<lambda>k. Pub (FUser k)) ks" and ?l = "state_handlers d 0 @ map (\<lambda>k. Pub (FUser k)) ks"
  have w: "wfd Map.empty w" using wf by (simp add: well_formed_def)
  have pl: "pend_list d 0 (objs w ?i)" using wfdD [OF w, of ?i] d p by (simp add: okl_def)
  let ?w0 = "upd ?i (start_fire ?dd ?l) w"
  let ?w1 = "upd ?i (\<lambda>c. c\<lparr>firingIndex := 1\<rparr>) (?w0\<lparr>dstate := (dstate w)(d := ''resolved'')\<rparr>)"
  let ?w2 = "upd ?i (\<lambda>c. c\<lparr>firingIndex := 2\<rparr>) (upd (Def d 1) cb_disable ?w1)"
  let ?w3 = "upd ?i (\<lambda>c. c\<lparr>firingIndex := 3\<rparr>) (upd (Def d 2) cb_lock ?w2)"
  have st: "firingStart (objs w ?i) = 0" "\<not> o_stopOnFalse (objs w ?i)" "o_memory (objs w ?i)"
    "cbstack (objs w ?i) = None" using pl by (auto simp: pend_list_def)
  have s1: "fire_loop ?call (Suc (Suc (Suc m))) ?i ?dd ?w0 = fire_loop ?call (Suc (Suc m)) ?i ?dd ?w1"
    using l st by (simp add: Let_def state_handlers_def arr_get_def start_fire_def upd_def m)
  have s2: "fire_loop ?call (Suc (Suc m)) ?i ?dd ?w1 = fire_loop ?call (Suc m) ?i ?dd ?w2"
    using l st by (simp add: Let_def state_handlers_def arr_get_def start_fire_def upd_def other_def m)
  have s3: "fire_loop ?call (Suc m) ?i ?dd ?w2 = fire_loop ?call m ?i ?dd ?w3"
    using l st by (simp add: Let_def state_handlers_def arr_get_def start_fire_def upd_def m)
  have w3: "cblist (objs ?w3 ?i) = Some ?l" "firingLength (objs ?w3 ?i) = int (length ?l)"
    "firingIndex (objs ?w3 ?i) = int 3" "\<not> o_stopOnFalse (objs ?w3 ?i)"
    "memory (objs ?w3 ?i) = Some ?dd" "cbstack (objs ?w3 ?i) = None"
    using l st by (simp_all add: start_fire_def)
  have dl: "drop 3 ?l = ?us" by (simp add: state_handlers_def)
  have "pure_caller (range (\<lambda>k. Pub (FUser k))) ?call (user_value v) log_call"
    unfolding m(1) by (rule pure_user_calls) (rule code)
  from fire_loop_pure [OF this w3(1-3), of m ?dd] m(2) w3(4) dl
  obtain ix where ix: "fire_loop ?call m ?i ?dd ?w3 = Done () (upd ?i
      (\<lambda>c. c\<lparr>firingIndex := ix, memory := memory c\<rparr>) (fold (\<lambda>f. log_call f ?dd) ?us ?w3))"
    by (auto simp: stopped_def reached_all state_handlers_def)
  let ?u = "fold (\<lambda>f. log_call f ?dd) ?us ?w3"
  have ob: "objs ?u = objs ?w3"
    by (rule fold_pure(1) [OF \<open>pure_caller _ _ _ _\<close>])
  have "fire ?call n ?i ?dd w = Done () (upd ?i (\<lambda>c. c\<lparr>cblist := Some []\<rparr>)
      (upd ?i (\<lambda>c. c\<lparr>firing := False\<rparr>) (upd ?i (\<lambda>c. c\<lparr>firingIndex := ix, memory := memory c\<rparr>) ?u)))"
    using l s1 s2 s3 ix w3 ob unfolding m(1) by (simp add: Let_def)
  then have "\<exists>w'. fire ?call n ?i ?dd w = Done () w' \<and> calls w' = calls w @ map (\<lambda>k. (k, ?dd)) ks
      \<and> dstate w' d = ''resolved''"
    by (auto simp: fold_log_calls)
  moreover have "cb_fireWith ?call n ?i context args w = fire ?call n ?i ?dd w"
    using pl by (auto simp: cb_fireWith_def Let_def pend_list_def)
  ultimately show ?thesis by simp
qed

text \<open>
  C3: resolving a pending Deferred whose done callbacks only return returns itself, given
  fuel above the number of callbacks, and has called each done callback exactly once, in
  the order they were added, with the given context and arguments.
\<close>

theorem deferred_resolve_calls:
  assumes "well_formed w" and "d < ndef w" and "dstate w d = ''pending''"
    and "cblist (objs w (Def d 0)) = Some (state_handlers d 0 @ map (\<lambda>k. Pub (FUser k)) ks)"
    and "\<forall>k d. code k d = PRet (v k)" and "length ks + 4 < n"
  shows "\<exists>w'. cb_fireWith (call_fn code n) n (Def d 0) context args w = Done () w'
    \<and> calls w' = calls w @ map (\<lambda>k. (k, (context, args))) ks \<and> dstate w' d = ''resolved''"
  by (rule resolve_calls) (use assms in auto)

lemma demo_pending_list: "cblist (objs demo_pending (Def 0 0)) = Some (state_handlers 0 0 @ map (\<lambda>k. Pub (FUser k)) [7])"
proof -
  let ?c = "add_args (map AFn (state_handlers 0 0)) (new_callbacks (createOptions ''once memory''))"
  have "objs demo_pending (Def 0 0) = add_args [AFn (Pub (FUser 7))] ?c"
    by (simp add: demo_pending_def new_deferred_def init_world_def Let_def)
  moreover have c: "cblist ?c = Some ([] @ args_fns (map AFn (state_handlers 0 0)))"
    by (rule add_args_append) (simp_all add: new_callbacks_def)
  moreover have "cblist (add_args [AFn (Pub (FUser 7))] ?c)
      = Some (([] @ args_fns (map AFn (state_handlers 0 0))) @ args_fns [AFn (Pub (FUser 7))])"
    by (rule add_args_append [OF _ c]) (simp add: add_args_frame new_callbacks_def)
  ultimately show ?thesis by simp
qed

lemma deferred_resolve_calls_witness:
  "\<exists>w'. cb_fireWith (call_fn demo_code 9) 9 (Def 0 0) VUndef [VNum 3] demo_pending = Done () w'
    \<and> calls w' = [(7, (VUndef, [VNum 3]))] \<and> dstate w' 0 = ''resolved''"
  using deferred_resolve_calls [OF demo_pending_well_formed _ _ demo_pending_list, of demo_code "\<lambda>k. VNum (int k)" 9 VUndef "[VNum 3]"]
  by (simp add: demo_pending_facts demo_code_def)

lemma deferred_settles_once_witness:
  "\<exists>w. dstate w 0 = ''resolved'' \<and> keeps (\<lambda>w'. well_formed w' \<and> dstate w' 0 = ''resolved'' \<and> cb_disabled (objs w' (Def 0 1)))
    (run_prog (PDo (DSettleWith 0 1 VUndef []) (PRet VUndef)) (call_fn demo_code 9) 9 w)"
proof -
  have "\<forall>k d. demo_code k d = PRet (VNum (int k))" by (simp add: demo_code_def)
  with resolve_calls [OF demo_pending_well_formed _ _ demo_pending_list, of demo_code "\<lambda>k. VNum (int k)" 9 VUndef "[VNum 3]"]
  obtain w where w: "cb_fireWith (call_fn demo_code 9) 9 (Def 0 0) VUndef [VNum 3] demo_pending = Done () w"
    "dstate w 0 = ''resolved''" by (auto simp: demo_pending_facts)
  have "keeps well_formed (run_prog (PDo (DSettleWith 0 0 VUndef [VNum 3]) (PRet VUndef)) (call_fn demo_code 9) 9 demo_pending)"
    by (rule run_well_formed [OF demo_pending_well_formed])
  with w have wf: "well_formed w" by simp
  have "wfd [0 \<mapsto> ''resolved''] w"
  proof -
    have "keeps (wfd [0 \<mapsto> action_state 0]) (fire (call_fn demo_code 9) 9 (Def 0 0) (VUndef, [VNum 3]) demo_pending)"
      using model.fire_pending [of Map.empty demo_pending 0 0 demo_code 9 9] demo_pending_well_formed
      by (simp add: well_formed_def demo_pending_facts)
    moreover have "fire (call_fn demo_code 9) 9 (Def 0 0) (VUndef, [VNum 3]) demo_pending = Done () w"
    proof -
      have "pend_list 0 0 (objs demo_pending (Def 0 0))"
        using demo_pending_well_formed wfdD [of Map.empty demo_pending "Def 0 0"]
        by (simp add: well_formed_def okl_def demo_pending_facts)
      with w(1) show ?thesis by (auto simp: cb_fireWith_def Let_def pend_list_def)
    qed
    ultimately show ?thesis by simp
  qed
  then have "0 < ndef w" using wfd_state by force
  from deferred_settles_once [OF wf this, of 0 "PDo (DSettleWith 0 1 VUndef []) (PRet VUndef)" demo_code 9] w(2)
  have "keeps (\<lambda>w'. well_formed w' \<and> dstate w' 0 = ''resolved'' \<and> cb_disabled (objs w' (Def 0 1)))
      (run_prog (PDo (DSettleWith 0 1 VUndef []) (PRet VUndef)) (call_fn demo_code 9) 9 w)"
    by (simp add: other_def del: run_prog.simps)
  with w(2) show ?thesis by blast
qed

text \<open>
  C5: starting from the initial world, whatever lists, Deferreds and programs a client
  builds, a call of \<open>undefined\<close> never happens inside the callback machinery: while a list
  fires its indices are in bounds, so the only exceptions are those client functions throw.
\<close>

theorem machinery_never_throws:
  assumes "\<forall>k d. throws_only E (code k d)" and "throws_only E p"
  shows "within E (\<lambda>w'. \<forall>i. idx_ok (objs w' i)) (run_prog p (call_fn code n) n init_world)"
proof -
  have bc: "bounded_caller (call_fn code n) E"
    by (rule bounded_caller_call_fn) (use assms(1) in blast)
  have "indexed dfresh {} init_world" using init_well_formed by (simp add: well_formed_def)
  from bounded_caller.run_prog_indexed [OF bc this assms(2)]
  show ?thesis by (rule within_mono) (simp add: indexed_def)
qed

lemma machinery_never_throws_witness:
  "within (\<lambda>e. False) (\<lambda>w'. \<forall>i. idx_ok (objs w' i))
    (run_prog (PDo (LNew ''once'') (PDo (LAdd 0 [FUser 1]) (PDo (LFireWith 0 VNull []) (PRet VUndef)))) (call_fn demo_code 9) 9 init_world)"
  by (rule machinery_never_throws) (simp_all add: demo_code_def)

text \<open>
  C7: when a callback throws out of a list that is being fired, the list stays marked as
  firing, whatever list of whatever well-formed world it is and whichever callback throws. And
  that is for ever: after any program of the client, however it ends, firing that list does
  no more than queue the arguments, and adding to it calls nothing, so that none of its
  callbacks is called again.
\<close>

theorem throw_leaves_list_firing:
  assumes "well_formed w" and "cb_fireWith (call_fn code m) m i context args w = Exn e w1"
  shows "firing (objs w1 i) \<and>
    keeps (\<lambda>w2. firing (objs w2 i) \<and>
        (\<forall>call k this as. cb_fireWith call k i this as w2 = Done () w2 \<or>
           (\<exists>ds. cb_fireWith call k i this as w2 = Done () (upd i (\<lambda>c. c\<lparr>cbstack := Some (ds @ [(this, as)])\<rparr>) w2))) \<and>
        (\<forall>fs. \<exists>w3. \<forall>call k. cb_add call k i fs w2 = Done () w3))
      (run_prog p (call_fn code' n) n w1)"
proof -
  have "indexed dfresh {} w" using assms(1) by (simp add: well_formed_def)
  then have w1: "indexed dfresh {i} w1" using assms(2) by (rule anything.fireWith_throws)
  have "keeps (indexed dfresh {i}) (run_prog p (call_fn code' n) n w1)"
    unfolding keeps_within by (rule anything.run_prog_indexed [OF w1 throws_anything])
  then have "keeps (\<lambda>w2. firing (objs w2 i) \<and>
        (\<forall>call k this as. cb_fireWith call k i this as w2 = Done () w2 \<or>
           (\<exists>ds. cb_fireWith call k i this as w2 = Done () (upd i (\<lambda>c. c\<lparr>cbstack := Some (ds @ [(this, as)])\<rparr>) w2))) \<and>
        (\<forall>fs. \<exists>w3. \<forall>call k. cb_add call k i fs w2 = Done () w3))
      (run_prog p (call_fn code' n) n w1)"
  proof (rule keeps_mono)
    fix w2 assume "indexed dfresh {i} w2"
    then have "firing (objs w2 i)" "idx_ok (objs w2 i)" by (auto dest: indexedD)
    then show "firing (objs w2 i) \<and>
        (\<forall>call k this as. cb_fireWith call k i this as w2 = Done () w2 \<or>
           (\<exists>ds. cb_fireWith call k i this as w2 = Done () (upd i (\<lambda>c. c\<lparr>cbstack := Some (ds @ [(this, as)])\<rparr>) w2))) \<and>
        (\<forall>fs. \<exists>w3. \<forall>call k. cb_add call k i fs w2 = Done () w3)"
      using firing_only_queues firing_add_only_appends by blast
  qed
  then show ?thesis using w1 by (auto dest: indexedD)
qed

text \<open>A list of two callbacks, of which the second throws.\<close>

definition throwing_code :: "nat \<Rightarrow> data \<Rightarrow> prog" where
  "throwing_code k d = (if k = 2 then PThrow (VStr ''boom'') else PRet VUndef)"

definition two_callbacks :: "(val, val, dworld) res" where
  "two_callbacks = run_prog (PDo (LNew []) (PDo (LAdd 0 [FUser 1, FUser 2]) (PRet VUndef))) (call_fn throwing_code 9) 9 init_world"

lemma throw_leaves_list_firing_witness:
  "case two_callbacks of
     Done v w \<Rightarrow> (case cb_fireWith (call_fn throwing_code 9) 9 (Own 0) VNull [] w of
        Exn e w1 \<Rightarrow> firing (objs w1 (Own 0)) \<and> map fst (calls w1) = [1, 2] | _ \<Rightarrow> False)
   | _ \<Rightarrow> False"
proof -
  have c: "case two_callbacks of
     Done v w \<Rightarrow> (case cb_fireWith (call_fn throwing_code 9) 9 (Own 0) VNull [] w of
        Exn e w1 \<Rightarrow> map fst (calls w1) = [1, 2] | _ \<Rightarrow> False)
   | _ \<Rightarrow> False" by code_simp
  have k: "keeps well_formed two_callbacks" unfolding two_callbacks_def by (rule run_well_formed [OF init_well_formed])
  obtain v w e w1 where w: "two_callbacks = Done v w" "cb_fireWith (call_fn throwing_code 9) 9 (Own 0) VNull [] w = Exn e w1"
    using c by (auto split: res.splits)
  have "well_formed w" using k unfolding w(1) keeps_simps .
  from conjunct1 [OF throw_leaves_list_firing [OF this w(2)]] show ?thesis using c unfolding w res.case ..
qed

end
