(* ===== verification/JqObject.thy ===== *)
theory JqObject
  imports JqCore
begin

text \<open>
  Objects on a heap, and the part of \<open>democlient/js/jquery.js\<close> that inspects them: \<open>type\<close>,
  \<open>isFunction\<close>, \<open>isWindow\<close>, \<open>isPlainObject\<close>, \<open>isEmptyObject\<close> and \<open>isArraylike\<close>. An object keeps its own properties and those it
  inherits, each with the flag that says whether \<open>for-in\<close> visits it, so that aliasing and
  enumeration order are those of the language.
\<close>

section \<open>The heap\<close>

type_synonym props = "(string \<times> bool \<times> jsval) list"

record jsobj =
  cls :: string    \<comment> \<open>the internal class, as \<open>Object.prototype.toString\<close> shows it\<close>
  own :: props
  proto :: props   \<comment> \<open>what the prototype chain contributes\<close>

record jsworld =
  hp :: "nat \<Rightarrow> jsobj"
  nextref :: nat
  objectCtor :: nat   \<comment> \<open>the global \<open>Object\<close> function\<close>
  arrayCtor :: nat    \<comment> \<open>the global \<open>Array\<close> function\<close>
  ownLast :: bool     \<comment> \<open>\<open>jQuery.support.ownLast\<close>\<close>

definition obj_get :: "jsobj \<Rightarrow> string \<Rightarrow> jsval" where
  "obj_get ob k = (case map_of (own ob) k of Some (e, v) \<Rightarrow> v
     | None \<Rightarrow> (case map_of (proto ob) k of Some (e, v) \<Rightarrow> v | None \<Rightarrow> Undef))"

definition has_own :: "jsobj \<Rightarrow> string \<Rightarrow> bool" where
  "has_own ob k = (k \<in> fst ` set (own ob))"

definition has_prop :: "jsobj \<Rightarrow> string \<Rightarrow> bool" where
  "has_prop ob k = (k \<in> fst ` set (own ob) \<or> k \<in> fst ` set (proto ob))"

definition is_index :: "string \<Rightarrow> bool" where
  "is_index k = (nat_str (str_nat k) = k)"

text \<open>Assigning to an index of an array beyond its end moves its \<open>length\<close>.\<close>

definition bump_length :: "string \<Rightarrow> props \<Rightarrow> props" where
  "bump_length k ps =
     (case map_of ps ''length'' of
        Some (e, Num n) \<Rightarrow> if n \<le> int (str_nat k)
                           then put_prop ''length'' (e, Num (int (str_nat k) + 1)) ps else ps
      | _ \<Rightarrow> ps)"

definition obj_put :: "jsobj \<Rightarrow> string \<Rightarrow> jsval \<Rightarrow> jsobj" where
  "obj_put ob k v =
     (let ps = (case map_of (own ob) k of
                  Some (e, _) \<Rightarrow> put_prop k (e, v) (own ob)
                | None \<Rightarrow> put_prop k (True, v) (own ob))
      in ob\<lparr>own := (if cls ob = ''Array'' \<and> is_index k then bump_length k ps else ps)\<rparr>)"

text \<open>Properties of any value: a string has its characters and its length.\<close>

fun val_get :: "'z jsworld_scheme \<Rightarrow> jsval \<Rightarrow> string \<Rightarrow> jsval" where
  "val_get w (Obj r) k = obj_get (hp w r) k"
| "val_get w (Str s) k =
     (if k = ''length'' then Num (int (length s))
      else if is_index k \<and> str_nat k < length s then Str [s ! str_nat k] else Undef)"
| "val_get w _ k = Undef"

text \<open>The names a \<open>for-in\<close> loop visits, in order; old browsers visit inherited ones first.\<close>

definition enum :: "props \<Rightarrow> string list" where
  "enum ps = map fst (filter (\<lambda>p. fst (snd p)) ps)"

definition obj_names :: "bool \<Rightarrow> jsobj \<Rightarrow> string list" where
  "obj_names ol ob =
     (let inh = filter (\<lambda>k. \<not> has_own ob k) (enum (proto ob))
      in if ol then inh @ enum (own ob) else enum (own ob) @ inh)"

fun for_in :: "'z jsworld_scheme \<Rightarrow> jsval \<Rightarrow> string list" where
  "for_in w (Obj r) = obj_names (ownLast w) (hp w r)"
| "for_in w (Str s) = map nat_str [0..<length s]"
| "for_in w _ = []"

definition put :: "nat \<Rightarrow> string \<Rightarrow> jsval \<Rightarrow> 'z jsworld_scheme \<Rightarrow> 'z jsworld_scheme" where
  "put r k v w = w\<lparr>hp := (hp w)(r := obj_put (hp w r) k v)\<rparr>"

text \<open>The literals \<open>{}\<close> and \<open>[]\<close>.\<close>

definition new_object :: "'z jsworld_scheme \<Rightarrow> nat \<times> 'z jsworld_scheme" where
  "new_object w = (nextref w,
     w\<lparr>hp := (hp w)(nextref w := \<lparr>cls = ''Object'', own = [],
                        proto = [(''constructor'', False, Obj (objectCtor w))]\<rparr>),
       nextref := Suc (nextref w)\<rparr>)"

definition new_array :: "'z jsworld_scheme \<Rightarrow> nat \<times> 'z jsworld_scheme" where
  "new_array w = (nextref w,
     w\<lparr>hp := (hp w)(nextref w := \<lparr>cls = ''Array'', own = [(''length'', False, Num 0)],
                        proto = [(''constructor'', False, Obj (arrayCtor w))]\<rparr>),
       nextref := Suc (nextref w)\<rparr>)"

section \<open>Type tests\<close>

definition class2type :: "(string \<times> string) list" where
  "class2type = map (\<lambda>n. (''[object '' @ n @ '']'', lower n))
     [''Boolean'', ''Number'', ''String'', ''Function'', ''Array'', ''Date'', ''RegExp'', ''Object'', ''Error'']"

definition core_toString :: "jsobj \<Rightarrow> string" where
  "core_toString ob = ''[object '' @ cls ob @ '']''"

fun jq_type :: "'z jsworld_scheme \<Rightarrow> jsval \<Rightarrow> string" where
  "jq_type w Undef = ''undefined''"
| "jq_type w Null = ''null''"
| "jq_type w (Obj r) = (case map_of class2type (core_toString (hp w r)) of Some t \<Rightarrow> t | None \<Rightarrow> ''object'')"
| "jq_type w (Bool b) = ''boolean''"
| "jq_type w (Num n) = ''number''"
| "jq_type w NaN = ''number''"
| "jq_type w (Str s) = ''string''"

definition isFunction :: "'z jsworld_scheme \<Rightarrow> jsval \<Rightarrow> bool" where
  "isFunction w v = (jq_type w v = ''function'')"

definition isArray :: "'z jsworld_scheme \<Rightarrow> jsval \<Rightarrow> bool" where
  "isArray w v = (jq_type w v = ''array'')"

definition isWindow :: "'z jsworld_scheme \<Rightarrow> jsval \<Rightarrow> bool" where
  "isWindow w v = (\<not> nullish v \<and> v = val_get w v ''window'')"

text \<open>
  The constructor test of \<open>isPlainObject\<close>. Reading \<open>prototype\<close> from a constructor that has
  none gives undefined, and \<open>hasOwnProperty.call( undefined, .. )\<close> throws, which the
  \<open>catch\<close> turns into \<open>false\<close>.
\<close>

definition ctor_ok :: "'z jsworld_scheme \<Rightarrow> jsobj \<Rightarrow> bool" where
  "ctor_ok w ob =
     (let c = obj_get ob ''constructor'' in
      if truthy c \<and> \<not> has_own ob ''constructor''
      then (case val_get w c ''prototype'' of
              Obj p \<Rightarrow> has_own (hp w p) ''isPrototypeOf''
            | _ \<Rightarrow> False)
      else True)"

definition own_only :: "bool \<Rightarrow> jsobj \<Rightarrow> bool" where
  "own_only ol ob =
     (let names = obj_names ol ob in
      if ol then (case names of key # _ \<Rightarrow> has_own ob key | [] \<Rightarrow> True)
      else names = [] \<or> has_own ob (last names))"

definition isPlainObject :: "'z jsworld_scheme \<Rightarrow> jsval \<Rightarrow> bool" where
  "isPlainObject w v =
     (case v of
        Obj r \<Rightarrow>
          (if jq_type w v \<noteq> ''object'' \<or> truthy (val_get w v ''nodeType'') \<or> isWindow w v then False
           else ctor_ok w (hp w r) \<and> own_only (ownLast w) (hp w r))
      | _ \<Rightarrow> False)"

definition isEmptyObject :: "'z jsworld_scheme \<Rightarrow> jsval \<Rightarrow> bool" where
  "isEmptyObject w v = (for_in w v = [])"

text \<open>\<open>isArraylike\<close> of an object; \<open>( length - 1 ) in obj\<close> looks at inherited names too.\<close>

definition isArraylike :: "'z jsworld_scheme \<Rightarrow> nat \<Rightarrow> bool" where
  "isArraylike w r =
     (let ob = hp w r; len = obj_get ob ''length''; t = jq_type w (Obj r) in
      if isWindow w (Obj r) then False
      else if obj_get ob ''nodeType'' = Num 1 \<and> truthy len then True
      else t = ''array'' \<or>
        (t \<noteq> ''function'' \<and>
          (len = Num 0 \<or>
           (case len of Num n \<Rightarrow> n > 0 \<and> has_prop ob (int_str (n - 1)) | _ \<Rightarrow> False))))"

text \<open>
  Whichever order the browser enumerates in, \<open>own_only\<close> decides whether the object has an
  enumerable inherited property, because inherited names come in one block.
\<close>

lemma set_enum_own: "k \<in> set (enum (own ob)) \<Longrightarrow> has_own ob k"
  by (auto simp: enum_def has_own_def)

lemma own_only_iff:
  "own_only ol ob \<longleftrightarrow> (\<forall>k \<in> set (enum (proto ob)). has_own ob k)"
proof -
  let ?inh = "filter (\<lambda>k. \<not> has_own ob k) (enum (proto ob))"
  have inh: "?inh = [] \<longleftrightarrow> (\<forall>k \<in> set (enum (proto ob)). has_own ob k)"
    by (auto simp: filter_empty_conv)
  show ?thesis
  proof (cases ol)
    case True
    have "own_only True ob \<longleftrightarrow> ?inh = []"
    proof (cases ?inh)
      case Nil
      then show ?thesis
        by (auto simp: own_only_def obj_names_def Let_def set_enum_own split: list.splits)
    next
      case (Cons k ks)
      then have "k \<in> set ?inh" by simp
      then have "\<not> has_own ob k" by simp
      with Cons show ?thesis by (simp add: own_only_def obj_names_def Let_def)
    qed
    with True inh show ?thesis by simp
  next
    case False
    have "own_only False ob \<longleftrightarrow> ?inh = []"
    proof (cases "?inh = []")
      case True
      have "enum (own ob) = [] \<or> has_own ob (last (enum (own ob)))"
        using last_in_set set_enum_own by blast
      with True show ?thesis by (simp add: own_only_def obj_names_def Let_def)
    next
      case ne: False
      then have "last ?inh \<in> set ?inh" by (rule last_in_set)
      then have "\<not> has_own ob (last ?inh)" by simp
      with ne show ?thesis by (simp add: own_only_def obj_names_def Let_def)
    qed
    with False inh show ?thesis by simp
  qed
qed

end
