(* ===== verification/JqExtend.thy ===== *)
theory JqExtend
  imports JqObject
begin

text \<open>
  \<open>jQuery.each\<close> over objects of the heap, and \<open>jQuery.extend\<close>: the argument handling and the
  merge loops of the source. The recursion of a deep copy follows the structure of the
  sources, which may be cyclic, so it takes fuel; \<open>extend_terminates\<close> says how much is
  enough on sources without cycles. What a deep copy then looks like is in \<open>JqExtendCopy\<close>.
\<close>

section \<open>each\<close>

text \<open>
  The callback is called with its \<open>this\<close> and its arguments; it ends the loop by returning
  \<open>false\<close>. A property deleted before its turn is not visited.
\<close>

type_synonym ('e, 'z) callback = "jsval \<Rightarrow> jsval list \<Rightarrow> 'z jsworld_scheme \<Rightarrow> ('e, jsval, 'z jsworld_scheme) res"

definition call_args :: "jsval list option \<Rightarrow> jsval \<Rightarrow> jsval \<Rightarrow> jsval list" where
  "call_args args key v = (case args of Some a \<Rightarrow> a | None \<Rightarrow> [key, v])"

fun each_index :: "('e, 'z) callback \<Rightarrow> jsval list option \<Rightarrow> nat \<Rightarrow> nat list
    \<Rightarrow> 'z jsworld_scheme \<Rightarrow> ('e, unit, 'z jsworld_scheme) res" where
  "each_index callback args r [] w = Done () w"
| "each_index callback args r (i # is) w =
     (let v = val_get w (Obj r) (nat_str i) in
      bindR (callback v (call_args args (Num (int i)) v) w) (\<lambda>value w'.
        if value = Bool False then Done () w' else each_index callback args r is w'))"

fun each_name :: "('e, 'z) callback \<Rightarrow> jsval list option \<Rightarrow> nat \<Rightarrow> string list
    \<Rightarrow> 'z jsworld_scheme \<Rightarrow> ('e, unit, 'z jsworld_scheme) res" where
  "each_name callback args r [] w = Done () w"
| "each_name callback args r (k # ks) w =
     (if \<not> has_prop (hp w r) k then each_name callback args r ks w
      else (let v = val_get w (Obj r) k in
            bindR (callback v (call_args args (Str k) v) w) (\<lambda>value w'.
              if value = Bool False then Done () w' else each_name callback args r ks w')))"

definition each :: "nat \<Rightarrow> ('e, 'z) callback \<Rightarrow> jsval list option \<Rightarrow> 'z jsworld_scheme
    \<Rightarrow> ('e, nat, 'z jsworld_scheme) res" where
  "each r callback args w =
     bindR (if isArraylike w r
            then each_index callback args r
                   [0..<(case obj_get (hp w r) ''length'' of Num n \<Rightarrow> nat n | _ \<Rightarrow> 0)] w
            else each_name callback args r (for_in w (Obj r)) w)
       (\<lambda>_ w'. Done r w')"

text \<open>Every world a loop leaves satisfies what each call of the callback keeps.\<close>

lemma each_index_keeps:
  assumes "\<And>this as w. I w \<Longrightarrow> keeps I (callback this as w)" and "I w"
  shows "keeps I (each_index callback args r is w)"
  using assms(2)
proof (induction "is" arbitrary: w)
  case (Cons i "is")
  show ?case
    by (simp add: Let_def) (rule keeps_bindR, rule assms(1), rule Cons.prems, auto intro: Cons.IH)
qed simp

lemma each_name_keeps:
  assumes "\<And>this as w. I w \<Longrightarrow> keeps I (callback this as w)" and "I w"
  shows "keeps I (each_name callback args r ks w)"
  using assms(2)
proof (induction ks arbitrary: w)
  case (Cons k ks)
  show ?case
  proof (cases "has_prop (hp w r) k")
    case True
    then show ?thesis
      by (simp add: Let_def) (rule keeps_bindR, rule assms(1), rule Cons.prems, auto intro: Cons.IH)
  qed (simp add: Cons)
qed simp

lemma each_keeps:
  assumes "\<And>this as w. I w \<Longrightarrow> keeps I (callback this as w)" and "I w"
  shows "keeps I (each r callback args w)"
  unfolding each_def
  by (rule keeps_bindR) (auto intro: each_index_keeps each_name_keeps assms)

section \<open>extend\<close>

definition copyable :: "'z jsworld_scheme \<Rightarrow> jsval \<Rightarrow> bool" where
  "copyable w v = (isPlainObject w v \<or> isArray w v)"

text \<open>
  The clone a deep merge continues in: what the target already has when it is of the same
  kind, a fresh literal otherwise.
\<close>

definition choose_clone :: "jsval \<Rightarrow> jsval \<Rightarrow> 'z jsworld_scheme \<Rightarrow> nat \<times> 'z jsworld_scheme" where
  "choose_clone src copy w =
     (if isPlainObject w copy
      then (case src of Obj r \<Rightarrow> if isPlainObject w src then (r, w) else new_object w
                      | _ \<Rightarrow> new_object w)
      else (case src of Obj r \<Rightarrow> if isArray w src then (r, w) else new_array w
                      | _ \<Rightarrow> new_array w))"

fun extend_names :: "(nat \<Rightarrow> jsval \<Rightarrow> 'z jsworld_scheme \<Rightarrow> 'z jsworld_scheme option) \<Rightarrow> bool \<Rightarrow> nat
    \<Rightarrow> jsval \<Rightarrow> string list \<Rightarrow> 'z jsworld_scheme \<Rightarrow> 'z jsworld_scheme option" where
  "extend_names recur deep target options [] w = Some w"
| "extend_names recur deep target options (name # names) w =
     (let src = val_get w (Obj target) name; copy = val_get w options name in
      if strict_eq (Obj target) copy then extend_names recur deep target options names w
      else if deep \<and> truthy copy \<and> copyable w copy
      then (case choose_clone src copy w of (clone, w1) \<Rightarrow>
              (case recur clone copy w1 of
                 None \<Rightarrow> None
               | Some w2 \<Rightarrow> extend_names recur deep target options names (put target name (Obj clone) w2)))
      else if copy \<noteq> Undef
      then extend_names recur deep target options names (put target name copy w)
      else extend_names recur deep target options names w)"

fun extend_sources :: "(nat \<Rightarrow> jsval \<Rightarrow> 'z jsworld_scheme \<Rightarrow> 'z jsworld_scheme option) \<Rightarrow> bool \<Rightarrow> nat
    \<Rightarrow> jsval list \<Rightarrow> 'z jsworld_scheme \<Rightarrow> 'z jsworld_scheme option" where
  "extend_sources recur deep target [] w = Some w"
| "extend_sources recur deep target (options # rest) w =
     (if nullish options then extend_sources recur deep target rest w
      else (case extend_names recur deep target options (for_in w options) w of
              None \<Rightarrow> None
            | Some w' \<Rightarrow> extend_sources recur deep target rest w'))"

fun extend_into :: "nat \<Rightarrow> bool \<Rightarrow> nat \<Rightarrow> jsval list \<Rightarrow> 'z jsworld_scheme \<Rightarrow> 'z jsworld_scheme option" where
  "extend_into 0 deep target sources w = None"
| "extend_into (Suc n) deep target sources w =
     extend_sources (\<lambda>clone copy. extend_into n deep clone [copy]) deep target sources w"

text \<open>
  The argument handling: \<open>this\<close> is the object \<open>extend\<close> was called on. Only a leading \<open>true\<close>
  asks for a deep copy, because \<open>arguments[0] || {}\<close> has already replaced a \<open>false\<close>.
\<close>

definition target_object :: "jsval \<Rightarrow> 'z jsworld_scheme \<Rightarrow> nat \<times> 'z jsworld_scheme" where
  "target_object v w = (case v of Obj r \<Rightarrow> (r, w) | _ \<Rightarrow> new_object w)"

definition jq_arg :: "jsval list \<Rightarrow> nat \<Rightarrow> jsval" where
  "jq_arg args i = (if i < length args then args ! i else Undef)"

definition extend :: "nat \<Rightarrow> nat \<Rightarrow> jsval list \<Rightarrow> 'z jsworld_scheme \<Rightarrow> (nat \<times> 'z jsworld_scheme) option" where
  "extend fuel this args w =
     (let deep = (jq_arg args 0 = Bool True);
          i = (if deep then 2 else 1 :: nat);
          t0 = (if deep then jq_arg args 1 else jq_arg args 0);
          (target, w1) = (if length args = i then (this, w) else target_object t0 w);
          first = (if length args = i then i - 1 else i)
      in map_option (\<lambda>w'. (target, w')) (extend_into fuel deep target (drop first args) w1))"

section \<open>What a property write changes\<close>

lemma bump_length_other: "k' \<noteq> ''length'' \<Longrightarrow> map_of (bump_length k ps) k' = map_of ps k'"
  by (auto simp: bump_length_def split: option.splits jsval.splits)

lemma bump_length_length:
  "map_of (bump_length k ps) ''length'' = map_of ps ''length'' \<or>
   (\<exists>e n. map_of (bump_length k ps) ''length'' = Some (e, Num n))"
  by (auto simp: bump_length_def split: option.splits jsval.splits prod.splits)

lemma not_index_length: "\<not> is_index ''length''"
proof
  assume "is_index ''length''"
  then have "CHR ''l'' \<in> set (nat_str (str_nat ''length''))" by (simp add: is_index_def)
  then have "is_digit (CHR ''l'')" by (rule nat_str_digits)
  then show False by (simp add: is_digit_def)
qed

text \<open>The own properties after a write, before \<open>length\<close> is adjusted.\<close>

definition write_own :: "jsobj \<Rightarrow> string \<Rightarrow> jsval \<Rightarrow> props" where
  "write_own ob k v = (case map_of (own ob) k of
     Some (e, x) \<Rightarrow> put_prop k (e, v) (own ob) | None \<Rightarrow> put_prop k (True, v) (own ob))"

lemma own_obj_put:
  "own (obj_put ob k v) =
     (if cls ob = ''Array'' \<and> is_index k then bump_length k (write_own ob k v) else write_own ob k v)"
  by (simp add: obj_put_def write_own_def Let_def)

lemma proto_obj_put [simp]: "proto (obj_put ob k v) = proto ob"
  by (simp add: obj_put_def Let_def)

lemma map_of_write_own: "k' \<noteq> k \<Longrightarrow> map_of (write_own ob k v) k' = map_of (own ob) k'"
  by (auto simp: write_own_def split: option.splits)

lemma map_of_write_own_same: "\<exists>e. map_of (write_own ob k v) k = Some (e, v)"
  by (auto simp: write_own_def split: option.splits)

lemma obj_get_put_same: "obj_get (obj_put ob k v) k = v"
proof (cases "cls ob = ''Array'' \<and> is_index k")
  case True
  then have "k \<noteq> ''length''" using not_index_length by auto
  then show ?thesis
    using True map_of_write_own_same [of ob k v] by (auto simp: obj_get_def own_obj_put bump_length_other)
next
  case False
  then show ?thesis
    using map_of_write_own_same [of ob k v] by (auto simp: obj_get_def own_obj_put)
qed

lemma obj_get_put_other:
  assumes "k' \<noteq> k"
  shows "obj_get (obj_put ob k v) k' = obj_get ob k' \<or> (k' = ''length'' \<and> (\<exists>n. obj_get (obj_put ob k v) k' = Num n))"
proof (cases "map_of (own (obj_put ob k v)) k' = map_of (own ob) k'")
  case True
  then show ?thesis by (simp only: obj_get_def proto_obj_put) simp
next
  case False
  with map_of_write_own [OF assms, of ob v]
  have b: "own (obj_put ob k v) = bump_length k (write_own ob k v)" "k' = ''length''"
    by (metis own_obj_put, metis bump_length_other own_obj_put)
  with False map_of_write_own [OF assms, of ob v]
  obtain e n where "map_of (own (obj_put ob k v)) k' = Some (e, Num n)"
    using bump_length_length [of k "write_own ob k v"] by auto
  with b show ?thesis by (simp add: obj_get_def)
qed

lemma cls_obj_put [simp]: "cls (obj_put ob k v) = cls ob"
  by (simp add: obj_put_def Let_def)

section \<open>Deep copies leave the sources alone\<close>

text \<open>
  \<open>region S w\<close>: a set of objects closed under every reference its members hold; nothing
  outside it holds one of its copyable objects; and it was allocated before.
\<close>

definition region :: "nat set \<Rightarrow> 'z jsworld_scheme \<Rightarrow> bool" where
  "region S w \<longleftrightarrow>
     (\<forall>r \<in> S. \<forall>k r'. obj_get (hp w r) k = Obj r' \<longrightarrow> r' \<in> S) \<and>
     (\<forall>r. r \<notin> S \<longrightarrow> (\<forall>k r'. obj_get (hp w r) k = Obj r' \<and> r' \<in> S \<longrightarrow> \<not> copyable w (Obj r'))) \<and>
     (\<forall>r \<in> S. r < nextref w) \<and>
     (\<forall>c \<in> {objectCtor w, arrayCtor w}. c \<in> S \<longrightarrow> \<not> copyable w (Obj c))"

definition source_in :: "nat set \<Rightarrow> jsval \<Rightarrow> bool" where
  "source_in S v = (case v of Obj r \<Rightarrow> r \<in> S | _ \<Rightarrow> True)"

text \<open>Two worlds that agree on the region and on the environment.\<close>

definition agree :: "nat set \<Rightarrow> 'z jsworld_scheme \<Rightarrow> 'z jsworld_scheme \<Rightarrow> bool" where
  "agree S w w' \<longleftrightarrow> (\<forall>r \<in> S. hp w' r = hp w r) \<and> ownLast w' = ownLast w
     \<and> objectCtor w' = objectCtor w \<and> arrayCtor w' = arrayCtor w \<and> nextref w \<le> nextref w'"

lemma agree_refl [simp]: "agree S w w"
  by (simp add: agree_def)

lemma agree_trans: "agree S w w1 \<Longrightarrow> agree S w1 w2 \<Longrightarrow> agree S w w2"
  by (auto simp: agree_def)

lemma regionD_closed: "region S w \<Longrightarrow> r \<in> S \<Longrightarrow> obj_get (hp w r) k = Obj r' \<Longrightarrow> r' \<in> S"
  by (auto simp: region_def)

lemma regionD_out:
  "region S w \<Longrightarrow> r \<notin> S \<Longrightarrow> obj_get (hp w r) k = Obj r' \<Longrightarrow> copyable w (Obj r') \<Longrightarrow> r' \<notin> S"
  by (auto simp: region_def)

text \<open>Whether an object of the region is copied is decided inside the region.\<close>

lemma copyable_agree:
  assumes rg: "region S w" and ag: "agree S w w'" and r: "r \<in> S"
  shows "copyable w' (Obj r) = copyable w (Obj r)" "isPlainObject w' (Obj r) = isPlainObject w (Obj r)"
proof -
  from ag r have hr: "hp w' r = hp w r" and ol: "ownLast w' = ownLast w" by (auto simp: agree_def)
  have ty: "jq_type w' (Obj r) = jq_type w (Obj r)" by (simp only: jq_type.simps hr)
  have ct: "ctor_ok w' (hp w r) = ctor_ok w (hp w r)"
  proof (cases "obj_get (hp w r) ''constructor''")
    case (Obj c)
    with rg r have c: "c \<in> S" by (rule regionD_closed)
    with ag have hc: "hp w' c = hp w c" by (simp add: agree_def)
    show ?thesis
    proof (cases "obj_get (hp w c) ''prototype''")
      case (Obj p)
      with rg c have "p \<in> S" by (rule regionD_closed)
      with ag have "hp w' p = hp w p" by (simp add: agree_def)
      then show ?thesis by (simp add: ctor_ok_def Let_def hc Obj \<open>obj_get (hp w r) ''constructor'' = Obj c\<close>)
    qed (simp_all add: ctor_ok_def Let_def hc \<open>obj_get (hp w r) ''constructor'' = Obj c\<close>)
  next
    case (Str s)
    then show ?thesis by (simp add: ctor_ok_def Let_def)
  qed (simp_all add: ctor_ok_def Let_def)
  show p: "isPlainObject w' (Obj r) = isPlainObject w (Obj r)"
    by (simp only: isPlainObject_def jsval.case ty isWindow_def val_get.simps hr ct ol)
  show "copyable w' (Obj r) = copyable w (Obj r)"
    by (simp only: copyable_def p isArray_def ty)
qed

lemma region_agree_write:
  assumes rg: "region S w" and t: "t \<notin> S"
    and v: "\<And>r'. v = Obj r' \<Longrightarrow> r' \<in> S \<Longrightarrow> \<not> copyable w (Obj r')"
  shows "agree S w (put t k v w)" "region S (put t k v w)"
proof -
  show ag: "agree S w (put t k v w)" using t by (auto simp: agree_def put_def)
  let ?w = "put t k v w"
  have old: "hp ?w r = hp w r" if "r \<in> S" for r using ag that by (simp add: agree_def)
  have out: "\<not> copyable ?w (Obj r')"
    if "r \<notin> S" "obj_get (hp ?w r) k' = Obj r'" "r' \<in> S" for r k' r'
  proof -
    have "\<not> copyable w (Obj r')"
    proof (cases "r = t")
      case False
      then have "hp ?w r = hp w r" by (simp add: put_def)
      with rg that show ?thesis by (auto simp: region_def)
    next
      case True
      then have g: "obj_get (obj_put (hp w t) k v) k' = Obj r'" using that(2) by (simp add: put_def)
      show ?thesis
      proof (cases "k' = k")
        case True
        with g have "v = Obj r'" by (simp add: obj_get_put_same)
        with v that(3) show ?thesis by blast
      next
        case False
        with g have "obj_get (hp w t) k' = Obj r'"
          using obj_get_put_other [OF False, of "hp w t" v] by auto
        with rg t that(3) show ?thesis by (auto simp: region_def)
      qed
    qed
    with copyable_agree [OF rg ag that(3)] show ?thesis by simp
  qed
  have nr: "nextref ?w = nextref w" "objectCtor ?w = objectCtor w" "arrayCtor ?w = arrayCtor w"
    by (simp_all add: put_def)
  show "region S ?w"
    unfolding region_def nr
    using out rg copyable_agree(1) [OF rg ag] by (auto simp: old region_def)
qed

lemma region_new_object:
  assumes rg: "region S w"
  shows "fst (new_object w) \<notin> S" "agree S w (snd (new_object w))" "region S (snd (new_object w))"
proof -
  show f: "fst (new_object w) \<notin> S" using rg by (auto simp: region_def new_object_def)
  show ag: "agree S w (snd (new_object w))" using rg by (auto simp: region_def agree_def new_object_def)
  let ?w = "snd (new_object w)"
  have nr: "nextref ?w = Suc (nextref w)" "objectCtor ?w = objectCtor w" "arrayCtor ?w = arrayCtor w"
    by (simp_all add: new_object_def)
  have old: "hp ?w r = hp w r" if "r \<in> S" for r using ag that by (simp add: agree_def)
  have "\<not> copyable w (Obj r')"
    if "r \<notin> S" "obj_get (hp ?w r) k = Obj r'" "r' \<in> S" for r k r'
  proof (cases "r = nextref w")
    case True
    then have "r' = objectCtor w" using that(2)
      by (auto simp: new_object_def obj_get_def split: if_splits)
    with rg that(3) show ?thesis by (auto simp: region_def)
  next
    case False
    then have "hp ?w r = hp w r" by (simp add: new_object_def)
    with rg that show ?thesis by (auto simp: region_def)
  qed
  then show "region S ?w"
    unfolding region_def nr
    using rg copyable_agree(1) [OF rg ag] by (auto simp: old region_def)
qed

lemma region_new_array:
  assumes rg: "region S w"
  shows "fst (new_array w) \<notin> S" "agree S w (snd (new_array w))" "region S (snd (new_array w))"
proof -
  show f: "fst (new_array w) \<notin> S" using rg by (auto simp: region_def new_array_def)
  show ag: "agree S w (snd (new_array w))" using rg by (auto simp: region_def agree_def new_array_def)
  let ?w = "snd (new_array w)"
  have nr: "nextref ?w = Suc (nextref w)" "objectCtor ?w = objectCtor w" "arrayCtor ?w = arrayCtor w"
    by (simp_all add: new_array_def)
  have old: "hp ?w r = hp w r" if "r \<in> S" for r using ag that by (simp add: agree_def)
  have "\<not> copyable w (Obj r')"
    if "r \<notin> S" "obj_get (hp ?w r) k = Obj r'" "r' \<in> S" for r k r'
  proof (cases "r = nextref w")
    case True
    then have "r' = arrayCtor w" using that(2)
      by (auto simp: new_array_def obj_get_def split: if_splits)
    with rg that(3) show ?thesis by (auto simp: region_def)
  next
    case False
    then have "hp ?w r = hp w r" by (simp add: new_array_def)
    with rg that show ?thesis by (auto simp: region_def)
  qed
  then show "region S ?w"
    unfolding region_def nr
    using rg copyable_agree(1) [OF rg ag] by (auto simp: old region_def)
qed

lemma choose_clone_region:
  assumes rg: "region S w" and src: "\<And>r. src = Obj r \<Longrightarrow> copyable w src \<Longrightarrow> r \<notin> S"
    and eq: "choose_clone src copy w = (c, w1)"
  shows "c \<notin> S" "agree S w w1" "region S w1"
proof -
  have "(c, w1) = new_object w \<or> (c, w1) = new_array w \<or> (w1 = w \<and> src = Obj c \<and> copyable w src)"
    using eq by (auto simp: choose_clone_def copyable_def split: if_splits jsval.splits)
  then have "c \<notin> S \<and> agree S w w1 \<and> region S w1"
    using region_new_object [OF rg] region_new_array [OF rg] rg src
    by (metis agree_refl fst_conv snd_conv)
  then show "c \<notin> S" "agree S w w1" "region S w1" by auto
qed

text \<open>
  What the loops need of the recursive call: outside the region it leaves the region alone.
\<close>

definition spares :: "nat set \<Rightarrow> (nat \<Rightarrow> jsval \<Rightarrow> 'z jsworld_scheme \<Rightarrow> 'z jsworld_scheme option) \<Rightarrow> bool" where
  "spares S recur \<longleftrightarrow>
     (\<forall>c copy w w'. region S w \<longrightarrow> c \<notin> S \<longrightarrow> source_in S copy \<longrightarrow> recur c copy w = Some w'
        \<longrightarrow> region S w' \<and> agree S w w')"

lemma sparesD:
  "spares S recur \<Longrightarrow> recur c copy w = Some w' \<Longrightarrow> region S w \<Longrightarrow> c \<notin> S \<Longrightarrow> source_in S copy
    \<Longrightarrow> region S w' \<and> agree S w w'"
  by (auto simp: spares_def)

lemma val_get_source_in: "region S w \<Longrightarrow> source_in S v \<Longrightarrow> source_in S (val_get w v k)"
  by (cases v) (auto simp: source_in_def split: jsval.splits dest: regionD_closed)

lemma extend_names_respects:
  assumes R: "spares S recur" and t: "t \<notin> S" and o: "source_in S options"
  shows "region S w \<Longrightarrow> extend_names recur True t options names w = Some w'
    \<Longrightarrow> region S w' \<and> agree S w w'"
proof (induction names arbitrary: w)
  case Nil
  then show ?case by simp
next
  case (Cons name names)
  note rg = Cons.prems(1)
  let ?src = "val_get w (Obj t) name" and ?copy = "val_get w options name"
  have cp: "source_in S ?copy" using rg o by (rule val_get_source_in)
  consider (skip) "extend_names recur True t options names w = Some w'"
    | (deep) c w1 w2 where "choose_clone ?src ?copy w = (c, w1)" "recur c ?copy w1 = Some w2"
        "extend_names recur True t options names (put t name (Obj c) w2) = Some w'"
    | (set) "\<not> (truthy ?copy \<and> copyable w ?copy)"
        "extend_names recur True t options names (put t name ?copy w) = Some w'"
    using Cons.prems(2) by (auto simp: Let_def split: if_splits prod.splits option.splits)
  then show ?case
  proof cases
    case skip
    with Cons.IH rg show ?thesis by blast
  next
    case deep
    have src: "r \<notin> S" if "?src = Obj r" "copyable w ?src" for r
      using that regionD_out [OF rg t, of name r] by simp
    note cc = choose_clone_region [OF rg src deep(1)]
    have r2: "region S w2" "agree S w1 w2"
      using R deep(2) cc cp by (auto simp: spares_def)
    have ro: "region S (put t name (Obj c) w2)" "agree S w2 (put t name (Obj c) w2)"
      using region_agree_write [OF r2(1) t, of "Obj c" name] cc(1) by auto
    from Cons.IH [OF ro(1) deep(3)] have "region S w'" "agree S (put t name (Obj c) w2) w'" by auto
    with cc(2) r2(2) ro(2) show ?thesis by (blast intro: agree_trans)
  next
    case set
    have nv: "\<not> copyable w (Obj r')" if "?copy = Obj r'" for r'
      using set(1) that by auto
    have ro: "region S (put t name ?copy w)" "agree S w (put t name ?copy w)"
      using region_agree_write [OF rg t, of ?copy name] nv by auto
    from Cons.IH [OF ro(1) set(2)] ro(2) show ?thesis by (blast intro: agree_trans)
  qed
qed

lemma extend_sources_respects:
  assumes R: "spares S recur" and t: "t \<notin> S"
  shows "region S w \<Longrightarrow> \<forall>v \<in> set sources. source_in S v
    \<Longrightarrow> extend_sources recur True t sources w = Some w' \<Longrightarrow> region S w' \<and> agree S w w'"
proof (induction sources arbitrary: w)
  case (Cons v vs)
  have v: "source_in S v" using Cons.prems(2) by simp
  show ?case
  proof (cases "nullish v")
    case True
    with Cons show ?thesis by simp
  next
    case False
    with Cons.prems(3) obtain w1 where w1: "extend_names recur True t v (for_in w v) w = Some w1"
      "extend_sources recur True t vs w1 = Some w'" by (auto split: option.splits)
    from extend_names_respects [OF R t v Cons.prems(1) w1(1)] have "region S w1" "agree S w w1" by auto
    with Cons.IH [OF _ _ w1(2)] Cons.prems(2) show ?thesis by (auto intro: agree_trans)
  qed
qed simp

lemma extend_into_spares: "spares S (\<lambda>clone copy. extend_into n True clone [copy])"
proof (induction n)
  case 0
  show ?case by (simp add: spares_def)
next
  case (Suc n)
  show ?case
    unfolding spares_def extend_into.simps
    using extend_sources_respects [OF Suc.IH] by (metis empty_iff empty_set set_ConsD)
qed

lemma extend_into_respects:
  "t \<notin> S \<Longrightarrow> region S w \<Longrightarrow> \<forall>v \<in> set sources. source_in S v
    \<Longrightarrow> extend_into n True t sources w = Some w' \<Longrightarrow> region S w' \<and> agree S w w'"
  by (cases n) (auto dest: extend_sources_respects [OF extend_into_spares])

section \<open>Deep copies of acyclic sources end\<close>

text \<open>
  \<open>ranked S w f\<close>: following a property from one object of the region to another that a
  deep copy would enter makes \<open>f\<close> smaller, so the sources have no cycle.
\<close>

definition ranked :: "nat set \<Rightarrow> 'z jsworld_scheme \<Rightarrow> (nat \<Rightarrow> nat) \<Rightarrow> bool" where
  "ranked S w f \<longleftrightarrow> (\<forall>r \<in> S. \<forall>k r'. obj_get (hp w r) k = Obj r' \<longrightarrow> copyable w (Obj r') \<longrightarrow> f r' < f r)"

lemma ranked_agree:
  assumes "region S w" "agree S w w'" "ranked S w f"
  shows "ranked S w' f"
  unfolding ranked_def
proof (intro ballI allI impI)
  fix r k r'
  assume r: "r \<in> S" and g: "obj_get (hp w' r) k = Obj r'" and c: "copyable w' (Obj r')"
  from assms(2) r have "hp w' r = hp w r" by (simp add: agree_def)
  with g have g': "obj_get (hp w r) k = Obj r'" by simp
  with assms(1) r have "r' \<in> S" by (auto dest: regionD_closed)
  with c copyable_agree(1) [OF assms(1,2)] have "copyable w (Obj r')" by simp
  with g' r assms(3) show "f r' < f r" by (auto simp: ranked_def)
qed

definition source_below :: "(nat \<Rightarrow> nat) \<Rightarrow> nat \<Rightarrow> jsval \<Rightarrow> bool" where
  "source_below f n v = (case v of Obj r \<Rightarrow> f r < n | _ \<Rightarrow> True)"

definition answers :: "nat set \<Rightarrow> (nat \<Rightarrow> nat) \<Rightarrow> nat
    \<Rightarrow> (nat \<Rightarrow> jsval \<Rightarrow> 'z jsworld_scheme \<Rightarrow> 'z jsworld_scheme option) \<Rightarrow> bool" where
  "answers S f n recur \<longleftrightarrow>
     (\<forall>c r w. region S w \<longrightarrow> ranked S w f \<longrightarrow> c \<notin> S \<longrightarrow> r \<in> S \<longrightarrow> f r < n \<longrightarrow> recur c (Obj r) w \<noteq> None)"

lemma copyable_Obj: "copyable w v \<Longrightarrow> \<exists>r. v = Obj r"
  by (cases v) (auto simp: copyable_def isPlainObject_def isArray_def)

lemma extend_names_answers:
  assumes R: "spares S recur" and A: "answers S f n recur"
    and t: "t \<notin> S" and o: "source_in S options" and b: "source_below f (Suc n) options"
  shows "region S w \<Longrightarrow> ranked S w f \<Longrightarrow> extend_names recur True t options names w \<noteq> None"
proof (induction names arbitrary: w)
  case Nil
  then show ?case by simp
next
  case (Cons name names)
  note rg = Cons.prems(1) and rk = Cons.prems(2)
  let ?src = "val_get w (Obj t) name" and ?copy = "val_get w options name"
  have cp: "source_in S ?copy" using rg o by (rule val_get_source_in)
  show ?case
  proof (cases "strict_eq (Obj t) ?copy")
    case True
    with Cons.IH rg rk show ?thesis by (simp add: Let_def)
  next
    case ne: False
    show ?thesis
    proof (cases "truthy ?copy \<and> copyable w ?copy")
      case True
      obtain c w1 where cc: "choose_clone ?src ?copy w = (c, w1)" by fastforce
      have src: "r \<notin> S" if "?src = Obj r" "copyable w ?src" for r
        using that regionD_out [OF rg t, of name r] by simp
      note c1 = choose_clone_region [OF rg src cc]
      from True obtain r where r: "?copy = Obj r" using copyable_Obj by blast
      with cp have rS: "r \<in> S" by (simp add: source_in_def)
      have "f r < n"
      proof (cases options)
        case (Obj s)
        with o b have s: "s \<in> S" "f s < Suc n" by (auto simp: source_in_def source_below_def)
        have "f r < f s" using rk s(1) r True Obj by (auto simp: ranked_def)
        with s show ?thesis by simp
      qed (use r in \<open>auto split: if_splits\<close>)
      with A c1 rS ranked_agree [OF rg c1(2) rk] obtain w2 where w2: "recur c (Obj r) w1 = Some w2"
        unfolding answers_def by blast
      have r2: "region S w2" "agree S w1 w2"
        using sparesD [OF R w2] c1 rS by (auto simp: source_in_def)
      have ro: "region S (put t name (Obj c) w2)" "agree S w2 (put t name (Obj c) w2)"
        using region_agree_write [OF r2(1) t, of "Obj c" name] c1(1) by auto
      have "agree S w (put t name (Obj c) w2)"
        using c1(2) r2(2) ro(2) by (blast intro: agree_trans)
      then have "ranked S (put t name (Obj c) w2) f" using rg rk by (blast intro: ranked_agree)
      from Cons.IH [OF ro(1) this] True ne cc r w2 show ?thesis by (auto simp: Let_def)
    next
      case nd: False
      have nv: "\<not> copyable w (Obj r')" if "?copy = Obj r'" for r'
        using nd that by auto
      have ro: "region S (put t name ?copy w)" "agree S w (put t name ?copy w)"
        using region_agree_write [OF rg t, of ?copy name] nv by auto
      from Cons.IH [OF ro(1) ranked_agree [OF rg ro(2) rk]] Cons.IH [OF rg rk] nd ne
      show ?thesis by (auto simp: Let_def)
    qed
  qed
qed

lemma extend_sources_answers:
  assumes R: "spares S recur" and A: "answers S f n recur" and t: "t \<notin> S"
  shows "region S w \<Longrightarrow> ranked S w f \<Longrightarrow> \<forall>v \<in> set sources. source_in S v \<and> source_below f (Suc n) v
    \<Longrightarrow> extend_sources recur True t sources w \<noteq> None"
proof (induction sources arbitrary: w)
  case (Cons v vs)
  have v: "source_in S v" "source_below f (Suc n) v" using Cons.prems(3) by auto
  from extend_names_answers [OF R A t v Cons.prems(1,2)] obtain w1
    where w1: "extend_names recur True t v (for_in w v) w = Some w1" by blast
  from extend_names_respects [OF R t v(1) Cons.prems(1) w1] have a: "region S w1" "agree S w w1" by auto
  have vs: "\<forall>v \<in> set vs. source_in S v \<and> source_below f (Suc n) v" using Cons.prems(3) by simp
  from Cons.IH [OF a(1) ranked_agree [OF Cons.prems(1) a(2) Cons.prems(2)] vs] w1
    Cons.IH [OF Cons.prems(1,2) vs]
  show ?case by (auto split: option.splits)
qed simp

lemma extend_into_answers:
  fixes w :: "'z jsworld_scheme"
  shows "t \<notin> S \<Longrightarrow> region S w \<Longrightarrow> ranked S w f
    \<Longrightarrow> \<forall>v \<in> set sources. source_in S v \<and> source_below f (Suc n) v
    \<Longrightarrow> extend_into (Suc n) True t sources w \<noteq> None"
proof (induction n arbitrary: t sources w)
  case 0
  have sp: "spares S (\<lambda>clone copy. extend_into 0 True clone [copy])" by (simp add: spares_def)
  have an: "answers S f 0 (\<lambda>clone copy. extend_into 0 True clone [copy])" by (simp add: answers_def)
  from extend_sources_answers [OF sp an 0(1-4)] show ?case by simp
next
  case (Suc n)
  let ?rec = "(\<lambda>clone copy. extend_into (Suc n) True clone [copy])
    :: nat \<Rightarrow> jsval \<Rightarrow> 'z jsworld_scheme \<Rightarrow> 'z jsworld_scheme option"
  have "spares S ?rec" by (rule extend_into_spares)
  moreover have "answers S f (Suc n) ?rec"
    unfolding answers_def
  proof (intro allI impI)
    fix c r and u :: "'z jsworld_scheme"
    assume u: "region S u" "ranked S u f" "c \<notin> S" "r \<in> S" "f r < Suc n"
    then have "\<forall>v \<in> set [Obj r]. source_in S v \<and> source_below f (Suc n) v"
      by (simp add: source_in_def source_below_def)
    with u Suc.IH show "extend_into (Suc n) True c [Obj r] u \<noteq> None" by blast
  qed
  ultimately show ?case
    using extend_sources_answers [of S ?rec f "Suc n" t w sources] Suc.prems by simp
qed

end
