(* ===== verification/JqExtendCopy.thy ===== *)
theory JqExtendCopy
  imports JqExtend
begin

text \<open>
  What \<open>jQuery.extend( true, .. )\<close> of \<open>democlient/js/jquery.js\<close> makes: the contract of a deep merge
  into any target, and the shape of a copy into a target without objects of its own: new
  objects all the way down, with the values of the source at their ends.
\<close>

section \<open>Copies\<close>






section \<open>Targets without objects of their own\<close>













section \<open>The copy\<close>













section \<open>The contract of a deep merge\<close>










end
