(* ===== verification/JsRegExp.thy ===== *)
theory JsRegExp
  imports JsPrelude
begin

text \<open>
  The regular expressions and string methods of the language that the sources use. A
  pattern is matched by backtracking in priority order (ECMA-262 5.1, 15.10): a matcher
  returns the list of the states it can leave in, best first. The other theories write
  the source's literals as values of type \<open>re\<close> and use \<open>re_exec\<close>, \<open>re_test\<close>,
  \<open>re_replace\<close> and \<open>re_all\<close> for the methods.
\<close>

section \<open>Patterns\<close>

datatype re =
    Eps
  | Ch "char \<Rightarrow> bool"          \<comment> \<open>one character of a class\<close>
  | Seq re re
  | Alt re re
  | Star bool re               \<comment> \<open>\<open>*\<close>, greedy or not\<close>
  | Grp nat re                 \<comment> \<open>a capturing group\<close>
  | Bol bool                   \<comment> \<open>\<open>^\<close>, with the multi-line flag\<close>
  | Eol bool                   \<comment> \<open>\<open>$\<close>, with the multi-line flag\<close>
  | Back nat                   \<comment> \<open>a back reference\<close>
  | Ahead bool re              \<comment> \<open>look-ahead, positive or negative\<close>

type_synonym caps = "(nat \<times> nat \<times> nat) list"
type_synonym mstate = "nat \<times> caps"

definition nl :: "char \<Rightarrow> bool" where
  "nl c = (of_char c \<in> {10, 13 :: nat})"

fun groups :: "re \<Rightarrow> nat list" where
  "groups (Seq a b) = groups a @ groups b"
| "groups (Alt a b) = groups a @ groups b"
| "groups (Star g a) = groups a"
| "groups (Grp n a) = n # groups a"
| "groups (Ahead p a) = groups a"
| "groups _ = []"

definition sub :: "string \<Rightarrow> nat \<Rightarrow> nat \<Rightarrow> string" where
  "sub s i j = take (j - i) (drop i s)"

definition cap :: "string \<Rightarrow> caps \<Rightarrow> nat \<Rightarrow> string option" where
  "cap s cs n = (case map_of cs n of Some (i, j) \<Rightarrow> Some (sub s i j) | None \<Rightarrow> None)"

text \<open>Repetition: an iteration that consumes nothing is not tried (15.10.2.5, step 2.1).\<close>

fun iter :: "(mstate \<Rightarrow> mstate list) \<Rightarrow> nat \<Rightarrow> bool \<Rightarrow> mstate \<Rightarrow> mstate list" where
  "iter m 0 greedy st = [st]"
| "iter m (Suc n) greedy st =
     (let more = concat (map (iter m n greedy) (filter (\<lambda>st'. fst st < fst st') (m st)))
      in if greedy then more @ [st] else st # more)"

primrec matches :: "string \<Rightarrow> re \<Rightarrow> mstate \<Rightarrow> mstate list" where
  "matches s Eps st = [st]"
| "matches s (Ch p) st = (if fst st < length s \<and> p (s ! fst st) then [(Suc (fst st), snd st)] else [])"
| "matches s (Seq a b) st = concat (map (matches s b) (matches s a st))"
| "matches s (Alt a b) st = matches s a st @ matches s b st"
| "matches s (Star g a) st =
     iter (\<lambda>st. matches s a (fst st, filter (\<lambda>e. fst e \<notin> set (groups a)) (snd st))) (length s - fst st) g st"
| "matches s (Grp n a) st = map (\<lambda>st'. (fst st', (n, fst st, fst st') # snd st')) (matches s a st)"
| "matches s (Bol m) st = (if fst st = 0 \<or> (m \<and> nl (s ! (fst st - 1))) then [st] else [])"
| "matches s (Eol m) st = (if fst st \<ge> length s \<or> (m \<and> nl (s ! fst st)) then [st] else [])"
| "matches s (Back n) st =
     (case cap s (snd st) n of None \<Rightarrow> [st]
      | Some t \<Rightarrow> if sub s (fst st) (fst st + length t) = t then [(fst st + length t, snd st)] else [])"
| "matches s (Ahead p a) st =
     (case matches s a st of [] \<Rightarrow> (if p then [] else [st])
      | st' # _ \<Rightarrow> (if p then [(fst st, snd st')] else []))"

section \<open>Methods\<close>

text \<open>\<open>exec\<close> from an index on: the start, the end and the captures of the first match.\<close>

definition match_at :: "re \<Rightarrow> string \<Rightarrow> nat \<Rightarrow> (nat \<times> nat \<times> caps) option" where
  "match_at r s i = (case matches s r (i, []) of [] \<Rightarrow> None | (j, cs) # _ \<Rightarrow> Some (i, j, cs))"

fun search_from :: "re \<Rightarrow> string \<Rightarrow> nat list \<Rightarrow> (nat \<times> nat \<times> caps) option" where
  "search_from r s [] = None"
| "search_from r s (i # is) =
     (case match_at r s i of Some m \<Rightarrow> Some m | None \<Rightarrow> search_from r s is)"

definition re_exec :: "re \<Rightarrow> string \<Rightarrow> (nat \<times> nat \<times> caps) option" where
  "re_exec r s = search_from r s [0..<Suc (length s)]"

definition re_test :: "re \<Rightarrow> string \<Rightarrow> bool" where
  "re_test r s = (re_exec r s \<noteq> None)"

text \<open>\<open>match[ n ]\<close>; an unset group is undefined.\<close>

definition re_group :: "re \<Rightarrow> string \<Rightarrow> nat \<Rightarrow> string option" where
  "re_group r s n = (case re_exec r s of None \<Rightarrow> None | Some (i, j, cs) \<Rightarrow> if n = 0 then Some (sub s i j) else cap s cs n)"

text \<open>The states a matcher returns are not behind the one it started in.\<close>

lemma iter_mono:
  assumes "\<And>st st'. st' \<in> set (m st) \<Longrightarrow> fst st \<le> fst st'"
  shows "st' \<in> set (iter m n g st) \<Longrightarrow> fst st \<le> fst st'"
proof (induction n arbitrary: st)
  case (Suc n)
  then show ?case by (auto simp: Let_def split: if_splits) (meson less_or_eq_imp_le order_trans)+
qed simp

lemma matches_mono: "st' \<in> set (matches s r st) \<Longrightarrow> fst st \<le> fst st'"
proof (induction r arbitrary: st st')
  case (Seq a b)
  then show ?case by (auto; meson order_trans)
next
  case (Star g a)
  let ?m = "\<lambda>st. matches s a (fst st, filter (\<lambda>e. fst e \<notin> set (groups a)) (snd st))"
  have "fst st \<le> fst st'" if "st' \<in> set (?m st)" for st st'
    using Star.IH [OF that] by simp
  then show ?case using Star.prems by (auto intro: iter_mono [of ?m])
next
  case (Ahead p a)
  then show ?case by (cases "matches s a st") (auto split: if_splits)
qed (auto split: if_splits option.splits)

lemma match_at_start: "match_at r s i = Some (a, b, cs) \<Longrightarrow> a = i \<and> i \<le> b"
proof -
  assume m: "match_at r s i = Some (a, b, cs)"
  then have "(b, cs) \<in> set (matches s r (i, []))" "a = i"
    by (auto simp: match_at_def split: list.splits)
  then show ?thesis using matches_mono by fastforce
qed

lemma search_from_start: "search_from r s is = Some (a, b, cs) \<Longrightarrow> a \<in> set is \<and> a \<le> b"
  by (induction r s "is" rule: search_from.induct) (auto split: option.splits dest: match_at_start)

lemma test_iff: "re_test r s \<longleftrightarrow> (\<exists>i \<le> length s. matches s r (i, []) \<noteq> [])"
proof -
  have "search_from r s is = None \<longleftrightarrow> (\<forall>i \<in> set is. matches s r (i, []) = [])" for "is"
    by (induction "is") (auto simp: match_at_def split: list.split option.split)
  note none = this
  have "re_test r s \<longleftrightarrow> (\<exists>i \<in> set [0..<Suc (length s)]. matches s r (i, []) \<noteq> [])"
    unfolding re_test_def re_exec_def none by blast
  then show ?thesis by (auto simp: less_Suc_eq_le simp del: upt_Suc)
qed

text \<open>All matches of a pattern with the global flag: an empty match moves on by one.\<close>

function all_from :: "re \<Rightarrow> string \<Rightarrow> nat \<Rightarrow> (nat \<times> nat \<times> caps) list" where
  "all_from r s i =
     (if i > length s then []
      else (case search_from r s [i..<Suc (length s)] of
              None \<Rightarrow> []
            | Some (a, b, cs) \<Rightarrow> (a, b, cs) # all_from r s (if a < b then b else Suc b)))"
  by pat_completeness auto
termination
  by (relation "measure (\<lambda>(r, s, i). Suc (length s) - i)") (auto dest!: search_from_start)

declare all_from.simps [simp del]

definition re_all :: "re \<Rightarrow> string \<Rightarrow> (nat \<times> nat \<times> caps) list" where
  "re_all r s = all_from r s 0"

text \<open>\<open>replace\<close>: the text of each match is replaced by what \<open>f\<close> makes of it and its groups.\<close>

fun splice_matches :: "string \<Rightarrow> ((nat \<Rightarrow> string option) \<Rightarrow> string) \<Rightarrow> nat
    \<Rightarrow> (nat \<times> nat \<times> caps) list \<Rightarrow> string" where
  "splice_matches s f k [] = drop k s"
| "splice_matches s f k ((a, b, cs) # ms) =
     sub s k a @ f (\<lambda>n. if n = 0 then Some (sub s a b) else cap s cs n) @ splice_matches s f b ms"

definition re_replace_all :: "re \<Rightarrow> ((nat \<Rightarrow> string option) \<Rightarrow> string) \<Rightarrow> string \<Rightarrow> string" where
  "re_replace_all r f s = splice_matches s f 0 (re_all r s)"

definition re_replace :: "re \<Rightarrow> ((nat \<Rightarrow> string option) \<Rightarrow> string) \<Rightarrow> string \<Rightarrow> string" where
  "re_replace r f s = (case re_exec r s of None \<Rightarrow> s | Some m \<Rightarrow> splice_matches s f 0 [m])"

section \<open>Building blocks of the literals\<close>

definition lit :: "string \<Rightarrow> re" where
  "lit t = foldr (\<lambda>c r. Seq (Ch (\<lambda>x. x = c)) r) t Eps"

text \<open>A literal under the case-insensitive flag.\<close>

definition lit_i :: "string \<Rightarrow> re" where
  "lit_i t = foldr (\<lambda>c r. Seq (Ch (\<lambda>x. lower_char x = lower_char c)) r) t Eps"

definition opt :: "re \<Rightarrow> re" where "opt r = Alt r Eps"
definition plus :: "re \<Rightarrow> re" where "plus r = Seq r (Star True r)"

fun alts :: "re list \<Rightarrow> re" where
  "alts [] = Eps"
| "alts [r] = r"
| "alts (r # rs) = Alt r (alts rs)"

definition seqs :: "re list \<Rightarrow> re" where
  "seqs rs = foldr Seq rs Eps"

text \<open>\<open>.\<close>, \<open>\\w\<close>, \<open>\\d\<close>, \<open>\\s\<close>.\<close>

definition dotc :: "char \<Rightarrow> bool" where "dotc c = (\<not> nl c)"

definition wordc :: "char \<Rightarrow> bool" where
  "wordc c = (let n = of_char c :: nat in
     48 \<le> n \<and> n < 58 \<or> 65 \<le> n \<and> n < 91 \<or> 97 \<le> n \<and> n < 123 \<or> n = 95)"

definition spacec :: "char \<Rightarrow> bool" where
  "spacec c = (of_char c \<in> {9, 10, 11, 12, 13, 32, 160 :: nat})"

abbreviation anyof :: "string \<Rightarrow> char \<Rightarrow> bool" where
  "anyof cs c \<equiv> c \<in> set cs"

abbreviation noneof :: "string \<Rightarrow> char \<Rightarrow> bool" where
  "noneof cs c \<equiv> c \<notin> set cs"

section \<open>Other string methods\<close>

text \<open>\<open>s.indexOf( c )\<close> of a one-character string, as a position.\<close>

definition index_of :: "char \<Rightarrow> string \<Rightarrow> nat option" where
  "index_of c s = (let n = length (takeWhile (\<lambda>x. x \<noteq> c) s) in if n < length s then Some n else None)"

text \<open>\<open>split\<close> at a separator character and \<open>join\<close>.\<close>

fun split_on :: "char \<Rightarrow> string \<Rightarrow> string list" where
  "split_on d [] = [[]]"
| "split_on d (c # s) =
     (if c = d then [] # split_on d s
      else (case split_on d s of t # ts \<Rightarrow> (c # t) # ts | [] \<Rightarrow> [[c]]))"

fun join_on :: "string \<Rightarrow> string list \<Rightarrow> string" where
  "join_on d [] = []"
| "join_on d [t] = t"
| "join_on d (t # ts) = t @ d @ join_on d ts"

text \<open>The language's \<open>trim\<close>.\<close>

definition trim :: "string \<Rightarrow> string" where
  "trim s = rev (dropWhile spacec (rev (dropWhile spacec s)))"

section \<open>Lemmas on the matcher\<close>

lemma sub_0 [simp]: "sub s 0 n = take n s"
  by (simp add: sub_def)

lemma length_sub [simp]: "length (sub s i j) = min (j - i) (length s - i)"
  by (simp add: sub_def)

lemma split_on_not_Nil [simp]: "split_on d s \<noteq> []"
  by (induction s) (auto split: list.split)

lemma split_on_no_sep: "d \<notin> set t \<Longrightarrow> split_on d t = [t]"
  by (induction t) auto

lemma split_on_append_sep: "d \<notin> set t \<Longrightarrow> split_on d (t @ d # s) = t # split_on d s"
  by (induction t) auto

lemma split_join:
  "ts \<noteq> [] \<Longrightarrow> (\<And>t. t \<in> set ts \<Longrightarrow> d \<notin> set t) \<Longrightarrow> split_on d (join_on [d] ts) = ts"
proof (induction ts)
  case (Cons t ts)
  then show ?case
    by (cases ts) (simp_all add: split_on_no_sep split_on_append_sep)
qed simp

lemma split_on_sep: "split_on d (a @ d # b) = split_on d a @ split_on d b"
  by (induction a) (auto split: list.splits)

lemma join_split: "join_on [d] (split_on d s) = s"
proof (induction s)
  case (Cons c s)
  obtain t ts where "split_on d s = t # ts" by (cases "split_on d s") auto
  with Cons show ?case by (cases ts) auto
qed simp

lemma split_on_part: "t \<in> set (split_on d s) \<Longrightarrow> d \<notin> set t \<and> set t \<subseteq> set s"
proof (induction s arbitrary: t)
  case (Cons c s)
  obtain u us where u: "split_on d s = u # us" by (cases "split_on d s") auto
  with Cons show ?case by (cases "c = d"; cases "t = c # u") fastforce+
qed simp

lemma set_join_on: "set (join_on d ks) \<subseteq> \<Union> (set ` set ks) \<union> set d"
  by (induction d ks rule: join_on.induct) auto

lemma all_from_beyond [simp]: "length s < i \<Longrightarrow> all_from r s i = []"
  by (simp add: all_from.simps)

lemma all_from_miss:
  assumes "match_at r s i = None" "i \<le> length s"
  shows "all_from r s i = all_from r s (Suc i)"
proof -
  have upt: "[i..<Suc (length s)] = i # [Suc i..<Suc (length s)]"
    using assms(2) by (intro upt_conv_Cons) simp
  show ?thesis
  proof (cases "i = length s")
    case True
    then show ?thesis using assms by (subst all_from.simps) (simp add: upt)
  next
    case False
    then show ?thesis
      using assms unfolding all_from.simps [of r s i] all_from.simps [of r s "Suc i"] upt
      by (simp del: upt_Suc)
  qed
qed

lemma all_from_hit:
  assumes "match_at r s i = Some (i, j, cs)" "i \<le> length s" "i < j"
  shows "all_from r s i = (i, j, cs) # all_from r s j"
proof -
  have upt: "[i..<Suc (length s)] = i # [Suc i..<Suc (length s)]"
    using assms(2) by (intro upt_conv_Cons) simp
  show ?thesis
    using assms by (subst all_from.simps) (simp add: upt del: upt_Suc)
qed

lemma sub_append_drop:
  assumes "k \<le> i" "i < length s"
  shows "sub s k i @ [s ! i] = sub s k (Suc i)"
proof -
  have "sub s k i @ [s ! i] = take (i - k) (drop k s) @ [drop k s ! (i - k)]"
    using assms by (simp add: sub_def)
  also have "\<dots> = take (Suc (i - k)) (drop k s)"
    using assms by (intro take_Suc_conv_app_nth [symmetric]) simp
  finally show ?thesis using assms by (simp add: sub_def Suc_diff_le)
qed

lemma sub_self [simp]: "sub s i i = []"
  by (simp add: sub_def)

section \<open>Scanning from left to right\<close>

text \<open>
  Replacing the matches of a pattern that looks at nothing before the match is one pass
  over the string: \<open>m t\<close> is the length of the match at the head of \<open>t\<close>, \<open>rep t\<close> its
  replacement.
\<close>

fun scan_with :: "(string \<Rightarrow> nat option) \<Rightarrow> (string \<Rightarrow> string) \<Rightarrow> string \<Rightarrow> string" where
  "scan_with m rep [] = []"
| "scan_with m rep (c # s) =
     (case m (c # s) of None \<Rightarrow> c # scan_with m rep s
      | Some k \<Rightarrow> rep (c # s) @ scan_with m rep (drop (k - 1) s))"

text \<open>The contract between a pattern with its replacement function and such a scanner.\<close>

locale scanner =
  fixes r :: re and f :: "(nat \<Rightarrow> string option) \<Rightarrow> string"
    and m :: "string \<Rightarrow> nat option" and rep :: "string \<Rightarrow> string"
  assumes hit: "i \<le> length s \<Longrightarrow> m (drop i s) = Some k \<Longrightarrow>
      \<exists>cs. match_at r s i = Some (i, i + k, cs) \<and>
        f (\<lambda>n. if n = 0 then Some (sub s i (i + k)) else cap s cs n) = rep (drop i s)"
    and miss: "i \<le> length s \<Longrightarrow> m (drop i s) = None \<Longrightarrow> match_at r s i = None"
    and size: "m t = Some k \<Longrightarrow> 0 < k \<and> k \<le> length t"
begin

lemma splice_scan:
  "k \<le> i \<Longrightarrow> i \<le> length s \<Longrightarrow>
    splice_matches s f k (all_from r s i) = sub s k i @ scan_with m rep (drop i s)"
proof (induction "length s - i" arbitrary: i k rule: less_induct)
  case less
  show ?case
  proof (cases "m (drop i s)")
    case None
    from miss [OF less.prems(2) None] have nomatch: "match_at r s i = None" .
    note step = all_from_miss [OF this less.prems(2)]
    show ?thesis
    proof (cases "i = length s")
      case True
      with step less.prems show ?thesis by (simp add: sub_def)
    next
      case False
      then have i: "i < length s" using less.prems(2) by simp
      then have d: "drop i s = s ! i # drop (Suc i) s" by (rule Cons_nth_drop_Suc [symmetric])
      have "splice_matches s f k (all_from r s (Suc i)) = sub s k (Suc i) @ scan_with m rep (drop (Suc i) s)"
        using less.hyps [of "Suc i" k] less.prems i by simp
      with step show ?thesis
        using None sub_append_drop [OF less.prems(1) i]
        by (metis append.assoc append_Cons append_Nil d option.simps(4) scan_with.simps(2))
    qed
  next
    case (Some n)
    from size [OF Some] have n: "0 < n" "n \<le> length s - i" by simp_all
    then have i: "i < length s" by simp
    from hit [OF less.prems(2) Some] obtain cs where
      mt: "match_at r s i = Some (i, i + n, cs)"
      and f: "f (\<lambda>n'. if n' = 0 then Some (sub s i (i + n)) else cap s cs n') = rep (drop i s)" by blast
    have step: "all_from r s i = (i, i + n, cs) # all_from r s (i + n)"
      by (rule all_from_hit [OF mt less.prems(2)]) (use n in simp)
    have d: "drop i s = s ! i # drop (Suc i) s" using i by (rule Cons_nth_drop_Suc [symmetric])
    have "splice_matches s f (i + n) (all_from r s (i + n)) = sub s (i + n) (i + n) @ scan_with m rep (drop (i + n) s)"
      using less.hyps [of "i + n" "i + n"] n i by simp
    moreover have "scan_with m rep (drop i s) = rep (drop i s) @ scan_with m rep (drop (i + n) s)"
      using Some n unfolding d by (simp add: drop_drop add.commute)
    ultimately show ?thesis using step f by simp
  qed
qed

theorem replace_all_scan: "re_replace_all r f s = scan_with m rep s"
  using splice_scan [of 0 0 s] by (simp add: re_replace_all_def re_all_def)

end

text \<open>Patterns that are a literal text.\<close>

lemma matches_lit:
  "matches s (lit t) (i, cs) = (if sub s i (i + length t) = t \<and> i \<le> length s then [(i + length t, cs)]
     else if t = [] then [(i, cs)] else [])"
proof (induction t arbitrary: i)
  case Nil
  then show ?case by (simp add: lit_def)
next
  case (Cons c t)
  have lit: "lit (c # t) = Seq (Ch (\<lambda>x. x = c)) (lit t)" by (simp add: lit_def)
  show ?case
  proof (cases "i < length s")
    case False
    then show ?thesis unfolding lit by (auto simp: sub_def)
  next
    case True
    then have "drop i s = s ! i # drop (Suc i) s" by (rule Cons_nth_drop_Suc [symmetric])
    then have "sub s i (i + length (c # t)) = s ! i # sub s (Suc i) (Suc i + length t)"
      by (simp add: sub_def)
    with True show ?thesis unfolding lit using Cons.IH [of "Suc i"]
      by (auto simp: sub_def)
  qed
qed

definition lit_len :: "string \<Rightarrow> string \<Rightarrow> nat option" where
  "lit_len t s = (if take (length t) s = t then Some (length t) else None)"

lemma scanner_lit:
  assumes "t \<noteq> []"
  shows "scanner (lit t) (\<lambda>_. rep) (lit_len t) (\<lambda>_. rep)"
proof
  fix i k and s :: string assume i: "i \<le> length s" and "lit_len t (drop i s) = Some k"
  then have "sub s i (i + length t) = t" "k = length t"
    by (auto simp: lit_len_def sub_def split: if_splits)
  then show "\<exists>cs. match_at (lit t) s i = Some (i, i + k, cs) \<and> rep = rep"
    using i by (simp add: match_at_def matches_lit)
next
  fix i and s :: string assume "i \<le> length s" "lit_len t (drop i s) = None"
  then show "match_at (lit t) s i = None"
    using assms by (simp add: match_at_def matches_lit lit_len_def sub_def split: if_splits)
next
  fix s k assume "lit_len t s = Some k"
  then have "k = length t" and "take (length t) s = t" by (auto simp: lit_len_def split: if_splits)
  then show "0 < k \<and> k \<le> length s" using assms
    by (metis length_greater_0_conv length_take min.absorb_iff2 min.commute)
qed

text \<open>Patterns that are one character of a class.\<close>

definition class_len :: "(char \<Rightarrow> bool) \<Rightarrow> string \<Rightarrow> nat option" where
  "class_len p s = (case s of c # _ \<Rightarrow> (if p c then Some 1 else None) | [] \<Rightarrow> None)"

lemma scanner_class: "scanner (Ch p) (\<lambda>_. rep) (class_len p) (\<lambda>_. rep)"
proof
  fix i k and s :: string assume i: "i \<le> length s" "class_len p (drop i s) = Some k"
  then obtain c t where "drop i s = c # t" "p c" "k = 1" by (auto simp: class_len_def split: list.splits if_splits)
  then show "\<exists>cs. match_at (Ch p) s i = Some (i, i + k, cs) \<and> rep = rep"
    by (simp add: match_at_def) (metis drop_all list.discI nth_via_drop not_le_imp_less)
next
  fix i and s :: string assume "i \<le> length s" "class_len p (drop i s) = None"
  then show "match_at (Ch p) s i = None"
    by (cases "i < length s") (auto simp: match_at_def class_len_def Cons_nth_drop_Suc [symmetric] split: if_splits)
next
  fix s k assume "class_len p s = Some k"
  then show "0 < k \<and> k \<le> length s" by (auto simp: class_len_def split: list.splits if_splits)
qed

lemma replace_class: "re_replace_all (Ch p) (\<lambda>_. rep) s = concat (map (\<lambda>c. if p c then rep else [c]) s)"
proof -
  have "scan_with (class_len p) (\<lambda>_. rep) s = concat (map (\<lambda>c. if p c then rep else [c]) s)"
    by (induction s) (simp_all add: class_len_def)
  then show ?thesis by (simp add: scanner.replace_all_scan [OF scanner_class])
qed

section \<open>Strings without a match\<close>

lemma replace_all_none:
  assumes "\<And>i. i \<le> length s \<Longrightarrow> match_at r s i = None"
  shows "re_replace_all r f s = s"
proof -
  have "all_from r s i = []" if "i \<le> length s" for i
    using that
  proof (induction "length s - i" arbitrary: i)
    case 0
    then show ?case using all_from_miss [OF assms [OF 0(2)]] by simp
  next
    case (Suc k)
    then show ?case using all_from_miss [OF assms [OF Suc.prems]] by simp
  qed
  then show ?thesis by (simp add: re_replace_all_def re_all_def)
qed

lemma search_none: "(\<And>i. i \<in> set is \<Longrightarrow> match_at r s i = None) \<Longrightarrow> search_from r s is = None"
  by (induction "is") auto

lemma replace_none:
  assumes "\<And>i. i \<le> length s \<Longrightarrow> match_at r s i = None"
  shows "re_replace r f s = s"
proof -
  have "search_from r s [0..<Suc (length s)] = None" by (rule search_none) (use assms in auto)
  then show ?thesis by (simp add: re_replace_def re_exec_def)
qed

section \<open>Runs of characters\<close>

text \<open>A greedy star of a class ends at every point of the run, the farthest first.\<close>

definition run_at :: "(char \<Rightarrow> bool) \<Rightarrow> string \<Rightarrow> nat \<Rightarrow> nat" where
  "run_at p s i = i + length (takeWhile p (drop i s))"

lemma run_at_step: "i < length s \<Longrightarrow> run_at p s i = (if p (s ! i) then run_at p s (Suc i) else i)"
  by (simp add: run_at_def Cons_nth_drop_Suc [symmetric])

lemma run_at_end: "length s \<le> i \<Longrightarrow> run_at p s i = i"
  by (simp add: run_at_def)

lemma run_at_ge: "i \<le> run_at p s i"
  by (simp add: run_at_def)

lemma run_at_le: "i \<le> length s \<Longrightarrow> run_at p s i \<le> length s"
  using length_takeWhile_le [of p "drop i s"] by (simp add: run_at_def)

lemma iter_class:
  assumes "n = length s - i"
  shows "iter (\<lambda>st. matches s (Ch p) (fst st, filter (\<lambda>e. fst e \<notin> set (groups (Ch p))) (snd st))) n True (i, cs)
    = map (\<lambda>j. (j, cs)) (rev [i..<Suc (run_at p s i)])"
  using assms
proof (induction n arbitrary: i)
  case 0
  then show ?case by (simp add: run_at_end)
next
  case (Suc n)
  then have i: "i < length s" by simp
  have "n = length s - Suc i" using Suc.prems by simp
  note IH = Suc.IH [OF this]
  show ?case
  proof (cases "p (s ! i)")
    case False
    then show ?thesis using i by (simp add: run_at_step)
  next
    case True
    have "[i..<Suc (run_at p s (Suc i))] = i # [Suc i..<Suc (run_at p s (Suc i))]"
      using run_at_ge [of "Suc i" p s] by (intro upt_conv_Cons) simp
    with True i IH show ?thesis by (simp add: run_at_step del: upt_Suc)
  qed
qed

lemma star_class: "matches s (Star True (Ch p)) (i, cs) = map (\<lambda>j. (j, cs)) (rev [i..<Suc (run_at p s i)])"
  using iter_class [OF refl, where s = s and i = i and p = p and cs = cs] by simp

lemma plus_class:
  "matches s (plus (Ch p)) (i, cs) =
     (if i < length s \<and> p (s ! i) then map (\<lambda>j. (j, cs)) (rev [Suc i..<Suc (run_at p s i)]) else [])"
  unfolding plus_def
  by (cases "i < length s"; cases "p (s ! i)") (simp_all add: star_class run_at_step del: matches.simps(5) upt_Suc)

lemma concat_rev_last:
  "k \<le> n \<Longrightarrow> (\<And>j. k \<le> j \<Longrightarrow> j < n \<Longrightarrow> f j = []) \<Longrightarrow> concat (map f (rev [k..<Suc n])) = f n"
proof -
  assume k: "k \<le> n" and f: "\<And>j. k \<le> j \<Longrightarrow> j < n \<Longrightarrow> f j = []"
  have "concat (map f (rev [k..<n])) = []" using f by (auto simp: concat_eq_Nil_conv)
  then show ?thesis using k by simp
qed

lemma run_at_inside: "i \<le> j \<Longrightarrow> j < run_at p s i \<Longrightarrow> p (s ! j)"
proof -
  assume a: "i \<le> j" "j < run_at p s i"
  then have l: "j - i < length (takeWhile p (drop i s))" by (simp add: run_at_def)
  then have il: "i \<le> length s" by (cases "i \<le> length s") simp_all
  have "p (takeWhile p (drop i s) ! (j - i))" using set_takeWhileD [OF nth_mem [OF l]] by blast
  then show ?thesis using a(1) il takeWhile_nth [OF l] by simp
qed

lemma run_at_stop: "run_at p s i < length s \<Longrightarrow> i \<le> length s \<Longrightarrow> \<not> p (s ! run_at p s i)"
  using nth_length_takeWhile [of p "drop i s"] by (simp add: run_at_def)

lemma run_at_all: "i \<le> length s \<Longrightarrow> (\<And>c. c \<in> set s \<Longrightarrow> p c) \<Longrightarrow> run_at p s i = length s"
proof -
  assume i: "i \<le> length s" and all: "\<And>c. c \<in> set s \<Longrightarrow> p c"
  have tw: "takeWhile p (drop i s) = drop i s"
    using all by (intro takeWhile_eq_all_conv [THEN iffD2]) (auto dest: in_set_dropD)
  show ?thesis unfolding run_at_def tw using i by simp
qed

text \<open>A pattern that starts with \<open>^\<close> is tried at the start only.\<close>

lemma exec_anchored:
  "re_exec (Seq (Bol False) r) s = (case matches s r (0, []) of [] \<Rightarrow> None | (j, cs) # _ \<Rightarrow> Some (0, j, cs))"
proof -
  have late: "search_from (Seq (Bol False) r) s is = None" if "0 \<notin> set is" for "is"
    using that by (induction "is") (auto simp: match_at_def)
  have upt: "[0..<Suc (length s)] = 0 # [Suc 0..<Suc (length s)]" by (rule upt_conv_Cons) simp
  have "search_from (Seq (Bol False) r) s [Suc 0..<Suc (length s)] = None" by (rule late) (simp del: upt_Suc)
  then show ?thesis
    unfolding re_exec_def upt search_from.simps by (simp add: match_at_def split: list.split)
qed

end
