(* ===== verification/JqConvert.thy ===== *)
theory JqConvert
  imports JqCore JqCallbacks JsRegExp
begin

text \<open>
  The data side of \<open>jQuery.ajax\<close> in \<open>democlient/js/jquery.js\<close>: the registries of prefilters
  and transports (\<open>addToPrefiltersOrTransports\<close>, \<open>inspectPrefiltersOrTransports\<close>), the choice
  of the response (\<open>ajaxHandleResponses\<close>) and the chain of conversions (\<open>ajaxConvert\<close>).
  Converters may have effects and may throw; response values are an arbitrary type.
\<close>

section \<open>Registries\<close>

text \<open>
  What a prefilter or a transport factory returns: nothing, the name of a data type, or an
  object (a transport).
\<close>

datatype 't given = GNone | GType string | GObj 't

fun given_truthy :: "'t given \<Rightarrow> bool" where
  "given_truthy GNone = False"
| "given_truthy (GType s) = (s \<noteq> [])"
| "given_truthy (GObj t) = True"

type_synonym 'h registry = "(string \<times> 'h list) list"

definition reg_get :: "'h registry \<Rightarrow> string \<Rightarrow> 'h list" where
  "reg_get st k = (case map_of st k of Some hs \<Rightarrow> hs | None \<Rightarrow> [])"

fun register_type :: "'h \<Rightarrow> 'h registry \<Rightarrow> string \<Rightarrow> 'h registry" where
  "register_type func st dataType =
     (if take 1 dataType = ''+''
      then (let k = (if tl dataType = [] then ''*'' else tl dataType) in put_prop k (func # reg_get st k) st)
      else put_prop dataType (reg_get st dataType @ [func]) st)"

text \<open>The expression is \<open>None\<close> when only the function was given.\<close>

definition addToPrefiltersOrTransports :: "'h registry \<Rightarrow> string option \<Rightarrow> 'h option \<Rightarrow> 'h registry" where
  "addToPrefiltersOrTransports structure dataTypeExpression func =
     (let dataTypes = match_notwhite (lower (case dataTypeExpression of Some e \<Rightarrow> e | None \<Rightarrow> ''*'')) in
      case func of None \<Rightarrow> structure | Some f \<Rightarrow> foldl (register_type f) structure dataTypes)"

text \<open>
  \<open>inspect\<close>: a handler may change the options; \<open>unshift\<close> puts a data type in front of the
  options' list. The state is the options with the set of inspected types.
\<close>

type_synonym ('o, 't) handler = "'o \<Rightarrow> 't given \<times> 'o"

fun inspect :: "(string \<Rightarrow> 'o \<Rightarrow> 'o) \<Rightarrow> bool \<Rightarrow> ('o, 't) handler registry \<Rightarrow> nat \<Rightarrow> string
    \<Rightarrow> 'o \<times> string set \<Rightarrow> ('t given \<times> 'o \<times> string set) option"
  and inspect_each :: "(string \<Rightarrow> 'o \<Rightarrow> 'o) \<Rightarrow> bool \<Rightarrow> ('o, 't) handler registry \<Rightarrow> nat \<Rightarrow> ('o, 't) handler list
    \<Rightarrow> 't given \<Rightarrow> 'o \<times> string set \<Rightarrow> ('t given \<times> 'o \<times> string set) option" where
  "inspect unshift seeking st 0 dataType (opts, inspected) = None"
| "inspect unshift seeking st (Suc n) dataType (opts, inspected) =
     inspect_each unshift seeking st n (reg_get st dataType) GNone (opts, insert dataType inspected)"
| "inspect_each unshift seeking st n [] selected (opts, inspected) = Some (selected, opts, inspected)"
| "inspect_each unshift seeking st n (h # hs) selected (opts, inspected) =
     (let (dataTypeOrTransport, opts') = h opts in
      case (dataTypeOrTransport, seeking) of
        (GType d, False) \<Rightarrow>
          if d \<notin> inspected
          then map_option (\<lambda>(_, os). (selected, os)) (inspect unshift seeking st n d (unshift d opts', inspected))
          else inspect_each unshift seeking st n hs selected (opts', inspected)
      | (x, True) \<Rightarrow>
          if given_truthy x then Some (x, opts', inspected)
          else inspect_each unshift seeking st n hs x (opts', inspected)
      | (_, False) \<Rightarrow> inspect_each unshift seeking st n hs selected (opts', inspected))"

definition inspectPrefiltersOrTransports :: "(string \<Rightarrow> 'o \<Rightarrow> 'o) \<Rightarrow> bool \<Rightarrow> ('o, 't) handler registry \<Rightarrow> nat
    \<Rightarrow> string \<Rightarrow> 'o \<Rightarrow> ('t given \<times> 'o) option" where
  "inspectPrefiltersOrTransports unshift seeking st n first opts =
     (case inspect unshift seeking st n first (opts, {}) of
        None \<Rightarrow> None
      | Some (r, opts', inspected) \<Rightarrow>
          if given_truthy r then Some (r, opts')
          else if ''*'' \<notin> inspected
          then map_option (\<lambda>(r', o', _). (r', o')) (inspect unshift seeking st n ''*'' (opts', inspected))
          else Some (GNone, opts'))"

section \<open>Handling responses\<close>

datatype ('e, 'v, 'w) conv = CFalsy | CTrue | CFn "'v \<Rightarrow> 'w \<Rightarrow> ('e, 'v, 'w) res"

type_synonym ('e, 'v, 'w) convs = "(string \<times> ('e, 'v, 'w) conv) list"

fun truthy_conv :: "('e, 'v, 'w) conv \<Rightarrow> bool" where
  "truthy_conv CFalsy = False"
| "truthy_conv CTrue = True"
| "truthy_conv (CFn f) = True"

definition conv_get :: "('e, 'v, 'w) convs \<Rightarrow> string \<Rightarrow> ('e, 'v, 'w) conv" where
  "conv_get cs k = (case map_of cs k of Some c \<Rightarrow> c | None \<Rightarrow> CFalsy)"

text \<open>\<open>a || b\<close> on converters.\<close>

definition conv_or :: "('e, 'v, 'w) conv \<Rightarrow> ('e, 'v, 'w) conv \<Rightarrow> ('e, 'v, 'w) conv" where
  "conv_or a b = (if truthy_conv a then a else b)"

definition conv_key :: "string \<Rightarrow> string \<Rightarrow> string" where
  "conv_key a b = a @ '' '' @ b"

text \<open>\<open>dataTypes[ 0 ]\<close>, the empty string standing for undefined as well.\<close>

definition head_type :: "string list \<Rightarrow> string" where
  "head_type ts = (case ts of [] \<Rightarrow> [] | t # _ \<Rightarrow> t)"

text \<open>The loop over the responses: the first convertible type, and the first type.\<close>

fun scan_responses :: "('e, 'v, 'w) convs \<Rightarrow> string \<Rightarrow> string list \<Rightarrow> string \<Rightarrow> string \<times> string" where
  "scan_responses cs d0 [] firstDataType = ([], firstDataType)"
| "scan_responses cs d0 (t # ts) firstDataType =
     (if d0 = [] \<or> truthy_conv (conv_get cs (conv_key t d0)) then (t, firstDataType)
      else scan_responses cs d0 ts (if firstDataType = [] then t else firstDataType))"

text \<open>
  \<open>mimeType\<close> and the Content-Type header are \<open>''\<close> when missing. The contents are tests of
  the content type, in order. The result is the new list of data types and the response.
\<close>

definition ajaxHandleResponses :: "(string \<times> (string \<Rightarrow> bool)) list \<Rightarrow> ('e, 'v, 'w) convs \<Rightarrow> string \<Rightarrow> string
    \<Rightarrow> string list \<Rightarrow> (string \<times> 'v) list \<Rightarrow> string list \<times> 'v option" where
  "ajaxHandleResponses contents cs mimeType contentType dataTypes responses =
     (let ct = (if head_type dataTypes = ''*'' then (if mimeType \<noteq> [] then mimeType else contentType) else []);
          ts = dropWhile (\<lambda>t. t = ''*'') dataTypes;
          ts1 = (if ct \<noteq> [] then (case find (\<lambda>p. snd p ct) contents of Some p \<Rightarrow> fst p # ts | None \<Rightarrow> ts) else ts);
          finalDataType =
            (if ts1 \<noteq> [] \<and> hd ts1 \<in> fst ` set responses then hd ts1
             else (let (f, g) = scan_responses cs (head_type ts1) (map fst responses) [] in if f \<noteq> [] then f else g))
      in if finalDataType \<noteq> []
         then (if ts1 \<noteq> [] \<and> finalDataType = hd ts1 then ts1 else finalDataType # ts1, map_of responses finalDataType)
         else (ts1, None))"

section \<open>Converting\<close>

datatype ('e, 'v) converted = Success 'v | ParseError 'e | NoConversion string string

text \<open>The parts of the settings that matter here; \<open>c_set\<close> assigns a field of the jqXHR object.\<close>

record ('e, 'v, 'w) convset =
  c_converters :: "('e, 'v, 'w) convs"
  c_fields :: "(string \<times> string) list"       \<comment> \<open>\<open>responseFields\<close>\<close>
  c_filter :: "('v \<Rightarrow> 'w \<Rightarrow> ('e, 'v, 'w) res) option"   \<comment> \<open>\<open>dataFilter\<close>\<close>
  c_throws :: bool
  c_set :: "string \<Rightarrow> 'v \<Rightarrow> 'w \<Rightarrow> 'w"

definition lower_keys :: "('e, 'v, 'w) convs \<Rightarrow> ('e, 'v, 'w) convs" where
  "lower_keys cs = foldl (\<lambda>m (k, c). put_prop (lower k) c m) [] cs"

text \<open>
  The search for a pair of converters: the converter to apply now, and the intermediate
  type with the type to put back, when there is one. \<open>conv\<close> holds what was looked up last.
\<close>

fun seek_pair :: "('e, 'v, 'w) convs \<Rightarrow> string \<Rightarrow> string \<Rightarrow> string list \<Rightarrow> ('e, 'v, 'w) conv
    \<Rightarrow> ('e, 'v, 'w) conv \<times> (string \<times> string) option" where
  "seek_pair cs prev current [] c = (c, None)"
| "seek_pair cs prev current (conv2 # ks) c =
     (case split_on (CHR '' '') conv2 of
        t0 # t1 # _ \<Rightarrow>
          if t1 = current
          then (let c' = conv_or (conv_get cs (conv_key prev t0)) (conv_get cs (conv_key ''*'' t0)) in
                if truthy_conv c'
                then (case c' of
                        CTrue \<Rightarrow> (conv_get cs conv2, None)
                      | _ \<Rightarrow> (case conv_get cs conv2 of CTrue \<Rightarrow> (c', None) | _ \<Rightarrow> (c', Some (t0, t1))))
                else seek_pair cs prev current ks c')
          else seek_pair cs prev current ks c
      | _ \<Rightarrow> seek_pair cs prev current ks c)"

definition find_conv :: "('e, 'v, 'w) convs \<Rightarrow> string \<Rightarrow> string \<Rightarrow> ('e, 'v, 'w) conv \<times> (string \<times> string) option" where
  "find_conv cs prev current =
     (let c = conv_or (conv_get cs (conv_key prev current)) (conv_get cs (conv_key ''*'' current)) in
      if truthy_conv c then (c, None) else seek_pair cs prev current (map fst cs) c)"

text \<open>Applying it: a missing converter is a call of undefined, which is caught.\<close>

definition apply_conv :: "bool \<Rightarrow> ('e, 'v, 'w) conv \<Rightarrow> string \<Rightarrow> string \<Rightarrow> 'v \<Rightarrow> 'w
    \<Rightarrow> ('e, ('e, 'v) converted, 'w) res" where
  "apply_conv throws c prev current v w =
     (case c of
        CTrue \<Rightarrow> Done (Success v) w
      | CFalsy \<Rightarrow> Done (NoConversion prev current) w
      | CFn f \<Rightarrow> (case f v w of
            Done v' w' \<Rightarrow> Done (Success v') w'
          | Exn e w' \<Rightarrow> if throws then Exn e w' else Done (ParseError e) w'
          | Diverge \<Rightarrow> Diverge))"

fun convert_loop :: "('e, 'v, 'w) convset \<Rightarrow> ('e, 'v, 'w) convs \<Rightarrow> bool
    \<Rightarrow> nat \<Rightarrow> string \<Rightarrow> string \<Rightarrow> string list \<Rightarrow> 'v \<Rightarrow> 'w
    \<Rightarrow> ('e, ('e, 'v) converted, 'w) res" where
  "convert_loop s cs isSuccess 0 prev current dataTypes v w = Diverge"
| "convert_loop s cs isSuccess (Suc n) prev current dataTypes v w =
     (if current = [] then Done (Success v) w
      else (let w1 = (case map_of (c_fields s) current of Some f \<Rightarrow> c_set s f v w | None \<Rightarrow> w) in
        bindR (if prev = [] \<and> isSuccess then (case c_filter s of Some g \<Rightarrow> g v w1 | None \<Rightarrow> Done v w1) else Done v w1)
          (\<lambda>v1 w2.
             case dataTypes of
               [] \<Rightarrow> Done (Success v1) w2
             | next # rest \<Rightarrow>
                 if next = [] then convert_loop s cs isSuccess n current next rest v1 w2
                 else if next = ''*'' then convert_loop s cs isSuccess n current current rest v1 w2
                 else if current \<noteq> ''*'' \<and> current \<noteq> next
                 then (let (c, mid) = find_conv cs current next;
                           next' = (case mid of Some (t0, t1) \<Rightarrow> t0 | None \<Rightarrow> next);
                           rest' = (case mid of Some (t0, t1) \<Rightarrow> t1 # rest | None \<Rightarrow> rest)
                       in bindR (apply_conv (c_throws s) c current next' v1 w2) (\<lambda>r w3.
                            case r of Success v2 \<Rightarrow> convert_loop s cs isSuccess n current next' rest' v2 w3
                                    | _ \<Rightarrow> Done r w3))
                 else convert_loop s cs isSuccess n current next rest v1 w2)))"

definition ajaxConvert :: "('e, 'v, 'w) convset \<Rightarrow> nat \<Rightarrow> string list \<Rightarrow> bool \<Rightarrow> 'v
    \<Rightarrow> 'w \<Rightarrow> ('e, ('e, 'v) converted, 'w) res" where
  "ajaxConvert s n dataTypes isSuccess response w =
     (let cs = (case dataTypes of _ # t # _ \<Rightarrow> if t \<noteq> [] then lower_keys (c_converters s) else [] | _ \<Rightarrow> []) in
      case dataTypes of
        [] \<Rightarrow> Done (Success response) w
      | current # rest \<Rightarrow> convert_loop s cs isSuccess n [] current rest response w)"


section \<open>Inspection ends\<close>

definition unseen :: "('o, 't) handler registry \<Rightarrow> string set \<Rightarrow> nat" where
  "unseen st seen = card (fst ` set st - seen)"

lemma unseen_insert: "d \<in> fst ` set st \<Longrightarrow> d \<notin> seen \<Longrightarrow> unseen st (insert d seen) < unseen st seen"
  unfolding unseen_def by (rule psubset_card_mono) auto

lemma unseen_mono: "seen \<subseteq> seen' \<Longrightarrow> unseen st seen' \<le> unseen st seen"
  unfolding unseen_def by (rule card_mono) auto

lemma reg_get_missing: "d \<notin> fst ` set st \<Longrightarrow> reg_get st d = []"
  by (auto simp: reg_get_def dest: map_of_SomeD split: option.split)
    (metis fst_conv image_eqI map_of_SomeD)

lemma inspect_returns:
  "d \<notin> seen \<Longrightarrow> unseen st seen < n \<Longrightarrow> \<exists>r. inspect u sk st n d (opts, seen) = Some r"
  "(hs = [] \<or> unseen st seen < n) \<Longrightarrow> \<exists>r. inspect_each u sk st n hs sel (opts, seen) = Some r"
proof (induction u sk st n d "(opts, seen)" and u sk st n hs sel "(opts, seen)"
    arbitrary: opts seen and opts seen rule: inspect_inspect_each.induct)
  case (2 unshift seeking st n dataType opts inspected)
  have "reg_get st dataType = [] \<or> unseen st (insert dataType inspected) < n"
  proof (cases "dataType \<in> fst ` set st")
    case True
    then have "unseen st (insert dataType inspected) < unseen st inspected"
      using unseen_insert "2.prems" by blast
    with "2.prems" show ?thesis by simp
  qed (simp add: reg_get_missing)
  with "2.hyps" show ?case by simp
next
  case (4 unshift seeking st n h hs selected opts inspected)
  obtain x opts' where h: "h opts = (x, opts')" by (cases "h opts") auto
  have n: "unseen st inspected < n" using "4.prems" by simp
  show ?case
    using h n "4.hyps" by (cases x; cases seeking) (auto; metis)+
qed simp_all


text \<open>
  whatever data types the prefilters return, and in whatever circle, the inspection
  comes to an end: one step per key of the registry and one more are enough.
\<close>

theorem inspect_terminates:
  "\<exists>r. inspectPrefiltersOrTransports unshift seeking st (Suc (length st)) first opts = Some r"
proof -
  have n: "unseen st seen < Suc (length st)" for seen
    using card_mono [of "fst ` set st" "fst ` set st - seen"] card_image_le [of "set st" fst]
      card_length [of st] by (simp add: unseen_def)
  obtain r o' seen where 1: "inspect unshift seeking st (Suc (length st)) first (opts, {}) = Some (r, o', seen)"
    using inspect_returns(1) [of first "{}" st _ unshift seeking opts] n [of "{}"] by fastforce
  show ?thesis
  proof (cases "''*'' \<in> seen")
    case False
    from inspect_returns(1) [OF this n [of seen], of unshift seeking o'] 1 show ?thesis
      by (auto simp: inspectPrefiltersOrTransports_def simp del: inspect.simps)
  qed (use 1 in \<open>auto simp: inspectPrefiltersOrTransports_def simp del: inspect.simps\<close>)
qed

section \<open>The chosen response\<close>

lemma scan_responses_mem:
  "scan_responses cs d0 ts f = (a, b) \<Longrightarrow> (a \<noteq> [] \<longrightarrow> a \<in> set ts) \<and> (b \<noteq> [] \<longrightarrow> b \<in> set ts \<or> b = f) \<and>
     (f \<noteq> [] \<longrightarrow> b = f) \<and> (ts \<noteq> [] \<and> a = [] \<and> [] \<notin> set ts \<longrightarrow> b \<noteq> [])"
  by (induction cs d0 ts f rule: scan_responses.induct) (auto split: if_splits)

text \<open>
  C18: when there is a response, the chosen one is that of the type that now heads the list
  of data types, and what the caller asked for follows it unchanged.
\<close>

theorem handle_responses_choice:
  assumes "responses \<noteq> []" and "[] \<notin> fst ` set responses"
  shows "\<exists>d pre v. ajaxHandleResponses contents cs mimeType contentType dataTypes responses =
      (pre @ dropWhile (\<lambda>t. t = ''*'') dataTypes, Some v) \<and>
    hd (pre @ dropWhile (\<lambda>t. t = ''*'') dataTypes) = d \<and> map_of responses d = Some v"
proof -
  define ts where "ts = dropWhile (\<lambda>t. t = ''*'') dataTypes"
  define ct where "ct = (if head_type dataTypes = ''*'' then (if mimeType \<noteq> [] then mimeType else contentType) else [])"
  define ts2 where "ts2 = (if ct \<noteq> [] then (case find (\<lambda>p. snd p ct) contents of Some p \<Rightarrow> fst p # ts | None \<Rightarrow> ts) else ts)"
  have "\<exists>pre. ts2 = pre @ ts"
    by (cases "find (\<lambda>p. snd p ct) contents") (auto simp: ts2_def)
  then obtain pre1 where pre1: "ts2 = pre1 @ ts" by blast
  define ts1 where "ts1 = pre1 @ ts"
  define d where "d = (if ts1 \<noteq> [] \<and> hd ts1 \<in> fst ` set responses then hd ts1
             else (case scan_responses cs (head_type ts1) (map fst responses) [] of (f, g) \<Rightarrow> if f \<noteq> [] then f else g))"
  obtain f g where fg: "scan_responses cs (head_type ts1) (map fst responses) [] = (f, g)" by fastforce
  have d: "d \<in> fst ` set responses"
    using scan_responses_mem [OF fg] assms by (auto simp: d_def fg)
  then have "d \<in> dom (map_of responses)" by (simp add: dom_map_of_conv_image_fst)
  then obtain v where v: "map_of responses d = Some v" by blast
  have dn: "d \<noteq> []" using d assms(2) by metis
  have "ajaxHandleResponses contents cs mimeType contentType dataTypes responses =
      (if ts1 \<noteq> [] \<and> d = hd ts1 then ts1 else d # ts1, Some v)"
    unfolding ajaxHandleResponses_def Let_def ts_def [symmetric] ct_def [symmetric] ts2_def [symmetric] pre1 ts1_def [symmetric] d_def [symmetric]
    using dn v by simp
  then show ?thesis
    using v by (cases "ts1 \<noteq> [] \<and> d = hd ts1")
      (auto simp: ts1_def ts_def [symmetric] intro: exI [of _ pre1] exI [of _ "d # pre1"])
qed

definition demo_responses :: "(string \<times> nat) list" where
  "demo_responses = [(''text'', 7)]"

lemma handle_responses_choice_witness:
  "\<exists>d pre v. ajaxHandleResponses [] ([] :: (nat, nat, nat) convs) [] ''text/html'' [''*'', ''json''] demo_responses =
      (pre @ [''json''], Some v) \<and> hd (pre @ [''json'']) = d \<and> map_of demo_responses d = Some v"
  using handle_responses_choice [of demo_responses "[]" "[] :: (nat, nat, nat) convs" "[]" "''text/html''" "[''*'', ''json'']"]
  by (simp add: demo_responses_def)


section \<open>What a conversion computes\<close>

text \<open>
  A path of conversions: through registered converters from the type itself or from any
  type, through equivalences (\<open>true\<close>) and from the unknown type \<open>*\<close>. Setting a response
  field on the way changes nothing else.
\<close>

inductive conv_path :: "('e, 'v, 'w) convs \<Rightarrow> (string \<Rightarrow> 'v \<Rightarrow> 'w \<Rightarrow> 'w) \<Rightarrow> string \<Rightarrow> 'v \<Rightarrow> 'w
    \<Rightarrow> string \<Rightarrow> 'v \<Rightarrow> 'w \<Rightarrow> bool" for cs st a v w where
  here: "conv_path cs st a v w a v w"
| note_field: "conv_path cs st a v w b v' w' \<Longrightarrow> conv_path cs st a v w b v' (st k v' w')"
| same: "conv_path cs st a v w b v' w' \<Longrightarrow>
    b = ''*'' \<or> conv_get cs (conv_key b c) = CTrue \<or> conv_get cs (conv_key ''*'' c) = CTrue \<Longrightarrow>
    conv_path cs st a v w c v' w'"
| step: "conv_path cs st a v w b v' w' \<Longrightarrow>
    conv_get cs (conv_key b c) = CFn f \<or> conv_get cs (conv_key ''*'' c) = CFn f \<Longrightarrow>
    f v' w' = Done v'' w'' \<Longrightarrow> conv_path cs st a v w c v'' w''"

text \<open>Keys are a source type and a destination type with a single space between them.\<close>

definition is_key :: "string \<Rightarrow> bool" where
  "is_key k \<longleftrightarrow> (\<exists>a b. k = conv_key a b \<and> a \<noteq> [] \<and> b \<noteq> [] \<and> CHR '' '' \<notin> set a \<and> CHR '' '' \<notin> set b)"

definition good_keys :: "('e, 'v, 'w) convs \<Rightarrow> bool" where
  "good_keys cs \<longleftrightarrow> (\<forall>k \<in> fst ` set cs. is_key k)"

lemma split_key:
  "CHR '' '' \<notin> set a \<Longrightarrow> CHR '' '' \<notin> set b \<Longrightarrow> split_on (CHR '' '') (conv_key a b) = [a, b]"
  by (simp add: conv_key_def split_on_append_sep split_on_no_sep)

lemma conv_orE: "conv_or a b = c \<Longrightarrow> c = a \<or> c = b"
  by (auto simp: conv_or_def)

lemma conv_get_mem: "truthy_conv (conv_get cs k) \<Longrightarrow> k \<in> fst ` set cs"
  by (auto simp: conv_get_def split: option.splits dest: map_of_SomeD) (metis fst_conv image_eqI map_of_SomeD)

lemma seek_pair_found:
  assumes "\<forall>k \<in> set ks. is_key k" and "seek_pair cs p nx ks c0 = (c, mid)" and "\<not> truthy_conv c0"
  shows "(mid = None \<and> \<not> truthy_conv c) \<or>
    (\<exists>t0 c'. t0 \<noteq> [] \<and> conv_key t0 nx \<in> set ks \<and> truthy_conv c' \<and>
      c' = conv_or (conv_get cs (conv_key p t0)) (conv_get cs (conv_key ''*'' t0)) \<and>
      (if c' = CTrue then c = conv_get cs (conv_key t0 nx) \<and> mid = None
       else c = c' \<and> mid = (if conv_get cs (conv_key t0 nx) = CTrue then None else Some (t0, nx))))"
  using assms
proof (induction ks arbitrary: c0)
  case (Cons k ks)
  from Cons.prems(1) obtain t0 t1 where k: "k = conv_key t0 t1" "t0 \<noteq> []" "t1 \<noteq> []"
      "CHR '' '' \<notin> set t0" "CHR '' '' \<notin> set t1" by (auto simp: is_key_def)
  then have sp: "split_on (CHR '' '') k = [t0, t1]" using split_key by simp
  let ?c = "conv_or (conv_get cs (conv_key p t0)) (conv_get cs (conv_key ''*'' t0))"
  show ?case
  proof (cases "t1 = nx \<and> truthy_conv ?c")
    case True
    define c' where "c' = ?c"
    have "if c' = CTrue then c = conv_get cs (conv_key t0 nx) \<and> mid = None
       else c = c' \<and> mid = (if conv_get cs (conv_key t0 nx) = CTrue then None else Some (t0, nx))"
    proof -
      have "(case c' of CTrue \<Rightarrow> (conv_get cs k, None)
          | _ \<Rightarrow> (case conv_get cs k of CTrue \<Rightarrow> (c', None) | _ \<Rightarrow> (c', Some (t0, t1)))) = (c, mid)"
        using Cons.prems(2) sp True [THEN conjunct1] True [THEN conjunct2]
        unfolding c'_def True [THEN conjunct1] by (simp add: Let_def)
      moreover have "t1 = nx" using True by simp
      ultimately show ?thesis using k(1) by (cases c'; cases "conv_get cs k") auto
    qed
    then show ?thesis using True k by (intro disjI2 exI [of _ t0] exI [of _ c']) (simp add: c'_def)
  next
    case False
    then obtain c1 where "seek_pair cs p nx ks c1 = (c, mid)" "\<not> truthy_conv c1"
      using Cons.prems(2,3) sp by (auto simp: Let_def split: if_splits)
    with Cons.IH Cons.prems(1) show ?thesis by (metis list.set_intros(2))
  qed
qed auto

text \<open>What \<open>find_conv\<close> finds: a direct converter, a pair, or nothing.\<close>

lemma find_conv_cases:
  assumes "good_keys cs" and "find_conv cs p nx = (c, mid)"
  obtains
    (direct) "truthy_conv c" "mid = None" "c = conv_get cs (conv_key p nx) \<or> c = conv_get cs (conv_key ''*'' nx)"
  | (none) "mid = None" "\<not> truthy_conv c"
  | (before) t0 where "mid = None" "c = conv_get cs (conv_key t0 nx)"
      "conv_get cs (conv_key p t0) = CTrue \<or> conv_get cs (conv_key ''*'' t0) = CTrue"
  | (after) t0 where "mid = None" "conv_get cs (conv_key t0 nx) = CTrue" "truthy_conv c"
      "c = conv_get cs (conv_key p t0) \<or> c = conv_get cs (conv_key ''*'' t0)"
  | (pair) t0 where "mid = Some (t0, nx)" "t0 \<noteq> []" "truthy_conv c" "conv_key t0 nx \<in> fst ` set cs"
      "c = conv_get cs (conv_key p t0) \<or> c = conv_get cs (conv_key ''*'' t0)"
proof -
  let ?d = "conv_or (conv_get cs (conv_key p nx)) (conv_get cs (conv_key ''*'' nx))"
  show ?thesis
  proof (cases "truthy_conv ?d")
    case True
    with assms(2) have "c = ?d" "mid = None" by (auto simp: find_conv_def Let_def)
    with True show ?thesis using conv_orE direct by metis
  next
    case False
    with assms(2) have "seek_pair cs p nx (map fst cs) ?d = (c, mid)" by (simp add: find_conv_def Let_def)
    moreover have "\<forall>k \<in> set (map fst cs). is_key k" using assms(1) by (simp add: good_keys_def)
    ultimately have found: "(mid = None \<and> \<not> truthy_conv c) \<or>
      (\<exists>t0 c'. t0 \<noteq> [] \<and> conv_key t0 nx \<in> set (map fst cs) \<and> truthy_conv c' \<and>
        c' = conv_or (conv_get cs (conv_key p t0)) (conv_get cs (conv_key ''*'' t0)) \<and>
        (if c' = CTrue then c = conv_get cs (conv_key t0 nx) \<and> mid = None
         else c = c' \<and> mid = (if conv_get cs (conv_key t0 nx) = CTrue then None else Some (t0, nx))))"
      by (intro seek_pair_found [OF _ _ False])
    then consider "mid = None \<and> \<not> truthy_conv c"
      | t0 c' where "t0 \<noteq> []" "conv_key t0 nx \<in> set (map fst cs)" "truthy_conv c'"
        "c' = conv_get cs (conv_key p t0) \<or> c' = conv_get cs (conv_key ''*'' t0)"
        "if c' = CTrue then c = conv_get cs (conv_key t0 nx) \<and> mid = None
          else c = c' \<and> mid = (if conv_get cs (conv_key t0 nx) = CTrue then None else Some (t0, nx))"
    proof (elim disjE exE conjE, goal_cases)
      case (2 t0 c')
      then show ?case using conv_orE [of "conv_get cs (conv_key p t0)" "conv_get cs (conv_key ''*'' t0)" c']
        by (intro 2(2) [of t0 c']) simp_all
    qed simp
    then show ?thesis
    proof cases
      case 1
      then show ?thesis using none by blast
    next
      case 2
      then show ?thesis
      proof (cases "c' = CTrue")
        case True
        then have "mid = None" "c = conv_get cs (conv_key t0 nx)" using 2(5) by simp_all
        moreover have "conv_get cs (conv_key p t0) = CTrue \<or> conv_get cs (conv_key ''*'' t0) = CTrue"
          using 2(4) True by auto
        ultimately show ?thesis by (rule before)
      next
        case False
        then have c: "c = c'" and m: "mid = (if conv_get cs (conv_key t0 nx) = CTrue then None else Some (t0, nx))"
          using 2(5) by simp_all
        show ?thesis
        proof (cases "conv_get cs (conv_key t0 nx) = CTrue")
          case True
          with m have "mid = None" by simp
          from after [OF this True] c 2(3,4) show ?thesis by simp
        next
          case nt: False
          with m have "mid = Some (t0, nx)" by simp
          from pair [OF this 2(1)] c 2(2,3,4) show ?thesis by simp
        qed
      qed
    qed
  qed
qed


definition last_type :: "string \<Rightarrow> string list \<Rightarrow> string" where
  "last_type current ts = last (current # filter (\<lambda>t. t \<noteq> ''*'') ts)"

lemma last_type_simps [simp]:
  "last_type c [] = c" "last_type c (''*'' # ts) = last_type c ts"
  "t \<noteq> ''*'' \<Longrightarrow> last_type c (t # ts) = last_type t ts"
  by (simp_all add: last_type_def)

lemma apply_conv_path:
  assumes "good_keys cs" and "find_conv cs p nx = (c, mid)" and "conv_path cs st a v0 w0 p v w"
    and "apply_conv th c p x v w = Done (Success v2) w2"
  shows "case mid of None \<Rightarrow> conv_path cs st a v0 w0 nx v2 w2
    | Some (t0, t1) \<Rightarrow> conv_path cs st a v0 w0 t0 v2 w2 \<and> t1 = nx \<and> t0 \<noteq> []"
proof -
  have go: "conv_path cs st a v0 w0 t v2 w2"
    if "conv_path cs st a v0 w0 b v w" "c = conv_get cs (conv_key b t) \<or> c = conv_get cs (conv_key ''*'' t)" for b t
  proof (cases c)
    case CTrue
    with assms(4) that conv_path.same [OF that(1), of t] show ?thesis by (auto simp: apply_conv_def)
  next
    case (CFn f)
    then have "f v w = Done v2 w2"
      using assms(4) by (auto simp: apply_conv_def split: res.splits if_splits)
    moreover have "conv_get cs (conv_key b t) = CFn f \<or> conv_get cs (conv_key ''*'' t) = CFn f"
      using that(2) CFn by metis
    ultimately show ?thesis by (intro conv_path.step [OF that(1), of t f])
  qed (use assms(4) in \<open>simp add: apply_conv_def\<close>)
  show ?thesis
  proof (cases rule: find_conv_cases [OF assms(1,2), case_names direct none before after pair])
    case direct
    with go [OF assms(3)] show ?thesis by simp
  next
    case none
    with assms(4) show ?thesis by (cases c) (simp_all add: apply_conv_def)
  next
    case (before t0)
    with conv_path.same [OF assms(3), of t0] go [of t0 nx] show ?thesis by simp
  next
    case (after t0)
    with go [OF assms(3), of t0] conv_path.same [of cs st a v0 w0 t0 v2 w2 nx] show ?thesis by simp
  next
    case (pair t0)
    with go [OF assms(3), of t0] show ?thesis by simp
  qed
qed

lemma convert_loop_path:
  assumes "good_keys cs" and "c_filter s = None \<or> \<not> ok"
  shows "convert_loop s cs ok n prev current ts v w = Done (Success v') w' \<Longrightarrow>
    conv_path cs (c_set s) a v0 w0 current v w \<Longrightarrow> current \<noteq> [] \<Longrightarrow> [] \<notin> set ts \<Longrightarrow>
    conv_path cs (c_set s) a v0 w0 (last_type current ts) v' w'"
proof (induction n arbitrary: prev current ts v w)
  case (Suc n)
  define w1 where "w1 = (case map_of (c_fields s) current of Some f \<Rightarrow> c_set s f v w | None \<Rightarrow> w)"
  have p1: "conv_path cs (c_set s) a v0 w0 current v w1"
    using Suc.prems(2) by (auto simp: w1_def intro: conv_path.note_field split: option.split)
  have nof: "(if prev = [] \<and> ok then (case c_filter s of Some g \<Rightarrow> g v w1 | None \<Rightarrow> Done v w1) else Done v w1) = Done v w1"
    using assms(2) by auto
  show ?case
  proof (cases ts)
    case Nil
    with Suc.prems p1 show ?thesis by (simp add: nof w1_def [symmetric])
  next
    case (Cons nx rest)
    have nx: "nx \<noteq> []" "[] \<notin> set rest" using Suc.prems(4) Cons by auto
    note run = Suc.prems(1) [unfolded Cons convert_loop.simps Let_def w1_def [symmetric] nof bindR_simps list.simps(5)]
    consider "nx = ''*''" | "nx \<noteq> ''*''" "current = ''*'' \<or> current = nx" | "nx \<noteq> ''*''" "current \<noteq> ''*''" "current \<noteq> nx" by blast
    then show ?thesis
    proof cases
      case 1
      with run Suc.prems(3) have "convert_loop s cs ok n current current rest v w1 = Done (Success v') w'" by simp
      from Suc.IH [OF this p1 Suc.prems(3) nx(2)] show ?thesis using 1 Cons by simp
    next
      case 2
      with run Suc.prems(3) nx have "convert_loop s cs ok n current nx rest v w1 = Done (Success v') w'" by auto
      moreover have "conv_path cs (c_set s) a v0 w0 nx v w1" using 2 p1 conv_path.same [OF p1, of nx] by auto
      ultimately show ?thesis using Suc.IH nx 2 Cons by simp
    next
      case 3
      obtain c mid where fc: "find_conv cs current nx = (c, mid)" by fastforce
      let ?x = "case mid of Some (t0, t1) \<Rightarrow> t0 | None \<Rightarrow> nx"
      from run 3 Suc.prems(3) nx obtain r w3 where ap: "apply_conv (c_throws s) c current ?x v w1 = Done r w3"
        and r: "(case r of Success v2 \<Rightarrow> convert_loop s cs ok n current ?x
            (case mid of Some (t0, t1) \<Rightarrow> t1 # rest | None \<Rightarrow> rest) v2 w3 | _ \<Rightarrow> Done r w3) = Done (Success v') w'"
        by (simp add: fc bindR_eq_Done) blast
      then obtain v2 where v2: "r = Success v2" by (cases r) auto
      note path = apply_conv_path [OF assms(1) fc p1 ap [unfolded v2]]
      show ?thesis
      proof (cases mid)
        case None
        with path r v2 Suc.IH [of current nx rest v2 w3] nx 3 Cons show ?thesis by simp
      next
        case (Some tt)
        then obtain t0 where "mid = Some (t0, nx)" "t0 \<noteq> []" "conv_path cs (c_set s) a v0 w0 t0 v2 w3"
          using path by (cases tt) auto
        with r v2 Suc.IH [of current t0 "nx # rest" v2 w3] nx 3 Cons show ?thesis by simp
      qed
    qed
  qed
qed simp


lemma set_put_prop: "set (put_prop k v ps) \<subseteq> insert (k, v) (set ps)"
  by (induction k v ps rule: put_prop.induct) auto

lemma set_lower_keys: "set (lower_keys cs) \<subseteq> (\<lambda>(k, c). (lower k, c)) ` set cs"
proof -
  have "set (foldl (\<lambda>m (k, c). put_prop (lower k) c m) m cs) \<subseteq> set m \<union> (\<lambda>(k, c). (lower k, c)) ` set cs" for m
  proof (induction cs arbitrary: m)
    case (Cons p cs)
    obtain k c where p: "p = (k, c)" by fastforce
    have "set (put_prop (lower k) c m) \<subseteq> insert (lower k, c) (set m)" by (rule set_put_prop)
    with Cons [of "put_prop (lower k) c m"] show ?case by (auto simp: p)
  qed simp
  from this [of "[]"] show ?thesis by (simp add: lower_keys_def)
qed

lemma lower_space: "CHR '' '' \<notin> set a \<Longrightarrow> CHR '' '' \<notin> set (lower a)"
proof -
  have "lower_char c = CHR '' '' \<Longrightarrow> c = CHR '' ''" for c
  proof (rule ccontr)
    assume l: "lower_char c = CHR '' ''" and n: "c \<noteq> CHR '' ''"
    then have "lower_char c = char_of (of_char c + 32 :: nat)" "65 \<le> (of_char c :: nat)" "(of_char c :: nat) \<le> 90"
      by (auto simp: lower_char_def Let_def split: if_splits)
    then have "of_char (lower_char c) = (of_char c + 32 :: nat)" by simp
    with l \<open>65 \<le> (of_char c :: nat)\<close> show False by simp
  qed
  then show "CHR '' '' \<notin> set a \<Longrightarrow> ?thesis" unfolding lower_def by (metis imageE image_set)
qed

lemma is_key_lower: "is_key k \<Longrightarrow> is_key (lower k)"
proof -
  assume "is_key k"
  then obtain a b where ab: "k = conv_key a b" "a \<noteq> []" "b \<noteq> []" "CHR '' '' \<notin> set a" "CHR '' '' \<notin> set b"
    by (auto simp: is_key_def)
  have "lower '' '' = '' ''" by (simp add: lower_def lower_char_def)
  with ab have "lower k = conv_key (lower a) (lower b)" "lower a \<noteq> []" "lower b \<noteq> []"
    by (simp_all add: conv_key_def) (simp_all add: lower_def)
  with ab lower_space show ?thesis unfolding is_key_def by blast
qed

lemma good_keys_lower: "good_keys cs \<Longrightarrow> good_keys (lower_keys cs)"
  using set_lower_keys [of cs] is_key_lower by (fastforce simp: good_keys_def)

text \<open>
  C11: when a conversion succeeds, its value came from the response through a path of
  registered converters from the first data type to the last one named.
\<close>

theorem convert_follows_path:
  assumes "good_keys (c_converters s)" and "c_filter s = None \<or> \<not> ok" and "[] \<notin> set (t # ts)"
    and "ajaxConvert s n (t # ts) ok v w = Done (Success v') w'"
  shows "conv_path (lower_keys (c_converters s)) (c_set s) t v w (last_type t ts) v' w'"
proof (cases ts)
  case Nil
  have "conv_path (lower_keys (c_converters s)) (c_set s) t v w t v (c_set s f v w)" for f
    by (intro conv_path.note_field conv_path.here)
  moreover obtain m where "n = Suc m" using assms(4) by (cases n) (auto simp: ajaxConvert_def Nil)
  ultimately show ?thesis
    using assms Nil by (auto simp: ajaxConvert_def Let_def intro: conv_path.here split: option.splits if_splits)
next
  case (Cons t' ts')
  with assms(3,4) have "convert_loop s (lower_keys (c_converters s)) ok n [] t ts v w = Done (Success v') w'"
    by (auto simp: ajaxConvert_def)
  from convert_loop_path [OF good_keys_lower [OF assms(1)] assms(2) this conv_path.here] assms(3) show ?thesis by auto
qed

section \<open>Whether the conversion ends\<close>

definition all_truthy :: "('e, 'v, 'w) convs \<Rightarrow> bool" where
  "all_truthy cs \<longleftrightarrow> (\<forall>c \<in> snd ` set cs. truthy_conv c)"

definition all_return :: "('e, 'v, 'w) convs \<Rightarrow> bool" where
  "all_return cs \<longleftrightarrow> (\<forall>f. CFn f \<in> snd ` set cs \<longrightarrow> (\<forall>v w. f v w \<noteq> Diverge))"

lemma all_truthyD: "all_truthy cs \<Longrightarrow> k \<in> fst ` set cs \<Longrightarrow> truthy_conv (conv_get cs k)"
  by (auto simp: all_truthy_def conv_get_def map_of_eq_None_iff split: option.split)
    (metis map_of_SomeD snd_conv)

lemma conv_get_return: "all_return cs \<Longrightarrow> conv_get cs k = CFn f \<Longrightarrow> f v w \<noteq> Diverge"
  by (auto simp: all_return_def conv_get_def dest!: map_of_SomeD split: option.splits)
    (metis image_eqI snd_conv)

lemma apply_conv_returns:
  assumes "good_keys cs" "all_return cs" "find_conv cs p nx = (c, mid)"
  shows "apply_conv th c p x v w \<noteq> Diverge"
proof (cases c)
  case (CFn f)
  have "\<exists>k. c = conv_get cs k"
    by (rule find_conv_cases [OF assms(1,3)]) (use CFn in auto)
  then have "f v w \<noteq> Diverge" using conv_get_return [OF assms(2)] CFn by metis
  then show ?thesis using CFn by (cases "f v w") (auto simp: apply_conv_def)
qed (simp_all add: apply_conv_def)

lemma bind_diverge: "m \<noteq> Diverge \<Longrightarrow> (\<And>a w. f a w \<noteq> Diverge) \<Longrightarrow> bindR m f \<noteq> Diverge"
  by (cases m) auto


lemma lower_convs: "c \<in> snd ` set (lower_keys cs) \<Longrightarrow> c \<in> snd ` set cs"
proof -
  assume "c \<in> snd ` set (lower_keys cs)"
  then obtain k where "(k, c) \<in> set (lower_keys cs)" by auto
  then have "(k, c) \<in> (\<lambda>(k, c). (lower k, c)) ` set cs" by (rule subsetD [OF set_lower_keys])
  then show ?thesis by force
qed

lemma truthy_lower: "all_truthy cs \<Longrightarrow> all_truthy (lower_keys cs)"
  using lower_convs unfolding all_truthy_def by metis

lemma return_lower: "all_return cs \<Longrightarrow> all_return (lower_keys cs)"
  using lower_convs unfolding all_return_def by metis

lemma bindR_eq_Diverge: "bindR m f = Diverge \<longleftrightarrow> m = Diverge \<or> (\<exists>a w. m = Done a w \<and> f a w = Diverge)"
  by (cases m) auto

lemma convert_loop_returns:
  assumes "good_keys cs" "all_truthy cs" "all_return cs"
    and filt: "\<And>g v w. c_filter s = Some g \<Longrightarrow> g v w \<noteq> Diverge"
  shows "2 * length ts < n \<Longrightarrow> convert_loop s cs ok n prev current ts v w \<noteq> Diverge"
proof (induction "length ts" arbitrary: n prev current ts v w rule: less_induct)
  case less
  have ret: "apply_conv th (fst (find_conv cs p nx)) p x v w \<noteq> Diverge" for th p nx x v w
    using apply_conv_returns [OF assms(1,3)] by (metis prod.collapse)
  have unfold: "convert_loop s cs ok (Suc m) prev current ts v w \<noteq> Diverge"
    if "\<And>nx rest v1 w2. ts = nx # rest \<Longrightarrow> current \<noteq> [] \<Longrightarrow> nx \<noteq> [] \<Longrightarrow> nx \<noteq> ''*'' \<Longrightarrow>
        current \<noteq> ''*'' \<Longrightarrow> current \<noteq> nx \<Longrightarrow> (case find_conv cs current nx of (c, mid) \<Rightarrow>
          \<forall>v2 w3. convert_loop s cs ok m current (case mid of Some (t0, t1) \<Rightarrow> t0 | None \<Rightarrow> nx)
            (case mid of Some (t0, t1) \<Rightarrow> t1 # rest | None \<Rightarrow> rest) v2 w3 \<noteq> Diverge)"
      and "\<And>nx rest v1 w2 c. ts = nx # rest \<Longrightarrow> convert_loop s cs ok m current c rest v1 w2 \<noteq> Diverge"
    for m prev current ts v w
  proof (cases "current = []")
    case False
    define w1 where "w1 = (case map_of (c_fields s) current of Some f \<Rightarrow> c_set s f v w | None \<Rightarrow> w)"
    show ?thesis
      unfolding convert_loop.simps Let_def w1_def [symmetric] if_not_P [OF False]
    proof (rule bind_diverge)
      show "(if prev = [] \<and> ok then case c_filter s of None \<Rightarrow> Done v w1 | Some g \<Rightarrow> g v w1 else Done v w1) \<noteq> Diverge"
        using filt by (auto split: option.split)
    next
      fix v1 w2
      show "(case ts of [] \<Rightarrow> Done (Success v1) w2
         | next # rest \<Rightarrow>
             if next = [] then convert_loop s cs ok m current next rest v1 w2
             else if next = ''*'' then convert_loop s cs ok m current current rest v1 w2
             else if current \<noteq> ''*'' \<and> current \<noteq> next
             then (case find_conv cs current next of (c, mid) \<Rightarrow>
               bindR (apply_conv (c_throws s) c current (case mid of None \<Rightarrow> next | Some (t0, t1) \<Rightarrow> t0) v1 w2) (\<lambda>r w3.
                 case r of Success v2 \<Rightarrow> convert_loop s cs ok m current (case mid of None \<Rightarrow> next | Some (t0, t1) \<Rightarrow> t0)
                     (case mid of None \<Rightarrow> rest | Some (t0, t1) \<Rightarrow> t1 # rest) v2 w3
                   | _ \<Rightarrow> Done r w3))
             else convert_loop s cs ok m current next rest v1 w2) \<noteq> Diverge"
        using that False
        by (auto simp: bindR_eq_Diverge case_prod_beta ret split: list.splits converted.splits)
    qed
  qed simp
  from less.prems obtain m where n: "n = Suc m" "2 * length ts \<le> m" by (cases n) auto
  show ?case unfolding n(1)
  proof (rule unfold)
    fix nx rest v1 and w2 :: "'c" and c assume ts: "ts = nx # rest"
    then show "convert_loop s cs ok m current c rest v1 w2 \<noteq> Diverge"
      using less.hyps [of rest] n by simp
  next
    fix nx rest assume ts: "ts = nx # rest" and nx: "nx \<noteq> []" "nx \<noteq> ''*''"
    obtain c mid where fc: "find_conv cs current nx = (c, mid)" by fastforce
    obtain k where k: "m = Suc k" "2 * length rest < k" using n ts by (cases m) auto
    have rest: "2 * length rest < j \<Longrightarrow> convert_loop s cs ok j p q rest v w \<noteq> Diverge" for j p q v w
      using less.hyps [of rest] ts by simp
    have pair: "convert_loop s cs ok (Suc k) p t0 (nx # rest) v2 w3 \<noteq> Diverge"
      if "conv_key t0 nx \<in> fst ` set cs" for t0 p v2 w3
    proof (rule unfold)
      fix nx' rest' assume "nx # rest = nx' # rest'"
      then have e: "nx' = nx" "rest' = rest" by simp_all
      have "truthy_conv (conv_get cs (conv_key t0 nx))" by (rule all_truthyD [OF assms(2) that])
      then have "snd (find_conv cs t0 nx) = None" by (simp add: find_conv_def conv_or_def Let_def)
      then show "case find_conv cs t0 nx' of (c, mid) \<Rightarrow>
          \<forall>v2 w3. convert_loop s cs ok k t0 (case mid of Some (t0, t1) \<Rightarrow> t0 | None \<Rightarrow> nx')
            (case mid of Some (t0, t1) \<Rightarrow> t1 # rest' | None \<Rightarrow> rest') v2 w3 \<noteq> Diverge"
        using rest [OF k(2)] by (auto simp: e split: prod.split)
    qed (use rest [OF k(2)] in auto)
    show "case find_conv cs current nx of (c, mid) \<Rightarrow>
          \<forall>v2 w3. convert_loop s cs ok m current (case mid of Some (t0, t1) \<Rightarrow> t0 | None \<Rightarrow> nx)
            (case mid of Some (t0, t1) \<Rightarrow> t1 # rest | None \<Rightarrow> rest) v2 w3 \<noteq> Diverge"
      by (rule find_conv_cases [OF assms(1) fc])
        (use rest [of m] k(2) pair in \<open>simp_all add: fc k(1) del: convert_loop.simps(2)\<close>)
  qed
qed


text \<open>
  C12: with truthy converters under keys of two types, and converters and a filter that
  return, a conversion always comes back; twice the number of data types bounds its rounds.
\<close>

theorem convert_terminates:
  assumes "good_keys (c_converters s)" "all_truthy (c_converters s)" "all_return (c_converters s)"
    and "\<And>g v w. c_filter s = Some g \<Longrightarrow> g v w \<noteq> Diverge" and "2 * length ts < n"
  shows "ajaxConvert s n ts ok v w \<noteq> Diverge"
proof (cases ts)
  case (Cons t rest)
  let ?cs = "case ts of _ # t # _ \<Rightarrow> if t \<noteq> [] then lower_keys (c_converters s) else [] | _ \<Rightarrow> []"
  have "?cs = [] \<or> ?cs = lower_keys (c_converters s)" by (auto split: list.split)
  then have "good_keys ?cs" "all_truthy ?cs" "all_return ?cs"
    using good_keys_lower [OF assms(1)] truthy_lower [OF assms(2)] return_lower [OF assms(3)]
    by (auto simp: good_keys_def all_truthy_def all_return_def)
  then have "convert_loop s ?cs ok n [] t rest v w \<noteq> Diverge"
    using assms(4,5) Cons by (intro convert_loop_returns) auto
  then show ?thesis
    using Cons by (simp add: ajaxConvert_def Let_def del: convert_loop.simps)
qed (simp add: ajaxConvert_def)

definition to_text :: "nat \<Rightarrow> nat \<Rightarrow> (nat, nat, nat) res" where
  "to_text v w = Done (v + 1) w"

definition text_settings :: "(nat, nat, nat) conv \<Rightarrow> (nat, nat, nat) convset" where
  "text_settings html = \<lparr>c_converters = [(''* text'', CFn to_text), (''text html'', html)],
     c_fields = [(''text'', ''responseText'')], c_filter = None, c_throws = False, c_set = (\<lambda>k v w. w)\<rparr>"

lemma text_settings_good: "good_keys (c_converters (text_settings c))"
proof -
  have "is_key ''* text''" unfolding is_key_def
    by (rule exI [of _ "''*''"], rule exI [of _ "''text''"]) (simp add: conv_key_def)
  moreover have "is_key ''text html''" unfolding is_key_def
    by (rule exI [of _ "''text''"], rule exI [of _ "''html''"]) (simp add: conv_key_def)
  ultimately show ?thesis by (simp add: good_keys_def text_settings_def)
qed

lemma convert_terminates_witness:
  "ajaxConvert (text_settings CTrue) 5 [''xml'', ''html''] True 7 0 \<noteq> Diverge"
  by (rule convert_terminates [OF text_settings_good])
    (auto simp: all_truthy_def all_return_def text_settings_def to_text_def)

lemma convert_follows_path_witness:
  "conv_path (lower_keys (c_converters (text_settings CTrue))) (c_set (text_settings CTrue)) ''xml'' 7 0
     (last_type ''xml'' [''html'']) 8 0"
  by (rule convert_follows_path [OF text_settings_good, of CTrue True "''xml''" "[''html'']" 5])
    (simp_all add: text_settings_def, code_simp)

text \<open>
  a falsy converter between two types makes the conversion run for ever: turning off
  the conversion of text to HTML with \<open>false\<close> never gives a result, whatever the fuel.
\<close>

theorem falsy_converter_hangs:
  "ajaxConvert (text_settings CFalsy) n [''text'', ''html''] True v w = Diverge"
proof -
  let ?cs = "lower_keys (c_converters (text_settings CFalsy))"
  have cs: "?cs = [(''* text'', CFn to_text), (''text html'', CFalsy)]"
    by (simp add: lower_keys_def text_settings_def lower_def lower_char_def)
  have "find_conv ?cs ''text'' ''html'' = (CFn to_text, Some (''text'', ''html''))"
    unfolding cs by (simp add: find_conv_def conv_or_def conv_get_def conv_key_def)
  then have "convert_loop (text_settings CFalsy) ?cs True n prev ''text'' [''html''] v w = Diverge" for prev
    by (induction n arbitrary: prev v w)
      (auto simp: text_settings_def apply_conv_def to_text_def Let_def)
  then show ?thesis by (simp add: ajaxConvert_def)
qed


section \<open>What conversions keep\<close>

lemma seek_pair_conv: "seek_pair cs p nx ks c0 = (c, mid) \<Longrightarrow> c = c0 \<or> (\<exists>k. c = conv_get cs k)"
proof (induction ks arbitrary: c0)
  case (Cons k ks)
  have or: "conv_or (conv_get cs a) (conv_get cs b) = conv_get cs a \<or> conv_or (conv_get cs a) (conv_get cs b) = conv_get cs b" for a b
    by (simp add: conv_or_def)
  show ?case
    using Cons.prems Cons.IH or by (auto simp: Let_def split: list.splits if_splits conv.splits) metis+
qed simp

lemma find_conv_conv: "find_conv cs p nx = (c, mid) \<Longrightarrow> \<exists>k. c = conv_get cs k"
proof -
  assume "find_conv cs p nx = (c, mid)"
  moreover have "\<exists>k. conv_or (conv_get cs a) (conv_get cs b) = conv_get cs k" for a b
    by (auto simp: conv_or_def)
  ultimately show ?thesis
    using seek_pair_conv by (fastforce simp: find_conv_def Let_def split: if_splits)
qed

lemma conv_get_fn: "conv_get cs k = CFn f \<Longrightarrow> CFn f \<in> snd ` set cs"
  by (auto simp: conv_get_def dest!: map_of_SomeD split: option.splits) (metis image_eqI snd_conv)

lemma convert_loop_within:
  assumes fns: "\<And>f v w. CFn f \<in> snd ` set cs \<Longrightarrow> I w \<Longrightarrow> keeps I (f v w)"
    and filt: "\<And>g v w. c_filter s = Some g \<Longrightarrow> I w \<Longrightarrow> within E I (g v w)"
    and set: "\<And>k v w. I w \<Longrightarrow> I (c_set s k v w)"
    and throws: "\<And>e. c_throws s \<Longrightarrow> E e"
  shows "I w \<Longrightarrow> within E I (convert_loop s cs ok n prev current ts v w)"
proof (induction n arbitrary: prev current ts v w)
  case (Suc n)
  have app: "within E I (apply_conv (c_throws s) (fst (find_conv cs p nx)) p x v w)" if "I w" for p nx x v w
  proof -
    obtain c mid where fc: "find_conv cs p nx = (c, mid)" by fastforce
    from find_conv_conv [OF fc] obtain k where k: "c = conv_get cs k" ..
    have "within E I (apply_conv (c_throws s) c p x v w)"
    proof (cases c)
      case (CFn f)
      with k have "CFn f \<in> snd ` set cs" using conv_get_fn [of cs k f] by simp
      from fns [OF this that, of v] show ?thesis
        using throws CFn by (auto simp: apply_conv_def keeps_def split: res.splits)
    qed (use that in \<open>simp_all add: apply_conv_def\<close>)
    then show ?thesis by (simp add: fc)
  qed
  define w1 where "w1 = (case map_of (c_fields s) current of Some f \<Rightarrow> c_set s f v w | None \<Rightarrow> w)"
  have w1: "I w1" using Suc.prems set by (auto simp: w1_def split: option.split)
  show ?case
    unfolding convert_loop.simps Let_def w1_def [symmetric]
  proof (cases "current = []")
    case False
    have first: "within E I (if prev = [] \<and> ok then case c_filter s of None \<Rightarrow> Done v w1 | Some g \<Rightarrow> g v w1 else Done v w1)"
      using w1 filt by (auto split: option.split)
    show "within E I (if current = [] then Done (Success v) w else bindR
        (if prev = [] \<and> ok then case c_filter s of None \<Rightarrow> Done v w1 | Some g \<Rightarrow> g v w1 else Done v w1)
        (\<lambda>v1 w2. case ts of [] \<Rightarrow> Done (Success v1) w2
         | next # rest \<Rightarrow>
             if next = [] then convert_loop s cs ok n current next rest v1 w2
             else if next = ''*'' then convert_loop s cs ok n current current rest v1 w2
             else if current \<noteq> ''*'' \<and> current \<noteq> next
             then (case find_conv cs current next of (c, mid) \<Rightarrow>
               bindR (apply_conv (c_throws s) c current (case mid of None \<Rightarrow> next | Some (t0, t1) \<Rightarrow> t0) v1 w2) (\<lambda>r w3.
                 case r of Success v2 \<Rightarrow> convert_loop s cs ok n current (case mid of None \<Rightarrow> next | Some (t0, t1) \<Rightarrow> t0)
                     (case mid of None \<Rightarrow> rest | Some (t0, t1) \<Rightarrow> t1 # rest) v2 w3
                   | _ \<Rightarrow> Done r w3))
             else convert_loop s cs ok n current next rest v1 w2))"
      unfolding if_not_P [OF False] case_prod_beta
      by (rule within_bindR_same [OF first])
        (auto intro!: within_bindR_same app Suc.IH split: list.split converted.split)
  qed (use Suc.prems in simp)
qed simp

lemma convert_within:
  assumes fns: "\<And>f v w. CFn f \<in> snd ` set (c_converters s) \<Longrightarrow> I w \<Longrightarrow> keeps I (f v w)"
    and filt: "\<And>g v w. c_filter s = Some g \<Longrightarrow> I w \<Longrightarrow> within E I (g v w)"
    and set: "\<And>k v w. I w \<Longrightarrow> I (c_set s k v w)"
    and throws: "\<And>e. c_throws s \<Longrightarrow> E e" and w: "I w"
  shows "within E I (ajaxConvert s n ts ok v w)"
proof -
  have fns': "keeps I (f v w)" if "CFn f \<in> snd ` set (lower_keys (c_converters s))" "I w" for f v w
    by (rule fns [OF lower_convs [OF that(1)] that(2)])
  have full: "within E I (convert_loop s (lower_keys (c_converters s)) ok n [] t rest v w)" for t rest
    by (rule convert_loop_within [where I = I and E = E]) (fact fns' filt set throws w)+
  have none: "within E I (convert_loop s [] ok n [] t rest v w)" for t rest
    by (rule convert_loop_within [where I = I and E = E]) (simp | fact filt set throws w)+
  show ?thesis
    using w full none by (auto simp: ajaxConvert_def Let_def split: list.split simp del: convert_loop.simps)
qed


text \<open>Inspection keeps every reflexive and transitive relation that the handlers keep.\<close>

locale inspected_by =
  fixes R :: "'o \<Rightarrow> 'o \<Rightarrow> bool" and st :: "('o, 't) handler registry" and shift :: "string \<Rightarrow> 'o \<Rightarrow> 'o"
  assumes refl: "R o1 o1" and trans: "R o1 o2 \<Longrightarrow> R o2 o3 \<Longrightarrow> R o1 o3"
    and handlers: "hs \<in> snd ` set st \<Longrightarrow> h \<in> set hs \<Longrightarrow> R o1 (snd (h o1))"
    and shifted: "R o1 (shift d o1)"
begin

lemma reg_handlers: "h \<in> set (reg_get st d) \<Longrightarrow> R o1 (snd (h o1))"
proof -
  assume h: "h \<in> set (reg_get st d)"
  then obtain hs where "map_of st d = Some hs" "h \<in> set hs" by (cases "map_of st d") (auto simp: reg_get_def)
  then show ?thesis using handlers [of hs h] by (metis image_eqI map_of_SomeD snd_conv)
qed

lemma inspect_steps:
  "s = st \<Longrightarrow> u = shift \<Longrightarrow> inspect u sk s n d (o1, seen) = Some (r, o2, seen') \<Longrightarrow> R o1 o2"
  "s = st \<Longrightarrow> u = shift \<Longrightarrow> \<forall>h \<in> set hs. \<forall>o1. R o1 (snd (h o1)) \<Longrightarrow>
    inspect_each u sk s n hs sel (o1, seen) = Some (r, o2, seen') \<Longrightarrow> R o1 o2"
proof (induction u sk s n d "(o1, seen)" and u sk s n hs sel "(o1, seen)"
    arbitrary: o1 seen r o2 seen' and o1 seen r o2 seen' rule: inspect_inspect_each.induct)
  case (2 u sk s n d o1 seen)
  then show ?case using reg_handlers by (simp del: not_None_eq)
next
  case (3 u sk s n sel o1 seen)
  then show ?case using refl by simp
next
  case (4 u sk s n h hs sel o1 seen)
  obtain x o' where h: "h o1 = (x, o')" by (cases "h o1") auto
  have R: "R o1 o'" using "4.prems"(3) h by (metis list.set_intros(1) snd_conv)
  have hs: "\<forall>h \<in> set hs. \<forall>o1. R o1 (snd (h o1))" using "4.prems"(3) by simp
  note ih = "4.hyps" [OF h [symmetric]]
  have go: "R o' o2"
  proof (cases sk)
    case True
    note run = "4.prems"(4) [unfolded inspect_each.simps Let_def h prod.case]
    show ?thesis
    proof (cases "given_truthy x")
      case yes: True
      with run True have "o' = o2" by (cases x) auto
      then show ?thesis using refl by simp
    next
      case no: False
      with run True have each: "inspect_each u sk s n hs x (o', seen) = Some (r, o2, seen')"
        by (cases x) auto
      show ?thesis
      proof (cases x)
        case GNone
        from ih(1) [of x o' x sk] each True GNone hs "4.prems"(1,2) show ?thesis by simp
      next
        case (GType d)
        from ih(3) [of x o' x sk d] each True GType no hs "4.prems"(1,2) show ?thesis by simp
      next
        case (GObj t)
        with no show ?thesis by simp
      qed
    qed
  next
    case False
    note run = "4.prems"(4) [unfolded inspect_each.simps Let_def h prod.case]
    show ?thesis
    proof (cases "\<exists>d. x = GType d \<and> d \<notin> seen")
      case True
      then obtain d where d: "x = GType d" "d \<notin> seen" by blast
      from run False d obtain r' where "inspect u sk s n d (u d o', seen) = Some (r', o2, seen')" by auto
      then have "R (u d o') o2" using ih(4) [of x o' x sk d] False d "4.prems"(1,2) by simp
      with shifted [of o' d] "4.prems"(2) show ?thesis using trans by metis
    next
      case other: False
      with run False have "inspect_each u sk s n hs sel (o', seen) = Some (r, o2, seen')"
        by (cases x) auto
      then show ?thesis
        using ih(2) [of x o' x sk] ih(5) [of x o' x sk] ih(7) [of x o' x sk] False other "4.prems"(1,2) hs
        by (cases x) simp_all
    qed
  qed
  show ?case by (rule trans [OF R go])
qed simp

lemma inspection: "inspectPrefiltersOrTransports shift sk st n d o1 = Some (r, o2) \<Longrightarrow> R o1 o2"
  using inspect_steps(1) [OF HOL.refl HOL.refl] trans
  by (auto simp: inspectPrefiltersOrTransports_def split: option.splits if_splits prod.splits) blast+

end

end
