(* ===== verification/JqSerialize.thy ===== *)
theory JqSerialize
  imports JsRegExp
begin

text \<open>
  Form serialization of \<open>democlient/js/jquery.js\<close>: \<open>serializeArray\<close>, \<open>serialize\<close>,
  \<open>jQuery.param\<close> and \<open>buildParams\<close>, with the language's \<open>encodeURIComponent\<close> on strings of
  characters below 256. The client sends its queries with it. The theorems decode the
  result as a server does and find the names and values again.
\<close>

section \<open>encodeURIComponent\<close>

definition unreserved :: "char \<Rightarrow> bool" where
  "unreserved c = (let n = of_char c :: nat in
     48 \<le> n \<and> n < 58 \<or> 65 \<le> n \<and> n < 91 \<or> 97 \<le> n \<and> n < 123 \<or> c \<in> set ''-_.!~*()'' \<or> n = 39)"

definition utf8 :: "char \<Rightarrow> nat list" where
  "utf8 c = (let n = of_char c :: nat in if n < 128 then [n] else [192 + n div 64, 128 + n mod 64])"

definition hex_digit :: "nat \<Rightarrow> char" where
  "hex_digit d = (if d < 10 then char_of (48 + d) else char_of (55 + d))"

definition pct :: "nat \<Rightarrow> string" where
  "pct n = [CHR ''%'', hex_digit (n div 16), hex_digit (n mod 16)]"

definition encode_char :: "char \<Rightarrow> string" where
  "encode_char c = (if unreserved c then [c] else concat (map pct (utf8 c)))"

definition encodeURIComponent :: "string \<Rightarrow> string" where
  "encodeURIComponent s = concat (map encode_char s)"

section \<open>param\<close>

text \<open>
  The values that can be serialized; \<open>PFun src v\<close> is a function with that source text,
  whose call returns \<open>v\<close>.
\<close>

datatype pval = PUndef | PNull | PBool bool | PNum int | PStr string | PArr "pval list"
  | PObj "(string \<times> pval) list" | PFun string pval

text \<open>The language's string conversion.\<close>

fun to_str :: "pval \<Rightarrow> string" and arr_item :: "pval \<Rightarrow> string" where
  "to_str PUndef = ''undefined''"
| "to_str PNull = ''null''"
| "to_str (PBool b) = (if b then ''true'' else ''false'')"
| "to_str (PNum n) = int_str n"
| "to_str (PStr s) = s"
| "to_str (PArr vs) = join_on '','' (map arr_item vs)"
| "to_str (PObj ps) = ''[object Object]''"
| "to_str (PFun src v) = src"
| "arr_item PUndef = []"
| "arr_item PNull = []"
| "arr_item v = to_str v"

fun typeof_object :: "pval \<Rightarrow> bool" where
  "typeof_object PNull = True"
| "typeof_object (PArr vs) = True"
| "typeof_object (PObj ps) = True"
| "typeof_object _ = False"

definition field :: "pval \<Rightarrow> string \<Rightarrow> pval" where
  "field v k = (case v of PObj ps \<Rightarrow> (case map_of ps k of Some x \<Rightarrow> x | None \<Rightarrow> PUndef) | _ \<Rightarrow> PUndef)"

text \<open>What the inner function \<open>add\<close> takes as the value.\<close>

fun add_value :: "pval \<Rightarrow> string" where
  "add_value (PFun src v) = to_str v"
| "add_value PUndef = []"
| "add_value PNull = []"
| "add_value v = to_str v"

definition param_add :: "string \<Rightarrow> pval \<Rightarrow> string list \<Rightarrow> string list" where
  "param_add key v s = s @ [encodeURIComponent key @ ''='' @ encodeURIComponent (add_value v)]"

definition rbracket :: re where
  "rbracket = seqs [lit ''[]'', Eol False]"

text \<open>\<open>buildParams\<close> threads what \<open>add\<close> collects; the object's names come in order.\<close>

function (sequential) buildParams :: "string \<Rightarrow> pval \<Rightarrow> bool \<Rightarrow> (string \<Rightarrow> pval \<Rightarrow> 's \<Rightarrow> 's) \<Rightarrow> 's \<Rightarrow> 's"
  and build_items :: "string \<Rightarrow> nat \<Rightarrow> pval list \<Rightarrow> bool \<Rightarrow> (string \<Rightarrow> pval \<Rightarrow> 's \<Rightarrow> 's) \<Rightarrow> 's \<Rightarrow> 's"
  and build_props :: "string \<Rightarrow> (string \<times> pval) list \<Rightarrow> bool \<Rightarrow> (string \<Rightarrow> pval \<Rightarrow> 's \<Rightarrow> 's) \<Rightarrow> 's \<Rightarrow> 's" where
  "buildParams prefix (PArr vs) traditional add s = build_items prefix 0 vs traditional add s"
| "buildParams prefix (PObj ps) traditional add s =
     (if \<not> traditional then build_props prefix ps traditional add s else add prefix (PObj ps) s)"
| "buildParams prefix v traditional add s = add prefix v s"
| "build_items prefix i [] traditional add s = s"
| "build_items prefix i (v # vs) traditional add s =
     build_items prefix (Suc i) vs traditional add
       (if traditional \<or> re_test rbracket prefix then add prefix v s
        else buildParams (prefix @ ''['' @ (if typeof_object v then nat_str i else []) @ '']'') v traditional add s)"
| "build_props prefix [] traditional add s = s"
| "build_props prefix ((name, v) # ps) traditional add s =
     build_props prefix ps traditional add (buildParams (prefix @ ''['' @ name @ '']'') v traditional add s)"
  by pat_completeness auto
termination
  by (relation "measure (\<lambda>x. case x of Inl (_, v, _) \<Rightarrow> 2 * size v
        | Inr (Inl (_, _, vs, _)) \<Rightarrow> Suc (2 * size_list size vs)
        | Inr (Inr (_, ps, _)) \<Rightarrow> Suc (2 * size_list (size_prod (\<lambda>_. 0) size) ps))") auto

lemmas build_items_cons = build_items.simps(2)

text \<open>
  The loop over form elements and the loop over the names of anything else: the properties
  of a plain object, the indices of a string, and nothing for a number, a Boolean or a
  function. \<open>None\<close>: looking at \<open>a.jquery\<close> of \<open>null\<close> or \<open>undefined\<close> throws.
\<close>

definition param_names :: "pval \<Rightarrow> (string \<times> pval) list" where
  "param_names a =
     (case a of
        PObj ps \<Rightarrow> ps
      | PStr t \<Rightarrow> map (\<lambda>(i, c). (nat_str i, PStr [c])) (enumerate 0 t)
      | _ \<Rightarrow> [])"

definition param_with :: "pval \<Rightarrow> bool \<Rightarrow> (string \<Rightarrow> pval \<Rightarrow> 's \<Rightarrow> 's) \<Rightarrow> 's \<Rightarrow> 's option" where
  "param_with a traditional add s =
     (case a of
        PUndef \<Rightarrow> None
      | PNull \<Rightarrow> None
      | PArr vs \<Rightarrow> Some (foldl (\<lambda>s v. add (to_str (field v ''name'')) (field v ''value'') s) s vs)
      | _ \<Rightarrow> Some (foldl (\<lambda>s (prefix, v). buildParams prefix v traditional add s) s (param_names a)))"

definition r20 :: re where "r20 = lit ''%20''"

text \<open>\<open>ts\<close> is \<open>jQuery.ajaxSettings.traditional\<close>, used when the argument is not given.\<close>

definition param :: "bool \<Rightarrow> pval \<Rightarrow> bool option \<Rightarrow> string option" where
  "param ts a traditional =
     map_option (\<lambda>s. re_replace_all r20 (\<lambda>_. ''+'') (join_on ''&'' s))
       (param_with a (case traditional of Some t \<Rightarrow> t | None \<Rightarrow> ts) param_add [])"

section \<open>serialize\<close>

text \<open>A form control; \<open>f_val\<close> is what \<open>.val()\<close> returns for it.\<close>

datatype cval = CNull | COne string | CMany "string list"

record control =
  f_name :: string
  f_type :: string
  f_node :: string
  f_disabled :: bool
  f_checked :: bool
  f_val :: cval

text \<open>A member of the set: a form with its \<open>elements\<close>, or a control itself.\<close>

datatype member = Form "control list" | Single control

definition rCRLF :: re where
  "rCRLF = seqs [opt (Ch (\<lambda>c. c = CHR 0x0D)), Ch (\<lambda>c. c = CHR 0x0A)]"

definition rsubmitterTypes :: re where
  "rsubmitterTypes = seqs [Bol False, alts (map lit_i [''submit'', ''button'', ''image'', ''reset'', ''file'']), Eol False]"

definition rsubmittable :: re where
  "rsubmittable = seqs [Bol False, alts (map lit_i [''input'', ''select'', ''textarea'', ''keygen''])]"

definition manipulation_rcheckableType :: re where
  "manipulation_rcheckableType = seqs [Bol False, alts (map lit_i [''checkbox'', ''radio'']), Eol False]"

definition crlf :: "string \<Rightarrow> string" where
  "crlf s = re_replace_all rCRLF (\<lambda>_. [CHR 0x0D, CHR 0x0A]) s"

definition submitted :: "control \<Rightarrow> bool" where
  "submitted c = (f_name c \<noteq> [] \<and> \<not> f_disabled c \<and>
     re_test rsubmittable (f_node c) \<and> \<not> re_test rsubmitterTypes (f_type c) \<and>
     (f_checked c \<or> \<not> re_test manipulation_rcheckableType (f_type c)))"

definition control_values :: "control \<Rightarrow> (string \<times> string) list" where
  "control_values c = (case f_val c of
      CNull \<Rightarrow> []
    | COne v \<Rightarrow> [(f_name c, crlf v)]
    | CMany vs \<Rightarrow> map (\<lambda>v. (f_name c, crlf v)) vs)"

definition members :: "member list \<Rightarrow> control list" where
  "members ms = concat (map (\<lambda>m. case m of Form cs \<Rightarrow> cs | Single c \<Rightarrow> [c]) ms)"

definition serializeArray :: "member list \<Rightarrow> (string \<times> string) list" where
  "serializeArray ms = concat (map control_values (filter submitted (members ms)))"

definition form_item :: "string \<times> string \<Rightarrow> pval" where
  "form_item p = PObj [(''name'', PStr (fst p)), (''value'', PStr (snd p))]"

text \<open>The argument is an array, for which \<open>param\<close> does not throw.\<close>

definition serialize :: "bool \<Rightarrow> member list \<Rightarrow> string" where
  "serialize ts ms = (case param ts (PArr (map form_item (serializeArray ms))) None of Some s \<Rightarrow> s | None \<Rightarrow> [])"

section \<open>A decoder\<close>

text \<open>
  What a server does with such a string (\<open>application/x-www-form-urlencoded\<close>): split at
  \<open>&\<close>, split at the first \<open>=\<close>, read \<open>+\<close> as a space and \<open>%XX\<close> as a byte of UTF-8.
\<close>

definition hex_val :: "char \<Rightarrow> nat" where
  "hex_val c = (let n = of_char c in if n < 58 then n - 48 else n - 55)"

fun bytes :: "string \<Rightarrow> nat list" where
  "bytes [] = []"
| "bytes (c # s) =
     (if c = CHR ''+'' then 32 # bytes s
      else if c = CHR ''%'' then (case s of a # b # t \<Rightarrow> (16 * hex_val a + hex_val b) # bytes t | _ \<Rightarrow> [])
      else of_char c # bytes s)"

fun from_utf8 :: "nat list \<Rightarrow> string" where
  "from_utf8 [] = []"
| "from_utf8 [n] = [char_of n]"
| "from_utf8 (n # k # ns) =
     (if n < 128 then char_of n # from_utf8 (k # ns)
      else char_of ((n - 192) * 64 + (k - 128)) # from_utf8 ns)"

definition decode_part :: "string \<Rightarrow> string" where
  "decode_part s = from_utf8 (bytes s)"

definition decode_pair :: "string \<Rightarrow> string \<times> string" where
  "decode_pair s = (decode_part (takeWhile (\<lambda>c. c \<noteq> CHR ''='') s), decode_part (tl (dropWhile (\<lambda>c. c \<noteq> CHR ''='') s)))"

definition decode_form :: "string \<Rightarrow> (string \<times> string) list" where
  "decode_form s = (if s = [] then [] else map decode_pair (split_on (CHR ''&'') s))"

text \<open>The pairs that the traversal adds, before encoding.\<close>

definition collect :: "string \<Rightarrow> pval \<Rightarrow> (string \<times> string) list \<Rightarrow> (string \<times> string) list" where
  "collect key v s = s @ [(key, add_value v)]"

definition param_pairs :: "pval \<Rightarrow> bool \<Rightarrow> (string \<times> string) list option" where
  "param_pairs a traditional = param_with a traditional collect []"

section \<open>The pairs of a value\<close>

text \<open>
  The reference: the pairs that stand for a value under a key. The items of an array share
  the key when it ends in brackets, or in the traditional form; otherwise an array or an
  object is written out below keys with its indices or names in brackets.
\<close>

definition in_brackets :: "string \<Rightarrow> string \<Rightarrow> string" where
  "in_brackets key name = key @ ''['' @ name @ '']''"

function key_pairs :: "bool \<Rightarrow> string \<Rightarrow> pval \<Rightarrow> (string \<times> string) list" where
  "key_pairs flat key v =
     (case v of
        PArr vs \<Rightarrow>
          if flat \<or> (\<exists>k. key = k @ ''[]'') then map (\<lambda>v. (key, add_value v)) vs
          else concat (map (\<lambda>(i, v). key_pairs flat (in_brackets key (if typeof_object v then nat_str i else [])) v) (enumerate 0 vs))
      | PObj ps \<Rightarrow>
          if flat then [(key, ''[object Object]'')]
          else concat (map (\<lambda>(name, v). key_pairs flat (in_brackets key name) v) ps)
      | _ \<Rightarrow> [(key, add_value v)])"
  by pat_completeness auto
termination
proof (relation "measure (\<lambda>(f, k, v). size v)", simp)
  fix flat :: bool and key :: string and v :: pval and vs p i w
  assume "v = PArr vs" "p \<in> set (enumerate 0 vs)" "(i, w) = p"
  then have "w \<in> set vs" by (auto simp: in_set_enumerate_eq)
  then have "size w \<le> size_list size vs" by (rule size_list_estimation') simp
  then show "((flat, in_brackets key (if typeof_object w then nat_str i else []), w), flat, key, v) \<in> measure (\<lambda>(f, k, v). size v)"
    using \<open>v = PArr vs\<close> by simp
next
  fix flat :: bool and key :: string and v :: pval and ps p name w
  assume "v = PObj ps" "p \<in> set ps" "(name, w) = p"
  then have "size w \<le> size_list (size_prod (\<lambda>_. 0) size) ps"
    by (intro size_list_estimation' [of p]) auto
  then show "((flat, in_brackets key name, w), flat, key, v) \<in> measure (\<lambda>(f, k, v). size v)"
    using \<open>v = PObj ps\<close> by simp
qed

declare key_pairs.simps [simp del]

text \<open>The pairs of an argument of \<open>param\<close>: form elements in an array, or the names of an object.\<close>

definition query_pairs :: "pval \<Rightarrow> bool \<Rightarrow> (string \<times> string) list option" where
  "query_pairs a flat =
     (case a of
        PUndef \<Rightarrow> None
      | PNull \<Rightarrow> None
      | PArr vs \<Rightarrow> Some (map (\<lambda>v. (to_str (field v ''name''), add_value (field v ''value''))) vs)
      | PObj ps \<Rightarrow> Some (concat (map (\<lambda>(name, v). key_pairs flat name v) ps))
      | PStr t \<Rightarrow> Some (map (\<lambda>i. (nat_str i, [t ! i])) [0..<length t])
      | _ \<Rightarrow> Some [])"

lemma test_rbracket: "re_test rbracket s \<longleftrightarrow> (\<exists>k. s = k @ ''[]'')"
proof -
  have m: "matches s rbracket (i, []) \<noteq> [] \<longleftrightarrow> Suc (Suc i) = length s \<and> s ! i = CHR ''['' \<and> s ! Suc i = CHR '']''" for i
    by (auto simp: rbracket_def seqs_def lit_def split: if_splits)
  show ?thesis
  proof
    assume "re_test rbracket s"
    then obtain i where "Suc (Suc i) = length s" "s ! i = CHR ''[''" "s ! Suc i = CHR '']''" unfolding test_iff m by blast
    then have "drop i s = ''[]''" using Cons_nth_drop_Suc [of i s] Cons_nth_drop_Suc [of "Suc i" s] by simp
    then have "s = take i s @ ''[]''" using append_take_drop_id [of i s] by simp
    then show "\<exists>k. s = k @ ''[]''" ..
  next
    assume "\<exists>k. s = k @ ''[]''"
    then obtain k where "s = k @ ''[]''" ..
    then show "re_test rbracket s" unfolding test_iff m by (intro exI [of _ "length k"]) (simp add: nth_append)
  qed
qed

text \<open>The traversal collects the pairs of the reference.\<close>

lemma build_pairs:
  "a = collect \<Longrightarrow> buildParams prefix v t a s = s @ key_pairs t prefix v"
  "a = collect \<Longrightarrow> build_items prefix i vs t a s = s @
     (if t \<or> (\<exists>k. prefix = k @ ''[]'') then map (\<lambda>v. (prefix, add_value v)) vs
      else concat (map (\<lambda>(i, v). key_pairs t (in_brackets prefix (if typeof_object v then nat_str i else [])) v) (enumerate i vs)))"
  "a = collect \<Longrightarrow> build_props prefix ps t a s = s @ concat (map (\<lambda>(name, v). key_pairs t (in_brackets prefix name) v) ps)"
proof (induction prefix v t a s and prefix i vs t a s and prefix ps t a s
    rule: buildParams_build_items_build_props.induct)
  case (1 prefix vs t a s)
  then show ?case by (simp add: key_pairs.simps [of t prefix "PArr vs"])
next
  case (2 prefix ps t a s)
  then show ?case by (simp add: key_pairs.simps [of t prefix "PObj ps"] collect_def)
next
  case (5 prefix i v vs t a s)
  show ?case
  proof (cases "t \<or> (\<exists>k. prefix = k @ ''[]'')")
    case True
    then have "t \<or> re_test rbracket prefix" by (simp only: test_rbracket)
    with 5 True show ?thesis by (simp add: collect_def build_items_cons)
  next
    case False
    then have "\<not> (t \<or> re_test rbracket prefix)" by (simp only: test_rbracket simp_thms)
    with 5 False show ?thesis by (simp add: in_brackets_def build_items_cons)
  qed
qed (simp_all add: key_pairs.simps collect_def in_brackets_def)

section \<open>Lemmas on the encoding\<close>

lemma of_char_less [simp]: "(of_char c :: nat) < 256"
  using of_char_mod_256 [of c, where 'a = nat] by (metis mod_less_divisor zero_less_numeral)

lemma utf8_ascii: "(of_char c :: nat) < 128 \<Longrightarrow> utf8 c = [of_char c]"
  by (simp add: utf8_def)

lemma utf8_bytes: "n \<in> set (utf8 c) \<Longrightarrow> n < 256"
proof -
  assume n: "n \<in> set (utf8 c)"
  have "of_char c div 64 < (4 :: nat)" by (simp add: less_mult_imp_div_less)
  with n show ?thesis
    by (auto simp: utf8_def Let_def split: if_splits; use of_char_less [of c] in linarith)
qed

lemma unreserved_less: "unreserved c \<Longrightarrow> (of_char c :: nat) < 128"
  by (auto simp: unreserved_def Let_def)

lemma unreserved_not:
  "unreserved c \<Longrightarrow> c \<noteq> CHR ''%'' \<and> c \<noteq> CHR ''+'' \<and> c \<noteq> CHR ''&'' \<and> c \<noteq> CHR ''='' \<and> c \<noteq> CHR '' ''"
  by (auto simp: unreserved_def Let_def)

lemma from_utf8_char: "from_utf8 (utf8 c @ ns) = c # from_utf8 ns"
proof (cases "(of_char c :: nat) < 128")
  case True
  then show ?thesis by (cases ns) (simp_all add: utf8_def)
next
  case False
  then show ?thesis by (simp add: utf8_def Let_def)
qed

lemma from_utf8_inverse: "from_utf8 (concat (map utf8 s)) = s"
  by (induction s) (simp_all add: from_utf8_char)

lemma hex_val_digit: "d < 16 \<Longrightarrow> hex_val (hex_digit d) = d"
  by (auto simp: hex_val_def hex_digit_def Let_def)

lemma of_char_hex: "d < 16 \<Longrightarrow> (of_char (hex_digit d) :: nat) = (if d < 10 then 48 + d else 55 + d)"
  by (simp add: hex_digit_def)

lemma hex_digit_plain: "d < 16 \<Longrightarrow> hex_digit d \<notin> {CHR ''&'', CHR ''='', CHR ''%''}"
  using of_char_hex [of d] by (auto split: if_splits)

lemma hex_digit_20 [simp]: "hex_digit 2 = CHR ''2''" "hex_digit 0 = CHR ''0''"
  by (simp_all add: hex_digit_def char_of_eq_iff)

lemma bytes_pct: "n < 256 \<Longrightarrow> bytes (pct n @ t) = n # bytes t"
  by (simp add: pct_def hex_val_digit)

lemma bytes_pcts: "(\<And>n. n \<in> set ns \<Longrightarrow> n < 256) \<Longrightarrow> bytes (concat (map pct ns) @ t) = ns @ bytes t"
  by (induction ns) (simp_all add: bytes_pct)

text \<open>The encoding after \<open>%20\<close> has become \<open>+\<close>.\<close>

definition plus_char :: "char \<Rightarrow> string" where
  "plus_char c = (if c = CHR '' '' then ''+'' else encode_char c)"

definition plus_encode :: "string \<Rightarrow> string" where
  "plus_encode s = concat (map plus_char s)"

lemma bytes_plus_char: "bytes (plus_char c @ t) = utf8 c @ bytes t"
proof (cases "c = CHR '' ''")
  case True
  then show ?thesis by (simp add: plus_char_def utf8_def)
next
  case False
  then show ?thesis
    by (auto simp: plus_char_def encode_char_def bytes_pcts utf8_bytes utf8_ascii unreserved_less
        dest: unreserved_not)
qed

lemma decode_part_plus_encode: "decode_part (plus_encode s) = s"
proof -
  have "bytes (plus_encode s) = concat (map utf8 s)"
    using bytes_plus_char by (induction s) (simp_all add: plus_encode_def)
  then show ?thesis by (simp add: decode_part_def from_utf8_inverse)
qed

lemma pct_plain: "n < 256 \<Longrightarrow> x \<in> set (pct n) \<Longrightarrow> x \<notin> {CHR ''&'', CHR ''=''}"
proof -
  assume n: "n < 256" and x: "x \<in> set (pct n)"
  have "n div 16 < 16" "n mod 16 < 16" using n by simp_all
  from this [THEN hex_digit_plain] x show ?thesis by (auto simp: pct_def)
qed

lemma plus_char_plain: "x \<in> set (plus_char c) \<Longrightarrow> x \<notin> {CHR ''&'', CHR ''=''}"
proof -
  assume x: "x \<in> set (plus_char c)"
  consider "c = CHR '' ''" | "c \<noteq> CHR '' ''" "unreserved c" | "c \<noteq> CHR '' ''" "\<not> unreserved c" by blast
  then show ?thesis
  proof cases
    case 3
    then obtain n where "n \<in> set (utf8 c)" "x \<in> set (pct n)"
      using x by (auto simp: plus_char_def encode_char_def)
    then show ?thesis using utf8_bytes pct_plain by blast
  next
    case 2
    then show ?thesis using x unreserved_not [of c] by (auto simp: plus_char_def encode_char_def)
  qed (use x in \<open>simp add: plus_char_def\<close>)
qed

lemma plus_encode_plain: "CHR ''&'' \<notin> set (plus_encode s)" "CHR ''='' \<notin> set (plus_encode s)"
proof -
  have "x \<notin> {CHR ''&'', CHR ''=''}" if "x \<in> set (plus_encode s)" for x
    using that plus_char_plain by (auto simp: plus_encode_def)
  then show "CHR ''&'' \<notin> set (plus_encode s)" "CHR ''='' \<notin> set (plus_encode s)" by blast+
qed

section \<open>The space rule\<close>

interpretation r20: scanner r20 "\<lambda>_. ''+''" "lit_len ''%20''" "\<lambda>_. ''+''"
  unfolding r20_def by (rule scanner_lit) simp

abbreviation plus_scan :: "string \<Rightarrow> string" where
  "plus_scan \<equiv> scan_with (lit_len ''%20'') (\<lambda>_. ''+'')"

lemma plus_other: "c \<noteq> CHR ''%'' \<Longrightarrow> plus_scan (c # s) = c # plus_scan s"
  by (simp add: lit_len_def)

lemma pct_20: "n < 256 \<Longrightarrow> pct n = ''%20'' \<longleftrightarrow> n = 32"
proof
  assume n: "n < 256" and p: "pct n = ''%20''"
  then have "hex_val (hex_digit (n div 16)) = 2" "hex_val (hex_digit (n mod 16)) = 0"
    by (simp_all add: pct_def hex_val_def)
  then have "n div 16 = 2" "n mod 16 = 0" using n hex_val_digit by simp_all
  then show "n = 32" using div_mult_mod_eq [of n 16] by simp
qed (simp add: pct_def)

lemma plus_pct: "n < 256 \<Longrightarrow> plus_scan (pct n @ s) = (if n = 32 then ''+'' else pct n) @ plus_scan s"
proof -
  assume n: "n < 256"
  have pct: "pct n = [CHR ''%'', hex_digit (n div 16), hex_digit (n mod 16)]" by (simp add: pct_def)
  have no: "hex_digit (n div 16) \<noteq> CHR ''%''" "hex_digit (n mod 16) \<noteq> CHR ''%''"
    using hex_digit_plain [of "n div 16"] hex_digit_plain [of "n mod 16"] n by (simp_all add: less_mult_imp_div_less)
  show ?thesis
  proof (cases "n = 32")
    case True
    then show ?thesis by (simp add: pct_def lit_len_def)
  next
    case False
    then have "pct n \<noteq> ''%20''" using n pct_20 by blast
    then have ne: "hex_digit (n div 16) = CHR ''2'' \<Longrightarrow> hex_digit (n mod 16) \<noteq> CHR ''0''"
      by (auto simp: pct)
    have "lit_len ''%20'' (pct n @ s) = None" using ne by (auto simp: lit_len_def pct)
    then have "plus_scan (pct n @ s) = CHR ''%'' # plus_scan (hex_digit (n div 16) # hex_digit (n mod 16) # s)"
      by (simp add: pct)
    also have "\<dots> = CHR ''%'' # hex_digit (n div 16) # hex_digit (n mod 16) # plus_scan s"
      using no by (simp only: plus_other simp_thms)
    finally show ?thesis using False by (simp add: pct)
  qed
qed

lemma of_char_space: "of_char (CHR '' '') = (32 :: nat)"
  by simp

lemma plus_encode_char: "plus_scan (encode_char c @ s) = plus_char c @ plus_scan s"
proof (cases "unreserved c")
  case True
  then show ?thesis using unreserved_not [OF True] by (simp add: encode_char_def plus_char_def plus_other del: scan_with.simps)
next
  case False
  show ?thesis
  proof (cases "(of_char c :: nat) < 128")
    case True
    have "of_char c = (32 :: nat) \<longleftrightarrow> c = CHR '' ''"
      by (metis of_char_eq_iff of_char_space)
    then show ?thesis
      using False True plus_pct [of "of_char c"] by (auto simp: encode_char_def plus_char_def utf8_ascii)
  next
    case big: False
    let ?n = "of_char c :: nat"
    have b: "192 + ?n div 64 < 256" "128 + ?n mod 64 < 256"
      using utf8_bytes [of _ c] big by (auto simp: utf8_def Let_def)
    have sp: "c \<noteq> CHR '' ''" using big by auto
    have "encode_char c = pct (192 + ?n div 64) @ pct (128 + ?n mod 64)"
      using False big by (simp add: encode_char_def utf8_def Let_def)
    then show ?thesis
      using b sp by (simp add: plus_char_def plus_pct del: scan_with.simps)
  qed
qed

lemma plus_encodeURI: "plus_scan (encodeURIComponent s @ t) = plus_encode s @ plus_scan t"
  by (induction s arbitrary: t)
    (simp_all add: encodeURIComponent_def plus_encode_def plus_encode_char del: scan_with.simps)


section \<open>What param sends\<close>

text \<open>Two adders that correspond through a map of what they have collected.\<close>

locale adder =
  fixes add :: "string \<Rightarrow> pval \<Rightarrow> 's \<Rightarrow> 's" and add' :: "string \<Rightarrow> pval \<Rightarrow> 't \<Rightarrow> 't" and h :: "'s \<Rightarrow> 't"
  assumes add: "h (add k v s) = add' k v (h s)"
begin

lemma build_steps:
  "a = add \<Longrightarrow> h (buildParams prefix v t a s) = buildParams prefix v t add' (h s)"
  "a = add \<Longrightarrow> h (build_items prefix i vs t a s) = build_items prefix i vs t add' (h s)"
  "a = add \<Longrightarrow> h (build_props prefix ps t a s) = build_props prefix ps t add' (h s)"
proof (induction prefix v t a s and prefix i vs t a s and prefix ps t a s
    rule: buildParams_build_items_build_props.induct)
  case (5 prefix i v vs t a s)
  then show ?case
    by (cases "t \<or> re_test rbracket prefix") (simp_all only: build_items_cons add if_True if_False simp_thms)
qed (simp_all add: add)

lemmas build_map = build_steps [OF refl]

lemma foldl_map: "(\<And>s x. h (f s x) = g (h s) x) \<Longrightarrow> h (foldl f s xs) = foldl g (h s) xs"
  by (induction xs arbitrary: s) simp_all

lemma param_map: "map_option h (param_with a t add s) = param_with a t add' (h s)"
proof -
  have "h (foldl (\<lambda>s v. add (to_str (field v ''name'')) (field v ''value'') s) s vs)
    = foldl (\<lambda>s v. add' (to_str (field v ''name'')) (field v ''value'') s) (h s) vs" for vs
    by (rule foldl_map) (rule add)
  moreover have "h (foldl (\<lambda>s (prefix, v). buildParams prefix v t add s) s ps)
    = foldl (\<lambda>s (prefix, v). buildParams prefix v t add' s) (h s) ps" for ps
    by (rule foldl_map) (auto simp: build_map)
  ultimately show ?thesis by (cases a) (simp_all add: param_with_def)
qed

end

definition encode_pair :: "string \<times> string \<Rightarrow> string" where
  "encode_pair p = encodeURIComponent (fst p) @ ''='' @ encodeURIComponent (snd p)"

interpretation encoded: adder collect param_add "map encode_pair"
  by standard (simp add: collect_def param_add_def encode_pair_def)

lemma plus_join:
  "plus_scan (join_on ''&'' (map encode_pair ps)) =
     join_on ''&'' (map (\<lambda>p. plus_encode (fst p) @ ''='' @ plus_encode (snd p)) ps)"
proof (induction ps)
  case (Cons p ps)
  have "plus_scan (encode_pair p @ t) = plus_encode (fst p) @ ''='' @ plus_encode (snd p) @ plus_scan t" for t
    by (simp add: encode_pair_def plus_encodeURI plus_other del: scan_with.simps)
  from this [of "[]"] this [of "CHR ''&'' # _"] Cons.IH show ?case
    by (cases ps) (simp_all add: plus_other del: scan_with.simps(2))
qed simp

lemma decode_pair_encoded:
  "decode_pair (plus_encode a @ CHR ''='' # plus_encode b) = (a, b)"
proof -
  have "takeWhile (\<lambda>c. c \<noteq> CHR ''='') (plus_encode a @ CHR ''='' # plus_encode b) = plus_encode a"
    "dropWhile (\<lambda>c. c \<noteq> CHR ''='') (plus_encode a @ CHR ''='' # plus_encode b) = CHR ''='' # plus_encode b"
    using plus_encode_plain(2) [of a] by (simp_all add: takeWhile_append dropWhile_append)
  then show ?thesis by (simp add: decode_pair_def decode_part_plus_encode)
qed

lemma decode_join: "decode_form (plus_scan (join_on ''&'' (map encode_pair ps))) = ps"
proof -
  let ?enc = "\<lambda>p. plus_encode (fst p) @ ''='' @ plus_encode (snd p)"
  show ?thesis
  proof (cases ps)
    case Nil
    then show ?thesis by (simp add: decode_form_def)
  next
    case (Cons q qs)
    have "join_on ''&'' (map ?enc ps) \<noteq> []"
      unfolding Cons by (cases qs) simp_all
    moreover have "split_on (CHR ''&'') (join_on ''&'' (map ?enc ps)) = map ?enc ps"
      using Cons plus_encode_plain(1) by (intro split_join) auto
    ultimately show ?thesis
      unfolding plus_join decode_form_def by (simp add: decode_pair_encoded o_def)
  qed
qed

lemma decode_param:
  "map_option decode_form (param ts a t) = param_pairs a (case t of Some b \<Rightarrow> b | None \<Rightarrow> ts)"
proof -
  let ?t = "case t of Some b \<Rightarrow> b | None \<Rightarrow> ts"
  have "param_with a ?t param_add [] = map_option (map encode_pair) (param_pairs a ?t)"
    using encoded.param_map [of a ?t "[]"] by (simp add: param_pairs_def)
  then show ?thesis
    unfolding param_def r20.replace_all_scan by (simp add: option.map_comp o_def decode_join option.map_ident)
qed

text \<open>The pairs that are collected are those of the reference.\<close>

lemma param_pairs_eq: "param_pairs a t = query_pairs a t"
proof -
  have items: "foldl (\<lambda>s v. collect (to_str (field v ''name'')) (field v ''value'') s) s vs =
      s @ map (\<lambda>v. (to_str (field v ''name''), add_value (field v ''value''))) vs" for s vs
    by (induction vs arbitrary: s) (simp_all add: collect_def)
  have names: "foldl (\<lambda>s (prefix, v). buildParams prefix v t collect s) s ps = s @ concat (map (\<lambda>(name, v). key_pairs t name v) ps)" for s ps
    by (induction ps arbitrary: s) (auto simp: build_pairs(1) [OF refl])
  have chars: "concat (map (\<lambda>(name, v). key_pairs t name v) (map (\<lambda>(i, c). (nat_str i, PStr [c])) (enumerate k u))) =
      map (\<lambda>i. (nat_str (k + i), [u ! i])) [0..<length u]" for k u
  proof (induction u arbitrary: k)
    case (Cons c u)
    have "map (\<lambda>i. (nat_str (k + i), [(c # u) ! i])) [0..<length (c # u)] =
        (nat_str k, [c]) # map (\<lambda>i. (nat_str (Suc k + i), [u ! i])) [0..<length u]"
      by (simp add: upt_conv_Cons map_Suc_upt [symmetric] o_def del: upt_Suc)
    with Cons [of "Suc k"] show ?case by (simp add: key_pairs.simps)
  qed simp
  show ?thesis
    using chars [of 0] by (cases a) (simp_all add: param_pairs_def param_with_def query_pairs_def param_names_def items names del: upt_Suc)
qed


section \<open>Line ends and successful controls\<close>

fun fix_eol :: "string \<Rightarrow> string" where
  "fix_eol [] = []"
| "fix_eol [c] = (if c = CHR 0x0A then [CHR 0x0D, CHR 0x0A] else [c])"
| "fix_eol (c # d # s) =
     (if c = CHR 0x0A then [CHR 0x0D, CHR 0x0A] @ fix_eol (d # s)
      else if c = CHR 0x0D \<and> d = CHR 0x0A then [CHR 0x0D, CHR 0x0A] @ fix_eol s
      else c # fix_eol (d # s))"

definition eol_len :: "string \<Rightarrow> nat option" where
  "eol_len s =
     (if take 1 s = [CHR 0x0A] then Some 1
      else if take 2 s = [CHR 0x0D, CHR 0x0A] then Some 2 else None)"

lemma take_drop_cases:
  assumes "i \<le> length s"
  obtains "drop i s = []" "i = length s"
  | "i < length s" "drop i s = s ! i # drop (Suc i) s"
  using assms Cons_nth_drop_Suc [of i s] by (cases "i = length s") fastforce+

interpretation crlf: scanner rCRLF "\<lambda>_. [CHR 0x0D, CHR 0x0A]" eol_len "\<lambda>_. [CHR 0x0D, CHR 0x0A]"
proof
  fix i k and s :: string assume i: "i \<le> length s" and k: "eol_len (drop i s) = Some k"
  have "take 1 (drop (Suc i) s) = [CHR 0x0A] \<Longrightarrow> Suc i < length s \<and> s ! Suc i = CHR 0x0A"
    by (cases "Suc i < length s") (simp_all add: take_Suc hd_drop_conv_nth)
  then show "\<exists>cs. match_at rCRLF s i = Some (i, i + k, cs) \<and> [CHR 0x0D, CHR 0x0A] = [CHR 0x0D, CHR 0x0A]"
    using i k
    by (cases rule: take_drop_cases [OF i])
      (auto simp: eol_len_def match_at_def rCRLF_def seqs_def opt_def take_Suc nth_Cons numeral_2_eq_2 split: if_splits)
next
  fix i and s :: string assume i: "i \<le> length s" and k: "eol_len (drop i s) = None"
  have "Suc i < length s \<and> s ! Suc i = CHR 0x0A \<Longrightarrow> take (Suc 0) (drop (Suc i) s) = [CHR 0x0A]"
    by (simp add: take_Suc hd_drop_conv_nth)
  then show "match_at rCRLF s i = None"
    using i k
    by (cases rule: take_drop_cases [OF i])
      (auto simp: eol_len_def match_at_def rCRLF_def seqs_def opt_def numeral_2_eq_2 split: if_splits)
next
  fix t k assume "eol_len t = Some k"
  then show "0 < k \<and> k \<le> length t"
    by (cases t; cases "tl t") (auto simp: eol_len_def split: if_splits)
qed

lemma crlf_fix_eol: "crlf s = fix_eol s"
proof -
  have "scan_with eol_len (\<lambda>_. [CHR 0x0D, CHR 0x0A]) s = fix_eol s"
    by (induction s rule: fix_eol.induct) (auto simp: eol_len_def)
  then show ?thesis unfolding crlf_def by (simp only: crlf.replace_all_scan)
qed


section \<open>What serialize sends\<close>

lemma re_test_anchored: "re_test (Seq (Bol False) r) s \<longleftrightarrow> matches s r (0, []) \<noteq> []"
proof -
  have "search_from (Seq (Bol False) r) s is = None" if "0 \<notin> set is" for "is"
    using that by (induction "is") (auto simp: match_at_def)
  from this [of "[1..<Suc (length s)]"]
  have "search_from (Seq (Bol False) r) s [1..<Suc (length s)] = None" by (simp del: upt_Suc)
  moreover have "[0..<Suc (length s)] = 0 # [1..<Suc (length s)]" by (simp add: upt_conv_Cons del: upt_Suc)
  ultimately show ?thesis
    by (auto simp: re_test_def re_exec_def match_at_def simp del: upt_Suc split: list.splits)
qed

lemma matches_lit_i:
  "matches s (lit_i t) (i, cs) =
     (if lower (take (length t) (drop i s)) = lower t then [(i + length t, cs)] else [])"
proof (induction t arbitrary: i)
  case Nil
  then show ?case by (simp add: lit_i_def lower_def)
next
  case (Cons c t)
  have lit: "lit_i (c # t) = Seq (Ch (\<lambda>x. lower_char x = lower_char c)) (lit_i t)" by (simp add: lit_i_def)
  show ?case
  proof (cases "i < length s")
    case True
    then have "drop i s = s ! i # drop (Suc i) s" by (rule Cons_nth_drop_Suc [symmetric])
    with True Cons.IH [of "Suc i"] show ?thesis unfolding lit by (simp add: lower_def)
  qed (simp add: lit lower_def)
qed

lemma matches_alts:
  "rs \<noteq> [] \<Longrightarrow> matches s (alts rs) st = concat (map (\<lambda>r. matches s r st) rs)"
  by (induction rs rule: alts.induct) auto

definition ci_in :: "string \<Rightarrow> string list \<Rightarrow> bool" where
  "ci_in s ts = (lower s \<in> set (map lower ts))"

definition ci_starts :: "string \<Rightarrow> string list \<Rightarrow> bool" where
  "ci_starts s ts = (\<exists>t \<in> set ts. lower (take (length t) s) = lower t)"

lemma length_lower [simp]: "length (lower s) = length s"
  by (simp add: lower_def)

lemma test_words:
  assumes "ts \<noteq> []"
  shows "re_test (seqs [Bol False, alts (map lit_i ts)]) s = ci_starts s ts"
    and "re_test (seqs [Bol False, alts (map lit_i ts), Eol False]) s = ci_in s ts"
proof -
  have m: "matches s (alts (map lit_i ts)) (0, []) =
      concat (map (\<lambda>t. if lower (take (length t) s) = lower t then [(length t, [])] else []) ts)"
    using assms by (subst matches_alts) (simp_all add: matches_lit_i o_def cong: if_cong)
  show "re_test (seqs [Bol False, alts (map lit_i ts)]) s = ci_starts s ts"
    by (auto simp: seqs_def re_test_anchored m ci_starts_def)
  have "(\<exists>t \<in> set ts. lower (take (length t) s) = lower t \<and> length s \<le> length t) \<longleftrightarrow> ci_in s ts"
    by (auto simp: ci_in_def) (metis length_lower order_refl take_all)
  then show "re_test (seqs [Bol False, alts (map lit_i ts), Eol False]) s = ci_in s ts"
    by (auto simp: seqs_def re_test_anchored m)
qed

text \<open>The controls that a form submits.\<close>

definition successful :: "control \<Rightarrow> bool" where
  "successful c = (f_name c \<noteq> [] \<and> \<not> f_disabled c \<and>
     ci_starts (f_node c) [''input'', ''select'', ''textarea'', ''keygen''] \<and>
     \<not> ci_in (f_type c) [''submit'', ''button'', ''image'', ''reset'', ''file''] \<and>
     (f_checked c \<or> \<not> ci_in (f_type c) [''checkbox'', ''radio'']))"

definition plain_values :: "cval \<Rightarrow> string list" where
  "plain_values v = (case v of CNull \<Rightarrow> [] | COne s \<Rightarrow> [s] | CMany ss \<Rightarrow> ss)"

lemma submitted_eq: "submitted = successful"
  unfolding submitted_def successful_def rsubmitterTypes_def rsubmittable_def manipulation_rcheckableType_def
  by (rule ext) (simp only: test_words list.distinct(2) not_False_eq_True simp_thms)

lemma control_values_eq: "control_values c = map (\<lambda>v. (f_name c, fix_eol v)) (plain_values (f_val c))"
  by (simp add: control_values_def plain_values_def crlf_fix_eol split: cval.split)

lemma form_pairs: "param_pairs (PArr (map form_item ps)) t = Some ps"
  by (simp add: param_pairs_eq query_pairs_def field_def form_item_def o_def)

lemma decode_serialize: "decode_form (serialize ts ms) = serializeArray ms"
proof -
  obtain s where "param ts (PArr (map form_item (serializeArray ms))) None = Some s" "decode_form s = serializeArray ms"
    using decode_param [of ts "PArr (map form_item (serializeArray ms))" None] by (auto simp: form_pairs)
  then show ?thesis by (simp add: serialize_def)
qed

text \<open>
  C13: decoding what \<open>serialize\<close> makes of a set of forms and controls gives the values of the
  successful controls in order, under their names, with every line end as CR LF.
\<close>

theorem serialize_decodes:
  "decode_form (serialize ts ms) =
     concat (map (\<lambda>c. map (\<lambda>v. (f_name c, fix_eol v)) (plain_values (f_val c))) (filter successful (members ms)))"
  unfolding decode_serialize serializeArray_def submitted_eq
  using arg_cong [OF ext [OF control_values_eq], of "\<lambda>f. concat (map f (filter successful (members ms)))"] .

end
