(* ===== verification/JqAjax.thy ===== *)
theory JqAjax
  imports JqConvert JqSerialize
begin

text \<open>
  \<open>jQuery.ajax\<close> of \<open>democlient/js/jquery.js\<close>: the settings and the URL of a request, the
  jqXHR object with its headers, the state machine from \<open>ajax\<close> over the transport to
  \<open>done\<close>, \<open>abort\<close> and the timeout, and the counter of active requests. Any number of
  requests live in one world, and whatever is outside (callbacks, \<open>beforeSend\<close>, global
  handlers, transports) may call back into all of them.
\<close>

section \<open>The URL\<close>

definition rhash :: re where
  "rhash = seqs [lit ''#'', Star True (Ch dotc), Eol False]"

definition rprotocol :: re where
  "rprotocol = seqs [Bol False, lit ''//'']"

definition ajax_rquery :: re where "ajax_rquery = lit ''?''"

definition rts :: re where
  "rts = seqs [Grp 1 (Ch (anyof ''?&'')), lit ''_='', Star True (Ch (noneof ''&''))]"

definition rnoContent :: re where
  "rnoContent = seqs [Bol False, alts [lit ''GET'', lit ''HEAD''], Eol False]"

definition rurl :: re where
  "rurl = seqs [Bol False, Grp 1 (seqs [plus (Ch (\<lambda>c. wordc c \<or> c \<in> set ''.+-'')), lit '':'']),
     alts [seqs [lit ''//'', Grp 2 (Star True (Ch (noneof ''/?#:''))),
                 alts [Seq (lit '':'') (Grp 3 (plus (Ch is_digit))), Eps]],
           Eps]]"

text \<open>\<open>rurl.exec( .. ) || []\<close> as the function from the index to the group.\<close>

definition url_parts :: "string \<Rightarrow> nat \<Rightarrow> string option" where
  "url_parts u n = re_group rurl (lower u) n"

definition or_str :: "string option \<Rightarrow> string \<Rightarrow> string" where
  "or_str a b = (case a of Some s \<Rightarrow> if s \<noteq> [] then s else b | None \<Rightarrow> b)"

definition ajax_url :: "(nat \<Rightarrow> string option) \<Rightarrow> string \<Rightarrow> string \<Rightarrow> string \<Rightarrow> string" where
  "ajax_url ajaxLocParts ajaxLocation url s_url =
     (let u = (if url \<noteq> [] then url else if s_url \<noteq> [] then s_url else ajaxLocation)
      in re_replace rprotocol (\<lambda>_. (case ajaxLocParts 1 of Some p \<Rightarrow> p | None \<Rightarrow> ''undefined'') @ ''//'')
           (re_replace rhash (\<lambda>_. []) u))"

definition port_of :: "(nat \<Rightarrow> string option) \<Rightarrow> string" where
  "port_of parts = or_str (parts 3) (if parts 1 = Some ''http:'' then ''80'' else ''443'')"

definition cross_domain :: "(nat \<Rightarrow> string option) \<Rightarrow> string \<Rightarrow> bool" where
  "cross_domain ajaxLocParts u =
     (re_test rurl (lower u) \<and>
      (let parts = url_parts u in
        parts 1 \<noteq> ajaxLocParts 1 \<or> parts 2 \<noteq> ajaxLocParts 2 \<or> port_of parts \<noteq> port_of ajaxLocParts))"

definition add_query :: "string \<Rightarrow> string \<Rightarrow> string" where
  "add_query u q = u @ (if re_test ajax_rquery u then ''&'' else ''?'') @ q"

text \<open>The anti-cache parameter.\<close>

definition bust_cache :: "string \<Rightarrow> int \<Rightarrow> string" where
  "bust_cache u nonce =
     (if re_test rts u
      then re_replace rts (\<lambda>g. (case g 1 of Some s \<Rightarrow> s | None \<Rightarrow> []) @ ''_='' @ int_str nonce) u
      else add_query u (''_='' @ int_str nonce))"

section \<open>Requests\<close>

datatype sdata = DNone | DStr string | DVal pval

record asett =
  s_url :: string
  s_type :: string
  s_method :: string
  s_dataType :: string
  s_dataTypes :: "string list"
  s_data :: sdata
  s_processData :: bool
  s_traditional :: bool
  s_crossDomain :: "bool option"
  s_cache :: "bool option"
  s_ifModified :: bool
  s_contentType :: "string option"     \<comment> \<open>\<open>None\<close>: \<open>false\<close>\<close>
  s_ownContentType :: bool             \<comment> \<open>\<open>options.contentType\<close> is given\<close>
  s_headers :: "(string \<times> string) list"
  s_accepts :: "(string \<times> string) list"
  s_async :: bool
  s_timeout :: int
  s_global :: bool
  s_mimeType :: string
  s_hasContent :: bool
  s_beforeSend :: bool                 \<comment> \<open>there is a \<open>beforeSend\<close>\<close>
  s_codes :: "(int \<times> nat list) list"  \<comment> \<open>\<open>statusCode\<close>: callbacks by status\<close>

text \<open>What can be thrown, and what a status text can be: an object or a string.\<close>

datatype thrown = TObj string | TStr string

fun thrown_truthy :: "thrown \<Rightarrow> bool" where
  "thrown_truthy (TObj s) = True"
| "thrown_truthy (TStr s) = (s \<noteq> [])"

fun thrown_str :: "thrown \<Rightarrow> string" where
  "thrown_str (TObj s) = s"
| "thrown_str (TStr s) = s"

record req =
  q_state :: nat
  q_transport :: bool
  q_timer :: bool
  q_readyState :: int
  q_status :: int
  q_statusText :: string
  q_respHeaders :: string
  q_reqHeaders :: "(string \<times> string) list"
  q_reqNames :: "(string \<times> string) list"
  q_strAbort :: string
  q_global :: bool                     \<comment> \<open>\<open>fireGlobals\<close>\<close>
  q_cacheURL :: string
  q_codes :: "(int \<times> nat list) list option"  \<comment> \<open>the closure's \<open>statusCode\<close>; \<open>None\<close>: undefined\<close>
  q_fired :: bool                      \<comment> \<open>\<open>deferred\<close> has been resolved or rejected\<close>
  q_completed :: bool                  \<comment> \<open>\<open>completeDeferred\<close> has been fired\<close>
  q_settled :: bool                    \<comment> \<open>the Deferred has settled and is not firing\<close>
  q_late :: "nat list"                 \<comment> \<open>status callbacks in its list, still to be called\<close>
  q_set :: asett

text \<open>
  What the outside gets to see, in order. \<open>ESettle\<close> is the call of \<open>resolveWith\<close> or \<open>rejectWith\<close>; it
  is logged also when it is not the first one and calls nobody.
\<close>

datatype event = EBeforeSend nat | ESend nat | ETransportAbort nat | ESettle nat bool thrown
  | EStatus nat nat | EComplete nat thrown | EGlobal string "nat option"

record 'v aworld =
  reqs :: "nat \<Rightarrow> req"
  nreq :: nat
  active :: int
  lastModified :: "(string \<times> string) list"
  etag :: "(string \<times> string) list"
  nonce :: int
  alog :: "event list"
  rfields :: "nat \<Rightarrow> (string \<times> 'v) list"    \<comment> \<open>\<open>responseText\<close> and its like\<close>

type_synonym 'v emitter = "event \<Rightarrow> 'v aworld \<Rightarrow> (thrown, bool, 'v aworld) res"
type_synonym 'v aeffect = "(thrown, unit, 'v aworld) res"
type_synonym 'v csettings = "nat \<Rightarrow> (thrown, 'v, 'v aworld) convset"

definition upd_req :: "nat \<Rightarrow> (req \<Rightarrow> req) \<Rightarrow> 'v aworld \<Rightarrow> 'v aworld" where
  "upd_req k f w = w\<lparr>reqs := (reqs w)(k := f (reqs w k))\<rparr>"

definition upd_set :: "nat \<Rightarrow> (asett \<Rightarrow> asett) \<Rightarrow> 'v aworld \<Rightarrow> 'v aworld" where
  "upd_set k f w = upd_req k (\<lambda>r. r\<lparr>q_set := f (q_set r)\<rparr>) w"

definition announce :: "'v emitter \<Rightarrow> event \<Rightarrow> 'v aworld \<Rightarrow> 'v aeffect" where
  "announce emit e w = bindR (emit e w) (\<lambda>_ w'. Done () w')"

section \<open>The methods of the jqXHR object\<close>

definition setRequestHeader :: "string \<Rightarrow> string \<Rightarrow> req \<Rightarrow> req" where
  "setRequestHeader name value r =
     (let lname = lower name in
      if q_state r = 0
      then (let name' = (case map_of (q_reqNames r) lname of Some n \<Rightarrow> if n \<noteq> [] then n else name | None \<Rightarrow> name)
            in r\<lparr>q_reqNames := put_prop lname name' (q_reqNames r),
                 q_reqHeaders := put_prop name' value (q_reqHeaders r)\<rparr>)
      else r)"

definition overrideMimeType :: "string \<Rightarrow> req \<Rightarrow> req" where
  "overrideMimeType t r = (if q_state r = 0 then r\<lparr>q_set := (q_set r)\<lparr>s_mimeType := t\<rparr>\<rparr> else r)"

definition rheaders :: re where
  "rheaders = seqs [Bol True, Grp 1 (Star False (Ch dotc)), lit '':'', Star True (Ch (\<lambda>c. c = CHR '' '' \<or> c = CHR 0x09)),
     Grp 2 (Star True (Ch (\<lambda>c. \<not> nl c))), opt (Ch (\<lambda>c. c = CHR 0x0D)), Eol True]"

text \<open>The header table; a later line of the same name wins.\<close>

definition response_table :: "string \<Rightarrow> (string \<times> string) list" where
  "response_table hs =
     foldl (\<lambda>m (a, b, cs). put_prop (lower (case cap hs cs 1 of Some s \<Rightarrow> s | None \<Rightarrow> []))
                             (case cap hs cs 2 of Some s \<Rightarrow> s | None \<Rightarrow> []) m) [] (re_all rheaders hs)"

definition getResponseHeader :: "string \<Rightarrow> req \<Rightarrow> string option" where
  "getResponseHeader key r =
     (if q_state r = 2 then map_of (response_table (q_respHeaders r)) (lower key) else None)"

definition getAllResponseHeaders :: "req \<Rightarrow> string option" where
  "getAllResponseHeaders r = (if q_state r = 2 then Some (q_respHeaders r) else None)"

text \<open>
  The status callbacks that \<open>always\<close> has put into the list of the Deferred are called one
  by one; a call may add more, which the same loop reaches.
\<close>

fun run_late :: "'v emitter \<Rightarrow> nat \<Rightarrow> nat \<Rightarrow> 'v aworld \<Rightarrow> 'v aeffect" where
  "run_late emit 0 k w = Diverge"
| "run_late emit (Suc n) k w =
     (case q_late (reqs w k) of
        [] \<Rightarrow> Done () (upd_req k (\<lambda>r. r\<lparr>q_settled := True\<rparr>) w)
      | f # fs \<Rightarrow> bindR (announce emit (EStatus k f) (upd_req k (\<lambda>r. r\<lparr>q_late := fs\<rparr>) w)) (\<lambda>_ w'. run_late emit n k w'))"

definition codes_get :: "(int \<times> nat list) list \<Rightarrow> int \<Rightarrow> nat list" where
  "codes_get m c = (case map_of m c of Some fs \<Rightarrow> fs | None \<Rightarrow> [])"

text \<open>
  \<open>statusCode( map )\<close>. Before the end the callbacks are collected, in the closure's \<open>statusCode\<close>,
  which must not be gone; afterwards \<open>always\<close> gets those of the status, and fires them unless
  the Deferred is unsettled or firing.
\<close>

definition status_code :: "'v emitter \<Rightarrow> nat \<Rightarrow> nat \<Rightarrow> (int \<times> nat list) list \<Rightarrow> 'v aworld \<Rightarrow> 'v aeffect" where
  "status_code emit n k m w =
     (let r = reqs w k in
      if q_state r < 2
      then (case q_codes r of
              Some codes \<Rightarrow>
                Done () (upd_req k (\<lambda>r. r\<lparr>q_codes := Some (foldl (\<lambda>cs (c, fs). put_prop c (codes_get cs c @ fs) cs) codes m)\<rparr>) w)
            | None \<Rightarrow> if m = [] then Done () w else Exn (TObj ''TypeError'') w)
      else (let w1 = upd_req k (\<lambda>r. r\<lparr>q_late := q_late r @ codes_get m (q_status r)\<rparr>) w in
            if q_settled r then run_late emit n k (upd_req k (\<lambda>r. r\<lparr>q_settled := False\<rparr>) w1) else Done () w1))"

section \<open>done\<close>

definition is_success :: "int \<Rightarrow> bool" where
  "is_success status = (200 \<le> status \<and> status < 300 \<or> status = 304)"

text \<open>State is "done" now: what \<open>done\<close> assigns before anything else can run.\<close>

definition finish_req :: "int \<Rightarrow> string \<Rightarrow> req \<Rightarrow> req" where
  "finish_req status headers r = r\<lparr>q_state := 2, q_timer := False, q_transport := False,
     q_respHeaders := headers, q_readyState := (if status > 0 then 4 else 0)\<rparr>"

definition header_str :: "string option \<Rightarrow> string" where
  "header_str h = (case h of Some s \<Rightarrow> s | None \<Rightarrow> [])"

definition remember_modified :: "nat \<Rightarrow> 'v aworld \<Rightarrow> 'v aworld" where
  "remember_modified k w =
     (let r = reqs w k; m = header_str (getResponseHeader ''Last-Modified'' r);
          e = header_str (getResponseHeader ''etag'' r);
          w1 = (if m \<noteq> [] then w\<lparr>lastModified := put_prop (q_cacheURL r) m (lastModified w)\<rparr> else w)
      in if e \<noteq> [] then w1\<lparr>etag := put_prop (q_cacheURL r) e (etag w1)\<rparr> else w1)"

text \<open>The outcome: success, the status text and the status to report.\<close>

definition done_outcome :: "int \<Rightarrow> string \<Rightarrow> thrown \<Rightarrow> (thrown, 'v) converted \<Rightarrow> bool \<times> thrown \<times> int" where
  "done_outcome status stype native c =
     (if is_success status
      then (if status = 204 \<or> stype = ''HEAD'' then (True, TStr ''nocontent'', status)
            else if status = 304 then (True, TStr ''notmodified'', status)
            else (case c of
                    Success v \<Rightarrow> (True, TStr ''success'', status)
                  | ParseError e \<Rightarrow> (\<not> thrown_truthy e, TStr ''parsererror'', status)
                  | NoConversion a b \<Rightarrow> (False, TStr ''parsererror'', status)))
      else if status \<noteq> 0 \<or> \<not> thrown_truthy native
           then (False, TStr ''error'', if status < 0 then 0 else status)
      else (False, native, status))"

definition global_event :: "'v emitter \<Rightarrow> nat \<Rightarrow> string \<Rightarrow> 'v aworld \<Rightarrow> 'v aeffect" where
  "global_event emit k e w = (if q_global (reqs w k) then announce emit (EGlobal e (Some k)) w else Done () w)"

text \<open>
  The Deferreds of a request call their callbacks once: a second \<open>resolveWith\<close>, \<open>rejectWith\<close> or
  \<open>fireWith\<close> finds the list fired and does nothing.
\<close>

definition settle_deferred :: "'v emitter \<Rightarrow> nat \<Rightarrow> nat \<Rightarrow> bool \<Rightarrow> thrown \<Rightarrow> 'v aworld \<Rightarrow> 'v aeffect" where
  "settle_deferred emit n k ok statusText w =
     (if q_fired (reqs w k) then Done () (w\<lparr>alog := alog w @ [ESettle k ok statusText]\<rparr>)
      else bindR (announce emit (ESettle k ok statusText) (upd_req k (\<lambda>r. r\<lparr>q_fired := True\<rparr>) w)) (\<lambda>_ w1. run_late emit n k w1))"

definition fire_complete :: "'v emitter \<Rightarrow> nat \<Rightarrow> thrown \<Rightarrow> 'v aworld \<Rightarrow> 'v aeffect" where
  "fire_complete emit k statusText w =
     (if q_completed (reqs w k) then Done () w
      else announce emit (EComplete k statusText) (upd_req k (\<lambda>r. r\<lparr>q_completed := True\<rparr>) w))"

text \<open>\<open>jqXHR.statusCode( statusCode ); statusCode = undefined\<close>.\<close>

definition run_codes :: "'v emitter \<Rightarrow> nat \<Rightarrow> nat \<Rightarrow> 'v aworld \<Rightarrow> 'v aeffect" where
  "run_codes emit n k w =
     (case q_codes (reqs w k) of
        None \<Rightarrow> Done () w
      | Some m \<Rightarrow> bindR (status_code emit n k m w) (\<lambda>_ w1. Done () (upd_req k (\<lambda>r. r\<lparr>q_codes := None\<rparr>) w1)))"

text \<open>The callbacks of \<open>done\<close>, in order, and the counter of active requests.\<close>

definition done_callbacks :: "'v emitter \<Rightarrow> nat \<Rightarrow> nat \<Rightarrow> bool \<Rightarrow> thrown \<Rightarrow> 'v aworld \<Rightarrow> 'v aeffect" where
  "done_callbacks emit n k ok statusText w =
     bindR (settle_deferred emit n k ok statusText w) (\<lambda>_ w2.
     bindR (run_codes emit n k w2) (\<lambda>_ w3.
     bindR (global_event emit k (if ok then ''ajaxSuccess'' else ''ajaxError'') w3) (\<lambda>_ w4.
     bindR (fire_complete emit k statusText w4) (\<lambda>_ w5.
       if q_global (reqs w5 k)
       then bindR (announce emit (EGlobal ''ajaxComplete'' (Some k)) w5) (\<lambda>_ w6.
              let w7 = w6\<lparr>active := active w6 - 1\<rparr> in
              if active w7 = 0 then announce emit (EGlobal ''ajaxStop'' None) w7 else Done () w7)
       else Done () w5))))"

text \<open>\<open>undef\<close> is the missing response; \<open>n\<close> bounds the conversion.\<close>

definition handle_response :: "(string \<times> (string \<Rightarrow> bool)) list \<Rightarrow> 'v csettings \<Rightarrow> 'v \<Rightarrow> nat
    \<Rightarrow> (string \<times> 'v) list option \<Rightarrow> 'v aworld \<Rightarrow> 'v \<times> 'v aworld" where
  "handle_response contents cset undef k responses w =
     (case responses of
        None \<Rightarrow> (undef, w)
      | Some rs \<Rightarrow>
          (let (ts, v) = ajaxHandleResponses contents (c_converters (cset k)) (s_mimeType (q_set (reqs w k)))
                 (header_str (getResponseHeader ''Content-Type'' (reqs w k))) (s_dataTypes (q_set (reqs w k))) rs
           in (case v of Some x \<Rightarrow> x | None \<Rightarrow> undef, upd_set k (\<lambda>s. s\<lparr>s_dataTypes := ts\<rparr>) w)))"

definition ajax_done :: "(string \<times> (string \<Rightarrow> bool)) list \<Rightarrow> 'v csettings \<Rightarrow> 'v \<Rightarrow> nat \<Rightarrow> 'v emitter \<Rightarrow> nat
    \<Rightarrow> int \<Rightarrow> thrown \<Rightarrow> (string \<times> 'v) list option \<Rightarrow> string \<Rightarrow> 'v aworld \<Rightarrow> 'v aeffect" where
  "ajax_done contents cset undef n emit k status native responses headers w =
     (if q_state (reqs w k) = 2 then Done () w
      else (let w1 = upd_req k (finish_req status headers) w;
                (response, w2) = handle_response contents cset undef k responses w1
            in bindR (ajaxConvert (cset k) n (s_dataTypes (q_set (reqs w2 k))) (is_success status) response w2) (\<lambda>c w3.
                 let w4 = (if is_success status \<and> s_ifModified (q_set (reqs w3 k)) then remember_modified k w3 else w3);
                     (ok, statusText, status') = done_outcome status (s_type (q_set (reqs w4 k))) native c;
                     w5 = upd_req k (\<lambda>r. r\<lparr>q_status := status',
                            q_statusText := thrown_str (if thrown_truthy native then native else statusText)\<rparr>) w4
                 in done_callbacks emit n k ok statusText w5)))"

definition abort :: "(string \<times> (string \<Rightarrow> bool)) list \<Rightarrow> 'v csettings \<Rightarrow> 'v \<Rightarrow> nat \<Rightarrow> 'v emitter \<Rightarrow> nat
    \<Rightarrow> string \<Rightarrow> 'v aworld \<Rightarrow> 'v aeffect" where
  "abort contents cset undef n emit k statusText w =
     (let finalText = (if statusText \<noteq> [] then statusText else q_strAbort (reqs w k)) in
      bindR (if q_transport (reqs w k) then announce emit (ETransportAbort k) w else Done () w)
        (\<lambda>_ w'. ajax_done contents cset undef n emit k 0 (TStr finalText) None [] w'))"


section \<open>ajax\<close>

text \<open>\<open>!!s.data\<close>.\<close>

fun data_truthy :: "pval \<Rightarrow> bool" where
  "data_truthy PUndef = False"
| "data_truthy PNull = False"
| "data_truthy (PBool b) = b"
| "data_truthy (PNum n) = (n \<noteq> 0)"
| "data_truthy (PStr s) = (s \<noteq> [])"
| "data_truthy _ = True"

text \<open>Data that is not a string yet becomes one; a truthy value never makes \<open>param\<close> throw.\<close>

definition convert_data :: "bool \<Rightarrow> asett \<Rightarrow> sdata \<Rightarrow> sdata" where
  "convert_data ts s d =
     (case d of
        DVal v \<Rightarrow>
          if data_truthy v \<and> s_processData s \<and> (case v of PStr t \<Rightarrow> False | _ \<Rightarrow> True)
          then (case param ts v (Some (s_traditional s)) of Some q \<Rightarrow> DStr q | None \<Rightarrow> d) else d
      | _ \<Rightarrow> d)"

text \<open>A new request from its settings, up to the prefilters.\<close>

definition request_settings :: "(nat \<Rightarrow> string option) \<Rightarrow> string \<Rightarrow> string \<Rightarrow> bool \<Rightarrow> asett \<Rightarrow> asett" where
  "request_settings ajaxLocParts ajaxLocation url ts s =
     (let u = ajax_url ajaxLocParts ajaxLocation url (s_url s) in
      s\<lparr>s_url := u,
        s_type := (if s_method s \<noteq> [] then s_method s else s_type s),
        s_dataTypes := (let t = trim (if s_dataType s \<noteq> [] then s_dataType s else ''*'') in
                        if match_notwhite (lower t) = [] then [[]] else match_notwhite (lower t)),
        s_crossDomain := (case s_crossDomain s of Some b \<Rightarrow> Some b | None \<Rightarrow> Some (cross_domain ajaxLocParts u)),
        s_data := convert_data ts s (s_data s)\<rparr>)"

definition new_req :: "asett \<Rightarrow> req" where
  "new_req s = \<lparr>q_state = 0, q_transport = False, q_timer = False, q_readyState = 0, q_status = 0,
     q_statusText = [], q_respHeaders = [], q_reqHeaders = [], q_reqNames = [], q_strAbort = ''canceled'',
     q_global = False, q_cacheURL = [], q_codes = Some (s_codes s), q_fired = False, q_completed = False, q_settled = False, q_late = [], q_set = s\<rparr>"

text \<open>Requests without content: the data moves into the URL, the cache is avoided.\<close>

definition has_data :: "sdata \<Rightarrow> bool" where
  "has_data d = (case d of DNone \<Rightarrow> False | DStr s \<Rightarrow> s \<noteq> [] | DVal v \<Rightarrow> data_truthy v)"

definition data_text :: "sdata \<Rightarrow> string" where
  "data_text d = (case d of DNone \<Rightarrow> [] | DStr s \<Rightarrow> s | DVal v \<Rightarrow> to_str v)"

definition url_options :: "nat \<Rightarrow> 'v aworld \<Rightarrow> 'v aworld" where
  "url_options k w =
     (let s = q_set (reqs w k); t = upper (s_type s); hc = (\<not> re_test rnoContent t);
          w1 = upd_req k (\<lambda>r. r\<lparr>q_cacheURL := s_url s, q_set := s\<lparr>s_type := t, s_hasContent := hc\<rparr>\<rparr>) w
      in if hc then w1
         else (let cu = (if has_data (s_data s) then add_query (s_url s) (data_text (s_data s)) else s_url s);
                   d = (if has_data (s_data s) then DNone else s_data s);
                   w2 = upd_req k (\<lambda>r. r\<lparr>q_cacheURL := cu, q_set := (q_set r)\<lparr>s_url := cu, s_data := d\<rparr>\<rparr>) w1
               in if s_cache s = Some False
                  then (upd_set k (\<lambda>s. s\<lparr>s_url := bust_cache cu (nonce w2)\<rparr>) w2)\<lparr>nonce := nonce w2 + 1\<rparr>
                  else w2))"

text \<open>The Accept header.\<close>

definition allTypes :: string where "allTypes = ''*/'' @ ''*''"

definition accept_header :: "asett \<Rightarrow> string" where
  "accept_header s =
     (let d = head_type (s_dataTypes s); a = (case map_of (s_accepts s) d of Some x \<Rightarrow> x | None \<Rightarrow> []) in
      if d \<noteq> [] \<and> a \<noteq> []
      then a @ (if d \<noteq> ''*'' then '', '' @ allTypes @ ''; q=0.01'' else [])
      else header_str (map_of (s_accepts s) ''*''))"

definition set_header :: "nat \<Rightarrow> string \<Rightarrow> string \<Rightarrow> 'v aworld \<Rightarrow> 'v aworld" where
  "set_header k n v w = upd_req k (setRequestHeader n v) w"

definition request_headers :: "nat \<Rightarrow> 'v aworld \<Rightarrow> 'v aworld" where
  "request_headers k w =
     (let s = q_set (reqs w k); cu = q_cacheURL (reqs w k);
          lm = header_str (map_of (lastModified w) cu); et = header_str (map_of (etag w) cu);
          w1 = (if s_ifModified s \<and> lm \<noteq> [] then set_header k ''If-Modified-Since'' lm w else w);
          w2 = (if s_ifModified s \<and> et \<noteq> [] then set_header k ''If-None-Match'' et w1 else w1);
          w3 = (if (has_data (s_data s) \<and> s_hasContent s \<and> s_contentType s \<noteq> None) \<or> s_ownContentType s
                then set_header k ''Content-Type'' (case s_contentType s of Some c \<Rightarrow> c | None \<Rightarrow> ''false'') w2 else w2);
          w4 = set_header k ''Accept'' (accept_header s) w3
      in foldl (\<lambda>w (n, v). set_header k n v w) w4 (s_headers s))"

text \<open>
  What the environment of a request provides: registries (their handlers return), the
  content type tests, the converters, and how far loops are followed.
\<close>

record 'v aenv =
  v_prefilters :: "nat \<Rightarrow> ('v aworld, unit) handler registry"
  v_transports :: "nat \<Rightarrow> ('v aworld, unit) handler registry"
  v_contents :: "(string \<times> (string \<Rightarrow> bool)) list"
  v_cset :: "'v csettings"
  v_undef :: 'v
  v_rounds :: nat

definition env_done :: "'v aenv \<Rightarrow> 'v emitter \<Rightarrow> nat \<Rightarrow> int \<Rightarrow> thrown \<Rightarrow> (string \<times> 'v) list option \<Rightarrow> string
    \<Rightarrow> 'v aworld \<Rightarrow> 'v aeffect" where
  "env_done E = ajax_done (v_contents E) (v_cset E) (v_undef E) (v_rounds E)"

definition env_abort :: "'v aenv \<Rightarrow> 'v emitter \<Rightarrow> nat \<Rightarrow> string \<Rightarrow> 'v aworld \<Rightarrow> 'v aeffect" where
  "env_abort E = abort (v_contents E) (v_cset E) (v_undef E) (v_rounds E)"

definition shift_type :: "nat \<Rightarrow> string \<Rightarrow> 'v aworld \<Rightarrow> 'v aworld" where
  "shift_type k d = upd_set k (\<lambda>s. s\<lparr>s_dataTypes := d # s_dataTypes s\<rparr>)"

definition inspect_for :: "bool \<Rightarrow> ('v aworld, unit) handler registry \<Rightarrow> nat \<Rightarrow> 'v aworld \<Rightarrow> unit given \<times> 'v aworld" where
  "inspect_for seeking st k w =
     (case inspectPrefiltersOrTransports (shift_type k) seeking st
             (Suc (length st)) (head_type (s_dataTypes (q_set (reqs w k)))) w of
        Some r \<Rightarrow> r | None \<Rightarrow> (GNone, w))"

text \<open>
  The sending part: transport lookup, \<open>ajaxSend\<close>, the timer, \<open>transport.send\<close>. When the
  request was finished meanwhile there is no transport left, and the call is a type error.
\<close>

definition send_request :: "'v aenv \<Rightarrow> 'v emitter \<Rightarrow> nat \<Rightarrow> 'v aworld \<Rightarrow> 'v aeffect" where
  "send_request E emit k w =
     (let (t, w1) = inspect_for True (v_transports E k) k (upd_req k (\<lambda>r. r\<lparr>q_strAbort := ''abort''\<rparr>) w) in
      if \<not> given_truthy t then env_done E emit k (- 1) (TStr ''No Transport'') None [] w1
      else bindR (global_event emit k ''ajaxSend'' (upd_req k (\<lambda>r. r\<lparr>q_transport := True, q_readyState := 1\<rparr>) w1)) (\<lambda>_ w2.
        let s = q_set (reqs w2 k);
            w3 = (if s_async s \<and> s_timeout s > 0 then upd_req k (\<lambda>r. r\<lparr>q_timer := True\<rparr>) w2 else w2);
            w4 = upd_req k (\<lambda>r. r\<lparr>q_state := 1\<rparr>) w3
        in (case (if q_transport (reqs w4 k) then announce emit (ESend k) w4 else Exn (TObj ''TypeError'') w4) of
              Exn e w5 \<Rightarrow> if q_state (reqs w5 k) < 2 then env_done E emit k (- 1) e None [] w5 else Exn e w5
            | r \<Rightarrow> r)))"

definition ajax_rest :: "'v aenv \<Rightarrow> 'v emitter \<Rightarrow> nat \<Rightarrow> 'v aworld \<Rightarrow> 'v aeffect" where
  "ajax_rest E emit k w =
     (let w1 = request_headers k (url_options k w) in
      if s_beforeSend (q_set (reqs w1 k))
      then bindR (emit (EBeforeSend k) w1) (\<lambda>go w2.
             if \<not> go \<or> q_state (reqs w2 k) = 2 then env_abort E emit k [] w2 else send_request E emit k w2)
      else send_request E emit k w1)"

definition ajax :: "'v aenv \<Rightarrow> 'v emitter \<Rightarrow> (nat \<Rightarrow> string option) \<Rightarrow> string \<Rightarrow> bool \<Rightarrow> string \<Rightarrow> asett
    \<Rightarrow> 'v aworld \<Rightarrow> 'v aeffect" where
  "ajax E emit parts location ts url s w =
     (let k = nreq w;
          w1 = w\<lparr>reqs := (reqs w)(k := new_req (request_settings parts location url ts s)), nreq := Suc k\<rparr>;
          w2 = snd (inspect_for False (v_prefilters E k) k w1)
      in if q_state (reqs w2 k) = 2 then Done () w2
         else if s_global (q_set (reqs w2 k))
         then (let w3 = (upd_req k (\<lambda>r. r\<lparr>q_global := True\<rparr>) w2)\<lparr>active := active w2 + 1\<rparr> in
               bindR (if active w2 = 0 then announce emit (EGlobal ''ajaxStart'' None) w3 else Done () w3)
                 (\<lambda>_ w4. ajax_rest E emit k w4))
         else ajax_rest E emit k w2)"

section \<open>Running the outside\<close>

text \<open>What callbacks and transports do, one operation after the other, and then throw or return.\<close>

datatype 'v aop = OAjax string asett | OAbort nat string | ODone nat int thrown "(string \<times> 'v) list option" string
  | OHeader nat string string | OMime nat string | OCodes nat "(int \<times> nat list) list" | OTimer nat

record 'v areact =
  a_ops :: "'v aop list"
  a_throw :: "thrown option"
  a_result :: bool       \<comment> \<open>\<open>false\<close> from \<open>beforeSend\<close> cancels\<close>

text \<open>
  The timer of a request aborts it; the \<open>done\<close> function of a request is known to its
  transport only.
\<close>

fun exec_op :: "'v aenv \<Rightarrow> (nat \<Rightarrow> string option) \<Rightarrow> string \<Rightarrow> bool \<Rightarrow> 'v emitter \<Rightarrow> 'v aop \<Rightarrow> 'v aworld \<Rightarrow> 'v aeffect" where
  "exec_op E parts loc ts emit (OAjax url s) w = ajax E emit parts loc ts url s w"
| "exec_op E parts loc ts emit (OAbort k t) w = (if k < nreq w then env_abort E emit k t w else Done () w)"
| "exec_op E parts loc ts emit (ODone k st nt rs hs) w =
     (if k < nreq w then env_done E emit k st nt rs hs w else Done () w)"
| "exec_op E parts loc ts emit (OHeader k n v) w = Done () (if k < nreq w then set_header k n v w else w)"
| "exec_op E parts loc ts emit (OMime k t) w = Done () (if k < nreq w then upd_req k (overrideMimeType t) w else w)"
| "exec_op E parts loc ts emit (OCodes k m) w = (if k < nreq w then status_code emit (v_rounds E) k m w else Done () w)"
| "exec_op E parts loc ts emit (OTimer k) w =
     (if k < nreq w \<and> q_timer (reqs w k) then env_abort E emit k ''timeout'' (upd_req k (\<lambda>r. r\<lparr>q_timer := False\<rparr>) w)
      else Done () w)"

fun exec_ops :: "'v aenv \<Rightarrow> (nat \<Rightarrow> string option) \<Rightarrow> string \<Rightarrow> bool \<Rightarrow> 'v emitter \<Rightarrow> 'v aop list \<Rightarrow> 'v aworld \<Rightarrow> 'v aeffect" where
  "exec_ops E parts loc ts emit [] w = Done () w"
| "exec_ops E parts loc ts emit (c # cs) w =
     bindR (exec_op E parts loc ts emit c w) (\<lambda>_ w'. exec_ops E parts loc ts emit cs w')"

fun react :: "'v aenv \<Rightarrow> (nat \<Rightarrow> string option) \<Rightarrow> string \<Rightarrow> bool \<Rightarrow> (event \<Rightarrow> 'v aworld \<Rightarrow> 'v areact) \<Rightarrow> nat \<Rightarrow> 'v emitter" where
  "react E parts loc ts code 0 e w = Diverge"
| "react E parts loc ts code (Suc n) e w =
     (let w1 = w\<lparr>alog := alog w @ [e]\<rparr>; a = code e w1 in
      bindR (exec_ops E parts loc ts (react E parts loc ts code n) (a_ops a) w1) (\<lambda>_ w2.
        case a_throw a of Some x \<Rightarrow> Exn x w2 | None \<Rightarrow> Done (a_result a) w2))"

end
