(* ===== verification/JqAjaxSafe.thy ===== *)
theory JqAjaxSafe
  imports JqAjax
begin

text \<open>
  What \<open>jQuery.ajax\<close> guarantees however callbacks, handlers and transports call back into
  it: a request settles at most once, and the counter of active requests is the number of
  requests in flight. The invariant is kept by every operation, given that the outside
  keeps it (locale \<open>ajax_client\<close>); the programs of \<open>react\<close> do, by induction on the fuel.
\<close>

section \<open>The invariant\<close>

definition settles :: "nat \<Rightarrow> event \<Rightarrow> bool" where
  "settles k e = (case e of ESettle j ok t \<Rightarrow> j = k | _ \<Rightarrow> False)"

definition settled :: "nat \<Rightarrow> 'v aworld \<Rightarrow> nat" where
  "settled k w = length (filter (settles k) (alog w))"

text \<open>The requests counted as active; those in \<open>Q\<close> are done but still counted.\<close>

definition counted :: "nat set \<Rightarrow> 'v aworld \<Rightarrow> nat set" where
  "counted Q w = {k. k < nreq w \<and> q_global (reqs w k) \<and> (q_state (reqs w k) \<noteq> 2 \<or> k \<in> Q)}"

text \<open>
  \<open>P\<close>: requests that are done and have yet to settle. \<open>N\<close>: requests that are done and are
  not counted. \<open>acc\<close>: nothing is ever thrown, and the counter is exact. At least \<open>b\<close> requests
  exist.
\<close>

definition Inv :: "nat \<Rightarrow> bool \<Rightarrow> nat set \<Rightarrow> nat set \<Rightarrow> nat set \<Rightarrow> 'v aworld \<Rightarrow> bool" where
  "Inv b acc P Q N w \<longleftrightarrow> b \<le> nreq w \<and>
     (\<forall>k. settled k w \<le> 1) \<and>
     (\<forall>k. settled k w \<noteq> 0 \<longrightarrow> k < nreq w \<and> q_state (reqs w k) = 2) \<and>
     (\<forall>k < nreq w. q_state (reqs w k) \<noteq> 2 \<longrightarrow> q_codes (reqs w k) \<noteq> None) \<and>
     (\<forall>k \<in> P. k < nreq w \<and> q_state (reqs w k) = 2 \<and> settled k w = 0) \<and>
     (\<forall>k \<in> Q. k < nreq w \<and> q_state (reqs w k) = 2 \<and> q_global (reqs w k)) \<and>
     (\<forall>k \<in> N. k < nreq w \<and> q_state (reqs w k) = 2 \<and> \<not> q_global (reqs w k)) \<and>
     (acc \<longrightarrow> active w = int (card (counted Q w)))"

lemma finite_counted [simp]: "finite (counted Q w)"
  by (rule finite_subset [of _ "{..<nreq w}"]) (auto simp: counted_def)

lemma counted_active [simp]: "counted Q (w\<lparr>active := n\<rparr>) = counted Q w"
  by (simp add: counted_def)

text \<open>What the invariant depends on.\<close>

definition core :: "'v aworld \<Rightarrow> 'v aworld \<Rightarrow> bool" where
  "core w w' \<longleftrightarrow> (\<forall>k. q_state (reqs w' k) = q_state (reqs w k) \<and> q_global (reqs w' k) = q_global (reqs w k) \<and>
        (q_codes (reqs w' k) = None) = (q_codes (reqs w k) = None)) \<and>
     nreq w' = nreq w \<and> active w' = active w \<and> alog w' = alog w"

lemma core_refl [simp]: "core w w"
  by (simp add: core_def)

lemma core_trans: "core w w' \<Longrightarrow> core w' w'' \<Longrightarrow> core w w''"
  by (simp add: core_def)

lemma Inv_core: "core w w' \<Longrightarrow> Inv b acc P Q N w' = Inv b acc P Q N w"
  by (simp add: core_def Inv_def settled_def counted_def)

lemma core_upd_req:
  "(\<And>r. q_state (f r) = q_state r \<and> q_global (f r) = q_global r \<and> (q_codes (f r) = None) = (q_codes r = None)) \<Longrightarrow> core w (upd_req k f w)"
  by (simp add: core_def upd_req_def)

lemma core_upd_set [simp]: "core w (upd_set k f w)"
  unfolding upd_set_def by (rule core_upd_req) simp

lemma Inv_weaken:
  assumes "Inv b False P Q N w" "P' \<subseteq> P" "Q' \<subseteq> Q" "N' \<subseteq> N"
  shows "Inv b False P' Q' N' w"
  using assms unfolding Inv_def by (simp add: subset_iff)

lemma Inv_PN: "Inv b acc P Q N w \<Longrightarrow> P' \<subseteq> P \<Longrightarrow> N' \<subseteq> N \<Longrightarrow> Inv b acc P' Q N' w"
  unfolding Inv_def by (simp add: subset_iff)

abbreviation keeping :: "nat \<Rightarrow> bool \<Rightarrow> nat set \<Rightarrow> nat set \<Rightarrow> nat set \<Rightarrow> ('e, 'a, 'v aworld) res \<Rightarrow> bool" where
  "keeping b acc P Q N \<equiv> within (\<lambda>_. \<not> acc) (Inv b acc P Q N)"

lemma keeping_chain:
  assumes "keeping b acc P' Q' N' m" and "\<And>a w. Inv b acc P' Q' N' w \<Longrightarrow> keeping b acc P Q N (f a w)"
    and "P \<subseteq> P'" "Q \<subseteq> Q'" "N \<subseteq> N'"
  shows "keeping b acc P Q N (bindR m f)"
proof (cases m)
  case (Exn e w)
  show ?thesis
  proof (cases acc)
    case False
    have "Inv b acc P' Q' N' w" using assms(1) unfolding Exn within_simps by (rule conjunct2)
    with False have "Inv b False P' Q' N' w" by metis
    from Inv_weaken [OF this assms(3-5)] show ?thesis using Exn False by simp
  qed (use assms(1) Exn in simp)
qed (use assms in auto)

lemma Inv_born: "Inv b acc P Q N w \<Longrightarrow> k < nreq w \<Longrightarrow> Inv (Suc k) acc P Q N w"
  and Inv_bound: "Inv b acc P Q N w \<Longrightarrow> b \<le> nreq w"
  and Inv_lower: "Inv b acc P Q N w \<Longrightarrow> b' \<le> b \<Longrightarrow> Inv b' acc P Q N w"
  by (auto simp: Inv_def)

lemma settled_log: "settled k (w\<lparr>alog := alog w @ [e]\<rparr>) = settled k w + (if settles k e then 1 else 0)"
  by (simp add: settled_def)

lemma Inv_log:
  assumes "Inv b acc P Q N w" "\<And>k. \<not> settles k e"
  shows "Inv b acc P Q N (w\<lparr>alog := alog w @ [e]\<rparr>)"
  using assms unfolding Inv_def by (simp add: settled_log counted_def)

lemma Inv_log_settle:
  assumes "Inv b acc (insert k P) Q N w" "k \<notin> P"
  shows "Inv b acc P Q N (w\<lparr>alog := alog w @ [ESettle k ok t]\<rparr>)"
proof -
  have s: "settles j (ESettle k ok t) \<longleftrightarrow> j = k" for j by (auto simp: settles_def)
  show ?thesis
    using assms unfolding Inv_def by (auto simp: settled_log counted_def s)
qed

text \<open>\<open>done\<close> takes a request out of flight: it stays counted, and has yet to settle.\<close>

lemma Inv_finish:
  assumes "Inv b acc P Q N w" "k < nreq w" "q_state (reqs w k) \<noteq> 2"
  shows "k \<notin> P" "k \<notin> Q" "k \<notin> N"
    "Inv b acc (insert k P) (if q_global (reqs w k) then insert k Q else Q)
      (if q_global (reqs w k) then N else insert k N) (upd_req k (finish_req st hs) w)"
proof -
  show "k \<notin> P" "k \<notin> Q" "k \<notin> N" using assms by (auto simp: Inv_def)
  have c: "counted (if q_global (reqs w k) then insert k Q else Q) (upd_req k (finish_req st hs) w) = counted Q w"
    using assms by (auto simp: counted_def upd_req_def finish_req_def)
  have s: "settled j (upd_req k (finish_req st hs) w) = settled j w" for j
    by (simp add: settled_def upd_req_def)
  have s0: "settled k w = 0" using assms by (auto simp: Inv_def)
  show "Inv b acc (insert k P) (if q_global (reqs w k) then insert k Q else Q)
      (if q_global (reqs w k) then N else insert k N) (upd_req k (finish_req st hs) w)"
    using assms(1) s0 assms(2) unfolding Inv_def c s by (simp add: upd_req_def finish_req_def)
qed

text \<open>The counter goes down once.\<close>

lemma Inv_uncount:
  assumes "Inv b acc P (insert k Q) N w" "k \<notin> Q"
  shows "Inv b acc P Q N (w\<lparr>active := active w - 1\<rparr>)"
proof -
  have k: "k < nreq w" "q_state (reqs w k) = 2" "q_global (reqs w k)"
    using assms(1) by (simp_all add: Inv_def)
  then have "counted (insert k Q) w = insert k (counted Q w)" "k \<notin> counted Q w"
    using assms(2) by (auto simp: counted_def)
  then have c: "int (card (counted Q w)) = int (card (counted (insert k Q) w)) - 1" by simp
  show ?thesis
    using assms(1) c unfolding Inv_def by (simp add: settled_def)
qed

section \<open>Operations that call nothing\<close>

lemma core_set_header [simp]: "core w (set_header k n v w)"
  unfolding set_header_def by (rule core_upd_req) (simp add: setRequestHeader_def Let_def)

lemma core_headers_fold: "core w (foldl (\<lambda>w (n, v). set_header k n v w) w hs)"
proof (induction hs arbitrary: w)
  case (Cons p hs)
  obtain n v where "p = (n, v)" by fastforce
  with Cons [of "set_header k n v w"] core_trans [OF core_set_header] show ?case by simp
qed simp

lemma core_request_headers: "core w (request_headers k w)"
  unfolding request_headers_def Let_def
  by (rule core_trans [OF _ core_headers_fold]) (simp add: core_trans [OF core_set_header core_set_header]
      core_trans [OF core_trans [OF core_set_header core_set_header] core_set_header]
      core_trans [OF core_trans [OF core_trans [OF core_set_header core_set_header] core_set_header] core_set_header])

lemma core_url_options: "core w (url_options k w)"
  by (simp add: url_options_def Let_def core_def upd_req_def upd_set_def)

lemma core_remember [simp]: "core w (remember_modified k w)"
  by (simp add: remember_modified_def Let_def core_def)

lemma core_handle: "core w (snd (handle_response c cs u k rs w))"
  by (cases rs) (auto simp: handle_response_def core_def upd_set_def upd_req_def split: prod.split)


section \<open>The contract with the outside\<close>

definition quiet_event :: "event \<Rightarrow> bool" where
  "quiet_event e = (case e of EGlobal n k \<Rightarrow> n = ''ajaxStart'' \<or> n = ''ajaxSend'' | _ \<Rightarrow> False)"

text \<open>A registry whose handlers only touch the settings of the requests.\<close>

definition tame :: "('v aworld, unit) handler registry \<Rightarrow> bool" where
  "tame st \<longleftrightarrow> (\<forall>hs \<in> snd ` set st. \<forall>h \<in> set hs. \<forall>w. core w (snd (h w)))"

locale ajax_client =
  fixes E :: "'v aenv" and emit :: "'v emitter" and acc :: bool
  assumes emit_keeps: "Inv b acc P Q N w \<Longrightarrow> \<forall>k. \<not> settles k e \<Longrightarrow> keeping b acc P Q N (emit e w)"
    and emit_settle: "Inv b acc (insert k P) Q N w \<Longrightarrow> k \<notin> P \<Longrightarrow> keeping b acc P Q N (emit (ESettle k ok t) w)"
    and emit_quiet: "quiet_event e \<Longrightarrow> emit e w = Done r w' \<Longrightarrow> reqs w' = reqs w \<and> nreq w' = nreq w"
    and convert_keeps: "Inv b acc P Q N w \<Longrightarrow> keeping b acc P Q N (ajaxConvert (v_cset E k) n ts ok v w)"
    and prefilters_tame: "tame (v_prefilters E k)"
    and transports_tame: "tame (v_transports E k)"
begin

lemma announce_keeps: "Inv b acc P Q N w \<Longrightarrow> \<forall>k. \<not> settles k e \<Longrightarrow> keeping b acc P Q N (announce emit e w)"
  unfolding announce_def by (rule within_bindR_same [OF emit_keeps]) simp_all

lemma announce_settle: "Inv b acc (insert k P) Q N w \<Longrightarrow> k \<notin> P \<Longrightarrow> keeping b acc P Q N (announce emit (ESettle k ok t) w)"
  unfolding announce_def by (rule within_bindR_same [OF emit_settle]) simp_all

lemma global_keeps: "Inv b acc P Q N w \<Longrightarrow> keeping b acc P Q N (global_event emit k e w)"
  unfolding global_event_def by (auto intro: announce_keeps simp: settles_def)

lemma late_keeps: "Inv b acc P Q N w \<Longrightarrow> keeping b acc P Q N (run_late emit n k w)"
proof (induction n arbitrary: w)
  case (Suc n)
  have c: "core w (upd_req k (\<lambda>r. r\<lparr>q_settled := True\<rparr>) w)" "core w (upd_req k (\<lambda>r. r\<lparr>q_late := fs\<rparr>) w)" for fs
    by (rule core_upd_req; simp)+
  show ?case
    using Suc Inv_core [OF c(1)] Inv_core [OF c(2)]
    by (auto intro!: within_bindR_same announce_keeps simp: settles_def split: list.split)
qed simp

lemma status_keeps:
  assumes w: "Inv b acc P Q N w" and k: "k < nreq w"
  shows "keeping b acc P Q N (status_code emit n k m w)"
proof -
  have c: "core w (upd_req k (\<lambda>r. r\<lparr>q_late := g r\<rparr>) w)" "core w (upd_req k (\<lambda>r. r\<lparr>q_settled := False\<rparr>) w)" for g w
    by (rule core_upd_req; simp)+
  have s: "core w (upd_req k (\<lambda>r. r\<lparr>q_codes := Some (f r)\<rparr>) w)" if "q_codes (reqs w k) \<noteq> None" for f
    using that by (simp add: core_def upd_req_def)
  show ?thesis
  proof (cases "q_state (reqs w k) < 2")
    case True
    then have "q_codes (reqs w k) \<noteq> None" using w k by (simp add: Inv_def)
    then show ?thesis using True w Inv_core [OF s] by (auto simp: status_code_def Let_def)
  next
    case False
    then show ?thesis
      using w by (auto simp: status_code_def Let_def Inv_core [OF c(1)] Inv_core [OF c(2)] intro!: late_keeps)
  qed
qed

lemma settle_keeps:
  assumes w: "Inv b acc (insert k P) Q N w" and k: "k \<notin> P"
  shows "keeping b acc P Q N (settle_deferred emit n k ok t w)"
proof -
  have "core w (upd_req k (\<lambda>r. r\<lparr>q_fired := True\<rparr>) w)" by (rule core_upd_req) simp
  then have "Inv b acc (insert k P) Q N (upd_req k (\<lambda>r. r\<lparr>q_fired := True\<rparr>) w)" using w by (simp only: Inv_core)
  from announce_settle [OF this k] show ?thesis
    using Inv_log_settle [OF w k] by (auto simp: settle_deferred_def intro!: within_bindR_same late_keeps)
qed

lemma complete_keeps: "Inv b acc P Q N w \<Longrightarrow> keeping b acc P Q N (fire_complete emit k t w)"
proof -
  assume w: "Inv b acc P Q N w"
  have "core w (upd_req k (\<lambda>r. r\<lparr>q_completed := True\<rparr>) w)" by (rule core_upd_req) simp
  then show ?thesis using w by (auto simp: fire_complete_def Inv_core settles_def intro!: announce_keeps)
qed

lemma Inv_clear:
  assumes "Inv b acc P Q N w" "q_state (reqs w k) = 2"
  shows "Inv b acc P Q N (upd_req k (\<lambda>r. r\<lparr>q_codes := None\<rparr>) w)"
proof -
  let ?w = "upd_req k (\<lambda>r. r\<lparr>q_codes := None\<rparr>) w"
  have "counted Q ?w = counted Q w" unfolding counted_def by (rule Collect_cong) (simp add: upd_req_def)
  moreover have "settled j ?w = settled j w" for j by (simp add: settled_def upd_req_def)
  ultimately show ?thesis using assms unfolding Inv_def by (simp add: upd_req_def)
qed

lemma codes_keep:
  assumes w: "Inv b acc P Q N w" and k: "k \<in> Q \<union> N"
  shows "keeping b acc P Q N (run_codes emit n k w)"
proof (cases "q_codes (reqs w k)")
  case (Some m)
  have "k < nreq w" using w k by (auto simp: Inv_def)
  moreover have "Inv b acc P Q N (upd_req k (\<lambda>r. r\<lparr>q_codes := None\<rparr>) w')" if "Inv b acc P Q N w'" for w'
    using that k by (intro Inv_clear) (auto simp: Inv_def)
  ultimately show ?thesis using status_keeps [OF w] Some by (auto simp: run_codes_def intro!: within_bindR_same)
qed (use w in \<open>simp add: run_codes_def\<close>)

lemma callbacks_keep:
  assumes w: "Inv b acc (insert k P) (if g then insert k Q else Q) (if g then N else insert k N) w"
    and k: "k \<notin> P" "k \<notin> Q"
  shows "keeping b acc P Q N (done_callbacks emit n k ok t w)"
proof -
  let ?Q = "if g then insert k Q else Q" and ?N = "if g then N else insert k N"
  have QN: "Q \<subseteq> ?Q" "N \<subseteq> ?N" by auto
  have glob: "q_global (reqs w k) = g" if "Inv b acc P ?Q ?N w" for w
    using that by (cases g) (simp_all add: Inv_def)
  have last: "keeping b acc P Q N (if q_global (reqs w5 k)
       then bindR (announce emit (EGlobal ''ajaxComplete'' (Some k)) w5) (\<lambda>_ w6.
              let w7 = w6\<lparr>active := active w6 - 1\<rparr> in
              if active w7 = 0 then announce emit (EGlobal ''ajaxStop'' None) w7 else Done () w7)
       else Done () w5)" if w5: "Inv b acc P ?Q ?N w5" for w5
  proof (cases g)
    case True
    have "keeping b acc P Q N (let w7 = w6\<lparr>active := active w6 - 1\<rparr> in
              if active w7 = 0 then announce emit (EGlobal ''ajaxStop'' None) w7 else Done () w7)"
      if "Inv b acc P (insert k Q) N w6" for w6
      using Inv_uncount [OF that k(2)] by (auto simp: Let_def settles_def intro: announce_keeps)
    moreover have "keeping b acc P (insert k Q) N (announce emit (EGlobal ''ajaxComplete'' (Some k)) w5)"
      using w5 True by (intro announce_keeps) (simp_all add: settles_def)
    ultimately show ?thesis
      using glob [OF w5] True by (auto intro: keeping_chain [of acc b P "insert k Q" N])
  next
    case False
    then show ?thesis using glob [OF w5] Inv_PN [OF w5, of P N] by (auto simp: subset_insertI)
  qed
  show ?thesis
    unfolding done_callbacks_def
    by (rule keeping_chain [OF settle_keeps [OF w k(1)] _ order_refl QN],
        rule keeping_chain [OF codes_keep _ order_refl QN], assumption, simp,
        rule keeping_chain [OF global_keeps _ order_refl QN], assumption,
        rule keeping_chain [OF complete_keeps _ order_refl QN], assumption, rule last)
qed

lemma done_keeps:
  assumes w: "Inv b acc P Q N w" and k: "k < nreq w"
  shows "keeping b acc P Q N (env_done E emit k st nt rs hs w)"
proof (cases "q_state (reqs w k) = 2")
  case True
  then show ?thesis using w by (simp add: env_done_def ajax_done_def)
next
  case False
  let ?g = "q_global (reqs w k)"
  let ?Q = "if ?g then insert k Q else Q" and ?N = "if ?g then N else insert k N"
  note fin = Inv_finish [OF w k False]
  define w1 where "w1 = upd_req k (finish_req st hs) w"
  obtain resp w2 where h: "handle_response (v_contents E) (v_cset E) (v_undef E) k rs w1 = (resp, w2)" by fastforce
  have "core w1 w2" using core_handle [of w1 "v_contents E" "v_cset E" "v_undef E" k rs] by (simp add: h)
  then have w2: "Inv b acc (insert k P) ?Q ?N w2" using fin(4) [of st hs] by (simp only: w1_def Inv_core)
  have upd: "core w (upd_req k (\<lambda>r. r\<lparr>q_status := x, q_statusText := y\<rparr>) w)" for x y w
    by (rule core_upd_req) simp
  show ?thesis
    unfolding env_done_def ajax_done_def Let_def w1_def [symmetric] h prod.case if_not_P [OF False]
  proof (rule keeping_chain [OF convert_keeps [OF w2]])
    fix c and w3 :: "'v aworld" assume w3: "Inv b acc (insert k P) ?Q ?N w3"
    let ?w4 = "if is_success st \<and> s_ifModified (q_set (reqs w3 k)) then remember_modified k w3 else w3"
    have w4: "Inv b acc (insert k P) ?Q ?N ?w4" using w3 by (simp add: Inv_core [OF core_remember])
    show "keeping b acc P Q N (case done_outcome st (s_type (q_set (reqs ?w4 k))) nt c of
        (ok, statusText, status') \<Rightarrow> done_callbacks emit (v_rounds E) k ok statusText
          (upd_req k (\<lambda>r. r\<lparr>q_status := status',
             q_statusText := thrown_str (if thrown_truthy nt then nt else statusText)\<rparr>) ?w4))"
      using w4 fin(1,2) by (auto simp: split_beta Inv_core [OF upd] simp del: if_split intro!: callbacks_keep [where g = ?g])
  qed auto
qed


lemma abort_keeps:
  assumes w: "Inv b acc P Q N w" and k: "k < nreq w"
  shows "keeping b acc P Q N (env_abort E emit k t w)"
proof -
  let ?b = "max b (Suc k)"
  have w': "Inv ?b acc P Q N w" using w Inv_born [OF w k] by (simp add: max_def)
  have low: "keeping b acc P Q N r" if "keeping ?b acc P Q N r" for r :: "'v aeffect"
    by (rule within_mono [OF that]) (rule Inv_lower, assumption, simp)
  have "keeping ?b acc P Q N (env_abort E emit k t w)"
    unfolding env_abort_def abort_def Let_def env_done_def [symmetric]
  proof (rule within_bindR_same)
    show "keeping ?b acc P Q N (if q_transport (reqs w k) then announce emit (ETransportAbort k) w else Done () w)"
      using w' by (auto intro!: announce_keeps simp: settles_def)
  next
    fix w2 :: "'v aworld" assume w2: "Inv ?b acc P Q N w2"
    from Inv_bound [OF this] show "keeping ?b acc P Q N
        (env_done E emit k 0 (TStr (if t \<noteq> [] then t else q_strAbort (reqs w k))) None [] w2)"
      by (intro done_keeps [OF w2]) simp
  qed
  then show ?thesis by (rule low)
qed

end

lemma tame_inspected: "tame st \<Longrightarrow> inspected_by core st (shift_type k)"
  by unfold_locales (auto simp: tame_def shift_type_def intro: core_trans)

text \<open>Inspecting a tame registry changes nothing that the invariant sees.\<close>

sublocale ajax_client \<subseteq> pre: inspected_by core "v_prefilters E k" "shift_type j" for k j
  by (rule tame_inspected) (rule prefilters_tame)

sublocale ajax_client \<subseteq> trans: inspected_by core "v_transports E k" "shift_type j" for k j
  by (rule tame_inspected) (rule transports_tame)

context ajax_client
begin

lemma prefilters_core: "core w (snd (inspect_for sk (v_prefilters E k) j w))"
  using pre.inspection by (auto simp: inspect_for_def split: option.split prod.split)

lemma transports_core: "core w (snd (inspect_for sk (v_transports E k) j w))"
  using trans.inspection by (auto simp: inspect_for_def split: option.split prod.split)

lemma core_state: "core w w' \<Longrightarrow> q_state (reqs w' k) = q_state (reqs w k)" "core w w' \<Longrightarrow> nreq w' = nreq w"
  by (simp_all add: core_def)

lemma quiet_global:
  "quiet_event (EGlobal e (Some k)) \<Longrightarrow> global_event emit k e w = Done () w' \<Longrightarrow> reqs w' = reqs w \<and> nreq w' = nreq w"
  using emit_quiet [of "EGlobal e (Some k)" w]
  by (auto simp: global_event_def announce_def bindR_eq_Done split: if_splits)

lemma send_keeps:
  assumes w: "Inv b acc P Q N w" and k: "k < nreq w" "q_state (reqs w k) \<noteq> 2"
  shows "keeping b acc P Q N (send_request E emit k w)"
proof -
  define w0 where "w0 = upd_req k (\<lambda>r. r\<lparr>q_strAbort := ''abort''\<rparr>) w"
  obtain t w1 where t: "inspect_for True (v_transports E k) k w0 = (t, w1)" by fastforce
  have "core w w0" unfolding w0_def by (rule core_upd_req) simp
  moreover have "core w0 w1" using transports_core [of w0 True k k] by (simp add: t)
  ultimately have c: "core w w1" by (rule core_trans)
  then have w1: "Inv b acc P Q N w1" "k < nreq w1" "q_state (reqs w1 k) \<noteq> 2"
    using w k by (simp_all add: Inv_core core_state)
  define w1' where "w1' = upd_req k (\<lambda>r. r\<lparr>q_transport := True, q_readyState := 1\<rparr>) w1"
  have "core w1 w1'" unfolding w1'_def by (rule core_upd_req) simp
  then have w1': "Inv b acc P Q N w1'" "k < nreq w1'" "q_state (reqs w1' k) \<noteq> 2"
    using w1 by (simp_all add: Inv_core core_state)
  have go: "keeping b acc P Q N (case (if q_transport (reqs w4 k) then announce emit (ESend k) w4 else Exn (TObj ''TypeError'') w4) of
              Exn e w5 \<Rightarrow> if q_state (reqs w5 k) < 2 then env_done E emit k (- 1) e None [] w5 else Exn e w5
            | r \<Rightarrow> r)"
    if w4: "Inv b acc P Q N w4" "k < nreq w4" "q_transport (reqs w4 k)" for w4
  proof -
    have k4: "Inv (max b (Suc k)) acc P Q N w4" using w4(1) Inv_born [OF w4(1,2)] by (simp add: max_def)
    have s: "keeping (max b (Suc k)) acc P Q N (announce emit (ESend k) w4)"
      using k4 by (rule announce_keeps) (simp add: settles_def)
    show ?thesis
    proof (cases "announce emit (ESend k) w4")
      case (Exn e w5)
      with s have "\<not> acc" "Inv (max b (Suc k)) acc P Q N w5" by (auto simp only: within_simps)
      then have "Inv b acc P Q N w5" "k < nreq w5"
        using Inv_lower [of _ acc P Q N w5 b] Inv_bound [of _ acc P Q N w5] by fastforce+
      then show ?thesis using Exn w4(3) \<open>\<not> acc\<close> done_keeps [of b P Q N w5 k] by auto
    next
      case (Done u w5)
      with s have "Inv (max b (Suc k)) acc P Q N w5" by simp
      then show ?thesis using Done w4(3) Inv_lower [of _ acc P Q N w5 b] by simp
    qed (use w4 in simp)
  qed
  have sent: "keeping b acc P Q N (let s = q_set (reqs w2 k);
            w3 = (if s_async s \<and> s_timeout s > 0 then upd_req k (\<lambda>r. r\<lparr>q_timer := True\<rparr>) w2 else w2);
            w4 = upd_req k (\<lambda>r. r\<lparr>q_state := 1\<rparr>) w3
        in (case (if q_transport (reqs w4 k) then announce emit (ESend k) w4 else Exn (TObj ''TypeError'') w4) of
              Exn e w5 \<Rightarrow> if q_state (reqs w5 k) < 2 then env_done E emit k (- 1) e None [] w5 else Exn e w5
            | r \<Rightarrow> r))"
    if w2: "Inv b acc P Q N w2" "reqs w2 = reqs w1'" "nreq w2 = nreq w1'" for w2
  proof -
    define w3 where "w3 = (if s_async (q_set (reqs w2 k)) \<and> s_timeout (q_set (reqs w2 k)) > 0
        then upd_req k (\<lambda>r. r\<lparr>q_timer := True\<rparr>) w2 else w2)"
    define w4 where "w4 = upd_req k (\<lambda>r. r\<lparr>q_state := 1\<rparr>) w3"
    have "core w2 (upd_req k (\<lambda>r. r\<lparr>q_timer := True\<rparr>) w2)" by (rule core_upd_req) simp
    then have c: "core w2 w3" by (simp add: w3_def)
    then have w3: "Inv b acc P Q N w3" "k < nreq w3" "q_state (reqs w3 k) \<noteq> 2" "q_transport (reqs w3 k)"
      using w2 w1' by (auto simp: Inv_core core_state w1'_def w3_def upd_req_def)
    have "counted Q w4 = counted Q w3" "settled j w4 = settled j w3" for j
      using w3 by (auto simp: counted_def w4_def upd_req_def settled_def Inv_def)
    then have "Inv b acc P Q N w4"
      using w3 unfolding Inv_def by (auto simp: w4_def upd_req_def)
    moreover have "k < nreq w4" "q_transport (reqs w4 k)" using w3 by (simp_all add: w4_def upd_req_def)
    ultimately show ?thesis unfolding Let_def w3_def [symmetric] w4_def [symmetric] by (rule go)
  qed
  have snd: "keeping b acc P Q N (global_event emit k ''ajaxSend'' w1')" by (rule global_keeps [OF w1'(1)])
  have q: "quiet_event (EGlobal ''ajaxSend'' (Some k))" by (simp add: quiet_event_def)
  show ?thesis
    unfolding send_request_def w0_def [symmetric] t Let_def prod.case w1'_def [symmetric]
    using done_keeps [OF w1(1,2)] snd sent [unfolded Let_def] quiet_global [OF q]
    by (cases "global_event emit k ''ajaxSend'' w1'") auto
qed

lemma keeping_lower: "keeping b' acc P Q N r \<Longrightarrow> b \<le> b' \<Longrightarrow> keeping b acc P Q N r"
  by (erule within_mono, erule Inv_lower)

lemma rest_keeps:
  assumes w: "Inv b acc P Q N w" and k: "k < nreq w" "q_state (reqs w k) \<noteq> 2"
  shows "keeping b acc P Q N (ajax_rest E emit k w)"
proof -
  define w1 where "w1 = request_headers k (url_options k w)"
  have "core w w1" unfolding w1_def by (rule core_trans [OF core_url_options core_request_headers])
  then have w1: "Inv b acc P Q N w1" "k < nreq w1" "q_state (reqs w1 k) \<noteq> 2"
    using w k by (simp_all add: Inv_core core_state)
  let ?b = "max b (Suc k)"
  have w1': "Inv ?b acc P Q N w1" using w1(1) Inv_born [OF w1(1,2)] by (simp add: max_def)
  have "keeping ?b acc P Q N (bindR (emit (EBeforeSend k) w1) (\<lambda>go w2.
      if \<not> go \<or> q_state (reqs w2 k) = 2 then env_abort E emit k [] w2 else send_request E emit k w2))"
  proof (rule within_bindR_same)
    show "keeping ?b acc P Q N (emit (EBeforeSend k) w1)"
      using w1' by (rule emit_keeps) (simp add: settles_def)
    fix go and w2 :: "'v aworld" assume w2: "Inv ?b acc P Q N w2"
    from Inv_bound [OF this] have "k < nreq w2" by simp
    with w2 show "keeping ?b acc P Q N
        (if \<not> go \<or> q_state (reqs w2 k) = 2 then env_abort E emit k [] w2 else send_request E emit k w2)"
      using abort_keeps send_keeps by auto
  qed
  from keeping_lower [OF this] send_keeps [OF w1] show ?thesis
    by (auto simp: ajax_rest_def Let_def w1_def [symmetric])
qed

lemma Inv_new:
  assumes "Inv b acc P Q N w" "q_state r = 0" "\<not> q_global r" "q_codes r \<noteq> None"
  shows "Inv b acc P Q N (w\<lparr>reqs := (reqs w)(nreq w := r), nreq := Suc (nreq w)\<rparr>)"
proof -
  let ?w = "w\<lparr>reqs := (reqs w)(nreq w := r), nreq := Suc (nreq w)\<rparr>"
  have fresh: "nreq w \<notin> P" "nreq w \<notin> Q" "nreq w \<notin> N" "settled (nreq w) w = 0"
    using assms(1) by (auto simp: Inv_def)
  have "counted Q ?w = counted Q w" using assms(2,3) fresh by (auto simp: counted_def less_Suc_eq)
  moreover have "settled j ?w = settled j w" for j by (simp add: settled_def)
  ultimately show ?thesis
    using assms(1,4) fresh unfolding Inv_def by (auto simp: less_Suc_eq)
qed

lemma Inv_count:
  assumes w: "Inv b acc P Q N w" and k: "k < nreq w" "q_state (reqs w k) \<noteq> 2" "\<not> q_global (reqs w k)"
  shows "Inv b acc P Q N ((upd_req k (\<lambda>r. r\<lparr>q_global := True\<rparr>) w)\<lparr>active := active w + 1\<rparr>)"
proof -
  let ?w = "(upd_req k (\<lambda>r. r\<lparr>q_global := True\<rparr>) w)\<lparr>active := active w + 1\<rparr>"
  have out: "k \<notin> P" "k \<notin> Q" "k \<notin> N" using w k by (auto simp: Inv_def)
  have "counted Q ?w = insert k (counted Q w)" "k \<notin> counted Q w"
    using k by (auto simp: counted_def upd_req_def)
  then have "int (card (counted Q ?w)) = int (card (counted Q w)) + 1" by simp
  moreover have "settled j ?w = settled j w" for j by (simp add: settled_def upd_req_def)
  ultimately show ?thesis
    using w out unfolding Inv_def by (auto simp: upd_req_def)
qed

lemma ajax_keeps:
  assumes w: "Inv b acc P Q N w"
  shows "keeping b acc P Q N (ajax E emit parts loc ts url s w)"
proof -
  let ?k = "nreq w"
  define w1 where "w1 = w\<lparr>reqs := (reqs w)(?k := new_req (request_settings parts loc url ts s)), nreq := Suc ?k\<rparr>"
  define w2 where "w2 = snd (inspect_for False (v_prefilters E ?k) ?k w1)"
  have c: "core w1 w2" unfolding w2_def by (rule prefilters_core)
  have "Inv b acc P Q N w1" unfolding w1_def by (rule Inv_new [OF w]) (simp_all add: new_req_def)
  then have "Inv b acc P Q N w2" by (simp only: Inv_core [OF c])
  moreover from c have "?k < nreq w2" "q_state (reqs w2 ?k) \<noteq> 2" "\<not> q_global (reqs w2 ?k)"
    by (simp_all add: core_def w1_def new_req_def)
  ultimately have w2: "Inv b acc P Q N w2" "?k < nreq w2" "q_state (reqs w2 ?k) \<noteq> 2" "\<not> q_global (reqs w2 ?k)"
    by simp_all
  define w3 where "w3 = (upd_req ?k (\<lambda>r. r\<lparr>q_global := True\<rparr>) w2)\<lparr>active := active w2 + 1\<rparr>"
  have w3: "Inv b acc P Q N w3" "?k < nreq w3" "q_state (reqs w3 ?k) \<noteq> 2"
    using Inv_count [OF w2] w2 by (simp_all add: w3_def upd_req_def)
  have start: "keeping b acc P Q N (announce emit (EGlobal ''ajaxStart'' None) w3)"
    using w3(1) by (rule announce_keeps) (simp add: settles_def)
  have quiet: "reqs w4 = reqs w3 \<and> nreq w4 = nreq w3" if "announce emit (EGlobal ''ajaxStart'' None) w3 = Done u w4" for u w4
    using that emit_quiet [of "EGlobal ''ajaxStart'' None" w3]
    by (auto simp: announce_def bindR_eq_Done quiet_event_def)
  have "keeping b acc P Q N (bindR (if active w2 = 0 then announce emit (EGlobal ''ajaxStart'' None) w3 else Done () w3)
      (\<lambda>_ w4. ajax_rest E emit ?k w4))"
    using start quiet rest_keeps [OF w3] w3
    by (cases "announce emit (EGlobal ''ajaxStart'' None) w3") (auto intro: rest_keeps)
  then show ?thesis
    using w2(3) rest_keeps [OF w2(1-3)]
    by (auto simp: ajax_def Let_def w1_def [symmetric] w2_def [symmetric] w3_def [symmetric])
qed

lemma op_keeps: "Inv b acc P Q N w \<Longrightarrow> keeping b acc P Q N (exec_op E parts loc ts emit c w)"
proof (cases c)
  case (OHeader k n v)
  then show "Inv b acc P Q N w \<Longrightarrow> ?thesis" by (simp add: Inv_core [OF core_set_header])
next
  case (OMime k t)
  have "core w (upd_req k (overrideMimeType t) w)" by (rule core_upd_req) (simp add: overrideMimeType_def)
  with OMime show "Inv b acc P Q N w \<Longrightarrow> ?thesis" by (simp add: Inv_core)
next
  case (OTimer k)
  have c: "core w (upd_req k (\<lambda>r. r\<lparr>q_timer := False\<rparr>) w)" by (rule core_upd_req) simp
  then show "Inv b acc P Q N w \<Longrightarrow> ?thesis"
    using OTimer abort_keeps [of b P Q N "upd_req k (\<lambda>r. r\<lparr>q_timer := False\<rparr>) w"]
    by (simp add: Inv_core core_state)
qed (auto intro: ajax_keeps abort_keeps done_keeps status_keeps)

lemma ops_keep: "Inv b acc P Q N w \<Longrightarrow> keeping b acc P Q N (exec_ops E parts loc ts emit cs w)"
  by (induction cs arbitrary: w) (auto intro!: within_bindR_same op_keeps)

end

section \<open>Programs keep the contract\<close>

text \<open>
  Converters and filters that leave the world alone, and handlers that stay quiet while a
  request starts. With \<open>acc\<close>, moreover, nothing throws.
\<close>

definition pure_cset :: "bool \<Rightarrow> (thrown, 'v, 'v aworld) convset \<Rightarrow> bool" where
  "pure_cset acc s \<longleftrightarrow>
     (\<forall>f. CFn f \<in> snd ` set (c_converters s) \<longrightarrow> (\<forall>v w. keeps ((=) w) (f v w))) \<and>
     (\<forall>g. c_filter s = Some g \<longrightarrow> (\<forall>v w. within (\<lambda>_. \<not> acc) ((=) w) (g v w))) \<and>
     (\<forall>k v w. core w (c_set s k v w)) \<and> (acc \<longrightarrow> \<not> c_throws s)"

lemma convert_fair:
  assumes s: "pure_cset acc s" and w: "Inv b acc P Q N w"
  shows "keeping b acc P Q N (ajaxConvert s n ts ok v w)"
proof (rule convert_within)
  show "Inv b acc P Q N w" by (rule w)
next
  fix f v and w :: "'a aworld" assume "CFn f \<in> snd ` set (c_converters s)" and i: "Inv b acc P Q N w"
  with s have "keeps ((=) w) (f v w)" unfolding pure_cset_def by blast
  then show "keeps (Inv b acc P Q N) (f v w)" by (rule keeps_mono) (use i in simp)
next
  fix g v and w :: "'a aworld" assume "c_filter s = Some g" and i: "Inv b acc P Q N w"
  with s have "within (\<lambda>_. \<not> acc) ((=) w) (g v w)" unfolding pure_cset_def by blast
  then show "keeping b acc P Q N (g v w)" by (rule within_mono) (use i in simp)
next
  fix k v and w :: "'a aworld" assume i: "Inv b acc P Q N w"
  from s have "core w (c_set s k v w)" unfolding pure_cset_def by blast
  with i show "Inv b acc P Q N (c_set s k v w)" by (simp add: Inv_core)
qed (use s in \<open>simp add: pure_cset_def\<close>)

definition fair_env :: "bool \<Rightarrow> 'v aenv \<Rightarrow> bool" where
  "fair_env acc E \<longleftrightarrow> (\<forall>k. tame (v_prefilters E k) \<and> tame (v_transports E k) \<and> pure_cset acc (v_cset E k))"

definition fair_code :: "bool \<Rightarrow> (event \<Rightarrow> 'v aworld \<Rightarrow> 'v areact) \<Rightarrow> bool" where
  "fair_code acc code \<longleftrightarrow>
     (\<forall>e w. quiet_event e \<longrightarrow> a_ops (code e w) = []) \<and> (acc \<longrightarrow> (\<forall>e w. a_throw (code e w) = None))"

lemma react_keeps:
  assumes c: "ajax_client E (react E parts loc ts code n) acc" and code: "fair_code acc code"
    and w: "Inv b acc P Q N (w\<lparr>alog := alog w @ [e]\<rparr>)"
  shows "keeping b acc P Q N (react E parts loc ts code (Suc n) e w)"
  using ajax_client.ops_keep [OF c w] code
  by (auto simp: Let_def fair_code_def intro!: within_bindR_same split: option.split)

lemma ajax_client_react:
  assumes E: "fair_env acc E" and code: "fair_code acc code"
  shows "ajax_client E (react E parts loc ts code n) acc"
proof (induction n)
  case 0
  show ?case
    using E by unfold_locales (auto simp: fair_env_def intro: convert_fair)
next
  case (Suc n)
  show ?case
  proof
    fix b P Q N and w :: "'a aworld" and e
    assume "Inv b acc P Q N w" "\<forall>k. \<not> settles k e"
    then show "keeping b acc P Q N (react E parts loc ts code (Suc n) e w)"
      by (intro react_keeps [OF Suc code] Inv_log) auto
  next
    fix b k P Q N and w :: "'a aworld" and ok t
    assume "Inv b acc (insert k P) Q N w" "k \<notin> P"
    then show "keeping b acc P Q N (react E parts loc ts code (Suc n) (ESettle k ok t) w)"
      by (intro react_keeps [OF Suc code] Inv_log_settle)
  next
    fix e r and w w' :: "'a aworld"
    assume "quiet_event e" "react E parts loc ts code (Suc n) e w = Done r w'"
    then show "reqs w' = reqs w \<and> nreq w' = nreq w"
      using code by (auto simp: fair_code_def Let_def split: option.splits)
  qed (use E in \<open>auto simp: fair_env_def intro: convert_fair\<close>)
qed

definition empty_world :: "'v aworld" where
  "empty_world = \<lparr>reqs = (\<lambda>_. undefined), nreq = 0, active = 0, lastModified = [], etag = [], nonce = 0,
     alog = [], rfields = (\<lambda>_. [])\<rparr>"

lemma Inv_empty: "Inv 0 acc {} {} {} empty_world"
  by (simp add: Inv_def empty_world_def settled_def counted_def)

text \<open>The fair clients, with what they may throw: the contract holds for each of them.\<close>

typedef 'v fair_client = "{(acc, E :: 'v aenv, code :: event \<Rightarrow> 'v aworld \<Rightarrow> 'v areact). fair_env acc E \<and> fair_code acc code}"
  morphisms client_of fair_client
proof -
  let ?cset = "\<lparr>c_converters = [], c_fields = [], c_filter = None, c_throws = False, c_set = (\<lambda>k v w. w)\<rparr>"
  have "fair_env True \<lparr>v_prefilters = (\<lambda>_. []), v_transports = (\<lambda>_. []), v_contents = [], v_cset = (\<lambda>_. ?cset),
      v_undef = u, v_rounds = 0\<rparr>" for u :: 'v
    by (simp add: fair_env_def tame_def pure_cset_def)
  moreover have "fair_code True (\<lambda>e w. \<lparr>a_ops = [], a_throw = None, a_result = True\<rparr>)" by (simp add: fair_code_def)
  ultimately show ?thesis by blast
qed

interpretation reacting_ajax: ajax_client "fst (snd (client_of x))"
  "react (fst (snd (client_of x))) parts loc ts (snd (snd (client_of x))) n" "fst (client_of x)" for x parts loc ts n
  using client_of [of x] by (intro ajax_client_react) (simp_all add: split_beta)

lemma exec_keeps:
  assumes "fair_env acc E" and "fair_code acc code"
  shows "keeping 0 acc {} {} {} (exec_ops E parts loc ts (react E parts loc ts code n) ops empty_world)"
  using reacting_ajax.ops_keep [where x = "fair_client (acc, E, code)" and parts = parts and loc = loc and ts = ts and n = n]
  by (simp add: fair_client_inverse assms Inv_empty)


section \<open>What jQuery.ajax guarantees\<close>

text \<open>
  C9: a request settles at most once, and only when it is done, whatever callbacks,
  transports and timers do to any request, exceptions included, as long as handlers of
  \<open>ajaxStart\<close> and \<open>ajaxSend\<close> do not call back (\<open>fair_code\<close>) and converters, prefilters and the
  choice of a transport leave the requests alone (\<open>fair_env\<close>). What is counted are the calls of
  \<open>resolveWith\<close> and \<open>rejectWith\<close>, so \<open>done\<close> gets past its guard at most once.
\<close>

theorem requests_settle_once:
  assumes "fair_env False E" and "fair_code False code"
  shows "keeps (\<lambda>w. \<forall>k. settled k w \<le> 1 \<and> (settled k w = 1 \<longrightarrow> k < nreq w \<and> q_state (reqs w k) = 2))
    (exec_ops E parts loc ts (react E parts loc ts code n) ops empty_world)"
proof -
  have "keeping 0 False {} {} {} (exec_ops E parts loc ts (react E parts loc ts code n) ops empty_world)"
    by (rule exec_keeps [OF assms])
  then have "keeps (Inv 0 False {} {} {}) (exec_ops E parts loc ts (react E parts loc ts code n) ops empty_world)"
    by (simp add: keeps_within)
  then show ?thesis by (rule keeps_mono) (simp add: Inv_def)
qed


section \<open>Concrete runs\<close>

definition demo_cset :: "(thrown, string, string aworld) convset" where
  "demo_cset = \<lparr>c_converters = [(''* text'', CTrue), (''text html'', CTrue)], c_fields = [(''text'', ''responseText'')],
     c_filter = None, c_throws = False, c_set = (\<lambda>k v w. w)\<rparr>"

definition demo_env :: "string aenv" where
  "demo_env = \<lparr>v_prefilters = (\<lambda>_. []), v_transports = (\<lambda>_. [(''*'', [\<lambda>w. (GObj (), w)])]), v_contents = [],
     v_cset = (\<lambda>_. demo_cset), v_undef = [], v_rounds = 9\<rparr>"

definition demo_settings :: asett where
  "demo_settings = \<lparr>s_url = [], s_type = ''GET'', s_method = [], s_dataType = ''text'', s_dataTypes = [],
     s_data = DNone, s_processData = True, s_traditional = False, s_crossDomain = Some False, s_cache = None,
     s_ifModified = False, s_contentType = None, s_ownContentType = False, s_headers = [], s_accepts = [],
     s_async = True, s_timeout = 0, s_global = True, s_mimeType = [], s_hasContent = False, s_beforeSend = False,
     s_codes = []\<rparr>"

definition still :: "event \<Rightarrow> string aworld \<Rightarrow> string areact" where
  "still e w = \<lparr>a_ops = [], a_throw = None, a_result = True\<rparr>"

text \<open>A handler of \<open>ajaxSend\<close> that aborts the request.\<close>

definition send_aborter :: "event \<Rightarrow> string aworld \<Rightarrow> string areact" where
  "send_aborter e w =
     (if e = EGlobal ''ajaxSend'' (Some 0) then \<lparr>a_ops = [OAbort 0 []], a_throw = None, a_result = True\<rparr> else still e w)"

text \<open>A success callback that throws.\<close>

definition thrower :: "event \<Rightarrow> string aworld \<Rightarrow> string areact" where
  "thrower e w =
     (if e = ESettle 0 True (TStr ''success'') then \<lparr>a_ops = [], a_throw = Some (TObj ''e''), a_result = True\<rparr> else still e w)"

definition demo_run :: "(event \<Rightarrow> string aworld \<Rightarrow> string areact) \<Rightarrow> string aop list \<Rightarrow> string aeffect" where
  "demo_run code ops = exec_ops demo_env (\<lambda>_. None) ''/'' False (react demo_env (\<lambda>_. None) ''/'' False code 9) ops empty_world"

lemma demo_fair: "fair_env acc demo_env" "fair_code acc still"
  by (auto simp: fair_env_def demo_env_def tame_def pure_cset_def demo_cset_def fair_code_def still_def)

lemma requests_settle_once_witness:
  "keeps (\<lambda>w. \<forall>k. settled k w \<le> 1 \<and> (settled k w = 1 \<longrightarrow> k < nreq w \<and> q_state (reqs w k) = 2))
    (demo_run still [OAjax ''/q'' demo_settings, ODone 0 200 (TStr ''OK'') (Some [(''text'', ''hi'')]) []])"
  unfolding demo_run_def by (rule requests_settle_once [OF demo_fair])


text \<open>
  The condition on \<open>ajaxSend\<close> is needed: when such a handler aborts the request, \<open>ajax\<close> sets its
  state back and calls \<open>send\<close> of a transport that is gone; the exception is caught and \<open>done\<close>
  runs a second time. The callbacks of the request are not called again, but the request is
  counted down twice.
\<close>

theorem abort_in_ajaxSend_finishes_twice:
  "case demo_run send_aborter [OAjax ''/q'' demo_settings] of
     Done u w \<Rightarrow> active w = - 1 \<and> settled 0 w = 2 \<and> ESend 0 \<notin> set (alog w) \<and>
       length (filter (\<lambda>e. e = EComplete 0 (TStr ''abort'')) (alog w)) = 1
   | _ \<Rightarrow> False"
  by code_simp

text \<open>
  A success callback that throws leaves its request counted for ever: the request is
  done, the counter is not zero again, and \<open>ajaxStop\<close> and the complete callbacks are missing.
\<close>

theorem throwing_callback_leaks_active:
  "case demo_run thrower [OAjax ''/q'' demo_settings, ODone 0 200 (TStr ''OK'') (Some [(''text'', ''hi'')]) []] of
     Exn e w \<Rightarrow> q_state (reqs w 0) = 2 \<and> active w = 1 \<and> EGlobal ''ajaxStop'' None \<notin> set (alog w) \<and>
       EComplete 0 (TStr ''success'') \<notin> set (alog w)
   | _ \<Rightarrow> False"
  by code_simp

section \<open>Request headers\<close>

definition hdr_ok :: "req \<Rightarrow> bool" where
  "hdr_ok r \<longleftrightarrow> distinct (map fst (q_reqHeaders r)) \<and>
     (\<forall>n \<in> fst ` set (q_reqHeaders r). n \<noteq> [] \<and> map_of (q_reqNames r) (lower n) = Some n) \<and>
     (\<forall>l n. map_of (q_reqNames r) l = Some n \<longrightarrow> lower n = l)"

lemma setRequestHeader_frame [simp]: "q_state (setRequestHeader n v r) = q_state r"
  by (simp add: setRequestHeader_def Let_def)

lemma hdr_ok_set:
  assumes r: "hdr_ok r" and n: "n \<noteq> []" "q_state r = 0"
  shows "hdr_ok (setRequestHeader n v r)"
    and "\<exists>n'. lower n' = lower n \<and> map_of (q_reqHeaders (setRequestHeader n v r)) n' = Some v"
    and "n' \<in> fst ` set (q_reqHeaders r) \<Longrightarrow> lower n' \<noteq> lower n \<Longrightarrow>
      map_of (q_reqHeaders (setRequestHeader n v r)) n' = map_of (q_reqHeaders r) n'"
proof -
  define m where "m = (case map_of (q_reqNames r) (lower n) of Some x \<Rightarrow> if x \<noteq> [] then x else n | None \<Rightarrow> n)"
  have m: "lower m = lower n" "m \<noteq> []"
    using r n by (auto simp: m_def hdr_ok_def split: option.split)
  have eq: "setRequestHeader n v r = r\<lparr>q_reqNames := put_prop (lower n) m (q_reqNames r),
      q_reqHeaders := put_prop m v (q_reqHeaders r)\<rparr>"
    using n by (simp add: setRequestHeader_def m_def Let_def)
  have keys: "fst ` set (put_prop m v hs) = insert m (fst ` set hs)" for hs :: "(string \<times> string) list"
    using keys_put_prop [of m v hs] by simp
  have other: "x = m" if "x \<in> fst ` set (q_reqHeaders r)" "lower x = lower n" for x
    using that r by (auto simp: m_def hdr_ok_def)
  show "hdr_ok (setRequestHeader n v r)"
    unfolding eq hdr_ok_def using r m other keys by (auto simp: hdr_ok_def)
  show "\<exists>n'. lower n' = lower n \<and> map_of (q_reqHeaders (setRequestHeader n v r)) n' = Some v"
    unfolding eq using m by auto
  show "map_of (q_reqHeaders (setRequestHeader n v r)) n' = map_of (q_reqHeaders r) n'"
    if "n' \<in> fst ` set (q_reqHeaders r)" "lower n' \<noteq> lower n"
    unfolding eq using m that by auto
qed

lemma hdr_ok_fold:
  "hdr_ok r \<Longrightarrow> q_state r = 0 \<Longrightarrow> [] \<notin> fst ` set hs \<Longrightarrow>
    hdr_ok (foldl (\<lambda>r (n, v). setRequestHeader n v r) r hs) \<and> q_state (foldl (\<lambda>r (n, v). setRequestHeader n v r) r hs) = 0"
  by (induction hs arbitrary: r) (auto simp: hdr_ok_set(1))

text \<open>
  C17: the headers of a request are unique up to case: after any calls of \<open>setRequestHeader\<close>
  before sending, no two names differ in case only, and the last call decides the value.
\<close>

theorem request_headers_unique:
  fixes hs :: "(string \<times> string) list" and n v :: string and s :: asett
  assumes "[] \<notin> fst ` set hs" and "n \<noteq> []"
  defines "r \<equiv> setRequestHeader n v (foldl (\<lambda>r (n, v). setRequestHeader n v r) (new_req s) hs)"
  shows "distinct (map (\<lambda>p. lower (fst p)) (q_reqHeaders r)) \<and>
    (\<exists>n'. lower n' = lower n \<and> map_of (q_reqHeaders r) n' = Some v)"
proof -
  have "hdr_ok (new_req s)" "q_state (new_req s) = 0" by (simp_all add: hdr_ok_def new_req_def)
  note f = hdr_ok_fold [OF this assms(1)]
  from hdr_ok_set(1,2) [OF f [THEN conjunct1] assms(2) f [THEN conjunct2], of v]
  have ok: "hdr_ok r" and v: "\<exists>n'. lower n' = lower n \<and> map_of (q_reqHeaders r) n' = Some v"
    by (simp_all add: r_def)
  have "inj_on lower (fst ` set (q_reqHeaders r))"
    using ok by (intro inj_onI) (metis (no_types, lifting) hdr_ok_def option.inject)
  then have "distinct (map lower (map fst (q_reqHeaders r)))"
    using ok by (auto simp: hdr_ok_def distinct_map comp_inj_on_iff [symmetric] image_image)
  with v show ?thesis by (simp add: o_def)
qed

lemma request_headers_unique_witness:
  "distinct (map (\<lambda>p. lower (fst p)) (q_reqHeaders (setRequestHeader ''accept'' ''b''
     (foldl (\<lambda>r (n, v). setRequestHeader n v r) (new_req demo_settings) [(''Accept'', ''a'')])))) \<and>
   (\<exists>n'. lower n' = lower ''accept'' \<and> map_of (q_reqHeaders (setRequestHeader ''accept'' ''b''
     (foldl (\<lambda>r (n, v). setRequestHeader n v r) (new_req demo_settings) [(''Accept'', ''a'')]))) n' = Some ''b'')"
  by (rule request_headers_unique) simp_all

end
