(* ===== verification/JqTransport.thy ===== *)
theory JqTransport
  imports JqAjax
begin

text \<open>
  The transports of \<open>democlient/js/jquery.js\<close>: the XMLHttpRequest transport with its
  listener, the script element transport, and the JSONP prefilter that installs a callback
  in the window. Each is a state machine driven by the browser; what it reads from the
  browser at a step is an argument of the step.
\<close>

section \<open>The XMLHttpRequest transport\<close>

text \<open>
  What the browser shows of the request object when the listener runs: \<open>None\<close> and \<open>TThrows\<close> are
  an access that throws, \<open>TOther\<close> is a response text that is not a string.
\<close>

datatype xtext = TThrows | TOther | TText string

record xsnap =
  n_readyState :: "int option"
  n_status :: "int option"
  n_headers :: "string option"
  n_text :: xtext
  n_statusText :: "string option"

text \<open>
  The calls to the browser and to \<open>complete\<close>; a status \<open>None\<close> is undefined. An undefined status
  text or header string is the empty one, as \<open>done\<close> takes it.
\<close>

datatype xeffect = XOpen string string bool "(string \<times> string) option" | XField string string
  | XMime string | XHeader string string | XSend "string option" | XAbort
  | XComplete "int option" string "(string \<times> string) list option" string

record xhrt =
  x_callback :: bool               \<comment> \<open>the closure's \<open>callback\<close>\<close>
  x_handle :: "nat option"
  x_listening :: bool              \<comment> \<open>\<open>onreadystatechange\<close> is the callback\<close>
  x_later :: bool                  \<comment> \<open>\<open>setTimeout( callback )\<close> is pending\<close>
  x_nextId :: nat
  x_unload :: "nat list"           \<comment> \<open>\<open>xhrCallbacks\<close>\<close>
  x_log :: "xeffect list"

definition x_do :: "xeffect \<Rightarrow> xhrt \<Rightarrow> xhrt" where
  "x_do e t = t\<lparr>x_log := x_log t @ [e]\<rparr>"

text \<open>Filter status for non standard behaviors.\<close>

definition fix_status :: "bool \<Rightarrow> bool \<Rightarrow> int \<Rightarrow> xtext \<Rightarrow> int" where
  "fix_status isLocal crossDomain status txt =
     (if status = 0 \<and> isLocal \<and> \<not> crossDomain then (case txt of TText (c # s) \<Rightarrow> 200 | _ \<Rightarrow> 404)
      else if status = 1223 then 204 else status)"

text \<open>
  The listener. \<open>old\<close> says that the host has ActiveX objects (\<open>xhrOnUnloadAbort\<close>). When reading
  the status, the headers or the text throws, the responses object exists already, so \<open>complete\<close>
  is called twice (\<open>x_twice\<close>): with the exception, and with what had been read before.
\<close>

definition x_twice :: "int option \<Rightarrow> string \<Rightarrow> xhrt \<Rightarrow> xhrt" where
  "x_twice status headers t = x_do (XComplete status [] (Some []) headers) (x_do (XComplete (Some (- 1)) ''exception'' None []) t)"

definition x_listener :: "bool \<Rightarrow> bool \<Rightarrow> bool \<Rightarrow> bool \<Rightarrow> xsnap \<Rightarrow> xhrt \<Rightarrow> xhrt" where
  "x_listener old isLocal crossDomain isAbort n t =
     (if \<not> x_callback t then t
      else if \<not> isAbort \<and> n_readyState n = None then x_do (XComplete (Some (- 1)) ''exception'' None []) t
      else if isAbort \<or> n_readyState n = Some 4
      then (let t1 = t\<lparr>x_callback := False\<rparr>;
                t2 = (case x_handle t1 of
                        Some h \<Rightarrow> t1\<lparr>x_listening := False, x_unload := (if old then removeAll h (x_unload t1) else x_unload t1)\<rparr>
                      | None \<Rightarrow> t1)
            in if isAbort
               then (case n_readyState n of Some r \<Rightarrow> if r \<noteq> 4 then x_do XAbort t2 else t2 | None \<Rightarrow> t2)
               else (case (n_status n, n_headers n, n_text n) of
                       (None, _, _) \<Rightarrow> x_twice None [] t2
                     | (Some st, None, _) \<Rightarrow> x_twice (Some st) [] t2
                     | (Some st, Some hdr, TThrows) \<Rightarrow> x_twice (Some st) hdr t2
                     | (Some st, Some hdr, txt) \<Rightarrow>
                         x_do (XComplete (Some (fix_status isLocal crossDomain st txt))
                                 (case n_statusText n of Some s \<Rightarrow> s | None \<Rightarrow> [])
                                 (Some (case txt of TText s \<Rightarrow> [(''text'', s)] | _ \<Rightarrow> [])) hdr) t2))
      else t)"

record xsettings =
  y_type :: string
  y_url :: string
  y_async :: bool
  y_user :: "(string \<times> string) option"
  y_fields :: "(string \<times> string) list"
  y_mime :: string
  y_crossDomain :: bool
  y_isLocal :: bool
  y_data :: "string option"       \<comment> \<open>\<open>s.hasContent && s.data\<close>\<close>

text \<open>The headers to send: \<open>X-Requested-With\<close> is added for requests of the same origin.\<close>

definition x_headers :: "xsettings \<Rightarrow> (string \<times> string) list \<Rightarrow> (string \<times> string) list" where
  "x_headers s hs =
     (if \<not> y_crossDomain s \<and> (case map_of hs ''X-Requested-With'' of Some v \<Rightarrow> v = [] | None \<Rightarrow> True)
      then put_prop ''X-Requested-With'' ''XMLHttpRequest'' hs else hs)"

text \<open>
  \<open>send\<close>: \<open>accepted\<close> is how many headers the browser takes before it throws, \<open>n\<close> what it shows
  right after sending.
\<close>

definition x_send :: "bool \<Rightarrow> xsettings \<Rightarrow> bool \<Rightarrow> nat \<Rightarrow> (string \<times> string) list \<Rightarrow> xsnap \<Rightarrow> xhrt \<Rightarrow> xhrt" where
  "x_send old s canMime accepted hs n t =
     (let t1 = x_do (XOpen (y_type s) (y_url s) (y_async s) (y_user s)) t;
          t2 = fold (\<lambda>(k, v). x_do (XField k v)) (y_fields s) t1;
          t3 = (if y_mime s \<noteq> [] \<and> canMime then x_do (XMime (y_mime s)) t2 else t2);
          t4 = fold (\<lambda>(k, v). x_do (XHeader k v)) (take accepted (x_headers s hs)) t3;
          t5 = (x_do (XSend (case y_data s of Some d \<Rightarrow> if d \<noteq> [] then Some d else None | None \<Rightarrow> None)) t4)\<lparr>x_callback := True\<rparr>
      in if \<not> y_async s then x_listener old (y_isLocal s) (y_crossDomain s) False n t5
         else if n_readyState n = Some 4 then t5\<lparr>x_later := True\<rparr>
         else (let h = Suc (x_nextId t5) in
               t5\<lparr>x_nextId := h, x_handle := Some h, x_listening := True,
                  x_unload := (if old then x_unload t5 @ [h] else x_unload t5)\<rparr>))"

text \<open>What can happen to a transport that has been sent.\<close>

datatype xstep = SReady xsnap | SLater xsnap | SAbort xsnap | SUnload xsnap

fun x_step :: "bool \<Rightarrow> xsettings \<Rightarrow> xstep \<Rightarrow> xhrt \<Rightarrow> xhrt" where
  "x_step old s (SReady n) t = (if x_listening t then x_listener old (y_isLocal s) (y_crossDomain s) False n t else t)"
| "x_step old s (SLater n) t =
     (if x_later t then x_listener old (y_isLocal s) (y_crossDomain s) False n (t\<lparr>x_later := False\<rparr>) else t)"
| "x_step old s (SAbort n) t = (if x_callback t then x_listener old (y_isLocal s) (y_crossDomain s) True n t else t)"
| "x_step old s (SUnload n) t =
     (case x_handle t of Some h \<Rightarrow> if h \<in> set (x_unload t) then x_listener old (y_isLocal s) (y_crossDomain s) True n t else t
      | None \<Rightarrow> t)"

section \<open>The script transport\<close>

datatype seffect = SInsert string | SRemove | SComplete int string

record sct =
  k_script :: bool       \<comment> \<open>\<open>script\<close> is not null\<close>
  k_handlers :: bool
  k_inDoc :: bool
  k_log :: "seffect list"

definition rloaded :: re where
  "rloaded = alts [lit ''loaded'', lit ''complete'']"

definition k_send :: "string \<Rightarrow> sct \<Rightarrow> sct" where
  "k_send url t = t\<lparr>k_script := True, k_handlers := True, k_inDoc := True, k_log := k_log t @ [SInsert url]\<rparr>"

definition k_onload :: "bool \<Rightarrow> string \<Rightarrow> sct \<Rightarrow> sct" where
  "k_onload isAbort readyState t =
     (if isAbort \<or> readyState = [] \<or> re_test rloaded readyState
      then (let t1 = t\<lparr>k_handlers := False, k_script := False\<rparr>;
                t2 = (if k_inDoc t1 then t1\<lparr>k_inDoc := False, k_log := k_log t1 @ [SRemove]\<rparr> else t1)
            in if \<not> isAbort then t2\<lparr>k_log := k_log t2 @ [SComplete 200 ''success'']\<rparr> else t2)
      else t)"

datatype kstep = KEvent string | KAbort | KDetach

fun k_step :: "kstep \<Rightarrow> sct \<Rightarrow> sct" where
  "k_step (KEvent rs) t = (if k_handlers t then k_onload False rs t else t)"
| "k_step KAbort t = (if k_script t then k_onload True [] t else t)"
| "k_step KDetach t = t\<lparr>k_inDoc := False\<rparr>"

section \<open>JSONP\<close>

text \<open>Values of window properties: client functions and other values, and the callback of a request.\<close>

datatype wval = WFun nat | WOther nat | WJsonp nat

record 'v jreq =
  j_name :: string
  j_over :: "wval option"
  j_container :: "'v list option"
  j_own :: bool                   \<comment> \<open>the name was generated: \<open>s[ callbackName ]\<close>\<close>

record 'v jworld =
  win :: "string \<Rightarrow> wval option"
  oldCallbacks :: "string list"
  j_nonce :: int
  j_reqs :: "nat \<Rightarrow> 'v jreq"
  j_calls :: "(nat \<times> 'v) list"    \<comment> \<open>calls of overwritten client functions\<close>

definition rjsonp :: re where
  "rjsonp = Alt (seqs [Grp 1 (lit ''=''), lit ''?'', Ahead True (Alt (lit ''&'') (Eol False))]) (lit ''??'')"

text \<open>The default \<open>jsonpCallback\<close>: a freed name, or a new one.\<close>

definition jsonpCallback :: "string \<Rightarrow> 'v jworld \<Rightarrow> string \<times> 'v jworld" where
  "jsonpCallback expando w =
     (if oldCallbacks w \<noteq> [] \<and> last (oldCallbacks w) \<noteq> []
      then (last (oldCallbacks w), w\<lparr>oldCallbacks := butlast (oldCallbacks w)\<rparr>)
      else (expando @ ''_'' @ int_str (j_nonce w),
            w\<lparr>oldCallbacks := butlast (oldCallbacks w), j_nonce := j_nonce w + 1\<rparr>))"

text \<open>Where the callback name goes: \<open>pname\<close> is \<open>s.jsonp\<close>, \<open>None\<close> for \<open>false\<close>.\<close>

datatype jprop = JNo | JUrl | JData

definition json_prop :: "string option \<Rightarrow> string \<Rightarrow> string option \<Rightarrow> string \<Rightarrow> jprop" where
  "json_prop pname url data contentType =
     (if pname = None then JNo
      else if re_test rjsonp url then JUrl
      else (case data of
              Some d \<Rightarrow> if take 33 contentType = ''application/x-www-form-urlencoded'' \<and> re_test rjsonp d then JData else JNo
            | None \<Rightarrow> JNo))"

definition insert_name :: "string \<Rightarrow> string \<Rightarrow> string" where
  "insert_name name t = re_replace rjsonp (\<lambda>g. (case g 1 of Some s \<Rightarrow> s | None \<Rightarrow> []) @ name) t"

definition jsonp_url :: "jprop \<Rightarrow> string option \<Rightarrow> string \<Rightarrow> string \<Rightarrow> string" where
  "jsonp_url p pname name url =
     (case p of JUrl \<Rightarrow> insert_name name url
      | JData \<Rightarrow> url
      | JNo \<Rightarrow> (case pname of Some q \<Rightarrow> add_query url (q @ ''='' @ name) | None \<Rightarrow> url))"

text \<open>Installing the callback of request \<open>k\<close>; \<open>custom\<close> is a name given by the caller.\<close>

definition jsonp_install :: "string \<Rightarrow> nat \<Rightarrow> string option \<Rightarrow> 'v jworld \<Rightarrow> 'v jworld" where
  "jsonp_install expando k custom w =
     (let (name, w1) = (case custom of Some c \<Rightarrow> (c, w) | None \<Rightarrow> jsonpCallback expando w) in
      w1\<lparr>j_reqs := (j_reqs w1)(k := \<lparr>j_name = name, j_over = win w1 name, j_container = None, j_own = (custom = None)\<rparr>),
         win := (win w1)(name := Some (WJsonp k))\<rparr>)"

text \<open>The server's script calls the function under a name; client functions do not matter here.\<close>

definition jsonp_call :: "string \<Rightarrow> 'v list \<Rightarrow> 'v jworld \<Rightarrow> 'v jworld" where
  "jsonp_call name args w =
     (case win w name of
        Some (WJsonp k) \<Rightarrow> w\<lparr>j_reqs := (j_reqs w)(k := (j_reqs w k)\<lparr>j_container := Some args\<rparr>)\<rparr>
      | _ \<Rightarrow> w)"

text \<open>The converter from script to JSON, and the clean-up.\<close>

definition jsonp_result :: "nat \<Rightarrow> 'v jworld \<Rightarrow> string + 'v option" where
  "jsonp_result k w =
     (case j_container (j_reqs w k) of
        None \<Rightarrow> Inl (j_name (j_reqs w k) @ '' was not called'')
      | Some [] \<Rightarrow> Inr None
      | Some (v # vs) \<Rightarrow> Inr (Some v))"

definition jsonp_cleanup :: "nat \<Rightarrow> 'v jworld \<Rightarrow> 'v jworld" where
  "jsonp_cleanup k w =
     (let r = j_reqs w k;
          w1 = w\<lparr>win := (win w)(j_name r := j_over r)\<rparr>;
          w2 = (if j_own r then w1\<lparr>oldCallbacks := oldCallbacks w1 @ [j_name r]\<rparr> else w1);
          w3 = (case (j_container r, j_over r) of
                  (Some (v # vs), Some (WFun f)) \<Rightarrow> w2\<lparr>j_calls := j_calls w2 @ [(f, v)]\<rparr>
                | _ \<Rightarrow> w2)
      in w3\<lparr>j_reqs := (j_reqs w3)(k := r\<lparr>j_container := None, j_over := None\<rparr>)\<rparr>)"


section \<open>One end per request\<close>

definition ends :: "xeffect \<Rightarrow> bool" where
  "ends e = (case e of XAbort \<Rightarrow> True | XComplete st t rs hs \<Rightarrow> True | _ \<Rightarrow> False)"

definition ended :: "xhrt \<Rightarrow> nat" where
  "ended t = length (filter ends (x_log t))"

definition readable :: "xsnap \<Rightarrow> bool" where
  "readable n = (n_readyState n \<noteq> None \<and> n_status n \<noteq> None \<and> n_headers n \<noteq> None \<and> n_text n \<noteq> TThrows)"

definition snap_of :: "xstep \<Rightarrow> xsnap" where
  "snap_of c = (case c of SReady n \<Rightarrow> n | SLater n \<Rightarrow> n | SAbort n \<Rightarrow> n | SUnload n \<Rightarrow> n)"

definition x_ok :: "xhrt \<Rightarrow> bool" where
  "x_ok t \<longleftrightarrow> ended t \<le> 1 \<and> (x_callback t \<longrightarrow> ended t = 0)"

lemma ended_do: "ended (x_do e t) = ended t + (if ends e then 1 else 0)"
  by (simp add: ended_def x_do_def)

lemma x_do_frame [simp]: "x_callback (x_do e t) = x_callback t" "x_listening (x_do e t) = x_listening t"
  "x_handle (x_do e t) = x_handle t" "x_later (x_do e t) = x_later t"
  by (simp_all add: x_do_def)

lemma ended_update [simp]: "ended (t\<lparr>x_callback := b\<rparr>) = ended t" "ended (t\<lparr>x_listening := b\<rparr>) = ended t"
  "ended (t\<lparr>x_unload := u\<rparr>) = ended t" "ended (t\<lparr>x_later := b\<rparr>) = ended t" "ended (t\<lparr>x_nextId := h\<rparr>) = ended t"
  "ended (t\<lparr>x_handle := k\<rparr>) = ended t"
  by (simp_all add: ended_def)

lemma listener_ok: "readable n \<Longrightarrow> x_ok t \<Longrightarrow> x_ok (x_listener old l c a n t)"
  by (auto simp: x_listener_def x_ok_def readable_def ended_do ends_def Let_def split: option.split xtext.split)

lemma step_ok: "readable (snap_of c) \<Longrightarrow> x_ok t \<Longrightarrow> x_ok (x_step old s c t)"
  by (cases c) (auto simp: snap_of_def intro!: listener_ok split: option.split, auto simp: x_ok_def)

lemma steps_ok: "\<forall>c \<in> set cs. readable (snap_of c) \<Longrightarrow> x_ok t \<Longrightarrow> x_ok (fold (x_step old s) cs t)"
  by (induction cs arbitrary: t) (auto intro: step_ok)

lemma fold_do: "(\<And>k v. \<not> ends (g k v)) \<Longrightarrow> ended (fold (\<lambda>(k, v). x_do (g k v)) ps t) = ended t"
  by (induction ps arbitrary: t) (auto simp: ended_do)

definition new_xhrt :: "nat \<Rightarrow> xhrt" where
  "new_xhrt i = \<lparr>x_callback = False, x_handle = None, x_listening = False, x_later = False, x_nextId = i,
     x_unload = [], x_log = []\<rparr>"

lemma send_ok: "readable n \<Longrightarrow> x_ok (x_send old s m a hs n (new_xhrt i))"
proof -
  assume n: "readable n"
  define t5 where "t5 = (x_do (XSend (case y_data s of Some d \<Rightarrow> if d \<noteq> [] then Some d else None | None \<Rightarrow> None))
     (fold (\<lambda>(k, v). x_do (XHeader k v)) (take a (x_headers s hs))
       (if y_mime s \<noteq> [] \<and> m then x_do (XMime (y_mime s))
          (fold (\<lambda>(k, v). x_do (XField k v)) (y_fields s) (x_do (XOpen (y_type s) (y_url s) (y_async s) (y_user s)) (new_xhrt i)))
        else fold (\<lambda>(k, v). x_do (XField k v)) (y_fields s) (x_do (XOpen (y_type s) (y_url s) (y_async s) (y_user s)) (new_xhrt i)))))\<lparr>x_callback := True\<rparr>"
  have e: "ended t5 = 0"
    by (simp add: t5_def ended_do ends_def fold_do) (simp add: ended_def new_xhrt_def)
  then have t5: "x_ok t5" by (simp add: x_ok_def)
  have "x_send old s m a hs n (new_xhrt i) =
     (if \<not> y_async s then x_listener old (y_isLocal s) (y_crossDomain s) False n t5
         else if n_readyState n = Some 4 then t5\<lparr>x_later := True\<rparr>
         else (let h = Suc (x_nextId t5) in
               t5\<lparr>x_nextId := h, x_handle := Some h, x_listening := True,
                  x_unload := (if old then x_unload t5 @ [h] else x_unload t5)\<rparr>))"
    by (simp only: x_send_def Let_def t5_def)
  then show ?thesis using listener_ok [OF n t5] e by (auto simp: x_ok_def Let_def)
qed

text \<open>
  C15: a request sent by the XMLHttpRequest transport ends at most once, by completing or by
  being aborted, whatever sequence of state changes, timers, aborts and unloading follows,
  as long as the browser lets the state, the status, the headers and the text be read.
\<close>

theorem xhr_ends_once:
  assumes "readable n" and "\<forall>c \<in> set cs. readable (snap_of c)"
  shows "ended (fold (x_step old s) cs (x_send old s m a hs n (new_xhrt i))) \<le> 1"
  using steps_ok [OF assms(2) send_ok [OF assms(1)]] by (simp add: x_ok_def)

definition loading :: xsnap where
  "loading = \<lparr>n_readyState = Some 1, n_status = Some 0, n_headers = Some [], n_text = TOther, n_statusText = None\<rparr>"

definition loaded :: xsnap where
  "loaded = \<lparr>n_readyState = Some 4, n_status = Some 200, n_headers = Some [], n_text = TText ''hi'', n_statusText = Some ''OK''\<rparr>"

definition plain_request :: xsettings where
  "plain_request = \<lparr>y_type = ''GET'', y_url = ''/q'', y_async = True, y_user = None, y_fields = [], y_mime = [],
     y_crossDomain = False, y_isLocal = False, y_data = None\<rparr>"

lemma xhr_ends_once_witness:
  "ended (fold (x_step True plain_request) [SReady loading, SReady loaded, SAbort loaded, SReady loaded]
     (x_send True plain_request False 9 [] loading (new_xhrt 0))) \<le> 1"
  by (rule xhr_ends_once) (simp_all add: readable_def loading_def loaded_def snap_of_def)

text \<open>
  The condition is needed: when reading the status, the headers or the text of a finished
  request throws, the listener completes twice, with the exception and with an empty set of
  responses.
\<close>

theorem unreadable_completes_twice:
  assumes "x_callback t" and "n_readyState n = Some 4" and "n_status n = None \<or> n_headers n = None \<or> n_text n = TThrows"
  shows "\<exists>t' st hd. x_listener old l c False n t = t' \<and> \<not> x_callback t' \<and>
    x_log t' = x_log t @ [XComplete (Some (- 1)) ''exception'' None [], XComplete st [] (Some []) hd]"
  using assms by (auto simp: x_listener_def x_twice_def Let_def x_do_def split: option.split xtext.split)

lemma unreadable_completes_twice_witness:
  "\<exists>t' st hd. x_listener True False False False (loaded\<lparr>n_status := None\<rparr>) ((new_xhrt 0)\<lparr>x_callback := True\<rparr>) = t' \<and>
    \<not> x_callback t' \<and> x_log t' = x_log ((new_xhrt 0)\<lparr>x_callback := True\<rparr>) @
      [XComplete (Some (- 1)) ''exception'' None [], XComplete st [] (Some []) hd]"
  by (rule unreadable_completes_twice) (simp_all add: loaded_def new_xhrt_def)

section \<open>One completion per script\<close>

definition k_completes :: "sct \<Rightarrow> nat" where
  "k_completes t = length (filter (\<lambda>e. case e of SComplete st m \<Rightarrow> True | _ \<Rightarrow> False) (k_log t))"

definition k_ok :: "sct \<Rightarrow> bool" where
  "k_ok t \<longleftrightarrow> (k_handlers t \<longrightarrow> k_script t) \<and> k_completes t \<le> 1 \<and> (k_script t \<longrightarrow> k_completes t = 0) \<and>
     (\<not> k_script t \<longrightarrow> \<not> k_inDoc t \<and> \<not> k_handlers t)"

lemma k_step_ok: "k_ok t \<Longrightarrow> k_ok (k_step c t)"
  by (cases c) (auto simp: k_ok_def k_onload_def Let_def k_completes_def)

lemma k_steps_ok: "k_ok t \<Longrightarrow> k_ok (fold k_step cs t)"
  by (induction cs arbitrary: t) (auto intro: k_step_ok)

lemma k_abort_silent: "k_completes (k_step KAbort t) = k_completes t" "k_ok t \<Longrightarrow> \<not> k_script (k_step KAbort t)"
  by (auto simp: k_completes_def k_onload_def Let_def)

lemma k_gone: "\<not> k_script t \<Longrightarrow> k_ok t \<Longrightarrow> \<not> k_script (k_step c t) \<and> k_completes (k_step c t) = k_completes t"
  by (cases c) (auto simp: k_ok_def k_completes_def)

lemma k_steps_gone: "\<not> k_script t \<Longrightarrow> k_ok t \<Longrightarrow> k_completes (fold k_step cs t) = k_completes t"
  by (induction cs arbitrary: t) (simp_all add: k_gone k_step_ok)

definition new_sct :: sct where
  "new_sct = \<lparr>k_script = False, k_handlers = False, k_inDoc = False, k_log = []\<rparr>"

lemma k_sent_ok: "k_ok (k_send url new_sct)"
  by (simp add: k_ok_def k_send_def k_completes_def new_sct_def)

text \<open>A request that has completed has let go of its script.\<close>

lemma k_completed: "k_ok t \<Longrightarrow> k_completes t \<noteq> 0 \<Longrightarrow> \<not> k_script t"
  by (auto simp: k_ok_def)

text \<open>
  C19: the script transport completes at most once; after an abort it does not complete any
  more; and after the abort or the completion its element is out of the document and its
  handlers are off, whatever the browser reports before and afterwards.
\<close>

theorem script_completes_once:
  "k_completes (fold k_step cs (k_send url new_sct)) \<le> 1 \<and>
   k_completes (fold k_step (cs @ KAbort # ds) (k_send url new_sct)) = k_completes (fold k_step cs (k_send url new_sct)) \<and>
   (k_completes (fold k_step cs (k_send url new_sct)) = 1 \<or> KAbort \<in> set cs \<longrightarrow>
     \<not> k_inDoc (fold k_step cs (k_send url new_sct)) \<and> \<not> k_handlers (fold k_step cs (k_send url new_sct)))"
proof -
  let ?t = "fold k_step cs (k_send url new_sct)"
  have ok: "k_ok ?t" by (rule k_steps_ok [OF k_sent_ok])
  have silent: "k_completes (fold k_step ds (k_step KAbort t)) = k_completes t" if "k_ok t" for t ds
    using k_steps_gone [OF k_abort_silent(2) [OF that] k_step_ok [OF that]] k_abort_silent(1) by metis
  have gone: "\<not> k_script (fold k_step cs t)" if "KAbort \<in> set cs \<or> \<not> k_script t" "k_ok t" for cs t
    using that
  proof (induction cs arbitrary: t)
    case (Cons c cs)
    have "KAbort \<in> set cs \<or> \<not> k_script (k_step c t)"
      using Cons.prems k_gone [of t c] k_abort_silent(2) [of t] by auto
    then show ?case using Cons.IH [of "k_step c t"] Cons.prems(2) k_step_ok by simp
  qed simp
  have "\<not> k_script ?t" if "k_completes ?t = 1" by (rule k_completed [OF ok]) (simp add: that)
  moreover have "\<not> k_script ?t" if "KAbort \<in> set cs" by (rule gone [OF disjI1 [OF that] k_sent_ok])
  ultimately have "\<not> k_inDoc ?t \<and> \<not> k_handlers ?t" if "k_completes ?t = 1 \<or> KAbort \<in> set cs"
    using that ok unfolding k_ok_def by blast
  moreover have "k_completes ?t \<le> 1" using ok by (simp only: k_ok_def)
  moreover have "k_completes (fold k_step (cs @ KAbort # ds) (k_send url new_sct)) = k_completes ?t"
    using silent [OF ok, of ds] by (simp only: fold_append fold.simps o_def id_def)
  ultimately show ?thesis by blast
qed

lemma script_completes_once_witness:
  "\<not> k_inDoc (fold k_step [KEvent ''loading'', KEvent ''complete''] (k_send ''/s.js'' new_sct))"
proof -
  have "k_completes (fold k_step [KEvent ''loading'', KEvent ''complete''] (k_send ''/s.js'' new_sct)) = 1" by code_simp
  then show ?thesis using script_completes_once [of "[KEvent ''loading'', KEvent ''complete'']" "''/s.js''" "[]"] by blast
qed

section \<open>JSONP callback names\<close>

text \<open>
  Requests with generated names: any interleaving of installing, running the script that
  answers a request, other calls of window functions, and cleaning up. \<open>F\<close> is the set of
  requests in flight, \<open>R\<close> of those whose script has run; the script of request \<open>k\<close> calls the
  function named in its URL with \<open>answer k\<close>.
\<close>

inductive jreach :: "string \<Rightarrow> (nat \<Rightarrow> 'v list) \<Rightarrow> 'v jworld \<Rightarrow> nat set \<Rightarrow> nat set \<Rightarrow> bool" for expando answer where
  start: "oldCallbacks w = [] \<Longrightarrow> 0 \<le> j_nonce w \<Longrightarrow> \<forall>m j. win w m \<noteq> Some (WJsonp j) \<Longrightarrow> jreach expando answer w {} {}"
| install: "jreach expando answer w F R \<Longrightarrow> k \<notin> F \<Longrightarrow> jreach expando answer (jsonp_install expando k None w) (insert k F) R"
| script: "jreach expando answer w F R \<Longrightarrow> k \<in> F \<Longrightarrow>
    jreach expando answer (jsonp_call (j_name (j_reqs w k)) (answer k) w) F (insert k R)"
| other: "jreach expando answer w F R \<Longrightarrow> \<forall>j \<in> F. j_name (j_reqs w j) \<noteq> name \<Longrightarrow> jreach expando answer (jsonp_call name args w) F R"
| cleanup: "jreach expando answer w F R \<Longrightarrow> k \<in> F \<Longrightarrow> jreach expando answer (jsonp_cleanup k w) (F - {k}) (R - {k})"

definition gen_name :: "string \<Rightarrow> int \<Rightarrow> string" where
  "gen_name expando n = expando @ ''_'' @ int_str n"

lemma gen_name_inject: "0 \<le> m \<Longrightarrow> 0 \<le> n \<Longrightarrow> gen_name e m = gen_name e n \<longleftrightarrow> m = n"
  by (auto simp: gen_name_def int_str_def)

definition issued :: "string \<Rightarrow> int \<Rightarrow> string set" where
  "issued e n = gen_name e ` {0..<n}"

definition jinv :: "string \<Rightarrow> 'v jworld \<Rightarrow> nat set \<Rightarrow> bool" where
  "jinv e w F \<longleftrightarrow> 0 \<le> j_nonce w \<and> distinct (oldCallbacks w) \<and> set (oldCallbacks w) \<subseteq> issued e (j_nonce w) \<and>
     inj_on (\<lambda>k. j_name (j_reqs w k)) F \<and>
     (\<forall>k \<in> F. j_name (j_reqs w k) \<in> issued e (j_nonce w) - set (oldCallbacks w) \<and> j_own (j_reqs w k) \<and>
        win w (j_name (j_reqs w k)) = Some (WJsonp k))"

text \<open>Only the names in flight lead to a request, and its arguments are those of its own script.\<close>

definition jown :: "(nat \<Rightarrow> 'v list) \<Rightarrow> 'v jworld \<Rightarrow> nat set \<Rightarrow> nat set \<Rightarrow> bool" where
  "jown answer w F R \<longleftrightarrow> R \<subseteq> F \<and>
     (\<forall>m j. win w m = Some (WJsonp j) \<longrightarrow> j \<in> F \<and> j_name (j_reqs w j) = m) \<and>
     (\<forall>k \<in> F. (\<forall>j. j_over (j_reqs w k) \<noteq> Some (WJsonp j)) \<and>
        j_container (j_reqs w k) = (if k \<in> R then Some (answer k) else None))"

lemma issued_next: "0 \<le> n \<Longrightarrow> issued e (n + 1) = insert (gen_name e n) (issued e n)" "0 \<le> n \<Longrightarrow> gen_name e n \<notin> issued e n"
proof -
  assume n: "0 \<le> n"
  then have "{0..<n + 1} = insert n {0..<n}" by auto
  then show "issued e (n + 1) = insert (gen_name e n) (issued e n)" by (simp add: issued_def)
  show "gen_name e n \<notin> issued e n" using n gen_name_inject by (fastforce simp: issued_def)
qed

lemma issued_not_Nil: "[] \<notin> issued e n"
  by (auto simp: issued_def gen_name_def)

lemma callback_name:
  assumes "jinv e w F" and "jsonpCallback e w = (name, w1)"
  shows "name \<in> issued e (j_nonce w1) - set (oldCallbacks w1)" "\<forall>k \<in> F. j_name (j_reqs w k) \<noteq> name"
    "0 \<le> j_nonce w1" "distinct (oldCallbacks w1)" "set (oldCallbacks w1) \<subseteq> issued e (j_nonce w1)"
    "set (oldCallbacks w1) \<subseteq> set (oldCallbacks w)" "issued e (j_nonce w) \<subseteq> issued e (j_nonce w1)"
    "j_reqs w1 = j_reqs w" "win w1 = win w"
proof -
  have "last (oldCallbacks w) \<noteq> []" if "oldCallbacks w \<noteq> []"
  proof
    assume "last (oldCallbacks w) = []"
    then have "[] \<in> issued e (j_nonce w)" using assms(1) last_in_set [OF that] by (auto simp: jinv_def)
    then show False using issued_not_Nil by blast
  qed
  then consider (reuse) xs where "oldCallbacks w = xs @ [name]" "w1 = w\<lparr>oldCallbacks := xs\<rparr>"
    | (fresh) "oldCallbacks w = []" "name = gen_name e (j_nonce w)" "w1 = w\<lparr>j_nonce := j_nonce w + 1\<rparr>"
    using assms(2) by (cases "oldCallbacks w" rule: rev_cases) (auto simp: jsonpCallback_def gen_name_def)
  then have "name \<in> issued e (j_nonce w1) - set (oldCallbacks w1) \<and> (\<forall>k \<in> F. j_name (j_reqs w k) \<noteq> name) \<and>
    0 \<le> j_nonce w1 \<and> distinct (oldCallbacks w1) \<and> set (oldCallbacks w1) \<subseteq> issued e (j_nonce w1) \<and>
    set (oldCallbacks w1) \<subseteq> set (oldCallbacks w) \<and> issued e (j_nonce w) \<subseteq> issued e (j_nonce w1) \<and>
    j_reqs w1 = j_reqs w \<and> win w1 = win w"
  proof cases
    case reuse
    then show ?thesis using assms(1) by (auto simp: jinv_def)
  next
    case fresh
    have n: "0 \<le> j_nonce w" using assms(1) by (simp add: jinv_def)
    show ?thesis
      using fresh assms(1) issued_next [OF n, of e] n by (auto simp: jinv_def)
  qed
  then show "name \<in> issued e (j_nonce w1) - set (oldCallbacks w1)" "\<forall>k \<in> F. j_name (j_reqs w k) \<noteq> name"
    "0 \<le> j_nonce w1" "distinct (oldCallbacks w1)" "set (oldCallbacks w1) \<subseteq> issued e (j_nonce w1)"
    "set (oldCallbacks w1) \<subseteq> set (oldCallbacks w)" "issued e (j_nonce w) \<subseteq> issued e (j_nonce w1)"
    "j_reqs w1 = j_reqs w" "win w1 = win w" by blast+
qed

lemma jinv_call: "jinv e w F \<Longrightarrow> jinv e (jsonp_call name args w) F"
proof -
  let ?w = "jsonp_call name args w"
  have "win ?w = win w" "oldCallbacks ?w = oldCallbacks w" "j_nonce ?w = j_nonce w"
    "j_name (j_reqs ?w j) = j_name (j_reqs w j)" "j_own (j_reqs ?w j) = j_own (j_reqs w j)" for j
    by (simp_all add: jsonp_call_def split: option.split wval.split)
  then show "jinv e w F \<Longrightarrow> ?thesis" by (simp add: jinv_def)
qed

lemma jinv_reach: "jreach e answer w F R \<Longrightarrow> jinv e w F"
proof (induction rule: jreach.induct)
  case (start w)
  then show ?case by (simp add: jinv_def)
next
  case (install w F R k)
  obtain name w1 where n: "jsonpCallback e w = (name, w1)" by fastforce
  note facts = callback_name [OF install.IH n]
  have nm: "j_name (j_reqs (jsonp_install e k None w) j) = (if j = k then name else j_name (j_reqs w j))" for j
    by (simp add: jsonp_install_def n facts(8))
  have inj: "inj_on (\<lambda>j. j_name (j_reqs (jsonp_install e k None w) j)) (insert k F)"
    using install facts(2) by (auto simp: nm jinv_def inj_on_def)
  have old: "j_name (j_reqs w j) \<in> issued e (j_nonce w1) - set (oldCallbacks w1)" if "j \<in> F" for j
    using that install.IH facts(6,7) by (auto simp: jinv_def)
  show ?case
  proof -
    have w: "j_nonce (jsonp_install e k None w) = j_nonce w1" "oldCallbacks (jsonp_install e k None w) = oldCallbacks w1"
      "win (jsonp_install e k None w) = (win w)(name := Some (WJsonp k))"
      "j_own (j_reqs (jsonp_install e k None w) j) = (j = k \<or> j_own (j_reqs w j))" for j
      by (simp_all add: jsonp_install_def n facts(8,9))
    have "j_own (j_reqs w j) \<and> win w (j_name (j_reqs w j)) = Some (WJsonp j)" if "j \<in> F" for j
      using that install.IH by (simp add: jinv_def)
    then show ?thesis
      unfolding jinv_def using inj facts(1-5) old install.hyps by (auto simp: w nm)
  qed
next
  case (script w F R k)
  from script.IH show ?case by (rule jinv_call)
next
  case (other w F R name args)
  from other.IH show ?case by (rule jinv_call)
next
  case (cleanup w F R k)
  let ?r = "j_reqs w k" and ?w = "jsonp_cleanup k w"
  have frame: "win ?w = (win w)(j_name ?r := j_over ?r)" "j_nonce ?w = j_nonce w"
    "j_reqs ?w = (j_reqs w)(k := ?r\<lparr>j_container := None, j_over := None\<rparr>)"
    "oldCallbacks ?w = (if j_own ?r then oldCallbacks w @ [j_name ?r] else oldCallbacks w)"
    by (simp_all add: jsonp_cleanup_def Let_def split: option.split wval.split list.split)
  have neq: "j_name (j_reqs w j) \<noteq> j_name ?r" if "j \<in> F - {k}" for j
  proof
    assume e: "j_name (j_reqs w j) = j_name ?r"
    have "inj_on (\<lambda>k. j_name (j_reqs w k)) F" using cleanup.IH by (simp add: jinv_def)
    from inj_onD [OF this e] that cleanup.hyps show False by simp
  qed
  have inj: "inj_on (\<lambda>j. j_name (j_reqs ?w j)) (F - {k})"
  proof -
    have "inj_on (\<lambda>k. j_name (j_reqs w k)) (F - {k})"
      using cleanup.IH by (auto simp: jinv_def intro: inj_on_subset)
    then show ?thesis by (simp add: frame inj_on_def)
  qed
  have own: "j_own ?r" and kn: "j_name ?r \<in> issued e (j_nonce w) - set (oldCallbacks w)"
    using cleanup by (auto simp: jinv_def)
  have old: "distinct (oldCallbacks ?w)" "set (oldCallbacks ?w) \<subseteq> issued e (j_nonce ?w)"
    using cleanup.IH own kn by (auto simp: frame jinv_def)
  have each: "j_name (j_reqs ?w j) \<in> issued e (j_nonce ?w) - set (oldCallbacks ?w) \<and> j_own (j_reqs ?w j) \<and>
      win ?w (j_name (j_reqs ?w j)) = Some (WJsonp j)" if j: "j \<in> F - {k}" for j
    using cleanup.IH neq [OF j] j own by (simp add: frame jinv_def)
  show ?case
    unfolding jinv_def using inj old each cleanup.IH by (simp add: frame(2) jinv_def)
qed

lemma jown_reach: "jreach e answer w F R \<Longrightarrow> jown answer w F R"
proof (induction rule: jreach.induct)
  case (start w)
  then show ?case by (simp add: jown_def)
next
  case (install w F R k)
  obtain name w1 where n: "jsonpCallback e w = (name, w1)" by (rule prod.exhaust)
  note facts = callback_name [OF jinv_reach [OF install.hyps(1)] n]
  have "\<forall>j. win w name \<noteq> Some (WJsonp j)" using install.IH facts(2) by (auto simp: jown_def)
  then show ?case
    using install.IH install.hyps(2) facts(2) by (auto simp: jown_def jsonp_install_def n facts(8,9))
next
  case (script w F R k)
  have "win w (j_name (j_reqs w k)) = Some (WJsonp k)" using jinv_reach [OF script.hyps(1)] script.hyps(2) by (simp add: jinv_def)
  then have c: "jsonp_call (j_name (j_reqs w k)) (answer k) w =
      w\<lparr>j_reqs := (j_reqs w)(k := (j_reqs w k)\<lparr>j_container := Some (answer k)\<rparr>)\<rparr>" by (simp add: jsonp_call_def)
  show ?case unfolding c using script.IH script.hyps(2) by (auto simp: jown_def)
next
  case (other w F R name args)
  have "\<forall>j. win w name \<noteq> Some (WJsonp j)" using other.IH other.hyps(2) by (auto simp: jown_def)
  then have "jsonp_call name args w = w" by (simp add: jsonp_call_def split: option.split wval.split)
  then show ?case using other.IH by simp
next
  case (cleanup w F R k)
  let ?r = "j_reqs w k"
  have frame: "win (jsonp_cleanup k w) = (win w)(j_name ?r := j_over ?r)"
    "j_reqs (jsonp_cleanup k w) = (j_reqs w)(k := ?r\<lparr>j_container := None, j_over := None\<rparr>)"
    by (simp_all add: jsonp_cleanup_def Let_def split: option.split wval.split list.split)
  have "j \<noteq> k" if "win w m = Some (WJsonp j)" "m \<noteq> j_name ?r" for m j
    using that cleanup.IH by (auto simp: jown_def)
  then show ?case using cleanup.IH cleanup.hyps(2) by (auto simp: jown_def frame)
qed

text \<open>
  C16: in any interleaving of JSONP requests with generated callback names, in which the
  script of a request runs while the request is in flight, every request in flight has the
  first argument of its own script, or "was not called" when that has not run; never that
  of another one. The names in flight are different.
\<close>

theorem jsonp_delivers_own_response:
  assumes "jreach expando answer w F R" and "k \<in> F"
  shows "jsonp_result k w = (if k \<notin> R then Inl (j_name (j_reqs w k) @ '' was not called'')
      else Inr (case answer k of [] \<Rightarrow> None | v # vs \<Rightarrow> Some v)) \<and>
    (\<forall>j \<in> F - {k}. j_name (j_reqs w j) \<noteq> j_name (j_reqs w k))"
proof -
  have "j_container (j_reqs w k) = (if k \<in> R then Some (answer k) else None)"
    using jown_reach [OF assms(1)] assms(2) by (simp add: jown_def)
  moreover have "\<forall>j \<in> F - {k}. j_name (j_reqs w j) \<noteq> j_name (j_reqs w k)"
    using jinv_reach [OF assms(1)] assms(2) by (auto simp: jinv_def inj_on_def)
  ultimately show ?thesis by (auto simp: jsonp_result_def split: list.split)
qed

definition j_start :: "nat jworld" where
  "j_start = \<lparr>win = (\<lambda>_. None), oldCallbacks = [], j_nonce = 7, j_reqs = (\<lambda>_. \<lparr>j_name = [], j_over = None,
     j_container = None, j_own = True\<rparr>), j_calls = []\<rparr>"

lemma jsonp_delivers_own_response_witness:
  "jsonp_result 1 (jsonp_call ''jQ_8'' [5] (jsonp_install ''jQ'' 1 None (jsonp_install ''jQ'' 0 None j_start))) = Inr (Some 5)"
proof -
  let ?w = "jsonp_install ''jQ'' 1 None (jsonp_install ''jQ'' 0 None j_start)"
  have n: "j_name (j_reqs ?w 1) = ''jQ_8''" by code_simp
  have "jreach ''jQ'' (\<lambda>_. [5]) ?w (insert 1 (insert 0 {})) {}"
    by (intro jreach.install jreach.start) (simp_all add: j_start_def)
  then have "jreach ''jQ'' (\<lambda>_. [5]) (jsonp_call (j_name (j_reqs ?w 1)) [5] ?w) (insert 1 (insert 0 {})) (insert 1 {})"
    by (rule jreach.script) simp
  from jsonp_delivers_own_response [OF this, of 1] show ?thesis unfolding n by simp
qed

text \<open>
  The condition is needed: the name of an aborted request is free and goes to the next
  one; when the script of the first still arrives, it answers the second.
\<close>

theorem late_script_mixup:
  fixes w :: "'v jworld" and e :: string
  defines "w1 \<equiv> jsonp_install e 0 None w"
  defines "w2 \<equiv> jsonp_install e 1 None (jsonp_cleanup 0 w1)"
  shows "jsonp_result 1 (jsonp_call (j_name (j_reqs w1 0)) (a # as) w2) = Inr (Some a)"
proof -
  obtain name w0 where n: "jsonpCallback e w = (name, w0)" by (rule prod.exhaust)
  have ne: "name \<noteq> []" using n by (auto simp: jsonpCallback_def split: if_splits)
  have w1: "j_reqs w1 0 = \<lparr>j_name = name, j_over = win w0 name, j_container = None, j_own = True\<rparr>"
    by (simp add: w1_def jsonp_install_def n)
  then have old: "oldCallbacks (jsonp_cleanup 0 w1) = oldCallbacks w1 @ [name]"
    by (simp add: jsonp_cleanup_def Let_def)
  then have "fst (jsonpCallback e (jsonp_cleanup 0 w1)) = name" using ne by (simp add: jsonpCallback_def)
  then have "win w2 name = Some (WJsonp 1)" by (simp add: w2_def jsonp_install_def split_beta)
  then show ?thesis by (simp add: w1 jsonp_call_def jsonp_result_def)
qed

text \<open>
  Two overlapping requests with the same callback name given by the caller get mixed
  up: the script of the first delivers its data to the second, and the first is "not called".
\<close>

theorem jsonp_custom_name_mixup:
  assumes "w2 = jsonp_call name (a # as) (jsonp_install e 1 (Some name) (jsonp_install e 0 (Some name) w))"
  shows "jsonp_result 0 w2 = Inl (name @ '' was not called'') \<and> jsonp_result 1 w2 = Inr (Some a)"
  unfolding assms by (simp add: jsonp_install_def jsonp_call_def jsonp_result_def Let_def)

lemma jsonp_custom_name_mixup_witness:
  "jsonp_result 0 (jsonp_call ''f'' [5] (jsonp_install ''jQ'' 1 (Some ''f'') (jsonp_install ''jQ'' 0 (Some ''f'') j_start))) =
     Inl ''f was not called''"
  using jsonp_custom_name_mixup [OF refl, of "''f''" 5 "[]" "''jQ''" j_start] by simp

end
