(* ===== verification/JqData.thy ===== *)
theory JqData
  imports JsRegExp
begin

text \<open>
  The data store of \<open>democlient/js/jquery.js\<close>: \<open>internalData\<close>, \<open>internalRemoveData\<close> and the
  functions built on them (\<open>data\<close>, \<open>_data\<close>, \<open>removeData\<close>, \<open>_removeData\<close>, \<open>hasData\<close>), with
  \<open>camelCase\<close> and \<open>acceptData\<close>. A node gets an id of its own, from the ids freed before or
  from a counter, under which a global cache keeps its entry; any other object carries its
  entry itself. The lemmas show that the store is a map from elements and names to values.
\<close>

section \<open>camelCase\<close>

definition rmsPrefix :: re where
  "rmsPrefix = Seq (Bol False) (lit ''-ms-'')"

definition dash_char :: "char \<Rightarrow> bool" where
  "dash_char c = (is_digit c \<or> (let n = of_char (lower_char c) :: nat in 97 \<le> n \<and> n \<le> 122))"

definition rdashAlpha :: re where
  "rdashAlpha = Seq (Ch (\<lambda>c. c = CHR ''-'')) (Grp 1 (Ch dash_char))"

definition fcamelCase :: "(nat \<Rightarrow> string option) \<Rightarrow> string" where
  "fcamelCase g = upper (case g 1 of Some s \<Rightarrow> s | None \<Rightarrow> [])"

definition camelCase :: "string \<Rightarrow> string" where
  "camelCase s = re_replace_all rdashAlpha fcamelCase (re_replace rmsPrefix (\<lambda>_. ''ms-'') s)"

text \<open>A name without dashes is its own camel case.\<close>

lemma camelCase_plain: "CHR ''-'' \<notin> set s \<Longrightarrow> camelCase s = s"
proof -
  assume s: "CHR ''-'' \<notin> set s"
  have a: "match_at rmsPrefix s i = None" for i
  proof -
    have "set (sub s i j) \<subseteq> set s" for i j by (auto simp: sub_def dest: in_set_takeD in_set_dropD)
    then have "sub s 0 4 \<noteq> ''-ms-''" using s by (metis list.set_intros(1) subsetD)
    then show ?thesis by (simp add: match_at_def rmsPrefix_def matches_lit numeral_eq_Suc)
  qed
  have b: "match_at rdashAlpha s i = None" for i
  proof -
    have "\<not> (i < length s \<and> s ! i = CHR ''-'')" using s nth_mem [of i s] by metis
    then show ?thesis by (auto simp: match_at_def rdashAlpha_def)
  qed
  show ?thesis unfolding camelCase_def replace_none [OF a] by (rule replace_all_none [OF b])
qed

section \<open>Elements and entries\<close>

text \<open>
  What the store reads of an element: a \<open>nodeType\<close> of 0 stands for a missing one. An entry
  is the object kept for an element: its internal properties, and the object \<open>data\<close> with the
  user's. The \<open>toJSON\<close> of entries on plain objects is a flag, as every loop skips it. In the
  source \<open>data\<close> and \<open>toJSON\<close> are properties of the same object as the internal ones, so an
  internal operation that names one of the two would reach them: the definitions below are
  for the other names (\<open>proper_op\<close>), and the properties say so.
\<close>

record einfo =
  nodeType :: int
  nodeName :: string
  classid :: "string option"

record 'v entry =
  e_priv :: "(string \<times> 'v) list"
  e_data :: "(string \<times> 'v) list option"
  e_toJSON :: bool

record 'v dstore =
  expando :: "nat \<Rightarrow> nat option"          \<comment> \<open>\<open>elem[ jQuery.expando ]\<close> of a node\<close>
  dcache :: "nat \<Rightarrow> 'v entry option"       \<comment> \<open>\<open>jQuery.cache\<close>\<close>
  attached :: "nat \<Rightarrow> 'v entry option"     \<comment> \<open>\<open>elem[ jQuery.expando ]\<close> of another object\<close>
  deletedIds :: "nat list"
  guid :: nat

definition isNode :: "(nat \<Rightarrow> einfo) \<Rightarrow> nat \<Rightarrow> bool" where
  "isNode E el = (nodeType (E el) \<noteq> 0)"

definition noData :: "(string \<times> string option) list" where
  "noData = [(''applet'', None), (''embed'', None), (''object'', Some ''clsid:D27CDB6E-AE6D-11cf-96B8-444553540000'')]"

definition acceptData :: "einfo \<Rightarrow> bool" where
  "acceptData e =
     (if nodeType e \<noteq> 0 \<and> nodeType e \<noteq> 1 \<and> nodeType e \<noteq> 9 then False
      else (case (if nodeName e \<noteq> [] then map_of noData (lower (nodeName e)) else None) of
              None \<Rightarrow> True
            | Some None \<Rightarrow> False
            | Some (Some c) \<Rightarrow> classid e = Some c))"

text \<open>\<open>cache[ id ]\<close> of an element, and assigning to it once the element has an id.\<close>

definition entry :: "(nat \<Rightarrow> einfo) \<Rightarrow> nat \<Rightarrow> ('v, 'z) dstore_scheme \<Rightarrow> 'v entry option" where
  "entry E el w =
     (if isNode E el then (case expando w el of None \<Rightarrow> None | Some i \<Rightarrow> dcache w i) else attached w el)"

definition put_entry :: "(nat \<Rightarrow> einfo) \<Rightarrow> nat \<Rightarrow> 'v entry \<Rightarrow> ('v, 'z) dstore_scheme \<Rightarrow> ('v, 'z) dstore_scheme" where
  "put_entry E el e w =
     (if isNode E el
      then (case expando w el of None \<Rightarrow> w | Some i \<Rightarrow> w\<lparr>dcache := (dcache w)(i \<mapsto> e)\<rparr>)
      else w\<lparr>attached := (attached w)(el \<mapsto> e)\<rparr>)"

definition upd_entry :: "(nat \<Rightarrow> einfo) \<Rightarrow> nat \<Rightarrow> ('v entry \<Rightarrow> 'v entry) \<Rightarrow> ('v, 'z) dstore_scheme \<Rightarrow> ('v, 'z) dstore_scheme" where
  "upd_entry E el f w = (case entry E el w of None \<Rightarrow> w | Some e \<Rightarrow> put_entry E el (f e) w)"

section \<open>internalData\<close>

datatype 'v dname = NoName | Name string | Props "(string \<times> 'v option) list"

datatype 'v dret = DUndef | DVal 'v | DAll "(string \<times> 'v) list" | DTypeError

text \<open>A new id: a deleted one, or the next number of the counter.\<close>

definition give_id :: "(nat \<Rightarrow> einfo) \<Rightarrow> nat \<Rightarrow> ('v, 'z) dstore_scheme \<Rightarrow> ('v, 'z) dstore_scheme" where
  "give_id E el w =
     (if isNode E el \<and> expando w el = None
      then (if deletedIds w \<noteq> []
            then w\<lparr>expando := (expando w)(el \<mapsto> last (deletedIds w)), deletedIds := butlast (deletedIds w)\<rparr>
            else w\<lparr>expando := (expando w)(el \<mapsto> guid w), guid := Suc (guid w)\<rparr>)
      else w)"

definition make_entry :: "(nat \<Rightarrow> einfo) \<Rightarrow> nat \<Rightarrow> ('v, 'z) dstore_scheme \<Rightarrow> ('v, 'z) dstore_scheme" where
  "make_entry E el w =
     (if entry E el w = None
      then put_entry E el \<lparr>e_priv = [], e_data = None, e_toJSON = \<not> isNode E el\<rparr> w else w)"

text \<open>\<open>jQuery.extend\<close> with one source object; undefined values are not copied.\<close>

definition copy_props :: "(string \<times> 'v option) list \<Rightarrow> (string \<times> 'v) list \<Rightarrow> (string \<times> 'v) list" where
  "copy_props ps t = foldl (\<lambda>t (k, v). case v of None \<Rightarrow> t | Some x \<Rightarrow> put_prop k x t) t ps"

definition props_of :: "bool \<Rightarrow> 'v entry \<Rightarrow> (string \<times> 'v) list" where
  "props_of pvt e = (if pvt then e_priv e else (case e_data e of None \<Rightarrow> [] | Some d \<Rightarrow> d))"

definition set_props :: "bool \<Rightarrow> (string \<times> 'v) list \<Rightarrow> 'v entry \<Rightarrow> 'v entry" where
  "set_props pvt ps e = (if pvt then e\<lparr>e_priv := ps\<rparr> else e\<lparr>e_data := Some ps\<rparr>)"

definition no_cache :: "bool \<Rightarrow> 'v entry option \<Rightarrow> bool" where
  "no_cache pvt e = (case e of None \<Rightarrow> True | Some x \<Rightarrow> \<not> pvt \<and> e_data x = None)"

text \<open>
  \<open>inh\<close> is what the names inherited from \<open>Object.prototype\<close> read as, \<open>isnull\<close> tells the null
  value. A read as is comes first, then one under the name in camel case.
\<close>

definition read_prop :: "(string \<Rightarrow> 'v option) \<Rightarrow> (string \<times> 'v) list \<Rightarrow> string \<Rightarrow> 'v option" where
  "read_prop inh ps k = (case map_of ps k of Some v \<Rightarrow> Some v | None \<Rightarrow> inh k)"

definition read_name :: "(string \<Rightarrow> 'v option) \<Rightarrow> ('v \<Rightarrow> bool) \<Rightarrow> (string \<times> 'v) list \<Rightarrow> string \<Rightarrow> 'v option" where
  "read_name inh isnull ps k =
     (case read_prop inh ps k of
        Some v \<Rightarrow> if isnull v then read_prop inh ps (camelCase k) else Some v
      | None \<Rightarrow> read_prop inh ps (camelCase k))"

text \<open>The entry of an element, created where it is missing.\<close>

definition prepare :: "(nat \<Rightarrow> einfo) \<Rightarrow> nat \<Rightarrow> 'v dname \<Rightarrow> bool \<Rightarrow> ('v, 'z) dstore_scheme \<Rightarrow> ('v, 'z) dstore_scheme" where
  "prepare E el name pvt w =
     (let w1 = make_entry E el (give_id E el w);
          w2 = (case name of Props ps \<Rightarrow> upd_entry E el (\<lambda>e. set_props pvt (copy_props ps (props_of pvt e)) e) w1 | _ \<Rightarrow> w1)
      in upd_entry E el (\<lambda>e. set_props pvt (props_of pvt e) e) w2)"

definition internalData :: "(nat \<Rightarrow> einfo) \<Rightarrow> (string \<Rightarrow> 'v option) \<Rightarrow> ('v \<Rightarrow> bool) \<Rightarrow> nat \<Rightarrow> 'v dname
    \<Rightarrow> 'v option \<Rightarrow> bool \<Rightarrow> ('v, 'z) dstore_scheme \<Rightarrow> 'v dret \<times> ('v, 'z) dstore_scheme" where
  "internalData E inh isnull el name val pvt w =
     (if \<not> acceptData (E el) then (DUndef, w)
      else if no_cache pvt (entry E el w) \<and> val = None \<and> (case name of Name k \<Rightarrow> True | _ \<Rightarrow> False) then (DUndef, w)
      else (let w1 = prepare E el name pvt w in
            case (val, name) of
              (Some v, Name k) \<Rightarrow>
                (let w2 = upd_entry E el (\<lambda>e. set_props pvt (put_prop (camelCase k) v (props_of pvt e)) e) w1 in
                 (case entry E el w2 of None \<Rightarrow> DUndef
                  | Some e \<Rightarrow> (case read_name inh isnull (props_of pvt e) k of Some x \<Rightarrow> DVal x | None \<Rightarrow> DUndef), w2))
            | (Some v, _) \<Rightarrow> (DTypeError, w1)
            | (None, Name k) \<Rightarrow>
                (case entry E el w1 of None \<Rightarrow> DUndef
                 | Some e \<Rightarrow> (case read_name inh isnull (props_of pvt e) k of Some x \<Rightarrow> DVal x | None \<Rightarrow> DUndef), w1)
            | (None, _) \<Rightarrow>
                (case entry E el w1 of None \<Rightarrow> DUndef | Some e \<Rightarrow> DAll (props_of pvt e), w1)))"

section \<open>internalRemoveData\<close>

datatype rname = RNone | RName string | RNames "string list"

definition isEmptyDataObject :: "'v entry \<Rightarrow> bool" where
  "isEmptyDataObject e = (e_priv e = [] \<and> (case e_data e of None \<Rightarrow> True | Some d \<Rightarrow> d = []))"

definition in_props :: "(string \<Rightarrow> 'v option) \<Rightarrow> string \<Rightarrow> (string \<times> 'v) list \<Rightarrow> bool" where
  "in_props inh k ps = (read_prop inh ps k \<noteq> None)"

definition remove_names :: "(string \<Rightarrow> 'v option) \<Rightarrow> rname \<Rightarrow> (string \<times> 'v) list \<Rightarrow> string list" where
  "remove_names inh name ps =
     (case name of
        RNone \<Rightarrow> []
      | RName k \<Rightarrow> if in_props inh k ps then [k]
                   else if in_props inh (camelCase k) ps then [camelCase k] else split_on (CHR '' '') (camelCase k)
      | RNames ks \<Rightarrow> ks @ map camelCase ks)"

text \<open>
  The element's entry goes. A node gives its id back; \<open>cleanData\<close> is called for a node whose
  entry is empty, hence without event handlers to detach.
\<close>

definition destroy :: "(nat \<Rightarrow> einfo) \<Rightarrow> nat \<Rightarrow> ('v, 'z) dstore_scheme \<Rightarrow> ('v, 'z) dstore_scheme" where
  "destroy E el w =
     (if isNode E el
      then (case expando w el of
              None \<Rightarrow> w
            | Some i \<Rightarrow> if dcache w i = None then w
                else w\<lparr>dcache := (dcache w)(i := None), expando := (expando w)(el := None), deletedIds := deletedIds w @ [i]\<rparr>)
      else w\<lparr>attached := (attached w)(el := None)\<rparr>)"

definition named :: "rname \<Rightarrow> bool" where
  "named name = (case name of RNone \<Rightarrow> False | RName k \<Rightarrow> k \<noteq> [] | RNames ks \<Rightarrow> True)"

definition delete_names :: "(string \<Rightarrow> 'v option) \<Rightarrow> rname \<Rightarrow> bool \<Rightarrow> 'v entry \<Rightarrow> 'v entry" where
  "delete_names inh name pvt e =
     (if pvt \<or> e_data e \<noteq> None
      then set_props pvt (foldr del_prop (remove_names inh name (props_of pvt e)) (props_of pvt e)) e
      else e)"

definition internalRemoveData :: "(nat \<Rightarrow> einfo) \<Rightarrow> (string \<Rightarrow> 'v option) \<Rightarrow> nat \<Rightarrow> rname \<Rightarrow> bool
    \<Rightarrow> ('v, 'z) dstore_scheme \<Rightarrow> ('v, 'z) dstore_scheme" where
  "internalRemoveData E inh el name pvt w =
     (if \<not> acceptData (E el) then w
      else (case entry E el w of
        None \<Rightarrow> w
      | Some e \<Rightarrow>
          (let e1 = (if named name then delete_names inh name pvt e else e);
               w1 = put_entry E el e1 w
           in if named name \<and> (if pvt then \<not> isEmptyDataObject e1 else props_of False e1 \<noteq> []) then w1
              else (let e2 = (if pvt then e1 else e1\<lparr>e_data := None\<rparr>); w2 = put_entry E el e2 w1 in
                    if \<not> pvt \<and> \<not> isEmptyDataObject e2 then w2 else destroy E el w2))))"

text \<open>The public functions.\<close>

definition hasData :: "(nat \<Rightarrow> einfo) \<Rightarrow> nat \<Rightarrow> ('v, 'z) dstore_scheme \<Rightarrow> bool" where
  "hasData E el w = (case entry E el w of None \<Rightarrow> False | Some e \<Rightarrow> \<not> isEmptyDataObject e)"

section \<open>The store as a map\<close>

text \<open>Every id has one owner, deleted ids have none, and only owned ids have a cache entry.\<close>

definition store_ok :: "('v, 'z) dstore_scheme \<Rightarrow> bool" where
  "store_ok w \<longleftrightarrow>
     (\<forall>a b i. expando w a = Some i \<and> expando w b = Some i \<longrightarrow> a = b) \<and>
     (\<forall>a i. expando w a = Some i \<longrightarrow> i \<notin> set (deletedIds w) \<and> i < guid w) \<and>
     distinct (deletedIds w) \<and> (\<forall>i \<in> set (deletedIds w). i < guid w) \<and>
     (\<forall>i. (\<forall>a. expando w a \<noteq> Some i) \<longrightarrow> dcache w i = None)"

definition view :: "(nat \<Rightarrow> einfo) \<Rightarrow> ('v, 'z) dstore_scheme \<Rightarrow> nat \<times> bool \<Rightarrow> string \<Rightarrow> 'v option" where
  "view E w p k = (case entry E (fst p) w of None \<Rightarrow> None | Some e \<Rightarrow> map_of (props_of (snd p) e) k)"

lemma give_id_entry: "store_ok w \<Longrightarrow> entry E a (give_id E el w) = entry E a w"
proof -
  assume ok: "store_ok w"
  have "dcache w (last (deletedIds w)) = None" if "deletedIds w \<noteq> []"
    using ok last_in_set [OF that] unfolding store_ok_def by blast
  moreover have "dcache w (guid w) = None"
    using ok unfolding store_ok_def by blast
  ultimately show ?thesis by (auto simp: entry_def give_id_def split: option.split)
qed

lemma give_id_ok: "store_ok w \<Longrightarrow> store_ok (give_id E el w)"
proof -
  assume ok: "store_ok w"
  have unowned: "dcache w i = None" if "\<forall>a. a \<noteq> el \<longrightarrow> expando w a \<noteq> Some i" "expando w el \<noteq> Some i" for i
  proof -
    have "\<forall>a. expando w a \<noteq> Some i" using that by metis
    with ok show ?thesis unfolding store_ok_def by blast
  qed
  show ?thesis
  proof (cases "isNode E el \<and> expando w el = None")
    case False
    then have "give_id E el w = w" by (auto simp: give_id_def)
    with ok show ?thesis by simp
  next
    case new: True
    show ?thesis
    proof (cases "deletedIds w" rule: rev_cases)
      case Nil
      with new have g: "give_id E el w = w\<lparr>expando := (expando w)(el \<mapsto> guid w), guid := Suc (guid w)\<rparr>"
        by (simp add: give_id_def)
      have "i \<noteq> guid w" if "expando w a = Some i" for a i
        using ok that unfolding store_ok_def by blast
      with ok new Nil show ?thesis unfolding g store_ok_def
        by (auto simp: less_Suc_eq intro!: unowned)
    next
      case (snoc ds d)
      with new have g: "give_id E el w = w\<lparr>expando := (expando w)(el \<mapsto> d), deletedIds := ds\<rparr>"
        by (simp add: give_id_def)
      have free: "i \<noteq> d" if "expando w a = Some i" for a i
        using ok that snoc unfolding store_ok_def by auto
      from ok new snoc show ?thesis unfolding g store_ok_def
        by (auto dest: free intro!: unowned)
    qed
  qed
qed

definition slotted :: "(nat \<Rightarrow> einfo) \<Rightarrow> nat \<Rightarrow> ('v, 'z) dstore_scheme \<Rightarrow> bool" where
  "slotted E el w \<longleftrightarrow> (isNode E el \<longrightarrow> expando w el \<noteq> None)"

lemma give_id_slotted: "slotted E el (give_id E el w)"
  by (auto simp: slotted_def give_id_def)

lemma entry_slotted: "entry E el w = Some e \<Longrightarrow> slotted E el w"
  by (auto simp: slotted_def entry_def split: option.splits)

lemma put_entry_entry:
  "store_ok w \<Longrightarrow> slotted E el w \<Longrightarrow> entry E a (put_entry E el e w) = (if a = el then Some e else entry E a w)"
  by (auto simp: entry_def put_entry_def slotted_def store_ok_def split: option.split)

lemma put_entry_ok: "store_ok w \<Longrightarrow> slotted E el w \<Longrightarrow> store_ok (put_entry E el e w)"
  by (auto simp: put_entry_def slotted_def store_ok_def split: option.split)

lemma put_entry_slotted: "slotted E el w \<Longrightarrow> slotted E el (put_entry E el e w)"
  by (auto simp: put_entry_def slotted_def split: option.split)

lemma upd_entry_entry:
  "store_ok w \<Longrightarrow> entry E a (upd_entry E el f w) = (if a = el then map_option f (entry E el w) else entry E a w)"
  by (auto simp: upd_entry_def put_entry_entry entry_slotted split: option.split)

lemma upd_entry_ok: "store_ok w \<Longrightarrow> store_ok (upd_entry E el f w)"
  by (auto simp: upd_entry_def put_entry_ok entry_slotted split: option.split)

lemma make_entry_entry:
  "store_ok w \<Longrightarrow> slotted E el w \<Longrightarrow> entry E a (make_entry E el w) =
     (if a = el \<and> entry E el w = None then Some \<lparr>e_priv = [], e_data = None, e_toJSON = \<not> isNode E el\<rparr> else entry E a w)"
  by (auto simp: make_entry_def put_entry_entry)

lemma make_entry_ok: "store_ok w \<Longrightarrow> slotted E el w \<Longrightarrow> store_ok (make_entry E el w)"
  by (simp add: make_entry_def put_entry_ok)

lemma destroy_entry:
  "store_ok w \<Longrightarrow> entry E a (destroy E el w) = (if a = el then None else entry E a w)"
  by (auto simp: entry_def destroy_def store_ok_def split: option.split)

lemma destroy_ok: "store_ok w \<Longrightarrow> store_ok (destroy E el w)"
proof -
  assume ok: "store_ok w"
  show ?thesis
  proof (cases "isNode E el")
    case False
    with ok show ?thesis by (simp add: destroy_def store_ok_def)
  next
    case n: True
    show ?thesis
    proof (cases "expando w el")
      case None
      with n ok show ?thesis by (simp add: destroy_def)
    next
      case (Some i)
      show ?thesis
      proof (cases "dcache w i")
        case None
        with n ok Some show ?thesis by (simp add: destroy_def)
      next
        case (Some e)
        have d: "destroy E el w =
            w\<lparr>dcache := (dcache w)(i := None), expando := (expando w)(el := None), deletedIds := deletedIds w @ [i]\<rparr>"
          using n \<open>expando w el = Some i\<close> Some by (simp add: destroy_def)
        have i: "i \<notin> set (deletedIds w)" "i < guid w" "\<And>a. expando w a = Some i \<Longrightarrow> a = el"
          using ok \<open>expando w el = Some i\<close> unfolding store_ok_def by blast+
        have unowned: "dcache w j = None" if "j \<noteq> i" "\<forall>a. a \<noteq> el \<longrightarrow> expando w a \<noteq> Some j" for j
        proof -
          have "\<forall>a. expando w a \<noteq> Some j" using that \<open>expando w el = Some i\<close> by (metis option.inject)
          with ok show ?thesis unfolding store_ok_def by blast
        qed
        show ?thesis unfolding d store_ok_def
        proof (intro conjI)
          show "\<forall>a j. expando (w\<lparr>dcache := (dcache w)(i := None), expando := (expando w)(el := None),
              deletedIds := deletedIds w @ [i]\<rparr>) a = Some j \<longrightarrow>
            j \<notin> set (deletedIds (w\<lparr>dcache := (dcache w)(i := None), expando := (expando w)(el := None),
              deletedIds := deletedIds w @ [i]\<rparr>)) \<and> j < guid (w\<lparr>dcache := (dcache w)(i := None),
              expando := (expando w)(el := None), deletedIds := deletedIds w @ [i]\<rparr>)"
            using ok i(3) unfolding store_ok_def by auto
          show "\<forall>j. (\<forall>a. expando (w\<lparr>dcache := (dcache w)(i := None), expando := (expando w)(el := None),
              deletedIds := deletedIds w @ [i]\<rparr>) a \<noteq> Some j) \<longrightarrow>
            dcache (w\<lparr>dcache := (dcache w)(i := None), expando := (expando w)(el := None),
              deletedIds := deletedIds w @ [i]\<rparr>) j = None"
            using ok \<open>expando w el = Some i\<close> unfolding store_ok_def by (auto intro!: unowned)
        qed (use ok i in \<open>auto simp: store_ok_def\<close>)
      qed
    qed
  qed
qed

text \<open>What the operations do to the map.\<close>

datatype 'v dop = OPut string 'v | OCopy "(string \<times> 'v option) list" | OAll | OGet string | ORemove rname

definition abs_copy :: "(string \<times> 'v option) list \<Rightarrow> (string \<Rightarrow> 'v option) \<Rightarrow> (string \<Rightarrow> 'v option)" where
  "abs_copy ps m = foldl (\<lambda>m (k, v). case v of None \<Rightarrow> m | Some x \<Rightarrow> m(k \<mapsto> x)) m ps"

definition abs_names :: "(string \<Rightarrow> 'v option) \<Rightarrow> rname \<Rightarrow> (string \<Rightarrow> 'v option) \<Rightarrow> string set" where
  "abs_names inh name m =
     (case name of
        RNone \<Rightarrow> UNIV
      | RName k \<Rightarrow> if k = [] then UNIV
                   else if m k \<noteq> None \<or> inh k \<noteq> None then {k}
                   else if m (camelCase k) \<noteq> None \<or> inh (camelCase k) \<noteq> None then {camelCase k}
                   else set (split_on (CHR '' '') (camelCase k))
      | RNames ks \<Rightarrow> set ks \<union> camelCase ` set ks)"

definition abs_del :: "string set \<Rightarrow> (string \<Rightarrow> 'v option) \<Rightarrow> (string \<Rightarrow> 'v option)" where
  "abs_del ks m = (\<lambda>k. if k \<in> ks then None else m k)"

type_synonym 'v dmap = "nat \<times> bool \<Rightarrow> string \<Rightarrow> 'v option"

fun abs_op :: "(nat \<Rightarrow> einfo) \<Rightarrow> (string \<Rightarrow> 'v option) \<Rightarrow> nat \<Rightarrow> bool \<Rightarrow> 'v dop \<Rightarrow> 'v dmap \<Rightarrow> 'v dmap" where
  "abs_op E inh el pvt (OPut k v) M = (if acceptData (E el) then M((el, pvt) := (M (el, pvt))(camelCase k \<mapsto> v)) else M)"
| "abs_op E inh el pvt (OCopy ps) M = (if acceptData (E el) then M((el, pvt) := abs_copy ps (M (el, pvt))) else M)"
| "abs_op E inh el pvt OAll M = M"
| "abs_op E inh el pvt (OGet k) M = M"
| "abs_op E inh el pvt (ORemove name) M =
     (if \<not> acceptData (E el) then M
      else if pvt \<and> \<not> named name then M((el, True) := Map.empty, (el, False) := Map.empty)
      else M((el, pvt) := abs_del (abs_names inh name (M (el, pvt))) (M (el, pvt))))"

fun data_op :: "(nat \<Rightarrow> einfo) \<Rightarrow> (string \<Rightarrow> 'v option) \<Rightarrow> ('v \<Rightarrow> bool) \<Rightarrow> nat \<Rightarrow> bool \<Rightarrow> 'v dop
    \<Rightarrow> ('v, 'z) dstore_scheme \<Rightarrow> ('v, 'z) dstore_scheme" where
  "data_op E inh isnull el pvt (OPut k v) w = snd (internalData E inh isnull el (Name k) (Some v) pvt w)"
| "data_op E inh isnull el pvt (OCopy ps) w = snd (internalData E inh isnull el (Props ps) None pvt w)"
| "data_op E inh isnull el pvt OAll w = snd (internalData E inh isnull el NoName None pvt w)"
| "data_op E inh isnull el pvt (OGet k) w = snd (internalData E inh isnull el (Name k) None pvt w)"
| "data_op E inh isnull el pvt (ORemove name) w = internalRemoveData E inh el name pvt w"

text \<open>The names an operation reads or writes; an internal one keeps away from the two reserved ones.\<close>

fun op_names :: "'v dop \<Rightarrow> string list" where
  "op_names (OPut k v) = [k, camelCase k]"
| "op_names (OCopy ps) = List.map fst ps"
| "op_names OAll = []"
| "op_names (OGet k) = [k, camelCase k]"
| "op_names (ORemove RNone) = []"
| "op_names (ORemove (RName k)) = [k, camelCase k] @ split_on (CHR '' '') (camelCase k)"
| "op_names (ORemove (RNames ks)) = ks @ List.map camelCase ks"

definition proper_op :: "bool \<Rightarrow> 'v dop \<Rightarrow> bool" where
  "proper_op pvt c \<longleftrightarrow> (pvt \<longrightarrow> ''data'' \<notin> set (op_names c) \<and> ''toJSON'' \<notin> set (op_names c))"

lemma map_of_copy_props [simp]: "map_of (copy_props ps t) = abs_copy ps (map_of t)"
  unfolding copy_props_def abs_copy_def
  by (induction ps arbitrary: t) (auto split: option.split)

lemma props_of_set_props [simp]: "props_of p (set_props q ps e) = (if p = q then ps else props_of p e)"
  by (auto simp: props_of_def set_props_def)

lemma view_upd_entry:
  "store_ok w \<Longrightarrow> view E (upd_entry E el f w) p k =
     (if fst p = el then (case entry E el w of None \<Rightarrow> None | Some e \<Rightarrow> map_of (props_of (snd p) (f e)) k) else view E w p k)"
  by (auto simp: view_def upd_entry_entry split: option.split)

lemma view_make_entry:
  "store_ok w \<Longrightarrow> slotted E el w \<Longrightarrow> view E (make_entry E el w) p k = view E w p k"
  by (auto simp: view_def make_entry_entry props_of_def split: option.split)

lemma view_give_id: "store_ok w \<Longrightarrow> view E (give_id E el w) p k = view E w p k"
  by (simp add: view_def give_id_entry)

lemma made_ok:
  fixes E el
  assumes "store_ok w"
  defines "w1 \<equiv> make_entry E el (give_id E el w)"
  shows "store_ok w1" "entry E el w1 \<noteq> None" "view E w1 p k = view E w p k"
  unfolding w1_def
  by (simp_all add: assms(1) give_id_ok give_id_slotted make_entry_ok make_entry_entry view_make_entry view_give_id)

lemma prepare_spec:
  fixes E el name pvt
  assumes "store_ok w"
  defines "w' \<equiv> prepare E el name pvt w"
  shows "store_ok w'" "entry E el w' \<noteq> None"
    "view E w' p k = (case name of Props ps \<Rightarrow> if p = (el, pvt) then abs_copy ps (view E w p) k else view E w p k
                      | _ \<Rightarrow> view E w p k)"
proof -
  define w1 where "w1 = make_entry E el (give_id E el w)"
  note m = made_ok [OF assms(1), of E el, folded w1_def]
  then obtain e where e: "entry E el w1 = Some e" by blast
  have v: "view E w (el, q) = map_of (props_of q e)" for q
    by (rule ext) (use m(3) e in \<open>simp add: view_def [of E w1] flip: m(3)\<close>)
  show "store_ok w'" "entry E el w' \<noteq> None"
    using m e by (auto simp: w'_def prepare_def Let_def w1_def [symmetric] upd_entry_ok upd_entry_entry split: dname.split)
  show "view E w' p k = (case name of Props ps \<Rightarrow> if p = (el, pvt) then abs_copy ps (view E w p) k else view E w p k
                      | _ \<Rightarrow> view E w p k)"
    using m(1) e m(3) v
    by (cases p) (auto simp: w'_def prepare_def Let_def w1_def [symmetric] upd_entry_ok upd_entry_entry view_upd_entry
        split: dname.split)
qed

lemma view_at: "entry E el w = Some e \<Longrightarrow> view E w (el, p) = map_of (props_of p e)"
  by (rule ext) (simp add: view_def)

lemma view_none: "entry E el w = None \<Longrightarrow> view E w (el, p) = Map.empty"
  by (rule ext) (simp add: view_def)

text \<open>Writing and reading.\<close>

definition seen :: "(string \<Rightarrow> 'v option) \<Rightarrow> ('v \<Rightarrow> bool) \<Rightarrow> (string \<Rightarrow> 'v option) \<Rightarrow> string \<Rightarrow> 'v option" where
  "seen inh isnull m k =
     (let rd = (\<lambda>k. case m k of Some v \<Rightarrow> Some v | None \<Rightarrow> inh k) in
      case rd k of Some v \<Rightarrow> if isnull v then rd (camelCase k) else Some v | None \<Rightarrow> rd (camelCase k))"

lemma read_name_seen: "read_name inh isnull ps k = seen inh isnull (map_of ps) k"
  unfolding read_name_def seen_def read_prop_def Let_def ..

lemma put_spec:
  assumes "store_ok w" and "acceptData (E el)"
    and "internalData E inh isnull el (Name k) (Some v) pvt w = (r, w')"
  shows "store_ok w' \<and> view E w' = (view E w)((el, pvt) := (view E w (el, pvt))(camelCase k \<mapsto> v)) \<and>
    r = (case seen inh isnull (view E w' (el, pvt)) k of Some x \<Rightarrow> DVal x | None \<Rightarrow> DUndef)"
proof -
  define w1 where "w1 = prepare E el (Name k :: 'a dname) pvt w"
  note pr = prepare_spec [OF assms(1), of E el "Name k" pvt, folded w1_def]
  then obtain e where e: "entry E el w1 = Some e" by blast
  define w2 where "w2 = upd_entry E el (\<lambda>e. set_props pvt (put_prop (camelCase k) v (props_of pvt e)) e) w1"
  have w': "w' = w2" "r = (case entry E el w2 of None \<Rightarrow> DUndef
      | Some e \<Rightarrow> (case read_name inh isnull (props_of pvt e) k of Some x \<Rightarrow> DVal x | None \<Rightarrow> DUndef))"
    using assms(2,3) by (auto simp: internalData_def w1_def [symmetric] w2_def [symmetric] Let_def)
  have e2: "entry E el w2 = Some (set_props pvt (put_prop (camelCase k) v (props_of pvt e)) e)"
    using pr(1) e by (simp add: w2_def upd_entry_entry)
  have v0: "view E w1 = view E w" by (intro ext) (simp add: pr(3))
  have v1: "view E w (el, q) = map_of (props_of q e)" for q
    using view_at [OF e, of q] v0 by simp
  have "view E w2 p j = ((view E w)((el, pvt) := (view E w (el, pvt))(camelCase k \<mapsto> v))) p j" for p j
    using pr e v1 by (cases p) (auto simp: w2_def view_upd_entry)
  then have "view E w2 = (view E w)((el, pvt) := (view E w (el, pvt))(camelCase k \<mapsto> v))"
    by (intro ext)
  moreover have "store_ok w2" using pr(1) by (simp add: w2_def upd_entry_ok)
  moreover have "r = (case seen inh isnull (view E w2 (el, pvt)) k of Some x \<Rightarrow> DVal x | None \<Rightarrow> DUndef)"
    using w'(2) e2 view_at [OF e2, of pvt] by (simp add: read_name_seen)
  ultimately show ?thesis using w'(1) by simp
qed

lemma get_spec:
  assumes "store_ok w" and "acceptData (E el)"
    and "internalData E inh isnull el (Name k) None pvt w = (r, w')"
  shows "store_ok w' \<and> view E w' = view E w \<and>
    (r = (case seen inh isnull (view E w (el, pvt)) k of Some x \<Rightarrow> DVal x | None \<Rightarrow> DUndef) \<or>
     r = DUndef \<and> view E w (el, pvt) = Map.empty)"
proof (cases "no_cache pvt (entry E el w)")
  case True
  then have "r = DUndef" "w' = w" using assms(2,3) by (auto simp: internalData_def)
  moreover have "view E w (el, pvt) = Map.empty"
    using True by (auto simp: no_cache_def view_def props_of_def fun_eq_iff split: option.splits)
  ultimately show ?thesis using assms(1) by simp
next
  case False
  define w1 where "w1 = prepare E el (Name k :: 'a dname) pvt w"
  note pr = prepare_spec [OF assms(1), of E el "Name k" pvt, folded w1_def]
  then obtain e where e: "entry E el w1 = Some e" by blast
  have w': "w' = w1" "r = (case read_name inh isnull (props_of pvt e) k of Some x \<Rightarrow> DVal x | None \<Rightarrow> DUndef)"
    using assms(2,3) False e by (auto simp: internalData_def w1_def [symmetric] Let_def)
  have v: "view E w1 = view E w" by (intro ext) (use pr(3) in simp)
  then show ?thesis using w' pr(1) view_at [OF e, of pvt] by (simp add: read_name_seen)
qed

lemma other_spec:
  assumes "store_ok w" and "acceptData (E el)"
    and "(case name of Name k \<Rightarrow> False | _ \<Rightarrow> True)"
    and "internalData E inh isnull el name None pvt w = (r, w')"
  shows "store_ok w' \<and> view E w' = (case name of Props ps \<Rightarrow> (view E w)((el, pvt) := abs_copy ps (view E w (el, pvt))) | _ \<Rightarrow> view E w)"
proof -
  have w': "w' = prepare E el name pvt w"
    using assms(2,3,4) by (cases name) (auto simp: internalData_def Let_def)
  note pr = prepare_spec [OF assms(1), of E el name pvt, folded w']
  have "view E w' = (case name of Props ps \<Rightarrow> (view E w)((el, pvt) := abs_copy ps (view E w (el, pvt))) | _ \<Rightarrow> view E w)"
    by (intro ext) (use pr(3) assms(3) in \<open>auto split: dname.splits\<close>)
  with pr(1) show ?thesis by blast
qed

lemma map_of_foldr_del: "map_of (foldr del_prop ks ps) = abs_del (set ks) (map_of ps)"
  by (induction ks) (auto simp: abs_del_def fun_eq_iff)

lemma abs_del_empty [simp]: "abs_del ks Map.empty = Map.empty"
  by (simp add: abs_del_def)

lemma remove_names_abs:
  "named name \<Longrightarrow> set (remove_names inh name ps) = abs_names inh name (map_of ps)"
  by (cases name) (auto simp: remove_names_def abs_names_def in_props_def read_prop_def named_def split: option.splits)

lemma unnamed_abs: "\<not> named name \<Longrightarrow> abs_names inh name m = UNIV"
  by (auto simp: named_def abs_names_def split: rname.splits)

lemma delete_names_props:
  assumes "named name"
  shows "map_of (props_of q (delete_names inh name pvt e)) =
    (if q = pvt then abs_del (abs_names inh name (map_of (props_of pvt e))) (map_of (props_of pvt e)) else map_of (props_of q e))"
  using remove_names_abs [OF assms, of inh "props_of pvt e"]
  by (auto simp: delete_names_def map_of_foldr_del props_of_def set_props_def)

lemma empty_data_props: "isEmptyDataObject e \<Longrightarrow> props_of q e = []"
  by (auto simp: isEmptyDataObject_def props_of_def split: option.splits)

lemma view_put_entry:
  "store_ok w \<Longrightarrow> entry E el w \<noteq> None \<Longrightarrow> view E (put_entry E el e w) p k =
     (if fst p = el then map_of (props_of (snd p) e) k else view E w p k)"
  by (auto simp: view_def put_entry_entry entry_slotted)

lemma view_destroy: "store_ok w \<Longrightarrow> view E (destroy E el w) p k = (if fst p = el then None else view E w p k)"
  by (simp add: view_def destroy_entry)

lemma remove_spec:
  fixes E inh el name pvt
  assumes "store_ok w" and "acceptData (E el)"
  defines "w' \<equiv> internalRemoveData E inh el name pvt w"
  shows "store_ok w' \<and> view E w' = abs_op E inh el pvt (ORemove name) (view E w)"
proof (cases "entry E el w")
  case None
  then have "w' = w" using assms(2) by (simp add: w'_def internalRemoveData_def)
  then show ?thesis using assms(1,2) None by (auto simp: view_none fun_eq_iff)
next
  case (Some e)
  define e1 where "e1 = (if named name then delete_names inh name pvt e else e)"
  define w1 where "w1 = put_entry E el e1 w"
  define e2 where "e2 = (if pvt then e1 else e1\<lparr>e_data := None\<rparr>)"
  define w2 where "w2 = put_entry E el e2 w1"
  have slot: "slotted E el w" using Some by (rule entry_slotted)
  have ok1: "store_ok w1" "entry E el w1 = Some e1" "slotted E el w1"
    using assms(1) slot by (auto simp: w1_def put_entry_ok put_entry_entry put_entry_slotted)
  have ok2: "store_ok w2" "entry E el w2 = Some e2"
    using ok1 by (auto simp: w2_def put_entry_ok put_entry_entry)
  have v1: "view E w1 p k = (if fst p = el then map_of (props_of (snd p) e1) k else view E w p k)" for p k
    using assms(1) Some by (simp add: w1_def view_put_entry)
  have v2: "view E w2 p k = (if fst p = el then map_of (props_of (snd p) e2) k else view E w p k)" for p k
    using ok1 v1 by (simp add: w2_def view_put_entry)
  have ve: "view E w (el, q) = map_of (props_of q e)" for q using view_at [OF Some] .
  have w': "w' = (if named name \<and> (if pvt then \<not> isEmptyDataObject e1 else props_of False e1 \<noteq> []) then w1
       else if \<not> pvt \<and> \<not> isEmptyDataObject e2 then w2 else destroy E el w2)"
    unfolding w'_def internalRemoveData_def w2_def e2_def w1_def e1_def Let_def
    by (simp only: assms(2) Some option.case not_True_eq_False if_False)
  have ok: "store_ok w'" using w' ok1(1) ok2(1) destroy_ok by metis
  have "view E w' p k = abs_op E inh el pvt (ORemove name) (view E w) p k" for p k
  proof (cases "named name")
    case nm: True
    have e1v: "map_of (props_of q e1) =
        (if q = pvt then abs_del (abs_names inh name (map_of (props_of pvt e))) (map_of (props_of pvt e)) else map_of (props_of q e))" for q
      unfolding e1_def if_P [OF nm] by (rule delete_names_props [OF nm])
    have e1w: "view E w1 p k = abs_op E inh el pvt (ORemove name) (view E w) p k"
      using assms(2) nm by (cases p) (auto simp: v1 e1v ve)
    show ?thesis
    proof (cases "if pvt then \<not> isEmptyDataObject e1 else props_of False e1 \<noteq> []")
      case True
      then have "w' = w1" using w' nm by simp
      then show ?thesis using e1w by (simp only:)
    next
      case False
      have same: "props_of q e2 = props_of q e1" for q
        using False by (cases pvt) (auto simp: e2_def props_of_def)
      have e2w: "view E w2 p k = view E w1 p k" by (simp add: v1 v2 same)
      show ?thesis
      proof (cases "\<not> pvt \<and> \<not> isEmptyDataObject e2")
        case True
        then have "w' = w2" using w' nm False by auto
        then show ?thesis using e1w e2w by (simp only:)
      next
        case gone: False
        then have "props_of q e2 = []" for q
          using False empty_data_props e2_def by (cases pvt) (auto)
        then have "view E (destroy E el w2) p k = view E w2 p k"
          using ok2(1) by (simp add: view_destroy v2)
        moreover have "w' = destroy E el w2" using w' nm False gone by auto
        ultimately show ?thesis using e1w e2w by (simp only:)
      qed
    qed
  next
    case un: False
    then have e1: "e1 = e" by (simp add: e1_def)
    show ?thesis
    proof (cases pvt)
      case True
      then have "w' = destroy E el w2" using w' un by simp
      then show ?thesis
        using assms(2) un True ok2(1) by (cases p) (auto simp: view_destroy v2)
    next
      case False
      then have e2: "e2 = e\<lparr>e_data := None\<rparr>" by (simp add: e2_def e1)
      have "view E w2 p k = abs_op E inh el pvt (ORemove name) (view E w) p k"
        using assms(2) un False
        by (cases p) (auto simp: v2 e2 ve unnamed_abs abs_del_def props_of_def)
      moreover have "view E (destroy E el w2) p k = view E w2 p k" if "isEmptyDataObject e2"
        using ok2(1) empty_data_props [OF that] by (simp add: view_destroy v2)
      ultimately show ?thesis using w' un False by auto
    qed
  qed
  then have "view E w' = abs_op E inh el pvt (ORemove name) (view E w)" by (intro ext)
  with ok show ?thesis ..
qed

lemma data_op_spec:
  assumes "store_ok w"
  shows "store_ok (data_op E inh isnull el pvt c w) \<and> view E (data_op E inh isnull el pvt c w) = abs_op E inh el pvt c (view E w)"
proof (cases "acceptData (E el)")
  case False
  then have "data_op E inh isnull el pvt c w = w"
    by (cases c) (simp_all add: internalData_def internalRemoveData_def)
  with assms False show ?thesis by (cases c) simp_all
next
  case True
  show ?thesis
  proof (cases c)
    case (OPut k v)
    obtain r w' where e: "internalData E inh isnull el (Name k) (Some v) pvt w = (r, w')" by (rule prod.exhaust)
    show ?thesis using put_spec [OF assms True e] OPut True e by simp
  next
    case (OCopy ps)
    obtain r w' where e: "internalData E inh isnull el (Props ps) None pvt w = (r, w')" by (rule prod.exhaust)
    show ?thesis using other_spec [OF assms True _ e] OCopy True e by simp
  next
    case OAll
    obtain r w' where e: "internalData E inh isnull el NoName None pvt w = (r, w')" by (rule prod.exhaust)
    show ?thesis using other_spec [OF assms True _ e] OAll True e by simp
  next
    case (OGet k)
    obtain r w' where e: "internalData E inh isnull el (Name k) None pvt w = (r, w')" by (rule prod.exhaust)
    show ?thesis using get_spec [OF assms True e] OGet True e by simp
  next
    case (ORemove name)
    show ?thesis using remove_spec [where E = E and el = el, OF assms True] ORemove by simp
  qed
qed

definition store_step :: "(nat \<Rightarrow> einfo) \<Rightarrow> (string \<Rightarrow> 'v option) \<Rightarrow> ('v \<Rightarrow> bool) \<Rightarrow> nat \<times> bool \<times> 'v dop
    \<Rightarrow> ('v, 'z) dstore_scheme \<Rightarrow> ('v, 'z) dstore_scheme" where
  "store_step E inh isnull = (\<lambda>(el, pvt, c). data_op E inh isnull el pvt c)"

definition map_step :: "(nat \<Rightarrow> einfo) \<Rightarrow> (string \<Rightarrow> 'v option) \<Rightarrow> nat \<times> bool \<times> 'v dop \<Rightarrow> 'v dmap \<Rightarrow> 'v dmap" where
  "map_step E inh = (\<lambda>(el, pvt, c). abs_op E inh el pvt c)"

interpretation data_store: simulation store_ok "view E" "store_step E inh isnull" "map_step E inh"
  for E :: "nat \<Rightarrow> einfo" and inh :: "string \<Rightarrow> 'v option" and isnull :: "'v \<Rightarrow> bool"
  by unfold_locales (auto simp: store_step_def map_step_def data_op_spec)

definition new_store :: "'v dstore" where
  "new_store = \<lparr>expando = (\<lambda>_. None), dcache = (\<lambda>_. None), attached = (\<lambda>_. None), deletedIds = [], guid = 1\<rparr>"

lemma new_store_ok [simp]: "store_ok new_store"
  by (simp add: store_ok_def new_store_def)

lemma new_store_view: "view E new_store = (\<lambda>p. Map.empty)"
  by (intro ext) (simp add: view_def entry_def new_store_def)

text \<open>
  C20: any sequence of writes, copies, reads and removals on any elements, with ids given out,
  freed and used again, leaves exactly what the same operations leave of a map from
  elements and names to values; so an element never sees the data of another one. The internal
  operations among them do not use the names \<open>data\<close> and \<open>toJSON\<close>, which mean something else
  there.
\<close>

theorem data_refines_map:
  assumes "\<forall>(el, pvt, c) \<in> set cs. proper_op pvt c"
  shows "view E (fold (store_step E inh isnull) cs new_store) = fold (map_step E inh) cs (\<lambda>p. Map.empty)"
  using data_store.run [of new_store] by (simp add: new_store_view)

definition div_env :: "nat \<Rightarrow> einfo" where
  "div_env el = (if el < 4 then \<lparr>nodeType = 1, nodeName = ''DIV'', classid = None\<rparr>
                 else \<lparr>nodeType = 0, nodeName = [], classid = None\<rparr>)"

lemma data_refines_map_witness:
  "view div_env (fold (store_step div_env (\<lambda>_. None) (\<lambda>v. v = (0 :: nat)))
      [(1, False, OPut ''foo-bar'' 7), (1, True, OPut ''events'' 3), (2, False, OPut ''x'' 5), (1, False, ORemove (RName ''fooBar''))] new_store)
    (1, True) ''events'' = Some 3"
proof -
  have "\<forall>(el, pvt, c) \<in> set [(1 :: nat, False, OPut ''foo-bar'' (7 :: nat)), (1, True, OPut ''events'' 3), (2, False, OPut ''x'' 5),
      (1, False, ORemove (RName ''fooBar''))]. proper_op pvt c"
    by (simp add: proper_op_def camelCase_plain)
  from data_refines_map [OF this, of div_env "\<lambda>_. None" "\<lambda>v. v = 0"]
  show ?thesis by (simp add: map_step_def div_env_def acceptData_def noData_def lower_def lower_char_def Let_def abs_names_def
      camelCase_plain abs_del_def)
qed

text \<open>Operations elsewhere leave a name alone.\<close>

definition elsewhere :: "nat \<Rightarrow> bool \<Rightarrow> nat \<times> bool \<times> 'v dop \<Rightarrow> bool" where
  "elsewhere el pvt = (\<lambda>(a, p, c). el \<noteq> a \<or> (p \<noteq> pvt \<and> (case c of ORemove name \<Rightarrow> p \<longrightarrow> named name | _ \<Rightarrow> True)))"

lemma elsewhere_step: "elsewhere el pvt c \<Longrightarrow> map_step E inh c M (el, pvt) = M (el, pvt)"
proof -
  assume e: "elsewhere el pvt c"
  obtain a p d where c: "c = (a, p, d)" by (rule prod_cases3)
  have ne: "(el, pvt) \<noteq> (a, p)" using e by (auto simp: elsewhere_def c)
  have upd: "(if acceptData (E a) then M((a, p) := x) else M) (el, pvt) = M (el, pvt)" for x
    using fun_upd_other [OF ne, of M] by simp
  show ?thesis
  proof (cases d)
    case (ORemove name)
    with e show ?thesis
      unfolding c map_step_def prod.case ORemove abs_op.simps elsewhere_def
      by (cases "acceptData (E a)"; cases "named name"; cases pvt; cases p) simp_all
  qed (simp_all only: c map_step_def prod.case abs_op.simps upd)
qed

lemma elsewhere_steps: "\<forall>c \<in> set cs. elsewhere el pvt c \<Longrightarrow> fold (map_step E inh) cs M (el, pvt) = M (el, pvt)"
  by (induction cs arbitrary: M) (simp_all add: elsewhere_step)

text \<open>
  C23: a value that is not null is read back under the name it was written with, and under
  that name in camel case, whatever is done to other elements and to the other kind of data
  in between; provided the name is not also present, or inherited, as it is, and no internal
  operation uses the names \<open>data\<close> and \<open>toJSON\<close>.
\<close>

theorem data_get_set:
  assumes "store_ok w" and "acceptData (E el)" and "\<not> isnull v"
    and "view E w (el, pvt) k = None \<and> inh k = None \<or> camelCase k = k"
    and "\<forall>c \<in> set cs. elsewhere el pvt c"
    and "proper_op pvt (OPut k v)" and "\<forall>(a, p, c) \<in> set cs. proper_op p c"
  shows "fst (internalData E inh isnull el (Name k) None pvt
      (fold (store_step E inh isnull) cs (snd (internalData E inh isnull el (Name k) (Some v) pvt w)))) = DVal v \<and>
    fst (internalData E inh isnull el (Name (camelCase k)) None pvt
      (fold (store_step E inh isnull) cs (snd (internalData E inh isnull el (Name k) (Some v) pvt w)))) = DVal v"
proof -
  obtain r w1 where p: "internalData E inh isnull el (Name k) (Some v) pvt w = (r, w1)" by (rule prod.exhaust)
  define w2 where "w2 = fold (store_step E inh isnull) cs w1"
  have w1: "store_ok w1" "view E w1 (el, pvt) = (view E w (el, pvt))(camelCase k \<mapsto> v)"
    using put_spec [OF assms(1,2) p] by simp_all
  have "store_ok w2" "view E w2 (el, pvt) = view E w1 (el, pvt)"
    by (simp_all add: w2_def data_store.run [OF w1(1)] elsewhere_steps [OF assms(5)])
  then have w2: "store_ok w2" "view E w2 (el, pvt) = (view E w (el, pvt))(camelCase k \<mapsto> v)"
    unfolding w1(2) .
  have get: "fst (internalData E inh isnull el (Name j) None pvt w2) = DVal v"
    if "seen inh isnull (view E w2 (el, pvt)) j = Some v" for j
  proof -
    obtain r w3 where g: "internalData E inh isnull el (Name j) None pvt w2 = (r, w3)" by (rule prod.exhaust)
    have "view E w2 (el, pvt) \<noteq> Map.empty" using w2(2) by (metis fun_upd_same option.distinct(1))
    with get_spec [OF w2(1) assms(2) g] that g show ?thesis by simp
  qed
  have "seen inh isnull (view E w2 (el, pvt)) k = Some v"
    using assms(3,4) by (auto simp: seen_def w2(2))
  moreover have "seen inh isnull (view E w2 (el, pvt)) (camelCase k) = Some v"
    using assms(3) by (auto simp: seen_def w2(2))
  ultimately show ?thesis using get p by (simp add: w2_def [symmetric])
qed

lemma data_get_set_witness:
  "fst (internalData div_env (\<lambda>_. None) (\<lambda>v. v = (0 :: nat)) 1 (Name ''foo-bar'') None False
      (fold (store_step div_env (\<lambda>_. None) (\<lambda>v. v = 0)) [(2, False, OPut ''fooBar'' 9), (1, True, ORemove (RName ''x''))]
        (snd (internalData div_env (\<lambda>_. None) (\<lambda>v. v = 0) 1 (Name ''foo-bar'') (Some 7) False new_store)))) = DVal 7"
  by (rule conjunct1 [OF data_get_set])
    (simp_all add: div_env_def acceptData_def noData_def lower_def lower_char_def Let_def new_store_view elsewhere_def named_def
      proper_op_def camelCase_plain)

text \<open>
  Data copied from an object keeps its names as they are, and such a name is looked at
  first: a later write under the same dashed name goes to the camel case one, and reading
  gives the old value.
\<close>

theorem data_stale_name:
  assumes "store_ok w" and "acceptData (E el)" and "camelCase k \<noteq> k" and "\<not> isnull u"
    and "view E w (el, pvt) k = Some u"
  shows "fst (internalData E inh isnull el (Name k) (Some v) pvt w) = DVal u \<and>
    view E (snd (internalData E inh isnull el (Name k) (Some v) pvt w)) (el, pvt) (camelCase k) = Some v"
proof -
  obtain r w1 where p: "internalData E inh isnull el (Name k) (Some v) pvt w = (r, w1)" by (rule prod.exhaust)
  have "view E w1 (el, pvt) k = Some u" using put_spec [OF assms(1,2) p] assms(3,5) by simp
  with put_spec [OF assms(1,2) p] p assms(3,4) show ?thesis by (simp add: seen_def)
qed

lemma data_stale_name_witness:
  "fst (internalData div_env (\<lambda>_. None) (\<lambda>v. v = (0 :: nat)) 1 (Name ''foo-bar'') (Some 2) False
     (snd (internalData div_env (\<lambda>_. None) (\<lambda>v. v = 0) 1 (Props [(''foo-bar'', Some 1)]) None False new_store))) = DVal 1"
proof (rule conjunct1 [OF data_stale_name])
  show "store_ok (snd (internalData div_env (\<lambda>_. None) (\<lambda>v. v = (0 :: nat)) 1 (Props [(''foo-bar'', Some 1)]) None False new_store))"
    using data_op_spec [OF new_store_ok, of div_env "\<lambda>_. None" "\<lambda>v. v = (0 :: nat)" 1 False "OCopy [(''foo-bar'', Some 1)]"] by simp
  show "acceptData (div_env 1)" by code_simp
  show "camelCase ''foo-bar'' \<noteq> ''foo-bar''" by code_simp
  show "view div_env (snd (internalData div_env (\<lambda>_. None) (\<lambda>v. v = (0 :: nat)) 1 (Props [(''foo-bar'', Some 1)]) None False new_store))
    (1, False) ''foo-bar'' = Some 1"
    by code_simp
qed simp

end
