(* ===== verification/JqQueue.thy ===== *)
theory JqQueue
  imports JqData JqCallbacks
begin

text \<open>
  The queues of \<open>democlient/js/jquery.js\<close>: \<open>queue\<close>, \<open>dequeue\<close>, \<open>_queueHooks\<close>, \<open>delay\<close>,
  \<open>clearQueue\<close> and \<open>promise\<close>. A queue is an array in the private data of an element, next
  to the hooks of its type, whose \<open>empty\<close> is a list of \<open>jQuery.Callbacks\<close> that cleans up when
  the queue has run out. Queue functions are programs of the client that may use all these
  operations again.
\<close>

section \<open>The state\<close>

text \<open>\<open>QDelay\<close> is the function that \<open>delay\<close> enqueues.\<close>

datatype qitem = InProgress | QFn nat | QDelay int

datatype qval = QList "qitem list" | QHooks nat

record hooks =
  h_el :: nat
  h_type :: string
  h_stop :: "nat option"      \<comment> \<open>the timer that \<open>hooks.stop\<close> clears\<close>

datatype qevent = ERun nat string nat | EResolve nat

record qworld = cworld +
  q_store :: "qval dstore"
  q_hooks :: "nat \<Rightarrow> hooks"
  q_nhooks :: nat
  q_timers :: "(nat \<times> nat \<times> string) list"   \<comment> \<open>pending timers: what \<open>next\<close> dequeues\<close>
  q_ntimer :: nat
  q_count :: "nat \<Rightarrow> int"
  q_npromise :: nat
  qlog :: "qevent list"

text \<open>
  The functions in the lists: the clean-up of a hooks object, and the \<open>resolve\<close> of a
  promise. The list of hooks \<open>h\<close> has the name \<open>Own h\<close>.
\<close>

definition cleanup_fn :: "nat \<Rightarrow> fn" where "cleanup_fn h = Pub (FUser (2 * h))"
definition resolve_fn :: "nat \<Rightarrow> fn" where "resolve_fn p = Pub (FUser (2 * p + 1))"

type_synonym qemit = "qevent \<Rightarrow> qworld \<Rightarrow> (val, unit, qworld) res"

section \<open>Queues in the data store\<close>

abbreviation qno :: "string \<Rightarrow> qval option" where "qno \<equiv> (\<lambda>_. None)"

definition q_data :: "(nat \<Rightarrow> einfo) \<Rightarrow> nat \<Rightarrow> string \<Rightarrow> qval option \<Rightarrow> qworld \<Rightarrow> qval dret \<times> qworld" where
  "q_data E el key v w =
     (let (r, s) = internalData E qno (\<lambda>_. False) el (Name key) v True (q_store w) in (r, w\<lparr>q_store := s\<rparr>))"

definition as_list :: "qval dret \<Rightarrow> qitem list option" where
  "as_list r = (case r of DVal (QList l) \<Rightarrow> Some l | _ \<Rightarrow> None)"

definition as_hooks :: "qval dret \<Rightarrow> nat option" where
  "as_hooks r = (case r of DVal (QHooks h) \<Rightarrow> Some h | _ \<Rightarrow> None)"

text \<open>Changing the array in place: the property it was read from keeps it.\<close>

definition mutate_list :: "(nat \<Rightarrow> einfo) \<Rightarrow> nat \<Rightarrow> string \<Rightarrow> qitem list \<Rightarrow> qworld \<Rightarrow> qworld" where
  "mutate_list E el key l w = w\<lparr>q_store := upd_entry E el (\<lambda>e.
     e\<lparr>e_priv := put_prop (if map_of (e_priv e) key \<noteq> None then key else camelCase key) (QList l) (e_priv e)\<rparr>) (q_store w)\<rparr>"

definition fx_type :: "string \<Rightarrow> string" where
  "fx_type type = (if type = [] then ''fx'' else type)"

text \<open>\<open>jQuery.queue\<close>: the second component is the function to add, or the array to set.\<close>

definition queue :: "(nat \<Rightarrow> einfo) \<Rightarrow> nat \<Rightarrow> string \<Rightarrow> (qitem + qitem list) option \<Rightarrow> qworld \<Rightarrow> qitem list \<times> qworld" where
  "queue E el type dat w =
     (let key = fx_type type @ ''queue''; (r, w1) = q_data E el key None w in
      case (dat, as_list r) of
        (None, q) \<Rightarrow> ((case q of Some l \<Rightarrow> l | None \<Rightarrow> []), w1)
      | (Some (Inl f), Some l) \<Rightarrow> (l @ [f], mutate_list E el key (l @ [f]) w1)
      | (Some d, _) \<Rightarrow>
          (let (r2, w2) = q_data E el key (Some (QList (case d of Inl f \<Rightarrow> [f] | Inr fs \<Rightarrow> fs))) w1
           in ((case as_list r2 of Some l \<Rightarrow> l | None \<Rightarrow> []), w2)))"

text \<open>\<open>_queueHooks\<close>: the hooks there are, or new ones with the clean-up in \<open>empty\<close>.\<close>

definition new_hooks :: "nat \<Rightarrow> string \<Rightarrow> qworld \<Rightarrow> qworld" where
  "new_hooks el type w =
     (let h = q_nhooks w in
      w\<lparr>objs := (objs w)(Own h := add_args [AFn (cleanup_fn h)] (new_callbacks (createOptions ''once memory''))),
        q_hooks := (q_hooks w)(h := \<lparr>h_el = el, h_type = type, h_stop = None\<rparr>), q_nhooks := Suc h\<rparr>)"

definition queueHooks :: "(nat \<Rightarrow> einfo) \<Rightarrow> nat \<Rightarrow> string \<Rightarrow> qworld \<Rightarrow> nat option \<times> qworld" where
  "queueHooks E el type w =
     (let key = type @ ''queueHooks''; (r, w1) = q_data E el key None w in
      case as_hooks r of
        Some h \<Rightarrow> (Some h, w1)
      | None \<Rightarrow> (let (r2, w2) = q_data E el key (Some (QHooks (q_nhooks w1))) (new_hooks el type w1)
                 in (as_hooks r2, w2)))"

text \<open>The clean-up function of the hooks.\<close>

definition cleanup :: "(nat \<Rightarrow> einfo) \<Rightarrow> nat \<Rightarrow> qworld \<Rightarrow> qworld" where
  "cleanup E h w =
     (let el = h_el (q_hooks w h); type = h_type (q_hooks w h);
          s1 = internalRemoveData E qno el (RName (type @ ''queue'')) True (q_store w);
          s2 = internalRemoveData E qno el (RName (type @ ''queueHooks'')) True s1
      in w\<lparr>q_store := s2\<rparr>)"

text \<open>The \<open>resolve\<close> of a promise counts down; at zero the Deferred calls the client.\<close>

definition resolve :: "qemit \<Rightarrow> nat \<Rightarrow> qworld \<Rightarrow> (val, unit, qworld) res" where
  "resolve emit p w =
     (let w1 = w\<lparr>q_count := (q_count w)(p := q_count w p - 1)\<rparr> in
      if q_count w1 p = 0 then emit (EResolve p) w1 else Done () w1)"

definition q_call :: "(nat \<Rightarrow> einfo) \<Rightarrow> qemit \<Rightarrow> fn \<Rightarrow> val \<Rightarrow> val list \<Rightarrow> qworld \<Rightarrow> (val, val, qworld) res" where
  "q_call E emit f this args w =
     (case f of
        Pub (FUser m) \<Rightarrow> if even m then Done VUndef (cleanup E (m div 2) w)
                          else bindR (resolve emit (m div 2) w) (\<lambda>_ w1. Done VUndef w1)
      | _ \<Rightarrow> Done VUndef w)"

section \<open>dequeue\<close>

definition delete_stop :: "nat option \<Rightarrow> qworld \<Rightarrow> qworld" where
  "delete_stop hk w = (case hk of None \<Rightarrow> w | Some h \<Rightarrow> w\<lparr>q_hooks := (q_hooks w)(h := (q_hooks w h)\<lparr>h_stop := None\<rparr>)\<rparr>)"

text \<open>The function that \<open>delay\<close> enqueues: a timer for \<open>next\<close>, and a \<open>stop\<close> that clears it.\<close>

definition run_delay :: "nat \<Rightarrow> string \<Rightarrow> nat option \<Rightarrow> qworld \<Rightarrow> qworld" where
  "run_delay el type hk w =
     (let t = q_ntimer w; w1 = w\<lparr>q_timers := q_timers w @ [(t, el, type)], q_ntimer := Suc t\<rparr> in
      case hk of None \<Rightarrow> w1 | Some h \<Rightarrow> w1\<lparr>q_hooks := (q_hooks w1)(h := (q_hooks w1 h)\<lparr>h_stop := Some t\<rparr>)\<rparr>)"

definition run_item :: "qemit \<Rightarrow> nat \<Rightarrow> string \<Rightarrow> nat option \<Rightarrow> qitem \<Rightarrow> qworld \<Rightarrow> (val, unit, qworld) res" where
  "run_item emit el type hk f w =
     (case f of
        InProgress \<Rightarrow> Exn VTypeError w
      | QFn k \<Rightarrow> emit (ERun el type k) w
      | QDelay time \<Rightarrow> Done () (run_delay el type hk w))"

text \<open>The first function of a queue, the sentinel removed, and what remains with its start length.\<close>

definition shift_queue :: "qitem list \<Rightarrow> qitem option \<times> qitem list \<times> int" where
  "shift_queue q =
     (case q of
        [] \<Rightarrow> (None, [], 0)
      | InProgress # q1 \<Rightarrow> (case q1 of [] \<Rightarrow> (None, [], 0) | f # q2 \<Rightarrow> (Some f, q2, int (length q) - 1))
      | f # q1 \<Rightarrow> (Some f, q1, int (length q)))"

text \<open>\<open>n\<close> bounds the firing of \<open>hooks.empty\<close>.\<close>

definition dequeue :: "(nat \<Rightarrow> einfo) \<Rightarrow> nat \<Rightarrow> qemit \<Rightarrow> nat \<Rightarrow> string \<Rightarrow> qworld \<Rightarrow> (val, unit, qworld) res" where
  "dequeue E n emit el type0 w =
     (let type = fx_type type0;
          (q, w1) = queue E el type None w;
          (f, rest, startLength) = shift_queue q;
          w2 = (if q \<noteq> [] then mutate_list E el (type @ ''queue'') rest w1 else w1);
          (hk, w3) = queueHooks E el type w2;
          fire_empty = (\<lambda>w. if startLength = 0
             then (case hk of None \<Rightarrow> Done () w
                   | Some h \<Rightarrow> cb_fireWith (q_call E emit) n (Own h) (VObj h) [] w) else Done () w)
      in case f of
           None \<Rightarrow> fire_empty w3
         | Some g \<Rightarrow>
             (let w4 = (if type = ''fx'' then mutate_list E el (type @ ''queue'') (InProgress # rest) w3 else w3);
                  w5 = delete_stop hk w4
              in bindR (run_item emit el type hk g w5) (\<lambda>_ w6. fire_empty w6)))"

section \<open>The methods of collections\<close>

text \<open>One element of \<open>queue( type, data )\<close>.\<close>

definition fn_queue :: "(nat \<Rightarrow> einfo) \<Rightarrow> nat \<Rightarrow> qemit \<Rightarrow> string \<Rightarrow> qitem + qitem list \<Rightarrow> nat \<Rightarrow> qworld
    \<Rightarrow> (val, unit, qworld) res" where
  "fn_queue E n emit type dat el w =
     (let (q, w1) = queue E el type (Some dat) w;
          (hk, w2) = queueHooks E el type w1
      in if type = ''fx'' \<and> (case q of f # _ \<Rightarrow> f \<noteq> InProgress | [] \<Rightarrow> True)
         then dequeue E n emit el type w2 else Done () w2)"

fun each_el :: "(nat \<Rightarrow> qworld \<Rightarrow> (val, unit, qworld) res) \<Rightarrow> nat list \<Rightarrow> qworld \<Rightarrow> (val, unit, qworld) res" where
  "each_el f [] w = Done () w"
| "each_el f (el # els) w = bindR (f el w) (\<lambda>_ w1. each_el f els w1)"

definition clearQueue :: "(nat \<Rightarrow> einfo) \<Rightarrow> nat \<Rightarrow> qemit \<Rightarrow> string \<Rightarrow> nat list \<Rightarrow> qworld \<Rightarrow> (val, unit, qworld) res" where
  "clearQueue E n emit type = each_el (fn_queue E n emit (fx_type type) (Inr []))"

definition delay :: "(nat \<Rightarrow> einfo) \<Rightarrow> nat \<Rightarrow> qemit \<Rightarrow> (string \<times> int) list \<Rightarrow> string + int \<Rightarrow> string \<Rightarrow> nat list
    \<Rightarrow> qworld \<Rightarrow> (val, unit, qworld) res" where
  "delay E n emit speeds time type =
     each_el (fn_queue E n emit (fx_type type) (Inl (QDelay
       (case time of Inr t \<Rightarrow> t | Inl s \<Rightarrow> (case map_of speeds s of Some t \<Rightarrow> t | None \<Rightarrow> 0)))))"

text \<open>\<open>promise\<close>: every element of the collection, from the last, that has hooks of the type.\<close>

definition promise_el :: "(nat \<Rightarrow> einfo) \<Rightarrow> nat \<Rightarrow> qemit \<Rightarrow> nat \<Rightarrow> string \<Rightarrow> nat \<Rightarrow> qworld \<Rightarrow> (val, unit, qworld) res" where
  "promise_el E n emit p type el w =
     (let (r, w1) = q_data E el (type @ ''queueHooks'') None w in
      case as_hooks r of
        None \<Rightarrow> Done () w1
      | Some h \<Rightarrow> cb_add (q_call E emit) n (Own h) [AFn (resolve_fn p)] (w1\<lparr>q_count := (q_count w1)(p := q_count w1 p + 1)\<rparr>))"

definition promise :: "(nat \<Rightarrow> einfo) \<Rightarrow> nat \<Rightarrow> qemit \<Rightarrow> string \<Rightarrow> nat list \<Rightarrow> qworld \<Rightarrow> (val, unit, qworld) res" where
  "promise E n emit type els w =
     (let p = q_npromise w; w1 = w\<lparr>q_npromise := Suc p, q_count := (q_count w)(p := 1)\<rparr> in
      bindR (each_el (promise_el E n emit p (fx_type type)) (rev els) w1) (\<lambda>_ w2. resolve emit p w2))"

section \<open>Client programs\<close>

datatype qop = QQueue string nat "nat list" | QSet string "nat list" "nat list" | QDequeue nat string
  | QClear string "nat list" | QDelayOp int string "nat list" | QPromise string "nat list" | QTimer nat

text \<open>The operation \<open>QTimer\<close> is a timer that fires: \<open>next\<close> dequeues.\<close>

definition q_timer_step :: "(nat \<Rightarrow> einfo) \<Rightarrow> nat \<Rightarrow> qemit \<Rightarrow> nat \<Rightarrow> qworld \<Rightarrow> (val, unit, qworld) res" where
  "q_timer_step E n emit t w =
     (case map_of (q_timers w) t of
        None \<Rightarrow> Done () w
      | Some (el, type) \<Rightarrow> dequeue E n emit el type (w\<lparr>q_timers := filter (\<lambda>x. fst x \<noteq> t) (q_timers w)\<rparr>))"

fun q_op :: "(nat \<Rightarrow> einfo) \<Rightarrow> nat \<Rightarrow> qemit \<Rightarrow> qop \<Rightarrow> qworld \<Rightarrow> (val, unit, qworld) res" where
  "q_op E n emit (QQueue type f els) w = each_el (fn_queue E n emit type (Inl (QFn f))) els w"
| "q_op E n emit (QSet type fs els) w = each_el (fn_queue E n emit type (Inr (map QFn fs))) els w"
| "q_op E n emit (QDequeue el type) w = dequeue E n emit el type w"
| "q_op E n emit (QClear type els) w = clearQueue E n emit type els w"
| "q_op E n emit (QDelayOp time type els) w = delay E n emit [] (Inr time) type els w"
| "q_op E n emit (QPromise type els) w = promise E n emit type els w"
| "q_op E n emit (QTimer t) w = q_timer_step E n emit t w"

fun q_ops :: "(nat \<Rightarrow> einfo) \<Rightarrow> nat \<Rightarrow> qemit \<Rightarrow> qop list \<Rightarrow> qworld \<Rightarrow> (val, unit, qworld) res" where
  "q_ops E n emit [] w = Done () w"
| "q_ops E n emit (c # cs) w = bindR (q_op E n emit c w) (\<lambda>_ w1. q_ops E n emit cs w1)"

record qprog =
  p_ops :: "qop list"
  p_throw :: "val option"

fun q_react :: "(nat \<Rightarrow> einfo) \<Rightarrow> nat \<Rightarrow> (qevent \<Rightarrow> qworld \<Rightarrow> qprog) \<Rightarrow> nat \<Rightarrow> qemit" where
  "q_react E n code 0 e w = Diverge"
| "q_react E n code (Suc m) e w =
     (let w1 = w\<lparr>qlog := qlog w @ [e]\<rparr>; a = code e w1 in
      bindR (q_ops E n (q_react E n code m) (p_ops a) w1) (\<lambda>_ w2.
        case p_throw a of Some x \<Rightarrow> Exn x w2 | None \<Rightarrow> Done () w2))"

section \<open>What the operations do to the store\<close>

text \<open>The property a name is found under.\<close>

definition found_at :: "(string \<Rightarrow> qval option) \<Rightarrow> string \<Rightarrow> string" where
  "found_at m key = (if m key \<noteq> None then key else camelCase key)"

abbreviation pview :: "(nat \<Rightarrow> einfo) \<Rightarrow> qworld \<Rightarrow> nat \<Rightarrow> string \<Rightarrow> qval option" where
  "pview E w el \<equiv> view E (q_store w) (el, True)"

lemma seen_q: "seen qno (\<lambda>_. False) m k = m (found_at m k)"
  by (simp add: seen_def found_at_def split: option.split)

lemma q_data_get:
  assumes "store_ok (q_store w)" and "q_data E el key None w = (r, w')"
  obtains s where "w' = w\<lparr>q_store := s\<rparr>" "store_ok s" "view E s = view E (q_store w)"
    "r = (if acceptData (E el) then (case pview E w el (found_at (pview E w el) key) of Some x \<Rightarrow> DVal x | None \<Rightarrow> DUndef) else DUndef)"
proof (cases "acceptData (E el)")
  case False
  then have "w' = w\<lparr>q_store := q_store w\<rparr>" "r = DUndef"
    using assms(2) by (auto simp: q_data_def internalData_def Let_def split: prod.splits)
  with assms(1) False show ?thesis by (intro that [of "q_store w"]) simp_all
next
  case True
  obtain r' s where i: "internalData E qno (\<lambda>_. False) el (Name key) None True (q_store w) = (r', s)" by (rule prod.exhaust)
  then have "w' = w\<lparr>q_store := s\<rparr>" "r' = r" using assms(2) by (auto simp: q_data_def)
  with that get_spec [OF assms(1) True i] True show ?thesis by (auto simp: seen_q)
qed

lemma q_data_put:
  assumes "store_ok (q_store w)" and "q_data E el key (Some v) w = (r, w')"
  obtains s where "w' = w\<lparr>q_store := s\<rparr>" "store_ok s"
    "view E s = (if acceptData (E el) then (view E (q_store w))((el, True) := (pview E w el)(camelCase key \<mapsto> v)) else view E (q_store w))"
    "r = (if acceptData (E el) then (case view E s (el, True) (found_at (view E s (el, True)) key) of Some x \<Rightarrow> DVal x | None \<Rightarrow> DUndef) else DUndef)"
proof (cases "acceptData (E el)")
  case False
  then have "w' = w\<lparr>q_store := q_store w\<rparr>" "r = DUndef"
    using assms(2) by (auto simp: q_data_def internalData_def Let_def split: prod.splits)
  with assms(1) False show ?thesis by (intro that [of "q_store w"]) simp_all
next
  case True
  obtain r' s where i: "internalData E qno (\<lambda>_. False) el (Name key) (Some v) True (q_store w) = (r', s)" by (rule prod.exhaust)
  then have "w' = w\<lparr>q_store := s\<rparr>" "r' = r" using assms(2) by (auto simp: q_data_def)
  with that put_spec [OF assms(1) True i] True show ?thesis by (auto simp: seen_q)
qed

lemma mutate_list_store:
  assumes "store_ok (q_store w)"
  shows "store_ok (q_store (mutate_list E el key l w))"
    "view E (q_store (mutate_list E el key l w)) p k =
      (if p = (el, True) \<and> entry E el (q_store w) \<noteq> None \<and> k = found_at (pview E w el) key then Some (QList l)
       else view E (q_store w) p k)"
proof -
  show "store_ok (q_store (mutate_list E el key l w))" by (simp add: mutate_list_def upd_entry_ok assms)
  show "view E (q_store (mutate_list E el key l w)) p k =
      (if p = (el, True) \<and> entry E el (q_store w) \<noteq> None \<and> k = found_at (pview E w el) key then Some (QList l)
       else view E (q_store w) p k)"
  proof (cases "entry E el (q_store w)")
    case None
    then show ?thesis by (simp add: mutate_list_def upd_entry_def)
  next
    case (Some e)
    have v: "view E (q_store w) (el, q) = map_of (props_of q e)" for q using view_at [OF Some] .
    show ?thesis
      by (cases p) (auto simp: mutate_list_def view_upd_entry assms Some v found_at_def props_of_def)
  qed
qed

section \<open>The sentinel\<close>

text \<open>
  The sentinel stands at the head of an \<open>fx\<close> queue or nowhere; \<open>q_ok\<close> holds between any two
  steps of a run, client functions included.
\<close>

definition items_ok :: "string \<Rightarrow> qval \<Rightarrow> bool" where
  "items_ok k v = (case v of QList l \<Rightarrow> InProgress \<notin> set (tl l) \<and> (k \<noteq> ''fxqueue'' \<longrightarrow> InProgress \<notin> set l) | QHooks h \<Rightarrow> True)"

definition map_ok :: "(nat \<times> bool \<Rightarrow> string \<Rightarrow> qval option) \<Rightarrow> bool" where
  "map_ok M \<longleftrightarrow> (\<forall>p k v. M p k = Some v \<longrightarrow> items_ok k v)"

definition q_ok :: "(nat \<Rightarrow> einfo) \<Rightarrow> qworld \<Rightarrow> bool" where
  "q_ok E w \<longleftrightarrow> store_ok (q_store w) \<and> map_ok (view E (q_store w))"

lemma map_okD: "map_ok M \<Longrightarrow> M p k = Some v \<Longrightarrow> items_ok k v"
  unfolding map_ok_def by blast

lemma q_ok_frame [simp]:
  "q_ok E (upd i g w) = q_ok E w" "q_ok E (w\<lparr>q_count := c\<rparr>) = q_ok E w" "q_ok E (w\<lparr>q_hooks := hs\<rparr>) = q_ok E w"
  "q_ok E (w\<lparr>q_timers := ts\<rparr>) = q_ok E w" "q_ok E (w\<lparr>qlog := l\<rparr>) = q_ok E w" "q_ok E (w\<lparr>q_npromise := p\<rparr>) = q_ok E w"
  "q_ok E (w\<lparr>q_ntimer := t\<rparr>) = q_ok E w" "q_ok E (w\<lparr>objs := ob\<rparr>) = q_ok E w" "q_ok E (w\<lparr>q_nhooks := h\<rparr>) = q_ok E w"
  by (simp_all add: q_ok_def upd_def)

lemma q_ok_step:
  "store_ok s \<Longrightarrow> (\<And>p k v. view E s p k = Some v \<Longrightarrow> items_ok k v \<or> view E (q_store w) p k = Some v) \<Longrightarrow> q_ok E w
    \<Longrightarrow> q_ok E (w\<lparr>q_store := s\<rparr>)"
  unfolding q_ok_def map_ok_def by simp blast

lemma q_data_get_ok: "q_ok E w \<Longrightarrow> q_data E el key None w = (r, w') \<Longrightarrow> q_ok E w'"
  by (rule q_data_get [of w]) (auto simp: q_ok_def)

lemma q_data_put_ok:
  assumes "q_ok E w" and "q_data E el key (Some v) w = (r, w')" and "items_ok (camelCase key) v"
  shows "q_ok E w'"
proof -
  have ok: "store_ok (q_store w)" using assms(1) by (simp add: q_ok_def)
  from q_data_put [OF ok assms(2)] obtain s where s: "w' = w\<lparr>q_store := s\<rparr>" "store_ok s"
    "view E s = (if acceptData (E el) then (view E (q_store w))((el, True) := (pview E w el)(camelCase key \<mapsto> v)) else view E (q_store w))" .
  show ?thesis unfolding s(1)
    by (rule q_ok_step [OF s(2) _ assms(1)]) (use s(3) assms(3) in \<open>auto split: if_splits\<close>)
qed

lemma mutate_list_ok:
  "q_ok E w \<Longrightarrow> items_ok (found_at (pview E w el) key) (QList l) \<Longrightarrow> q_ok E (mutate_list E el key l w)"
  using mutate_list_store [of w E el key l] unfolding q_ok_def map_ok_def by (auto split: if_splits)

lemma queue_ok:
  assumes "q_ok E w" and "queue E el type dat w = (q, w')"
    and "\<And>d. dat = Some d \<Longrightarrow> InProgress \<notin> (case d of Inl f \<Rightarrow> {f} | Inr fs \<Rightarrow> set fs)"
  shows "q_ok E w'"
proof -
  define key where "key = fx_type type @ ''queue''"
  obtain r w1 where g: "q_data E el key None w = (r, w1)" by (rule prod.exhaust)
  have w1: "q_ok E w1" using q_data_get_ok [OF assms(1) g] .
  have ok: "store_ok (q_store w)" using assms(1) by (simp add: q_ok_def)
  from q_data_get [OF ok g] obtain s where
    v: "view E (q_store w1) = view E (q_store w)" and
    r: "r = (if acceptData (E el) then (case pview E w el (found_at (pview E w el) key) of Some x \<Rightarrow> DVal x | None \<Rightarrow> DUndef) else DUndef)"
    by (metis (no_types, lifting) qworld.select_convs(1) qworld.surjective qworld.update_convs(1))
  have found: "pview E w1 el (found_at (pview E w1 el) key) = Some (QList l)" if "as_list r = Some l" for l
    using that r v by (auto simp: as_list_def split: if_splits option.splits dret.splits qval.splits)
  show ?thesis
  proof (cases dat)
    case None
    then show ?thesis using assms(2) g w1 by (auto simp: queue_def Let_def key_def [symmetric])
  next
    case (Some d)
    show ?thesis
    proof (cases "\<exists>f l. d = Inl f \<and> as_list r = Some l")
      case True
      then obtain f l where fl: "d = Inl f" "as_list r = Some l" by blast
      have "items_ok (found_at (pview E w1 el) key) (QList (l @ [f]))"
        using map_okD [where M = "view E (q_store w1)" and p = "(el, True)", OF _ found [OF fl(2)]] w1 assms(3) [OF Some] fl(1)
        by (cases l) (auto simp: q_ok_def items_ok_def)
      then have "q_ok E (mutate_list E el key (l @ [f]) w1)" by (rule mutate_list_ok [OF w1])
      then show ?thesis using assms(2) g Some fl by (auto simp: queue_def Let_def key_def [symmetric])
    next
      case False
      define fs where "fs = (case d of Inl f \<Rightarrow> [f] | Inr fs \<Rightarrow> fs)"
      obtain r2 w2 where p: "q_data E el key (Some (QList fs)) w1 = (r2, w2)" by (rule prod.exhaust)
      have "InProgress \<notin> set fs" using assms(3) [OF Some] by (auto simp: fs_def split: sum.splits)
      then have "items_ok (camelCase key) (QList fs)" by (cases fs) (auto simp: items_ok_def)
      then have "q_ok E w2" by (rule q_data_put_ok [OF w1 p])
      moreover have "w' = w2"
        using assms(2) g Some False p
        by (auto simp: queue_def Let_def key_def [symmetric] fs_def split: sum.splits option.splits)
      ultimately show ?thesis by simp
    qed
  qed
qed

lemma queue_get:
  assumes "q_ok E w" and "queue E el type None w = (q, w1)"
  shows "view E (q_store w1) = view E (q_store w)"
    "q \<noteq> [] \<Longrightarrow> pview E w1 el (found_at (pview E w1 el) (fx_type type @ ''queue'')) = Some (QList q)"
proof -
  define key where "key = fx_type type @ ''queue''"
  obtain r w2 where g: "q_data E el key None w = (r, w2)" by (rule prod.exhaust)
  have w2: "w1 = w2" "q = (case as_list r of Some l \<Rightarrow> l | None \<Rightarrow> [])"
    using assms(2) g by (auto simp: queue_def Let_def key_def [symmetric])
  have ok: "store_ok (q_store w)" using assms(1) by (simp add: q_ok_def)
  from q_data_get [OF ok g] obtain s where s: "w2 = w\<lparr>q_store := s\<rparr>" "view E s = view E (q_store w)"
    "r = (if acceptData (E el) then (case pview E w el (found_at (pview E w el) key) of Some x \<Rightarrow> DVal x | None \<Rightarrow> DUndef) else DUndef)" .
  show "view E (q_store w1) = view E (q_store w)" using s w2 by simp
  show "q \<noteq> [] \<Longrightarrow> pview E w1 el (found_at (pview E w1 el) (fx_type type @ ''queue'')) = Some (QList q)"
    using s w2 by (auto simp: key_def [symmetric] as_list_def split: if_splits option.splits dret.splits qval.splits)
qed

lemma queueHooks_ok: "q_ok E w \<Longrightarrow> queueHooks E el type w = (hk, w') \<Longrightarrow> q_ok E w'"
proof -
  assume ok: "q_ok E w" and e: "queueHooks E el type w = (hk, w')"
  define key where "key = type @ ''queueHooks''"
  obtain r w1 where g: "q_data E el key None w = (r, w1)" by (rule prod.exhaust)
  have w1: "q_ok E w1" using q_data_get_ok [OF ok g] .
  show ?thesis
  proof (cases "as_hooks r")
    case (Some h)
    then show ?thesis using e g w1 by (auto simp: queueHooks_def Let_def key_def [symmetric])
  next
    case None
    obtain r2 w2 where p: "q_data E el key (Some (QHooks (q_nhooks w1))) (new_hooks el type w1) = (r2, w2)" by (rule prod.exhaust)
    have "q_ok E (new_hooks el type w1)" using w1 by (simp add: new_hooks_def Let_def)
    then have "q_ok E w2" by (rule q_data_put_ok [OF _ p]) (simp add: items_ok_def)
    then show ?thesis using e g None p by (auto simp: queueHooks_def Let_def key_def [symmetric])
  qed
qed

lemma abs_del_le: "abs_del ks m k = Some v \<Longrightarrow> m k = Some v"
  by (auto simp: abs_del_def split: if_splits)

lemma remove_ok:
  assumes "q_ok E w" and "s = internalRemoveData E qno el (RName k) True (q_store w)"
  shows "q_ok E (w\<lparr>q_store := s\<rparr>)"
proof (cases "acceptData (E el)")
  case False
  with assms show ?thesis by (simp add: internalRemoveData_def)
next
  case True
  have ok: "store_ok (q_store w)" using assms(1) by (simp add: q_ok_def)
  note r = remove_spec [where E = E and el = el, OF ok True, of qno "RName k" True, folded assms(2)]
  show ?thesis
  proof (rule q_ok_step [OF conjunct1 [OF r] _ assms(1)])
    fix p j v assume "view E s p j = Some v"
    then show "items_ok j v \<or> view E (q_store w) p j = Some v"
      using conjunct2 [OF r] by (auto split: if_splits dest: abs_del_le)
  qed
qed

lemma cleanup_ok: "q_ok E w \<Longrightarrow> q_ok E (cleanup E h w)"
  using remove_ok [OF remove_ok [OF _ refl] refl] by (simp add: cleanup_def Let_def)

lemma shift_queue_ok:
  assumes "shift_queue q = (f, rest, k)" and "InProgress \<notin> set (tl q)"
  shows "InProgress \<notin> set rest" "f \<noteq> Some InProgress" "f = None \<Longrightarrow> rest = []"
  using assms by (auto simp: shift_queue_def split: list.splits qitem.splits)

text \<open>
  The contract between the queues and the client functions they run: whatever a function
  does, it leaves the queues as the operations leave them.
\<close>

locale queue_client =
  fixes E :: "nat \<Rightarrow> einfo" and n :: nat and emit :: qemit
  assumes emit_ok: "q_ok E w \<Longrightarrow> keeps (q_ok E) (emit e w)"
begin

lemma resolve_ok: "q_ok E w \<Longrightarrow> keeps (q_ok E) (resolve emit p w)"
  by (simp add: resolve_def Let_def emit_ok)

lemma q_call_ok: "q_ok E w \<Longrightarrow> keeps (q_ok E) (q_call E emit f this args w)"
  by (auto simp: q_call_def cleanup_ok intro!: keeps_bindR resolve_ok split: fn.split ufn.split)

lemma lists: "list_appender (q_call E emit) (q_ok E) UNIV (\<lambda>_ _. True) (\<lambda>_. True)"
  by unfold_locales (simp_all add: q_call_ok)

lemmas fire_ok = list_keeper.fireWith_keeps [OF list_appender.axioms(1) [OF lists] _ UNIV_I]
lemmas add_ok = list_appender.add_keeps [OF lists _ UNIV_I]

lemma run_item_ok: "q_ok E w \<Longrightarrow> keeps (q_ok E) (run_item emit el type hk f w)"
  by (auto simp: run_item_def run_delay_def Let_def emit_ok split: qitem.split option.split)

lemma dequeue_ok: "q_ok E w \<Longrightarrow> keeps (q_ok E) (dequeue E n emit el type0 w)"
proof -
  assume ok: "q_ok E w"
  define type where "type = fx_type type0"
  have tt: "fx_type type = type" by (simp add: type_def fx_type_def)
  obtain q w1 where q: "queue E el type None w = (q, w1)" by (rule prod.exhaust)
  obtain f rest st where sq: "shift_queue q = (f, rest, st)" by (rule prod_cases3)
  define w2 where "w2 = (if q \<noteq> [] then mutate_list E el (type @ ''queue'') rest w1 else w1)"
  obtain hk w3 where h: "queueHooks E el type w2 = (hk, w3)" by (rule prod.exhaust)
  define fire_empty where "fire_empty = (\<lambda>w. if st = 0
     then (case hk of None \<Rightarrow> Done () w | Some h \<Rightarrow> cb_fireWith (q_call E emit) n (Own h) (VObj h) [] w) else Done () w)"
  have w1: "q_ok E w1" by (rule queue_ok [OF ok q]) simp
  have head: "InProgress \<notin> set (tl q) \<and> (found_at (pview E w1 el) (type @ ''queue'') \<noteq> ''fxqueue'' \<longrightarrow> InProgress \<notin> set q)"
  proof (cases "q = []")
    case False
    note f = queue_get(2) [OF ok q False, unfolded tt]
    have "map_ok (view E (q_store w1))" using w1 by (simp add: q_ok_def)
    from map_okD [where M = "view E (q_store w1)" and p = "(el, True)", OF this f] show ?thesis by (simp add: items_ok_def)
  qed simp
  note rest = shift_queue_ok [OF sq conjunct1 [OF head]]
  have "items_ok k (QList rest)" for k using rest(1) by (cases rest) (simp_all add: items_ok_def)
  then have w2: "q_ok E w2" using w1 by (simp add: w2_def mutate_list_ok)
  have w3: "q_ok E w3" by (rule queueHooks_ok [OF w2 h])
  have fe: "keeps (q_ok E) (fire_empty w)" if "q_ok E w" for w
    using that by (auto simp: fire_empty_def fire_ok split: option.split)
  have run: "keeps (q_ok E) (bindR (run_item emit el type hk g (delete_stop hk
       (if type = ''fx'' then mutate_list E el (type @ ''queue'') (InProgress # rest) w3 else w3))) (\<lambda>_ w6. fire_empty w6))" for g
  proof (rule keeps_bindR [OF run_item_ok])
    have "camelCase ''fxqueue'' = ''fxqueue''" by code_simp
    then have "q_ok E (mutate_list E el ''fxqueue'' (InProgress # rest) w3)"
      by (intro mutate_list_ok [OF w3]) (use rest(1) in \<open>simp add: found_at_def items_ok_def\<close>)
    then show "q_ok E (delete_stop hk (if type = ''fx'' then mutate_list E el (type @ ''queue'') (InProgress # rest) w3 else w3))"
      using w3 by (auto simp: delete_stop_def split: option.split)
  qed (rule fe)
  have "dequeue E n emit el type0 w = (case f of None \<Rightarrow> fire_empty w3
      | Some g \<Rightarrow> bindR (run_item emit el type hk g (delete_stop hk
       (if type = ''fx'' then mutate_list E el (type @ ''queue'') (InProgress # rest) w3 else w3))) (\<lambda>_ w6. fire_empty w6))"
    unfolding dequeue_def Let_def type_def [symmetric]
    by (simp only: q prod.case sq w2_def [symmetric] h fire_empty_def)
  then show ?thesis using run fe [OF w3] by (cases f) (simp_all only: option.case)
qed

lemma fn_queue_ok:
  assumes "q_ok E w" and "InProgress \<notin> (case dat of Inl f \<Rightarrow> {f} | Inr fs \<Rightarrow> set fs)"
  shows "keeps (q_ok E) (fn_queue E n emit type dat el w)"
proof -
  obtain q w1 where q: "queue E el type (Some dat) w = (q, w1)" by (rule prod.exhaust)
  obtain hk w2 where h: "queueHooks E el type w1 = (hk, w2)" by (rule prod.exhaust)
  have "q_ok E w1" by (rule queue_ok [OF assms(1) q]) (use assms(2) in simp)
  then have "q_ok E w2" by (rule queueHooks_ok [OF _ h])
  then show ?thesis using q h by (simp add: fn_queue_def dequeue_ok del: split_paired_All)
qed

lemma each_ok: "(\<And>el w. q_ok E w \<Longrightarrow> keeps (q_ok E) (f el w)) \<Longrightarrow> q_ok E w \<Longrightarrow> keeps (q_ok E) (each_el f els w)"
  by (induction els arbitrary: w) (auto intro!: keeps_bindR)

lemma promise_el_ok: "q_ok E w \<Longrightarrow> keeps (q_ok E) (promise_el E n emit p type el w)"
proof -
  assume ok: "q_ok E w"
  obtain r w1 where g: "q_data E el (type @ ''queueHooks'') None w = (r, w1)" by (rule prod.exhaust)
  have "q_ok E w1" by (rule q_data_get_ok [OF ok g])
  then show ?thesis using g by (auto simp: promise_el_def Let_def intro!: add_ok split: option.split)
qed

lemma op_ok: "q_ok E w \<Longrightarrow> keeps (q_ok E) (q_op E n emit c w)"
proof (cases c)
  case (QPromise type els)
  assume "q_ok E w"
  then show ?thesis
    by (auto simp: QPromise promise_def Let_def intro!: keeps_bindR each_ok promise_el_ok resolve_ok)
qed (auto simp: clearQueue_def delay_def q_timer_step_def Let_def intro!: each_ok fn_queue_ok dequeue_ok split: option.split)

lemma ops_ok: "q_ok E w \<Longrightarrow> keeps (q_ok E) (q_ops E n emit cs w)"
  by (induction cs arbitrary: w) (auto intro!: keeps_bindR op_ok)

end

lemma react_ok: "q_ok E w \<Longrightarrow> keeps (q_ok E) (q_react E n code m e w)"
proof (induction m arbitrary: e w)
  case (Suc m)
  have "queue_client E (q_react E n code m)" by unfold_locales (rule Suc.IH)
  note ops = queue_client.ops_ok [OF this]
  show ?case
    using Suc.prems by (auto simp: Let_def intro!: keeps_bindR ops split: option.split)
qed simp

interpretation reacting: queue_client E n "q_react E n code m"
  for E n code m
  by unfold_locales (rule react_ok)

definition new_queues :: qworld where
  "new_queues = \<lparr>objs = (\<lambda>_. new_callbacks (\<lambda>_. False)), q_store = new_store,
     q_hooks = (\<lambda>_. \<lparr>h_el = 0, h_type = [], h_stop = None\<rparr>), q_nhooks = 0, q_timers = [], q_ntimer = 0,
     q_count = (\<lambda>_. 0), q_npromise = 0, qlog = []\<rparr>"

lemma new_queues_ok [simp]: "q_ok E new_queues"
  by (simp add: q_ok_def new_queues_def map_ok_def new_store_view)

text \<open>
  C22: whatever queues, delays, timers, promises and clearing do, and whatever the queue
  functions do when they are run, the sentinel stands at the head of the \<open>fx\<close> queue of an
  element or nowhere, also after an exception.
\<close>

theorem sentinel_at_head:
  "keeps (\<lambda>w. \<forall>p k l. view E (q_store w) p k = Some (QList l) \<longrightarrow>
       InProgress \<notin> set (tl l) \<and> (k \<noteq> ''fxqueue'' \<longrightarrow> InProgress \<notin> set l))
     (q_ops E n (q_react E n code m) cs new_queues)"
proof (rule keeps_mono)
  show "keeps (q_ok E) (q_ops E n (q_react E n code m) cs new_queues)"
    by (rule reacting.ops_ok) simp
  show "\<forall>p k l. view E (q_store w) p k = Some (QList l) \<longrightarrow>
       InProgress \<notin> set (tl l) \<and> (k \<noteq> ''fxqueue'' \<longrightarrow> InProgress \<notin> set l)" if "q_ok E w" for w
    using that map_okD [of "view E (q_store w)"] by (fastforce simp: q_ok_def items_ok_def)
qed

definition idle :: "qevent \<Rightarrow> qworld \<Rightarrow> qprog" where
  "idle e w = \<lparr>p_ops = [], p_throw = None\<rparr>"

definition two_effects :: "(val, unit, qworld) res" where
  "two_effects = q_ops div_env 4 (q_react div_env 4 idle 3) [QQueue ''fx'' 1 [1], QQueue ''fx'' 2 [1]] new_queues"

lemma sentinel_at_head_witness:
  "(case two_effects of
      Done u w \<Rightarrow> view div_env (q_store w) (1, True) ''fxqueue'' = Some (QList [InProgress, QFn 2]) \<and> qlog w = [ERun 1 ''fx'' 1]
    | _ \<Rightarrow> False) \<and>
   keeps (\<lambda>w. \<forall>p k l. view div_env (q_store w) p k = Some (QList l) \<longrightarrow>
       InProgress \<notin> set (tl l) \<and> (k \<noteq> ''fxqueue'' \<longrightarrow> InProgress \<notin> set l)) two_effects"
proof
  show "case two_effects of
      Done u w \<Rightarrow> view div_env (q_store w) (1, True) ''fxqueue'' = Some (QList [InProgress, QFn 2]) \<and> qlog w = [ERun 1 ''fx'' 1]
    | _ \<Rightarrow> False"
    by code_simp
qed (unfold two_effects_def, rule sentinel_at_head)

section \<open>Running a queue\<close>

text \<open>New hooks: an unfired list with the clean-up. Firing it cleans up and empties it.\<close>

definition fresh_empty :: "nat \<Rightarrow> cbs" where
  "fresh_empty h = add_args [AFn (cleanup_fn h)] (new_callbacks (createOptions ''once memory''))"

lemma fresh_empty_eq:
  "fresh_empty h = \<lparr>o_once = True, o_memory = True, o_unique = False, o_stopOnFalse = False, firing = False,
     memory = None, fired = False, firingLength = 0, firingIndex = 0, firingStart = 0,
     cblist = Some [cleanup_fn h], cbstack = None\<rparr>"
proof -
  have "createOptions ''once memory'' ''once''" "createOptions ''once memory'' ''memory''"
    "\<not> createOptions ''once memory'' ''unique''" "\<not> createOptions ''once memory'' ''stopOnFalse''"
    by code_simp+
  then show ?thesis by (simp add: fresh_empty_def new_callbacks_def)
qed

lemma cleanup_store: "objs (cleanup E h w) = objs w" "qlog (cleanup E h w) = qlog w" "q_hooks (cleanup E h w) = q_hooks w"
  by (simp_all add: cleanup_def Let_def)

lemma cleanup_upd: "cleanup E h (upd i g w) = upd i g (cleanup E h w)"
  by (simp add: cleanup_def upd_def Let_def)

lemma fire_fresh:
  assumes "objs w (Own h) = fresh_empty h" and "2 < n"
  shows "\<exists>g. cb_fireWith (q_call E emit) n (Own h) t as w = Done () (upd (Own h) g (cleanup E h w))"
proof -
  have "\<exists>k. n = Suc (Suc (Suc k))" using assms(2) by presburger
  then obtain k where n: "n = Suc (Suc (Suc k))" by blast
  show ?thesis
    using assms(1)
    by (auto simp: n cb_fireWith_def fresh_empty_eq start_fire_def Let_def arr_get_def q_call_def cleanup_fn_def
      cleanup_upd cleanup_store)
qed

text \<open>
  A queue being run: \<open>s\<close> is the sentinel or nothing, \<open>fs\<close> are the functions to come.
\<close>

definition running :: "(nat \<Rightarrow> einfo) \<Rightarrow> nat \<Rightarrow> string \<Rightarrow> nat \<Rightarrow> qitem list \<Rightarrow> nat list \<Rightarrow> qworld \<Rightarrow> bool" where
  "running E el type h s fs w \<longleftrightarrow>
     store_ok (q_store w) \<and> (s = [] \<or> s = [InProgress]) \<and>
     pview E w el (type @ ''queue'') = Some (QList (s @ map QFn fs)) \<and>
     pview E w el (type @ ''queueHooks'') = Some (QHooks h) \<and>
     objs w (Own h) = fresh_empty h \<and> h_el (q_hooks w h) = el \<and> h_type (q_hooks w h) = type"

lemma running_frame [simp]:
  "running E el type h s fs (w\<lparr>qlog := l\<rparr>) = running E el type h s fs w"
  "running E el type h s fs (w\<lparr>q_hooks := (q_hooks w)(h := (q_hooks w h)\<lparr>h_stop := t\<rparr>)\<rparr>) = running E el type h s fs w"
  by (simp_all add: running_def)

lemma entry_some: "view E w (el, p) k = Some v \<Longrightarrow> entry E el w \<noteq> None"
  by (auto simp: view_def split: option.splits)

lemma found_plain: "CHR ''-'' \<notin> set k \<Longrightarrow> found_at m k = k"
  by (simp add: found_at_def camelCase_plain)

lemma running_mutate:
  assumes "running E el type h s fs w" and "CHR ''-'' \<notin> set type" and "s' = [] \<or> s' = [InProgress]"
  shows "running E el type h s' fs' (mutate_list E el (type @ ''queue'') (s' @ map QFn fs') w)"
proof -
  have "pview E w el (type @ ''queue'') = Some (QList (s @ map QFn fs))" using assms(1) by (simp add: running_def)
  note e1 = entry_some [OF this]
  have "store_ok (q_store w)" using assms(1) by (simp add: running_def)
  note e = e1 this
  note m = mutate_list_store [OF e(2), of E el "type @ ''queue''" "s' @ map QFn fs'"]
  have f: "found_at (pview E w el) (type @ ''queue'') = type @ ''queue''"
    using assms(2) by (intro found_plain) simp
  have "objs (mutate_list E el k l w) = objs w" "q_hooks (mutate_list E el k l w) = q_hooks w" for k l
    by (simp_all add: mutate_list_def)
  with m e(1) f assms(1,3) show ?thesis by (auto simp: running_def)
qed

lemma running_data:
  assumes "running E el type h s fs w" and "CHR ''-'' \<notin> set key" and "q_data E el key None w = (r, w')" and "acceptData (E el)"
  shows "running E el type h s fs w'" "r = (case pview E w el key of Some x \<Rightarrow> DVal x | None \<Rightarrow> DUndef)" "qlog w' = qlog w"
proof -
  have ok: "store_ok (q_store w)" using assms(1) by (simp add: running_def)
  from q_data_get [OF ok assms(3)] obtain st where s: "w' = w\<lparr>q_store := st\<rparr>" "store_ok st" "view E st = view E (q_store w)"
    "r = (if acceptData (E el) then (case pview E w el (found_at (pview E w el) key) of Some x \<Rightarrow> DVal x | None \<Rightarrow> DUndef) else DUndef)" .
  show "running E el type h s fs w'" using assms(1) s by (simp add: running_def)
  show "r = (case pview E w el key of Some x \<Rightarrow> DVal x | None \<Rightarrow> DUndef)" "qlog w' = qlog w"
    using s assms(4) found_plain [OF assms(2)] by simp_all
qed

lemma running_get:
  assumes "running E el type h s fs w" and "CHR ''-'' \<notin> set type" and "acceptData (E el)" and "type \<noteq> []"
  obtains w1 where "queue E el type None w = (s @ map QFn fs, w1)" "running E el type h s fs w1" "qlog w1 = qlog w"
proof -
  obtain r w1 where q: "q_data E el (type @ ''queue'') None w = (r, w1)" by (rule prod.exhaust)
  have k: "CHR ''-'' \<notin> set (type @ ''queue'')" using assms(2) by simp
  note d = running_data [OF assms(1) k q assms(3)]
  have "r = DVal (QList (s @ map QFn fs))" using d(2) assms(1) by (simp add: running_def)
  then have "queue E el type None w = (s @ map QFn fs, w1)"
    using q assms(4) by (simp add: queue_def fx_type_def as_list_def)
  with d that show thesis by blast
qed

lemma running_hooks:
  assumes "running E el type h s fs w" and "CHR ''-'' \<notin> set type" and "acceptData (E el)"
  obtains w1 where "queueHooks E el type w = (Some h, w1)" "running E el type h s fs w1" "qlog w1 = qlog w"
proof -
  obtain r w1 where q: "q_data E el (type @ ''queueHooks'') None w = (r, w1)" by (rule prod.exhaust)
  have k: "CHR ''-'' \<notin> set (type @ ''queueHooks'')" using assms(2) by simp
  note d = running_data [OF assms(1) k q assms(3)]
  have "r = DVal (QHooks h)" using d(2) assms(1) by (simp add: running_def)
  then have "queueHooks E el type w = (Some h, w1)" using q by (simp add: queueHooks_def as_hooks_def)
  with d that show thesis by blast
qed

lemma running_cleanup:
  assumes "running E el type h s fs w" and "acceptData (E el)" and "CHR ''-'' \<notin> set type"
  shows "pview E (cleanup E h w) el (type @ ''queue'') = None" "pview E (cleanup E h w) el (type @ ''queueHooks'') = None"
proof -
  define s1 where "s1 = internalRemoveData E qno el (RName (type @ ''queue'')) True (q_store w)"
  define s2 where "s2 = internalRemoveData E qno el (RName (type @ ''queueHooks'')) True s1"
  have c: "q_store (cleanup E h w) = s2" using assms(1) by (simp add: cleanup_def Let_def s1_def s2_def running_def)
  have ok: "store_ok (q_store w)" using assms(1) by (simp add: running_def)
  note r1 = remove_spec [where E = E and el = el, OF ok assms(2), of qno "RName (type @ ''queue'')" True, folded s1_def]
  note r2 = remove_spec [where E = E and el = el, OF conjunct1 [OF r1] assms(2), of qno "RName (type @ ''queueHooks'')" True, folded s2_def]
  have v1: "view E s1 (el, True) = (pview E w el)(type @ ''queue'' := None)"
    using conjunct2 [OF r1] assms(1,2) by (auto simp: named_def abs_names_def abs_del_def running_def)
  have "type @ ''queueHooks'' \<noteq> type @ ''queue''" by simp
  then have v2: "view E s2 (el, True) = (view E s1 (el, True))(type @ ''queueHooks'' := None)"
    using conjunct2 [OF r2] v1 assms(1,2) by (auto simp: named_def abs_names_def abs_del_def running_def)
  show "pview E (cleanup E h w) el (type @ ''queue'') = None" "pview E (cleanup E h w) el (type @ ''queueHooks'') = None"
    by (simp_all add: c v1 v2)
qed

lemma shift_running:
  "s = [] \<or> s = [InProgress] \<Longrightarrow> shift_queue (s @ map QFn []) = (None, [], 0)"
  "s = [] \<or> s = [InProgress] \<Longrightarrow> shift_queue (s @ map QFn (f # fs)) = (Some (QFn f), map QFn fs, int (Suc (length fs)))"
  by (auto simp: shift_queue_def)

lemma mutate_log [simp]: "qlog (mutate_list E el key l w) = qlog w"
  by (simp add: mutate_list_def)

lemma run_out:
  assumes r: "running E el type h s [] w" and t: "CHR ''-'' \<notin> set type" "type \<noteq> []" and a: "acceptData (E el)" and n: "2 < n"
  shows "\<exists>w'. dequeue E n emit el type w = Done () w' \<and> qlog w' = qlog w \<and>
    pview E w' el (type @ ''queue'') = None \<and> pview E w' el (type @ ''queueHooks'') = None"
proof -
  have ty: "fx_type type = type" using t(2) by (simp add: fx_type_def)
  obtain w1 where w1: "queue E el type None w = (s @ map QFn [], w1)" "running E el type h s [] w1" "qlog w1 = qlog w"
    using running_get [OF r t(1) a t(2)] .
  have s: "s = [] \<or> s = [InProgress]" using r by (simp add: running_def)
  define w2 where "w2 = (if s @ map QFn [] \<noteq> [] then mutate_list E el (type @ ''queue'') [] w1 else w1)"
  have w2: "running E el type h [] [] w2" "qlog w2 = qlog w"
    using w1(2,3) s running_mutate [OF w1(2) t(1), of "[]" "[]"] by (auto simp: w2_def)
  obtain w3 where w3: "queueHooks E el type w2 = (Some h, w3)" "running E el type h [] [] w3" "qlog w3 = qlog w2"
    using running_hooks [OF w2(1) t(1) a] .
  have "objs w3 (Own h) = fresh_empty h" using w3(2) by (simp add: running_def)
  from fire_fresh [OF this n] obtain g where
    g: "cb_fireWith (q_call E emit) n (Own h) (VObj h) [] w3 = Done () (upd (Own h) g (cleanup E h w3))" by blast
  have "dequeue E n emit el type w = Done () (upd (Own h) g (cleanup E h w3))"
    unfolding dequeue_def Let_def ty
    by (simp only: w1(1) prod.case shift_running(1) [OF s] w2_def [symmetric] w3(1) option.case g if_True refl)
  moreover have "q_store (upd (Own h) g (cleanup E h w3)) = q_store (cleanup E h w3)"
    "qlog (upd (Own h) g (cleanup E h w3)) = qlog w"
    using w3(3) w2(2) by (simp_all add: upd_def cleanup_store)
  ultimately show ?thesis using running_cleanup [OF w3(2) a t(1)] by auto
qed

lemma run_step:
  assumes r: "running E el type h s (f # fs) w" and t: "CHR ''-'' \<notin> set type" "type \<noteq> []" and a: "acceptData (E el)"
  obtains w5 s' where "dequeue E n emit el type w = bindR (emit (ERun el type f) w5) (\<lambda>_ w6. Done () w6)"
    "running E el type h s' fs w5" "qlog w5 = qlog w"
proof -
  have ty: "fx_type type = type" using t(2) by (simp add: fx_type_def)
  obtain w1 where w1: "queue E el type None w = (s @ map QFn (f # fs), w1)" "running E el type h s (f # fs) w1" "qlog w1 = qlog w"
    using running_get [OF r t(1) a t(2)] .
  have s: "s = [] \<or> s = [InProgress]" using r by (simp add: running_def)
  define w2 where "w2 = mutate_list E el (type @ ''queue'') (map QFn fs) w1"
  have w2: "running E el type h [] fs w2" "qlog w2 = qlog w"
    using w1(3) running_mutate [OF w1(2) t(1), of "[]" fs] by (simp_all add: w2_def)
  obtain w3 where w3: "queueHooks E el type w2 = (Some h, w3)" "running E el type h [] fs w3" "qlog w3 = qlog w2"
    using running_hooks [OF w2(1) t(1) a] .
  define w4 where "w4 = (if type = ''fx'' then mutate_list E el (type @ ''queue'') (InProgress # map QFn fs) w3 else w3)"
  define s' where "s' = (if type = ''fx'' then [InProgress] else [])"
  have w4: "running E el type h s' fs w4" "qlog w4 = qlog w"
    using w3 w2(2) running_mutate [OF w3(2) t(1), of "[InProgress]" fs] by (auto simp: w4_def s'_def)
  have nz: "int (Suc (length fs)) \<noteq> 0" by simp
  have ne: "s @ map QFn (f # fs) \<noteq> []" by simp
  have "dequeue E n emit el type w = bindR (emit (ERun el type f) (delete_stop (Some h) w4)) (\<lambda>_ w6. Done () w6)"
    unfolding dequeue_def Let_def ty
    by (simp only: w1(1) prod.case shift_running(2) [OF s] w2_def [symmetric] w3(1) option.case w4_def [symmetric]
      ne if_P nz not_False_eq_True if_False run_item_def qitem.case if_True)
  moreover have "running E el type h s' fs (delete_stop (Some h) w4)" "qlog (delete_stop (Some h) w4) = qlog w"
    using w4 by (simp_all add: delete_stop_def)
  ultimately show thesis using that by blast
qed

text \<open>
  C21: dequeuing a queue whose functions each dequeue the next one runs all of them, once
  each and in the order they were queued, under the sentinel or not; then the queue and its
  hooks are gone from the element.
\<close>

theorem queue_runs_in_order:
  assumes "running E el type h s fs w" and "CHR ''-'' \<notin> set type" and "type \<noteq> []" and "acceptData (E el)"
    and "\<forall>f \<in> set fs. \<forall>w. code (ERun el type f) w = \<lparr>p_ops = [QDequeue el type], p_throw = None\<rparr>"
    and "length fs \<le> m" and "2 < n"
  shows "\<exists>w'. dequeue E n (q_react E n code m) el type w = Done () w' \<and> qlog w' = qlog w @ map (ERun el type) fs \<and>
    view E (q_store w') (el, True) (type @ ''queue'') = None \<and>
    view E (q_store w') (el, True) (type @ ''queueHooks'') = None"
  using assms(1,5,6)
proof (induction fs arbitrary: s w m)
  case Nil
  show ?case using run_out [OF Nil.prems(1) assms(2-4,7)] by simp
next
  case (Cons f fs)
  obtain m' where m: "m = Suc m'" "length fs \<le> m'" using Cons.prems(3) by (cases m) auto
  obtain w5 s' where st: "dequeue E n (q_react E n code m) el type w = bindR (q_react E n code m (ERun el type f) w5) (\<lambda>_ w6. Done () w6)"
    "running E el type h s' fs w5" "qlog w5 = qlog w"
    by (rule run_step [OF Cons.prems(1) assms(2-4)])
  have r: "running E el type h s' fs (w5\<lparr>qlog := qlog w5 @ [ERun el type f]\<rparr>)" using st(2) by simp
  from Cons.IH [OF r _ m(2)] Cons.prems(2) obtain w' where
    w': "dequeue E n (q_react E n code m') el type (w5\<lparr>qlog := qlog w5 @ [ERun el type f]\<rparr>) = Done () w'"
    "qlog w' = qlog w5 @ [ERun el type f] @ map (ERun el type) fs"
    "pview E w' el (type @ ''queue'') = None" "pview E w' el (type @ ''queueHooks'') = None" by auto
  have "q_react E n code m (ERun el type f) w5 = Done () w'"
    using w'(1) Cons.prems(2) by (simp add: m(1) Let_def)
  with st(1,3) w'(2-4) show ?case by simp
qed

definition chain :: "qevent \<Rightarrow> qworld \<Rightarrow> qprog" where
  "chain e w = (case e of ERun el type f \<Rightarrow> \<lparr>p_ops = [QDequeue el type], p_throw = None\<rparr> | _ \<Rightarrow> \<lparr>p_ops = [], p_throw = None\<rparr>)"

definition steps_queued :: qworld where
  "steps_queued = (case q_ops div_env 4 (q_react div_env 4 idle 3) [QSet ''steps'' [1, 2, 3] [1]] new_queues of
     Done u w \<Rightarrow> w | _ \<Rightarrow> new_queues)"

lemma queue_runs_in_order_witness:
  "\<exists>w'. dequeue div_env 4 (q_react div_env 4 chain 5) 1 ''steps'' steps_queued = Done () w' \<and>
     qlog w' = qlog steps_queued @ map (ERun 1 ''steps'') [1, 2, 3] \<and>
     view div_env (q_store w') (1, True) (''steps'' @ ''queue'') = None \<and>
     view div_env (q_store w') (1, True) (''steps'' @ ''queueHooks'') = None"
proof (rule queue_runs_in_order)
  have "store_ok (q_store steps_queued)"
  proof -
    have keeps_start: "keeps (q_ok div_env) r \<Longrightarrow> q_ok div_env (case r of Done u w \<Rightarrow> w | _ \<Rightarrow> new_queues)"
      for r :: "(val, unit, qworld) res"
      by (cases r) simp_all
    have "q_ok div_env steps_queued"
      unfolding steps_queued_def by (rule keeps_start, rule reacting.ops_ok) simp
    then show ?thesis by (simp add: q_ok_def)
  qed
  moreover have "pview div_env steps_queued 1 (''steps'' @ ''queue'') = Some (QList ([] @ map QFn [1, 2, 3])) \<and>
    pview div_env steps_queued 1 (''steps'' @ ''queueHooks'') = Some (QHooks 0) \<and>
    objs steps_queued (Own 0) = fresh_empty 0 \<and> h_el (q_hooks steps_queued 0) = 1 \<and> h_type (q_hooks steps_queued 0) = ''steps''"
    by code_simp
  ultimately show "running div_env 1 ''steps'' 0 [] [1, 2, 3] steps_queued"
    unfolding running_def by blast
  show "acceptData (div_env 1)" by code_simp
qed (simp_all add: chain_def)

end
