(* ===== verification/JqEventNames.thy ===== *)
theory JqEventNames
  imports JqCallbacks JsRegExp "HOL-Library.List_Lexorder" "HOL-Library.Char_ord" "HOL-Library.Sublist"
    "HOL-Library.Multiset"
begin

text \<open>
  The names of events in \<open>democlient/js/jquery.js\<close>: words such as \<open>click.menu.open\<close> with a
  type and namespaces, how \<open>jQuery.event\<close> takes them apart, and the regular expression by
  which it compares namespaces. The lemmas show what the two expressions accept: a word is
  split at its first dot, and the comparison is the inclusion of the names, counted.
\<close>

section \<open>Types and namespaces\<close>

definition rtypenamespace :: re where
  "rtypenamespace = seqs [Bol False, Grp 1 (Star True (Ch (\<lambda>c. c \<noteq> CHR ''.''))),
     Alt (Seq (lit ''.'') (Grp 2 (plus (Ch dotc)))) Eps, Eol False]"

definition tokens :: "string \<Rightarrow> string list" where
  "tokens types = (if match_notwhite types = [] then [[]] else match_notwhite types)"

definition token_type :: "string \<Rightarrow> string option" where
  "token_type t = re_group rtypenamespace t 1"

definition token_rest :: "string \<Rightarrow> string" where
  "token_rest t = (case re_group rtypenamespace t 2 of Some s \<Rightarrow> s | None \<Rightarrow> [])"

definition token_namespaces :: "string \<Rightarrow> string list" where
  "token_namespaces t = sort (split_on (CHR ''.'') (token_rest t))"

text \<open>
  The expression that tests namespaces. The source puts the names into the text of a regular
  expression as they are, so this is its meaning for \<open>plain_name\<close>s only: a name with
  other characters means something else there, or the constructor throws. The properties
  of \<open>JqEvent\<close> are about plain names.
\<close>

definition plain_name :: "string \<Rightarrow> bool" where
  "plain_name n = (\<forall>c \<in> set n. c \<notin> set ''^$.*+?()[]{}|'' \<and> c \<noteq> CHR 0x5C)"

definition ns_gap :: re where
  "ns_gap = Seq (lit ''.'') (Alt (Seq (Star True (Ch dotc)) (lit ''.'')) Eps)"

fun ns_chain :: "string list \<Rightarrow> re" where
  "ns_chain [] = Eps"
| "ns_chain [n] = lit n"
| "ns_chain (n # ns) = Seq (lit n) (Seq ns_gap (ns_chain ns))"

definition ns_re :: "string list \<Rightarrow> re" where
  "ns_re ns = seqs [Grp 1 (Alt (Bol False) (lit ''.'')), ns_chain ns, Grp 2 (Alt (lit ''.'') (Eol False))]"

section \<open>Parsing a token\<close>

abbreviation nodot :: "char \<Rightarrow> bool" where "nodot c \<equiv> c \<noteq> CHR ''.''"

text \<open>The type and the rest after the first dot; a dot with nothing behind it is no token.\<close>

definition token_parse :: "string \<Rightarrow> (string \<times> string) option" where
  "token_parse t =
     (let a = takeWhile nodot t; r = dropWhile nodot t in
      if r = [] then Some (a, []) else if tl r = [] then None else Some (a, tl r))"

definition no_newline :: "string \<Rightarrow> bool" where
  "no_newline t = (\<forall>c \<in> set t. dotc c)"

lemma token_matches:
  assumes nn: "no_newline t"
  defines "n \<equiv> length (takeWhile nodot t)"
  shows "matches t (seqs [Grp 1 (Star True (Ch nodot)), Alt (Seq (lit ''.'') (Grp 2 (plus (Ch dotc)))) Eps, Eol False]) (0, []) =
    (if n = length t then [(n, [(1, 0, n)])] else if Suc n = length t then []
     else [(length t, [(2, Suc n, length t), (1, 0, n)])])"
proof -
  have n: "n = run_at nodot t 0" by (simp add: n_def run_at_def)
  have nle: "n \<le> length t" using run_at_le [of 0 t nodot] n by simp
  have ends: "matches t (Seq (Eol False) Eps) (j, cs) = (if length t \<le> j then [(j, cs)] else [])" for j cs by simp
  have eol: "matches t (Seq a (Seq (Eol False) Eps)) st =
      concat (map (\<lambda>st'. if length t \<le> fst st' then [st'] else []) (matches t a st))" for a st
  proof -
    have "matches t (Seq (Eol False) Eps) = (\<lambda>st'. if length t \<le> fst st' then [st'] else [])"
      by (rule ext) (auto simp: ends split: prod.splits)
    then show ?thesis by simp
  qed
  define tail where "tail = (\<lambda>j. matches t (seqs [Alt (Seq (lit ''.'') (Grp 2 (plus (Ch dotc)))) Eps, Eol False]) (j, [(1, 0, j)]))"
  have dot_at: "matches t (lit ''.'') (j, cs) = (if j < length t \<and> t ! j = CHR ''.'' then [(Suc j, cs)] else [])" for j cs
    by (auto simp: lit_def)
  have early: "tail j = []" if "j < n" for j
  proof -
    have "nodot (t ! j)" using run_at_inside [of 0 j nodot t] that n by simp
    then show ?thesis using that nle by (simp add: tail_def seqs_def dot_at)
  qed
  have "matches t (seqs [Grp 1 (Star True (Ch nodot)), Alt (Seq (lit ''.'') (Grp 2 (plus (Ch dotc)))) Eps, Eol False]) (0, [])
      = concat (map tail (rev [0..<Suc n]))"
    by (simp add: seqs_def star_class n tail_def comp_def del: matches.simps(5) upt_Suc)
  also have "\<dots> = tail n" by (rule concat_rev_last) (simp_all add: early)
  also have "tail n = (if n = length t then [(n, [(1, 0, n)])] else if Suc n = length t then []
     else [(length t, [(2, Suc n, length t), (1, 0, n)])])"
  proof (cases "n = length t")
    case True
    then show ?thesis by (simp add: tail_def seqs_def dot_at)
  next
    case False
    then have lt: "n < length t" using nle by simp
    have dot: "t ! n = CHR ''.''" using run_at_stop [of nodot t 0] lt n by auto
    define close where "close = (\<lambda>j. if length t \<le> j then [(j, [(2 :: nat, Suc n, j), (1, 0, n)])] else [])"
    have pl: "matches t (plus (Ch dotc)) (Suc n, cs) =
        (if Suc n < length t then map (\<lambda>j. (j, cs)) (rev [Suc (Suc n)..<Suc (length t)]) else [])" for cs
      using nn lt run_at_all [of "Suc n" t dotc] by (auto simp: plus_class no_newline_def)
    have tl: "tail n = (if Suc n < length t then concat (map close (rev [Suc (Suc n)..<Suc (length t)])) else [])"
      using lt dot unfolding tail_def seqs_def foldr.simps comp_apply id_apply eol
      by (simp add: dot_at pl close_def comp_def del: upt_Suc cong: if_cong)
    show ?thesis
    proof (cases "Suc n < length t")
      case True
      have "concat (map close (rev [Suc (Suc n)..<Suc (length t)])) = close (length t)"
        by (rule concat_rev_last) (use True in \<open>simp_all add: close_def\<close>)
      then show ?thesis using tl True by (simp add: close_def)
    next
      case False
      then show ?thesis using tl lt by simp
    qed
  qed
  finally show ?thesis .
qed

lemma token_spec:
  assumes "no_newline t"
  shows "token_type t = map_option fst (token_parse t)"
    "token_rest t = (case token_parse t of Some (a, r) \<Rightarrow> r | None \<Rightarrow> [])"
proof -
  define a where "a = takeWhile nodot t"
  define r where "r = dropWhile nodot t"
  have t: "t = a @ r" by (simp add: a_def r_def)
  have sa: "sub t 0 (length a) = a" and sr: "sub t (Suc (length a)) (length t) = tl r"
    by (simp_all add: t sub_def drop_Suc)
  have ex: "re_exec rtypenamespace t = (if r = [] then Some (0, length a, [(1, 0, length a)])
      else if tl r = [] then None else Some (0, length t, [(2, Suc (length a), length t), (1, 0, length a)]))"
  proof -
    have "length a = length t \<longleftrightarrow> r = []" "Suc (length a) = length t \<longleftrightarrow> r \<noteq> [] \<and> tl r = []"
      by (cases r; simp add: t)+
    with token_matches [OF assms, folded a_def] show ?thesis
      unfolding rtypenamespace_def seqs_def foldr.simps comp_apply id_apply exec_anchored by simp
  qed
  have p: "token_parse t = (if r = [] then Some (a, []) else if tl r = [] then None else Some (a, tl r))"
    unfolding token_parse_def Let_def a_def r_def ..
  show "token_type t = map_option fst (token_parse t)"
    using sa by (simp add: token_type_def re_group_def ex p cap_def)
  show "token_rest t = (case token_parse t of Some (a, r) \<Rightarrow> r | None \<Rightarrow> [])"
    using sr by (simp add: token_rest_def re_group_def ex p cap_def)
qed

section \<open>Namespaces\<close>

abbreviation ends :: "string \<Rightarrow> re \<Rightarrow> nat \<times> caps \<Rightarrow> nat set" where
  "ends s r st \<equiv> fst ` set (matches s r st)"

lemma ends_mem: "(a, c) \<in> set (matches s r st) \<Longrightarrow> a \<in> ends s r st"
  by force

lemma ends_lit: "i \<le> length s \<Longrightarrow> ends s (lit n) (i, cs) = {j. i \<le> j \<and> j \<le> length s \<and> drop i s = n @ drop j s}"
proof -
  assume i: "i \<le> length s"
  have "sub s i (i + length n) = n \<longleftrightarrow> i + length n \<le> length s \<and> drop i s = n @ drop (i + length n) s"
  proof
    assume "sub s i (i + length n) = n"
    then have t: "take (length n) (drop i s) = n" by (simp add: sub_def)
    then have "length (take (length n) (drop i s)) = length n" by simp
    then have "length n \<le> length s - i" by simp
    with i t show "i + length n \<le> length s \<and> drop i s = n @ drop (i + length n) s"
      by (metis add.commute append_take_drop_id drop_drop le_diff_conv2)
  next
    assume "i + length n \<le> length s \<and> drop i s = n @ drop (i + length n) s"
    then show "sub s i (i + length n) = n" by (simp add: sub_def)
  qed
  note sub_n = this
  have uniq: "j = i + length n" if "i \<le> j" "j \<le> length s" "drop i s = n @ drop j s" for j
  proof -
    have "length s - i = length n + (length s - j)" by (metis that(3) length_append length_drop)
    then show ?thesis using that(1,2) i by linarith
  qed
  have L: "ends s (lit n) (i, cs) = (if sub s i (i + length n) = n then {i + length n} else {})"
    using i by (cases n) (simp_all add: matches_lit)
  show ?thesis
  proof (intro set_eqI iffI)
    fix j assume "j \<in> ends s (lit n) (i, cs)"
    then have j: "j = i + length n" and "sub s i (i + length n) = n" unfolding L by (auto split: if_splits)
    then show "j \<in> {j. i \<le> j \<and> j \<le> length s \<and> drop i s = n @ drop j s}" using sub_n le_add1 [of i "length n"] unfolding j by blast
  next
    fix j assume "j \<in> {j. i \<le> j \<and> j \<le> length s \<and> drop i s = n @ drop j s}"
    then have c: "i \<le> j" "j \<le> length s" "drop i s = n @ drop j s" by blast+
    have j: "j = i + length n" by (rule uniq [OF c])
    have "sub s i (i + length n) = n" using sub_n c(2,3) unfolding j by blast
    then show "j \<in> ends s (lit n) (i, cs)" unfolding L j by simp
  qed
qed

lemma ends_seq: "ends s (Seq a b) st = (\<Union>st' \<in> set (matches s a st). ends s b st')"
  by auto

lemma seq_nonempty: "matches s (Seq a b) st \<noteq> [] \<longleftrightarrow> (\<exists>p \<in> set (matches s a st). matches s b p \<noteq> [])"
  by auto

lemma ends_gap:
  assumes "no_newline s" and "i \<le> length s"
  shows "ends s ns_gap (i, cs) = {k. i < k \<and> k \<le> length s \<and> s ! i = CHR ''.'' \<and> s ! (k - 1) = CHR ''.''}"
proof -
  have dot: "matches s (lit ''.'') (j, cs) = (if j < length s \<and> s ! j = CHR ''.'' then [(Suc j, cs)] else [])" for j cs
    by (auto simp: lit_def)
  have st: "matches s (Star True (Ch dotc)) (Suc i, cs) = map (\<lambda>j. (j, cs)) (rev [Suc i..<Suc (length s)])"
    if "i < length s" for cs
    using that assms(1) run_at_all [of "Suc i" s dotc] by (auto simp: star_class no_newline_def simp del: matches.simps(5) upt_Suc)
  have "ends s ns_gap (i, cs) = (if i < length s \<and> s ! i = CHR ''.''
      then insert (Suc i) {k. \<exists>j. Suc i \<le> j \<and> j < length s \<and> s ! j = CHR ''.'' \<and> k = Suc j} else {})"
    unfolding ns_gap_def
    by (auto simp: dot st image_iff less_Suc_eq_le split: if_splits simp del: matches.simps(5) upt_Suc)
  also have "\<dots> = {k. i < k \<and> k \<le> length s \<and> s ! i = CHR ''.'' \<and> s ! (k - 1) = CHR ''.''}"
  proof (intro set_eqI iffI)
    fix k assume k: "k \<in> {k. i < k \<and> k \<le> length s \<and> s ! i = CHR ''.'' \<and> s ! (k - 1) = CHR ''.''}"
    then obtain j where "k = Suc j" by (cases k) auto
    with k show "k \<in> (if i < length s \<and> s ! i = CHR ''.''
      then insert (Suc i) {k. \<exists>j. Suc i \<le> j \<and> j < length s \<and> s ! j = CHR ''.'' \<and> k = Suc j} else {})"
      by (cases "j = i") auto
  qed (auto split: if_splits)
  finally show ?thesis .
qed

text \<open>What a chain of names leaves of a string, and whether it fits somewhere at the bounds of names.\<close>

definition at_bound :: "string \<Rightarrow> bool" where
  "at_bound u = (u = [] \<or> hd u = CHR ''.'')"

definition skips :: "string \<Rightarrow> string \<Rightarrow> bool" where
  "skips t u = (\<exists>pre. t = pre @ u \<and> (pre = [] \<or> last pre = CHR ''.''))"

fun fits :: "string list \<Rightarrow> string \<Rightarrow> string \<Rightarrow> bool" where
  "fits [] t u = (u = t)"
| "fits [n] t u = (t = n @ u)"
| "fits (n # ns) t u = (\<exists>v w. t = n @ CHR ''.'' # v \<and> skips v w \<and> fits ns w u)"

lemma drop_eq_Cons: "i < length s \<Longrightarrow> s ! i = c \<Longrightarrow> drop i s = c # drop (Suc i) s"
  by (simp add: Cons_nth_drop_Suc [symmetric])

lemma skips_drop:
  assumes "a \<le> length s"
  shows "a \<le> k \<and> k \<le> length s \<and> (k = a \<or> s ! (k - 1) = CHR ''.'') \<Longrightarrow> skips (drop a s) (drop k s)"
    "skips (drop a s) w \<Longrightarrow> \<exists>k. a \<le> k \<and> k \<le> length s \<and> (k = a \<or> s ! (k - 1) = CHR ''.'') \<and> w = drop k s"
proof -
  assume k: "a \<le> k \<and> k \<le> length s \<and> (k = a \<or> s ! (k - 1) = CHR ''.'')"
  have e: "drop a s = take (k - a) (drop a s) @ drop k s" using k by (metis append_take_drop_id drop_drop le_add_diff_inverse2)
  have "last (take (k - a) (drop a s)) = s ! (k - 1)" if "k \<noteq> a"
  proof -
    have "last (take (k - a) (drop a s)) = take (k - a) (drop a s) ! (k - a - 1)"
      using that k by (subst last_conv_nth) auto
    also have "\<dots> = drop a s ! (k - a - 1)" by (rule nth_take) (use that k in linarith)
    also have "\<dots> = s ! (k - 1)" using that k assms by simp
    finally show ?thesis .
  qed
  then show "skips (drop a s) (drop k s)" unfolding skips_def using e k by (intro exI [of _ "take (k - a) (drop a s)"]) auto
next
  assume "skips (drop a s) w"
  then obtain pre where pre: "drop a s = pre @ w" "pre = [] \<or> last pre = CHR ''.''" by (auto simp: skips_def)
  define k where "k = a + length pre"
  have len: "length s - a = length pre + length w" using pre(1) by (metis length_append length_drop)
  have w: "w = drop k s" 
  proof -
    have "drop k s = drop (length pre) (drop a s)" by (simp add: k_def add.commute)
    then show ?thesis by (simp add: pre(1))
  qed
  have "s ! (k - 1) = CHR ''.''" if "k \<noteq> a"
  proof -
    have ne: "pre \<noteq> []" using that by (simp add: k_def)
    then have "last pre = (pre @ w) ! (length pre - 1)" by (simp add: last_conv_nth nth_append)
    also have "\<dots> = s ! (a + (length pre - 1))" using assms by (simp flip: pre(1))
    finally show ?thesis using pre(2) ne by (cases pre) (simp_all add: k_def)
  qed
  then show "\<exists>k. a \<le> k \<and> k \<le> length s \<and> (k = a \<or> s ! (k - 1) = CHR ''.'') \<and> w = drop k s"
    using w len assms by (intro exI [of _ k]) (auto simp: k_def)
qed

lemma ends_chain:
  assumes "no_newline s"
  shows "i \<le> length s \<Longrightarrow> ends s (ns_chain ns) (i, cs) = {j. i \<le> j \<and> j \<le> length s \<and> fits ns (drop i s) (drop j s)}"
proof (induction ns arbitrary: i cs rule: ns_chain.induct)
  case 1
  then show ?case by (auto dest: arg_cong [where f = length])
next
  case (2 n)
  then show ?case by (simp add: ends_lit)
next
  case (3 n m ns)
  have "ends s (ns_chain (n # m # ns)) (i, cs) =
      {j. \<exists>a k. i \<le> a \<and> a \<le> length s \<and> drop i s = n @ drop a s \<and>
          a < k \<and> k \<le> length s \<and> s ! a = CHR ''.'' \<and> s ! (k - 1) = CHR ''.'' \<and>
          k \<le> j \<and> j \<le> length s \<and> fits (m # ns) (drop k s) (drop j s)}" (is "?L = ?R")
  proof (intro set_eqI iffI)
    fix j assume "j \<in> ?L"
    then obtain st1 st2 where s12: "st1 \<in> set (matches s (lit n) (i, cs))" "st2 \<in> set (matches s ns_gap st1)"
      "j \<in> ends s (ns_chain (m # ns)) st2" unfolding ns_chain.simps ends_seq UN_iff by blast
    obtain a cs1 where st1: "st1 = (a, cs1)" by (rule prod.exhaust)
    obtain k cs2 where st2: "st2 = (k, cs2)" by (rule prod.exhaust)
    have a: "i \<le> a \<and> a \<le> length s \<and> drop i s = n @ drop a s"
      using ends_mem [OF s12(1) [unfolded st1]] unfolding ends_lit [OF 3(2)] by simp
    have k: "a < k \<and> k \<le> length s \<and> s ! a = CHR ''.'' \<and> s ! (k - 1) = CHR ''.''"
      using ends_mem [OF s12(2) [unfolded st1 st2]] unfolding ends_gap [OF assms conjunct1 [OF conjunct2 [OF a]]] by simp
    have j: "k \<le> j \<and> j \<le> length s \<and> fits (m # ns) (drop k s) (drop j s)"
      using s12(3) k unfolding st2 by (simp only: 3(1) mem_Collect_eq)
    from a k j show "j \<in> ?R" by blast
  next
    fix j assume "j \<in> ?R"
    then obtain a k where a: "i \<le> a \<and> a \<le> length s \<and> drop i s = n @ drop a s"
      and k: "a < k \<and> k \<le> length s \<and> s ! a = CHR ''.'' \<and> s ! (k - 1) = CHR ''.''"
      and j: "k \<le> j \<and> j \<le> length s \<and> fits (m # ns) (drop k s) (drop j s)" by blast
    have "a \<in> ends s (lit n) (i, cs)" using ends_lit [OF 3(2), of n cs] a by simp
    then obtain cs1 where c1: "(a, cs1) \<in> set (matches s (lit n) (i, cs))" by auto
    have "k \<in> ends s ns_gap (a, cs1)" using ends_gap [OF assms, of a cs1] a k by simp
    then obtain cs2 where c2: "(k, cs2) \<in> set (matches s ns_gap (a, cs1))" by auto
    have "j \<in> ends s (ns_chain (m # ns)) (k, cs2)" using 3(1) [of k cs2] k j by simp
    with c1 c2 show "j \<in> ?L" unfolding ns_chain.simps ends_seq UN_iff by blast
  qed
  also have "\<dots> = {j. i \<le> j \<and> j \<le> length s \<and> fits (n # m # ns) (drop i s) (drop j s)}"
  proof (intro set_eqI iffI)
    fix j assume "j \<in> {j. \<exists>a k. i \<le> a \<and> a \<le> length s \<and> drop i s = n @ drop a s \<and>
          a < k \<and> k \<le> length s \<and> s ! a = CHR ''.'' \<and> s ! (k - 1) = CHR ''.'' \<and>
          k \<le> j \<and> j \<le> length s \<and> fits (m # ns) (drop k s) (drop j s)}"
    then obtain a k where a: "i \<le> a" "a \<le> length s" "drop i s = n @ drop a s"
      and k: "a < k" "k \<le> length s" "s ! a = CHR ''.''" "s ! (k - 1) = CHR ''.''"
      and j: "k \<le> j" "j \<le> length s" "fits (m # ns) (drop k s) (drop j s)" by blast
    have "drop i s = n @ CHR ''.'' # drop (Suc a) s" using a(3) k drop_eq_Cons [of a s] by simp
    moreover have "skips (drop (Suc a) s) (drop k s)" by (rule skips_drop) (use k in auto)
    ultimately have "fits (n # m # ns) (drop i s) (drop j s)" using j(3) by auto
    with a k j show "j \<in> {j. i \<le> j \<and> j \<le> length s \<and> fits (n # m # ns) (drop i s) (drop j s)}" by simp
  next
    fix j assume "j \<in> {j. i \<le> j \<and> j \<le> length s \<and> fits (n # m # ns) (drop i s) (drop j s)}"
    then obtain v w where j: "j \<le> length s" "drop i s = n @ CHR ''.'' # v" "skips v w" "fits (m # ns) w (drop j s)" by auto
    define a where "a = i + length n"
    have len: "length s - i = length n + Suc (length v)" using j(2) by (metis length_Cons length_append length_drop)
    have "drop a s = drop (length n) (drop i s)" by (simp add: a_def add.commute)
    then have da: "drop a s = CHR ''.'' # v" by (simp add: j(2))
    have al: "a < length s" using len 3(2) by (simp add: a_def)
    have dot: "s ! a = CHR ''.''" using da al by (metis Cons_nth_drop_Suc list.inject)
    have v: "v = drop (Suc a) s" using da al by (metis Cons_nth_drop_Suc list.inject)
    obtain k where k: "Suc a \<le> k" "k \<le> length s" "k = Suc a \<or> s ! (k - 1) = CHR ''.''" "w = drop k s"
      using skips_drop(2) [of "Suc a" s w] j(3) v al by auto
    have "k \<le> j"
    proof -
      have "\<exists>x. w = x @ drop j s" using j(4)
      proof (induction "m # ns" w "drop j s" arbitrary: m ns rule: fits.induct)
        case (3 n m ns t)
        then show ?case by (fastforce simp: skips_def)
      qed auto
      then have "length (drop j s) \<le> length w" by auto
      then show ?thesis using k j(1) by simp
    qed
    with j k dot al da a_def 3(2) show "j \<in> {j. \<exists>a k. i \<le> a \<and> a \<le> length s \<and> drop i s = n @ drop a s \<and>
          a < k \<and> k \<le> length s \<and> s ! a = CHR ''.'' \<and> s ! (k - 1) = CHR ''.'' \<and>
          k \<le> j \<and> j \<le> length s \<and> fits (m # ns) (drop k s) (drop j s)}"
      by (intro CollectI exI [of _ a] exI [of _ k]) auto
  qed
  finally show ?case .
qed

definition fits_in :: "string list \<Rightarrow> string \<Rightarrow> bool" where
  "fits_in ns t = (\<exists>w u. skips t w \<and> fits ns w u \<and> at_bound u)"

lemma fits_suffix: "fits ns t u \<Longrightarrow> \<exists>x. t = x @ u"
  by (induction ns t u rule: fits.induct) (fastforce simp: skips_def)+

lemma bound_drop: "j \<le> length s \<Longrightarrow> at_bound (drop j s) \<longleftrightarrow> j = length s \<or> s ! j = CHR ''.''"
  by (cases "j = length s") (simp_all add: at_bound_def hd_drop_conv_nth)

lemma test_ns:
  assumes "no_newline s"
  shows "re_test (ns_re ns) s \<longleftrightarrow> fits_in ns s"
proof -
  have dot: "matches s (lit ''.'') (j, cs) = (if j < length s \<and> s ! j = CHR ''.'' then [(Suc j, cs)] else [])" for j cs
    by (auto simp: lit_def)
  have closing: "matches s (Seq (Grp 2 (Alt (lit ''.'') (Eol False))) Eps) (j, cs) \<noteq> [] \<longleftrightarrow> at_bound (drop j s)" if "j \<le> length s" for j cs
    using bound_drop [OF that] that by (auto simp: dot)
  have chain: "matches s (Seq (ns_chain ns) (Seq (Grp 2 (Alt (lit ''.'') (Eol False))) Eps)) (i, cs) \<noteq> []
      \<longleftrightarrow> (\<exists>u. fits ns (drop i s) u \<and> at_bound u)" if i: "i \<le> length s" for i cs
  proof -
    have "matches s (Seq (ns_chain ns) (Seq (Grp 2 (Alt (lit ''.'') (Eol False))) Eps)) (i, cs) \<noteq> []
        \<longleftrightarrow> (\<exists>j \<in> ends s (ns_chain ns) (i, cs). at_bound (drop j s))"
    proof
      assume "matches s (Seq (ns_chain ns) (Seq (Grp 2 (Alt (lit ''.'') (Eol False))) Eps)) (i, cs) \<noteq> []"
      then obtain p where p: "p \<in> set (matches s (ns_chain ns) (i, cs))"
        "matches s (Seq (Grp 2 (Alt (lit ''.'') (Eol False))) Eps) p \<noteq> []"
        unfolding seq_nonempty [of s "ns_chain ns"] by (rule bexE)
      obtain j c where "p = (j, c)" by (rule prod.exhaust)
      note jc = p [unfolded this]
      have j: "j \<in> ends s (ns_chain ns) (i, cs)" by (rule ends_mem [OF jc(1)])
      then have "j \<le> length s" unfolding ends_chain [OF assms i] by simp
      with closing jc(2) j show "\<exists>j \<in> ends s (ns_chain ns) (i, cs). at_bound (drop j s)" by blast
    next
      assume "\<exists>j \<in> ends s (ns_chain ns) (i, cs). at_bound (drop j s)"
      then obtain j c where jc: "(j, c) \<in> set (matches s (ns_chain ns) (i, cs))" "at_bound (drop j s)" by force
      have "j \<le> length s" using ends_mem [OF jc(1)] unfolding ends_chain [OF assms i] by simp
      then have "matches s (Seq (Grp 2 (Alt (lit ''.'') (Eol False))) Eps) (j, c) \<noteq> []" using closing jc(2) by blast
      then show "matches s (Seq (ns_chain ns) (Seq (Grp 2 (Alt (lit ''.'') (Eol False))) Eps)) (i, cs) \<noteq> []"
        unfolding seq_nonempty [of s "ns_chain ns"] using jc(1) by (rule rev_bexI [rotated])
    qed
    also have "\<dots> \<longleftrightarrow> (\<exists>u. fits ns (drop i s) u \<and> at_bound u)"
    proof
      assume "\<exists>j \<in> ends s (ns_chain ns) (i, cs). at_bound (drop j s)"
      then show "\<exists>u. fits ns (drop i s) u \<and> at_bound u" using ends_chain [OF assms i, of ns cs] by blast
    next
      assume "\<exists>u. fits ns (drop i s) u \<and> at_bound u"
      then obtain u where u: "fits ns (drop i s) u" "at_bound u" by blast
      from fits_suffix [OF u(1)] obtain x where x: "drop i s = x @ u" by blast
      define j where "j = i + length x"
      have "length s - i = length x + length u" using x by (metis length_append length_drop)
      then have j: "i \<le> j" "j \<le> length s" using i by (simp_all add: j_def)
      have "drop j s = drop (length x) (drop i s)" by (simp add: j_def add.commute)
      then have "drop j s = u" by (simp add: x)
      with j u show "\<exists>j \<in> ends s (ns_chain ns) (i, cs). at_bound (drop j s)"
        using ends_chain [OF assms i, of ns cs] by blast
    qed
    finally show ?thesis .
  qed
  have "re_test (ns_re ns) s \<longleftrightarrow> (\<exists>i \<le> length s. (i = 0 \<or> s ! (i - 1) = CHR ''.'') \<and> (\<exists>u. fits ns (drop i s) u \<and> at_bound u))"
  proof -
    define K where "K = Seq (ns_chain ns) (Seq (Grp 2 (Alt (lit ''.'') (Eol False))) Eps)"
    have "ns_re ns = Seq (Grp 1 (Alt (Bol False) (lit ''.''))) K" by (simp add: ns_re_def seqs_def K_def)
    then have m: "matches s (ns_re ns) (i, []) = (if i = 0 then matches s K (0, [(1, 0, 0)]) else []) @
       (if i < length s \<and> s ! i = CHR ''.'' then matches s K (Suc i, [(1, i, Suc i)]) else [])" for i
      by (auto simp: dot)
    have k: "matches s K (i, cs) \<noteq> [] \<longleftrightarrow> (\<exists>u. fits ns (drop i s) u \<and> at_bound u)" if "i \<le> length s" for i cs
      unfolding K_def by (rule chain [OF that])
    have pw: "matches s (ns_re ns) (i, []) \<noteq> [] \<longleftrightarrow> (i = 0 \<and> (\<exists>u. fits ns (drop 0 s) u \<and> at_bound u)) \<or>
       (i < length s \<and> s ! i = CHR ''.'' \<and> (\<exists>u. fits ns (drop (Suc i) s) u \<and> at_bound u))" if "i \<le> length s" for i
    proof -
      have 0: "matches s K (0, [(1, 0, 0)]) \<noteq> [] \<longleftrightarrow> (\<exists>u. fits ns (drop 0 s) u \<and> at_bound u)" by (rule k) simp
      have S: "matches s K (Suc i, [(1, i, Suc i)]) \<noteq> [] \<longleftrightarrow> (\<exists>u. fits ns (drop (Suc i) s) u \<and> at_bound u)" if "i < length s"
        by (rule k) (use that in simp)
      have ap: "(if a then x else []) @ (if b then y else []) \<noteq> [] \<longleftrightarrow> a \<and> x \<noteq> [] \<or> b \<and> y \<noteq> []" for a b and x y :: "mstate list"
        by simp
      show ?thesis unfolding m ap 0 using S by blast
    qed
    have "re_test (ns_re ns) s \<longleftrightarrow> (\<exists>i \<le> length s. (i = 0 \<and> (\<exists>u. fits ns (drop 0 s) u \<and> at_bound u)) \<or>
       (i < length s \<and> s ! i = CHR ''.'' \<and> (\<exists>u. fits ns (drop (Suc i) s) u \<and> at_bound u)))"
      unfolding test_iff by (simp only: pw cong: conj_cong)
    also have "\<dots> \<longleftrightarrow> (\<exists>i \<le> length s. (i = 0 \<or> s ! (i - 1) = CHR ''.'') \<and> (\<exists>u. fits ns (drop i s) u \<and> at_bound u))"
    proof
      assume "\<exists>i \<le> length s. (i = 0 \<or> s ! (i - 1) = CHR ''.'') \<and> (\<exists>u. fits ns (drop i s) u \<and> at_bound u)"
      then obtain i where i: "i \<le> length s" "i = 0 \<or> s ! (i - 1) = CHR ''.''" "\<exists>u. fits ns (drop i s) u \<and> at_bound u" by blast
      then show "\<exists>i \<le> length s. (i = 0 \<and> (\<exists>u. fits ns (drop 0 s) u \<and> at_bound u)) \<or>
         (i < length s \<and> s ! i = CHR ''.'' \<and> (\<exists>u. fits ns (drop (Suc i) s) u \<and> at_bound u))"
      proof (cases i)
        case 0
        with i show ?thesis by (intro exI [of _ 0]) simp
      next
        case (Suc k)
        with i show ?thesis by (intro exI [of _ k]) simp
      qed
    next
      assume "\<exists>i \<le> length s. (i = 0 \<and> (\<exists>u. fits ns (drop 0 s) u \<and> at_bound u)) \<or>
         (i < length s \<and> s ! i = CHR ''.'' \<and> (\<exists>u. fits ns (drop (Suc i) s) u \<and> at_bound u))"
      then obtain i where "(i = 0 \<and> (\<exists>u. fits ns (drop 0 s) u \<and> at_bound u)) \<or>
         (i < length s \<and> s ! i = CHR ''.'' \<and> (\<exists>u. fits ns (drop (Suc i) s) u \<and> at_bound u))" by blast
      then show "\<exists>i \<le> length s. (i = 0 \<or> s ! (i - 1) = CHR ''.'') \<and> (\<exists>u. fits ns (drop i s) u \<and> at_bound u)"
      proof
        assume "i = 0 \<and> (\<exists>u. fits ns (drop 0 s) u \<and> at_bound u)"
        then show ?thesis by (intro exI [of _ 0]) simp
      next
        assume "i < length s \<and> s ! i = CHR ''.'' \<and> (\<exists>u. fits ns (drop (Suc i) s) u \<and> at_bound u)"
        then show ?thesis by (intro exI [of _ "Suc i"]) simp
      qed
    qed
    finally show ?thesis .
  qed
  also have "\<dots> \<longleftrightarrow> fits_in ns s"
    using skips_drop [of 0 s] unfolding fits_in_def by (fastforce simp: not_le)
  finally show ?thesis .
qed

text \<open>Names without dots, joined: a chain fits exactly when it is a subsequence.\<close>

lemma dot_split: "\<forall>c \<in> set h. nodot c \<Longrightarrow> \<forall>c \<in> set n. nodot c \<Longrightarrow> n @ CHR ''.'' # v = h @ CHR ''.'' # r \<longleftrightarrow> n = h \<and> v = r"
proof (induction n arbitrary: h)
  case Nil
  then show ?case by (cases h) auto
next
  case (Cons c n)
  then show ?case by (cases h) auto
qed

lemma skips_name: "\<forall>c \<in> set h. nodot c \<Longrightarrow> skips h w \<longleftrightarrow> w = h"
proof -
  assume h: "\<forall>c \<in> set h. nodot c"
  have "pre = []" if "h = pre @ w" "pre = [] \<or> last pre = CHR ''.''" for pre
  proof (rule ccontr)
    assume "pre \<noteq> []"
    then have "last pre \<in> set pre" "last pre = CHR ''.''" using that last_in_set by blast+
    then have "CHR ''.'' \<in> set h" unfolding that(1) by simp
    then show False using h by blast
  qed
  then show ?thesis by (auto simp: skips_def)
qed

lemma skips_names: "\<forall>c \<in> set h. nodot c \<Longrightarrow> skips (h @ CHR ''.'' # r) w \<longleftrightarrow> w = h @ CHR ''.'' # r \<or> skips r w"
proof (induction h)
  case Nil
  show ?case
  proof
    assume "skips ([] @ CHR ''.'' # r) w"
    then obtain pre where pre: "CHR ''.'' # r = pre @ w" "pre = [] \<or> last pre = CHR ''.''" by (auto simp: skips_def)
    then show "w = [] @ CHR ''.'' # r \<or> skips r w"
      by (cases pre) (auto simp: skips_def split: if_splits)
  next
    assume "w = [] @ CHR ''.'' # r \<or> skips r w"
    then show "skips ([] @ CHR ''.'' # r) w"
      by (auto simp: skips_def intro: exI [of _ "[]"] exI [of _ "CHR ''.'' # _"])
  qed
next
  case (Cons c h)
  have step: "skips (c # t) w \<longleftrightarrow> w = c # t \<or> (skips t w \<and> w \<noteq> t)" if "nodot c" for t
  proof
    assume "skips (c # t) w"
    then obtain pre where pre: "c # t = pre @ w" "pre = [] \<or> last pre = CHR ''.''" by (auto simp: skips_def)
    then show "w = c # t \<or> (skips t w \<and> w \<noteq> t)"
    proof (cases pre)
      case (Cons d pre')
      then have "pre' \<noteq> []" "t = pre' @ w" "last pre' = CHR ''.''" using pre that by (auto split: if_splits)
      then show ?thesis by (auto simp: skips_def)
    qed simp
  next
    assume "w = c # t \<or> (skips t w \<and> w \<noteq> t)"
    then show "skips (c # t) w"
    proof
      assume "skips t w \<and> w \<noteq> t"
      then obtain pre where "t = pre @ w" "pre \<noteq> []" "last pre = CHR ''.''" by (auto simp: skips_def)
      then show ?thesis unfolding skips_def by (intro exI [of _ "c # pre"]) simp
    qed (auto simp: skips_def)
  qed
  have len: "length w \<le> length r" if "skips r w" using that by (auto simp: skips_def)
  have h: "nodot c" "\<forall>c \<in> set h. nodot c" using Cons.prems by simp_all
  have "w \<noteq> h @ CHR ''.'' # r" if "skips r w" using len [OF that] by auto
  then show ?case using Cons.IH [OF h(2)] step [OF h(1), of "h @ CHR ''.'' # r"] unfolding append_Cons by blast
qed

lemma fits_head:
  assumes "\<forall>c \<in> set n. nodot c" and "\<forall>c \<in> set h. nodot c"
  shows "(\<exists>u. fits (n # ns) h u \<and> at_bound u) \<longleftrightarrow> n = h \<and> ns = []"
    "(\<exists>u. fits (n # ns) (h @ CHR ''.'' # r) u \<and> at_bound u) \<longleftrightarrow> n = h \<and> (ns = [] \<or> fits_in ns r)"
proof -
  show "(\<exists>u. fits (n # ns) h u \<and> at_bound u) \<longleftrightarrow> n = h \<and> ns = []"
  proof (cases ns)
    case Nil
    have "u = []" if "h = n @ u" "at_bound u" for u
      using that assms(2) by (cases u) (auto simp: at_bound_def)
    then show ?thesis using Nil by (auto simp: at_bound_def)
  next
    case (Cons m ns')
    have "h \<noteq> n @ CHR ''.'' # v" for v using assms(2) by (metis in_set_conv_decomp)
    then have "\<not> fits (n # ns) h u" for u unfolding Cons fits.simps by blast
    then show ?thesis using Cons by blast
  qed
  show "(\<exists>u. fits (n # ns) (h @ CHR ''.'' # r) u \<and> at_bound u) \<longleftrightarrow> n = h \<and> (ns = [] \<or> fits_in ns r)"
  proof (cases ns)
    case Nil
    have "n = h" if "h @ CHR ''.'' # r = n @ u" "at_bound u" for u
    proof (cases u)
      case Nil
      then have "CHR ''.'' \<in> set n" using that(1) by (metis append_Nil2 in_set_conv_decomp)
      then show ?thesis using assms(1) by blast
    next
      case (Cons c u')
      then have "c = CHR ''.''" using that(2) by (simp add: at_bound_def)
      then show ?thesis using that(1) Cons dot_split [OF assms(2,1), of u' r] by metis
    qed
    moreover have "at_bound (CHR ''.'' # r)" by (simp add: at_bound_def)
    ultimately show ?thesis using Nil by auto
  next
    case (Cons m ns')
    have "(\<exists>u. fits (n # ns) (h @ CHR ''.'' # r) u \<and> at_bound u) \<longleftrightarrow>
        (\<exists>v. h @ CHR ''.'' # r = n @ CHR ''.'' # v \<and> fits_in ns v)"
      unfolding Cons fits_in_def by auto
    also have "\<dots> \<longleftrightarrow> n = h \<and> fits_in ns r"
      using dot_split [OF assms(2,1)] by metis
    finally show ?thesis using Cons by simp
  qed
qed

lemma fits_in_join:
  "\<forall>h \<in> set (n # ns) \<union> set (m # ms). \<forall>c \<in> set h. nodot c \<Longrightarrow>
    fits_in (n # ns) (join_on ''.'' (m # ms)) \<longleftrightarrow> subseq (n # ns) (m # ms)"
proof (induction ms arbitrary: n ns m)
  case Nil
  then have m: "\<forall>c \<in> set m. nodot c" and n: "\<forall>c \<in> set n. nodot c" by simp_all
  have "fits_in (n # ns) m \<longleftrightarrow> n = m \<and> ns = []"
    unfolding fits_in_def skips_name [OF m] using fits_head(1) [OF n m, of ns] by blast
  moreover have "subseq (n # ns) [m] \<longleftrightarrow> n = m \<and> ns = []" by (cases ns) auto
  ultimately show ?case by simp
next
  case (Cons m' ms)
  define r where "r = join_on ''.'' (m' # ms)"
  have j: "join_on ''.'' (m # m' # ms) = m @ CHR ''.'' # r" by (simp add: r_def)
  have "fits_in (n # ns) (m @ CHR ''.'' # r) \<longleftrightarrow>
      (\<exists>u. fits (n # ns) (m @ CHR ''.'' # r) u \<and> at_bound u) \<or> fits_in (n # ns) r"
  proof -
    have m: "\<forall>c \<in> set m. nodot c" using Cons.prems by simp
    show ?thesis unfolding fits_in_def skips_names [OF m] by blast
  qed
  also have "\<dots> \<longleftrightarrow> (n = m \<and> (ns = [] \<or> fits_in ns r)) \<or> fits_in (n # ns) r"
    using fits_head(2) [of n m ns r] Cons.prems by simp
  also have "ns = [] \<or> fits_in ns r \<longleftrightarrow> subseq ns (m' # ms)"
  proof (cases ns)
    case (Cons n' ns')
    then show ?thesis using Cons.IH [of n' ns' m'] Cons.prems by (simp add: r_def)
  qed simp
  also have "fits_in (n # ns) r \<longleftrightarrow> subseq (n # ns) (m' # ms)"
    using Cons.IH [of n ns m'] Cons.prems by (simp add: r_def)
  also have "(n = m \<and> subseq ns (m' # ms)) \<or> subseq (n # ns) (m' # ms) \<longleftrightarrow> subseq (n # ns) (m # m' # ms)"
    by (auto dest: subseq_Cons')
  finally show ?case unfolding j .
qed

lemma subseteq_add_other: "m \<notin># A \<Longrightarrow> A \<subseteq># add_mset m B \<longleftrightarrow> A \<subseteq># B"
proof -
  assume m: "m \<notin># A"
  have "count A a \<le> count (add_mset m B) a \<longleftrightarrow> count A a \<le> count B a" for a
    using m by (cases "a = m") (simp_all add: not_in_iff)
  then show ?thesis by (simp add: subseteq_mset_def)
qed

lemma sorted_subseq:
  fixes ns ms :: "'a :: linorder list"
  shows "sorted ns \<Longrightarrow> sorted ms \<Longrightarrow> subseq ns ms \<longleftrightarrow> mset ns \<subseteq># mset ms"
proof (induction ms arbitrary: ns)
  case Nil
  then show ?case by (cases ns) auto
next
  case (Cons m ms)
  show ?case
  proof (cases ns)
    case (Cons n ns')
    show ?thesis
    proof (cases "n = m")
      case True
      then show ?thesis using Cons.IH [of ns'] Cons.prems Cons by simp
    next
      case False
      have "m \<notin> set ns" if sub: "mset ns \<subseteq># mset (m # ms)"
      proof
        assume "m \<in> set ns"
        moreover have "n \<in># mset (m # ms)" using sub Cons by (auto dest: mset_subset_eqD)
        ultimately show False using Cons False Cons.prems by fastforce
      qed
      moreover have "mset ns \<subseteq># mset (m # ms)" if "mset ns \<subseteq># mset ms"
        using that by (rule subset_mset.order_trans) simp
      ultimately have "mset ns \<subseteq># mset (m # ms) \<longleftrightarrow> mset ns \<subseteq># mset ms"
        using subseteq_add_other [of m "mset ns" "mset ms"] by (metis mset.simps(2) set_mset_mset)
      then show ?thesis using Cons.IH [of ns] Cons.prems Cons False by simp
    qed
  qed simp
qed

end
