(* ===== verification/JqEvent.thy ===== *)
theory JqEvent
  imports JqData JqEventNames
begin

text \<open>
  The event system of \<open>democlient/js/jquery.js\<close>: \<open>jQuery.event.add\<close>, \<open>remove\<close>, \<open>trigger\<close>,
  \<open>dispatch\<close>, \<open>handlers\<close>, \<open>fix\<close>, \<open>simulate\<close> and the special event types, the methods of
  \<open>jQuery.Event\<close>, and \<open>on\<close>, \<open>one\<close>, \<open>off\<close>. The document is a parent relation; handlers are
  client functions that may use all of this again while they run.
\<close>

section \<open>The page and the handlers\<close>

record page =
  pg_parent :: "nat \<Rightarrow> nat option"
  pg_info :: "nat \<Rightarrow> einfo"
  pg_disabled :: "nat \<Rightarrow> bool"
  pg_isWindow :: "nat \<Rightarrow> bool"
  pg_document :: nat
  pg_view :: nat                                  \<comment> \<open>the document's window\<close>
  pg_depth :: nat                                 \<comment> \<open>more than the depth of the document\<close>
  pg_match :: "bool \<Rightarrow> string \<Rightarrow> nat \<Rightarrow> nat \<Rightarrow> bool"  \<comment> \<open>the selector engine\<close>
  pg_needsContext :: "string \<Rightarrow> bool"
  pg_method :: "nat \<Rightarrow> string \<Rightarrow> bool"
  pg_checkbox :: "nat \<Rightarrow> bool"

text \<open>A client function, or the wrapper that \<open>one\<close> makes of it.\<close>

datatype hfn = Client nat | Once nat

record hobj =
  o_type :: string
  o_origType :: string
  o_data :: "nat option"
  o_handler :: hfn
  o_guid :: nat
  o_selector :: "string option"
  o_needsContext :: bool
  o_namespace :: string

record hlist =
  hs :: "hobj list"
  delegateCount :: nat

record eworld =
  events :: "nat \<Rightarrow> (string \<times> hlist) list option"  \<comment> \<open>\<open>_data( elem ).events\<close>, with the \<open>handle\<close>\<close>
  bound :: "(nat \<times> string) list"                  \<comment> \<open>native listeners\<close>
  captures :: "string \<Rightarrow> int"                      \<comment> \<open>the counter \<open>attaches\<close> of \<open>focusin\<close> and \<open>focusout\<close>\<close>
  fguid :: "nat \<Rightarrow> nat option"
  onceguid :: "nat \<Rightarrow> nat option"                  \<comment> \<open>the guid the wrappers of a function have\<close>
  eguid :: nat
  onprop :: "nat \<Rightarrow> string \<Rightarrow> nat option"          \<comment> \<open>\<open>elem.onclick\<close> and its like\<close>
  triggered :: "string option"
  activeEl :: "nat option"
  globalTypes :: "string list"
  elog :: "(nat \<times> nat \<times> string) list"        \<comment> \<open>client functions called, with \<open>this\<close> and the type\<close>

section \<open>Special event types\<close>

definition delegateType :: "string \<Rightarrow> string option" where
  "delegateType t =
     (if t = ''focus'' then Some ''focusin'' else if t = ''blur'' then Some ''focusout''
      else if t = ''mouseenter'' then Some ''mouseover'' else if t = ''mouseleave'' then Some ''mouseout'' else None)"

definition bindType :: "string \<Rightarrow> string option" where
  "bindType t = (if t = ''mouseenter'' then Some ''mouseover'' else if t = ''mouseleave'' then Some ''mouseout'' else None)"

definition noBubble :: "string \<Rightarrow> bool" where "noBubble t = (t = ''load'')"

text \<open>Types that bubble through a capturing handler of their own (no \<open>support.focusinBubbles\<close>).\<close>

definition own_setup :: "string \<Rightarrow> bool" where
  "own_setup t = (t = ''focusin'' \<or> t = ''focusout'')"

definition mapped_type :: "bool \<Rightarrow> string \<Rightarrow> string" where
  "mapped_type delegated t = (case (if delegated then delegateType t else bindType t) of Some u \<Rightarrow> u | None \<Rightarrow> t)"

section \<open>add\<close>

definition fn_guid :: "hfn \<Rightarrow> eworld \<Rightarrow> nat option" where
  "fn_guid f w = (case f of Client k \<Rightarrow> fguid w k | Once k \<Rightarrow> onceguid w k)"

definition set_guid :: "hfn \<Rightarrow> nat \<Rightarrow> eworld \<Rightarrow> eworld" where
  "set_guid f g w = (case f of Client k \<Rightarrow> w\<lparr>fguid := (fguid w)(k \<mapsto> g)\<rparr> | Once k \<Rightarrow> w\<lparr>onceguid := (onceguid w)(k \<mapsto> g)\<rparr>)"

definition give_guid :: "hfn \<Rightarrow> eworld \<Rightarrow> eworld" where
  "give_guid f w = (if fn_guid f w = None then (set_guid f (eguid w) w)\<lparr>eguid := Suc (eguid w)\<rparr> else w)"

definition no_handlers :: hlist where
  "no_handlers = \<lparr>hs = [], delegateCount = 0\<rparr>"

definition handlers_at :: "nat \<Rightarrow> string \<Rightarrow> eworld \<Rightarrow> hlist" where
  "handlers_at el t w =
     (case events w el of None \<Rightarrow> no_handlers
      | Some evs \<Rightarrow> (case map_of evs t of Some h \<Rightarrow> h | None \<Rightarrow> no_handlers))"

definition put_handlers :: "nat \<Rightarrow> string \<Rightarrow> hlist \<Rightarrow> eworld \<Rightarrow> eworld" where
  "put_handlers el t h w =
     (case events w el of None \<Rightarrow> w | Some evs \<Rightarrow> w\<lparr>events := (events w)(el \<mapsto> put_prop t h evs)\<rparr>)"

text \<open>The first handler of a type on an element installs the listener.\<close>

definition init_handlers :: "nat \<Rightarrow> string \<Rightarrow> eworld \<Rightarrow> eworld" where
  "init_handlers el t w =
     (if (case events w el of None \<Rightarrow> True | Some evs \<Rightarrow> map_of evs t \<noteq> None) then w
      else (let w1 = put_handlers el t no_handlers w in
            if own_setup t then w1\<lparr>captures := (captures w1)(t := captures w1 t + 1)\<rparr>
            else w1\<lparr>bound := List.insert (el, t) (bound w1)\<rparr>))"

text \<open>Delegates go in front of the others.\<close>

definition insert_handler :: "hobj \<Rightarrow> hlist \<Rightarrow> hlist" where
  "insert_handler o' h =
     (if o_selector o' \<noteq> None
      then \<lparr>hs = take (delegateCount h) (hs h) @ o' # drop (delegateCount h) (hs h), delegateCount = Suc (delegateCount h)\<rparr>
      else h\<lparr>hs := hs h @ [o']\<rparr>)"

definition add_token :: "page \<Rightarrow> nat \<Rightarrow> hfn \<Rightarrow> nat option \<Rightarrow> string option \<Rightarrow> string \<Rightarrow> eworld \<Rightarrow> eworld" where
  "add_token pg el handler dat selector tok w =
     (case token_type tok of
        None \<Rightarrow> w
      | Some orig \<Rightarrow>
          if orig = [] then w
          else (let type = mapped_type (selector \<noteq> None) orig;
                    ho = \<lparr>o_type = type, o_origType = orig, o_data = dat, o_handler = handler,
                          o_guid = (case fn_guid handler w of Some g \<Rightarrow> g | None \<Rightarrow> 0), o_selector = selector,
                          o_needsContext = (case selector of Some s \<Rightarrow> pg_needsContext pg s | None \<Rightarrow> False),
                          o_namespace = join_on ''.'' (token_namespaces tok)\<rparr>;
                    w1 = init_handlers el type w
                in (put_handlers el type (insert_handler ho (handlers_at el type w1)) w1)\<lparr>
                     globalTypes := List.insert type (globalTypes w1)\<rparr>))"

text \<open>A selector that is the empty string counts as none.\<close>

definition sel_of :: "string option \<Rightarrow> string option" where
  "sel_of s = (case s of Some [] \<Rightarrow> None | _ \<Rightarrow> s)"

definition event_add :: "page \<Rightarrow> nat \<Rightarrow> string \<Rightarrow> hfn \<Rightarrow> nat option \<Rightarrow> string option \<Rightarrow> eworld \<Rightarrow> eworld" where
  "event_add pg el types handler dat selector w =
     (if \<not> acceptData (pg_info pg el) then w
      else (let w1 = give_guid handler w;
                w2 = (if events w1 el = None then w1\<lparr>events := (events w1)(el \<mapsto> [])\<rparr> else w1)
            in fold (add_token pg el handler dat (sel_of selector)) (rev (tokens types)) w2))"

section \<open>remove\<close>

text \<open>What is to be removed: the original type unless all types are meant, guid, namespaces, selector.\<close>

definition to_remove :: "bool \<Rightarrow> string \<Rightarrow> nat option option \<Rightarrow> re option \<Rightarrow> string option \<Rightarrow> hobj \<Rightarrow> bool" where
  "to_remove mapped orig gd ns selector h \<longleftrightarrow>
     (mapped \<or> orig = o_origType h) \<and>
     (case gd of None \<Rightarrow> True | Some g \<Rightarrow> g = Some (o_guid h)) \<and>
     (case ns of None \<Rightarrow> True | Some r \<Rightarrow> re_test r (o_namespace h)) \<and>
     (case selector of None \<Rightarrow> True | Some s \<Rightarrow> selector = o_selector h \<or> (s = ''**'' \<and> o_selector h \<noteq> None))"

text \<open>The loop over the handlers, from the last one.\<close>

fun remove_handlers :: "(hobj \<Rightarrow> bool) \<Rightarrow> nat \<Rightarrow> hlist \<Rightarrow> hlist" where
  "remove_handlers P 0 h = h"
| "remove_handlers P (Suc j) h =
     (if P (hs h ! j)
      then remove_handlers P j \<lparr>hs = splice1 j (hs h),
             delegateCount = (if o_selector (hs h ! j) \<noteq> None then delegateCount h - 1 else delegateCount h)\<rparr>
      else remove_handlers P j h)"

text \<open>
  The last handler of a type is gone. The tear-down is that of the type given, not of the
  type it is bound as.
\<close>

definition drop_type :: "nat \<Rightarrow> string \<Rightarrow> string \<Rightarrow> eworld \<Rightarrow> eworld" where
  "drop_type el orig t w =
     (let w1 = (if own_setup orig then w\<lparr>captures := (captures w)(orig := captures w orig - 1)\<rparr>
                else w\<lparr>bound := removeAll (el, t) (bound w)\<rparr>)
      in case events w1 el of None \<Rightarrow> w1 | Some evs \<Rightarrow> w1\<lparr>events := (events w1)(el \<mapsto> del_prop t evs)\<rparr>)"

definition remove_typed :: "nat \<Rightarrow> string \<Rightarrow> string \<Rightarrow> nat option option \<Rightarrow> string option \<Rightarrow> bool \<Rightarrow> eworld \<Rightarrow> eworld" where
  "remove_typed el orig tok gd selector mapped w =
     (let type = mapped_type (selector \<noteq> None) orig;
          h = handlers_at el type w;
          ns = (if token_rest tok \<noteq> [] then Some (ns_re (token_namespaces tok)) else None);
          h' = remove_handlers (to_remove mapped orig gd ns selector) (length (hs h)) h
      in if hs h = [] then w
         else if hs h' = [] then drop_type el orig type w
         else put_handlers el type h' w)"

text \<open>
  \<open>remove\<close>. A token without a type stands for all types of the element, by calling \<open>remove\<close>
  again for each; \<open>n\<close> bounds the depth of these calls, and \<open>None\<close> is running out of it.
\<close>

definition tidy :: "nat \<Rightarrow> eworld \<Rightarrow> eworld" where
  "tidy el w = (if events w el = Some [] then w\<lparr>events := (events w)(el := None)\<rparr> else w)"

function event_remove :: "nat \<Rightarrow> nat \<Rightarrow> string list \<Rightarrow> nat option option \<Rightarrow> string option \<Rightarrow> bool \<Rightarrow> eworld \<Rightarrow> eworld option"
  and remove_tokens :: "nat \<Rightarrow> nat \<Rightarrow> string list \<Rightarrow> nat option option \<Rightarrow> string option \<Rightarrow> bool \<Rightarrow> eworld \<Rightarrow> eworld option"
  and remove_types :: "nat \<Rightarrow> nat \<Rightarrow> string list \<Rightarrow> string \<Rightarrow> nat option option \<Rightarrow> string option \<Rightarrow> eworld \<Rightarrow> eworld option" where
  "event_remove 0 el toks gd selector mapped w = None"
| "event_remove (Suc n) el toks gd selector mapped w =
     (if events w el = None then Some w
      else (case remove_tokens n el (rev toks) gd selector mapped w of
              None \<Rightarrow> None | Some w1 \<Rightarrow> Some (tidy el w1)))"
| "remove_tokens n el [] gd selector mapped w = Some w"
| "remove_tokens n el (tok # toks) gd selector mapped w =
     (case token_type tok of
        Some (c # orig) \<Rightarrow> remove_tokens n el toks gd selector mapped (remove_typed el (c # orig) tok gd selector mapped w)
      | _ \<Rightarrow> (case remove_types n el (map fst (case events w el of Some evs \<Rightarrow> evs | None \<Rightarrow> [])) tok gd selector w of
                None \<Rightarrow> None | Some w1 \<Rightarrow> remove_tokens n el toks gd selector mapped w1))"
| "remove_types n el [] tok gd selector w = Some w"
| "remove_types n el (type # types) tok gd selector w =
     (case event_remove n el (tokens (type @ tok)) gd selector True w of
        None \<Rightarrow> None | Some w1 \<Rightarrow> remove_types n el types tok gd selector w1)"
  by pat_completeness auto
termination
  by (relation "inv_image (less_than <*lex*> less_than)
    (\<lambda>x. case x of Inl (n, el, toks, r) \<Rightarrow> (3 * n, 0) | Inr (Inl (n, el, toks, r)) \<Rightarrow> (3 * n + 2, length toks)
      | Inr (Inr (n, el, types, r)) \<Rightarrow> (3 * n + 1, length types))") auto

section \<open>Event objects\<close>

datatype eret = RUndef | RFalse | RVal nat

record evt =
  e_type :: string
  e_target :: "nat option"
  e_button :: int
  e_which :: "int option"
  e_related :: "nat option"
  e_ns :: "string option"
  e_ns_re :: "re option"
  e_prevented :: bool
  e_stopped :: bool
  e_immediate :: bool
  e_result :: eret
  e_current :: nat
  e_delegate :: nat
  e_hobj :: "hobj option"
  e_isTrigger :: nat
  e_simulated :: bool

definition new_Event :: "string \<Rightarrow> evt" where
  "new_Event t = \<lparr>e_type = t, e_target = None, e_button = 0, e_which = None, e_related = None, e_ns = None, e_ns_re = None,
     e_prevented = False, e_stopped = False, e_immediate = False, e_result = RUndef, e_current = 0, e_delegate = 0,
     e_hobj = None, e_isTrigger = 0, e_simulated = False\<rparr>"

definition preventDefault :: "evt \<Rightarrow> evt" where
  "preventDefault e = e\<lparr>e_prevented := True\<rparr>"

definition stopPropagation :: "evt \<Rightarrow> evt" where
  "stopPropagation e = e\<lparr>e_stopped := True\<rparr>"

definition stopImmediatePropagation :: "evt \<Rightarrow> evt" where
  "stopImmediatePropagation e = stopPropagation (e\<lparr>e_immediate := True\<rparr>)"

text \<open>\<open>fix\<close>: the jQuery event of a native one, with the key or button in \<open>which\<close>.\<close>

record native =
  n_type :: string
  n_target :: "nat option"
  n_button :: "int option"
  n_related :: "nat option"
  n_which :: "int option"
  n_charCode :: "int option"
  n_keyCode :: "int option"
  n_prevented :: bool

definition rkeyEvent :: re where "rkeyEvent = Seq (Bol False) (lit ''key'')"

definition rmouseEvent :: re where
  "rmouseEvent = Alt (Seq (Bol False) (Alt (lit ''mouse'') (lit ''contextmenu''))) (lit ''click'')"

definition button_which :: "int \<Rightarrow> int" where
  "button_which b = (if b mod 2 = 1 then 1 else if b div 2 mod 2 = 1 then 3 else if b div 4 mod 2 = 1 then 2 else 0)"

definition fix_which :: "native \<Rightarrow> int option" where
  "fix_which n =
     (if re_test rmouseEvent (n_type n)
      then (case n_button n of
              Some b \<Rightarrow> if n_which n = None \<or> n_which n = Some 0 then Some (button_which b) else n_which n
            | None \<Rightarrow> n_which n)
      else if re_test rkeyEvent (n_type n)
      then (if n_which n = None then (if n_charCode n \<noteq> None then n_charCode n else n_keyCode n) else n_which n)
      else n_which n)"

definition fix_event :: "page \<Rightarrow> native \<Rightarrow> evt" where
  "fix_event pg n =
     (let tg = (case n_target n of Some t \<Rightarrow> t | None \<Rightarrow> pg_document pg);
          tg' = (if nodeType (pg_info pg tg) = 3 then pg_parent pg tg else Some tg)
      in (new_Event (n_type n))\<lparr>e_target := tg', e_related := n_related n, e_which := fix_which n,
           e_button := (if re_test rmouseEvent (n_type n) then (case n_button n of Some b \<Rightarrow> b | None \<Rightarrow> 0) else 0),
           e_prevented := n_prevented n\<rparr>)"

section \<open>handlers and dispatch\<close>

text \<open>From the target up to the element the handlers are on.\<close>

fun walk :: "page \<Rightarrow> nat \<Rightarrow> nat \<Rightarrow> nat \<Rightarrow> nat list" where
  "walk pg 0 this cur = []"
| "walk pg (Suc n) this cur =
     (if cur = this then [] else cur # (case pg_parent pg cur of None \<Rightarrow> [] | Some p \<Rightarrow> walk pg n this p))"

definition delegates_for :: "page \<Rightarrow> nat \<Rightarrow> hobj list \<Rightarrow> nat \<Rightarrow> hobj list" where
  "delegates_for pg this ds cur =
     filter (\<lambda>h. case o_selector h of Some s \<Rightarrow> pg_match pg (o_needsContext h) s this cur | None \<Rightarrow> False) ds"

definition event_handlers :: "page \<Rightarrow> nat \<Rightarrow> evt \<Rightarrow> hlist \<Rightarrow> (nat \<times> hobj list) list" where
  "event_handlers pg this ev h =
     (let target = (case e_target ev of Some t \<Rightarrow> t | None \<Rightarrow> this);
          queue = (if delegateCount h > 0 \<and> nodeType (pg_info pg target) \<noteq> 0 \<and> (e_button ev = 0 \<or> e_type ev \<noteq> ''click'')
                   then filter (\<lambda>(cur, ms). ms \<noteq> [])
                     (map (\<lambda>cur. (cur, if nodeType (pg_info pg cur) = 1 \<and> (\<not> pg_disabled pg cur \<or> e_type ev \<noteq> ''click'')
                                      then delegates_for pg this (take (delegateCount h) (hs h)) cur else []))
                       (walk pg (pg_depth pg) this target))
                   else [])
      in if delegateCount h < length (hs h) then queue @ [(this, drop (delegateCount h) (hs h))] else queue)"

type_synonym hcall = "hfn \<Rightarrow> nat \<Rightarrow> evt \<Rightarrow> eworld \<Rightarrow> (nat, eret \<times> evt, eworld) res"

definition contains :: "page \<Rightarrow> nat \<Rightarrow> nat \<Rightarrow> bool" where
  "contains pg a b = (a \<noteq> b \<and> (\<exists>x \<in> set (walk pg (pg_depth pg) a b). pg_parent pg x = Some a))"

text \<open>The \<open>handle\<close> of \<open>mouseenter\<close> and \<open>mouseleave\<close>; other types call the handler.\<close>

definition call_handler :: "page \<Rightarrow> hcall \<Rightarrow> hobj \<Rightarrow> nat \<Rightarrow> evt \<Rightarrow> eworld \<Rightarrow> (nat, eret \<times> evt, eworld) res" where
  "call_handler pg call h el ev w =
     (case bindType (o_origType h) of
        None \<Rightarrow> call (o_handler h) el ev w
      | Some fx \<Rightarrow>
          (if (case e_related ev of None \<Rightarrow> True | Some r \<Rightarrow> r \<noteq> el \<and> \<not> contains pg el r)
           then bindR (call (o_handler h) el (ev\<lparr>e_type := o_origType h\<rparr>) w)
                  (\<lambda>(ret, ev') w'. Done (ret, ev'\<lparr>e_type := fx\<rparr>) w')
           else Done (RUndef, ev) w))"

definition after_ret :: "eret \<Rightarrow> evt \<Rightarrow> evt" where
  "after_ret ret ev =
     (if ret = RUndef then ev
      else (let ev1 = ev\<lparr>e_result := ret\<rparr> in if ret = RFalse then stopPropagation (preventDefault ev1) else ev1))"

definition ns_ok :: "evt \<Rightarrow> hobj \<Rightarrow> bool" where
  "ns_ok ev h = (case e_ns_re ev of None \<Rightarrow> True | Some r \<Rightarrow> re_test r (o_namespace h))"

fun run_list :: "page \<Rightarrow> hcall \<Rightarrow> nat \<Rightarrow> hobj list \<Rightarrow> evt \<Rightarrow> eworld \<Rightarrow> (nat, evt, eworld) res" where
  "run_list pg call el [] ev w = Done ev w"
| "run_list pg call el (h # hl) ev w =
     (if e_immediate ev then Done ev w
      else if ns_ok ev h
      then bindR (call_handler pg call h el (ev\<lparr>e_hobj := Some h\<rparr>) w)
             (\<lambda>(ret, ev1) w1. run_list pg call el hl (after_ret ret ev1) w1)
      else run_list pg call el hl ev w)"

fun run_queue :: "page \<Rightarrow> hcall \<Rightarrow> (nat \<times> hobj list) list \<Rightarrow> evt \<Rightarrow> eworld \<Rightarrow> (nat, evt, eworld) res" where
  "run_queue pg call [] ev w = Done ev w"
| "run_queue pg call ((el, hl) # q) ev w =
     (if e_stopped ev then Done ev w
      else bindR (run_list pg call el hl (ev\<lparr>e_current := el\<rparr>) w) (\<lambda>ev1 w1. run_queue pg call q ev1 w1))"

definition dispatch :: "page \<Rightarrow> hcall \<Rightarrow> nat \<Rightarrow> evt \<Rightarrow> eworld \<Rightarrow> (nat, evt, eworld) res" where
  "dispatch pg call this ev w =
     run_queue pg call (event_handlers pg this (ev\<lparr>e_delegate := this\<rparr>) (handlers_at this (e_type ev) w))
       (ev\<lparr>e_delegate := this\<rparr>) w"

text \<open>The listener of an element ignores the event that \<open>trigger\<close> is making the browser fire.\<close>

definition elem_handle :: "page \<Rightarrow> hcall \<Rightarrow> nat \<Rightarrow> evt \<Rightarrow> eworld \<Rightarrow> (nat, evt, eworld) res" where
  "elem_handle pg call el ev w = (if triggered w = Some (e_type ev) then Done ev w else dispatch pg call el ev w)"

section \<open>trigger\<close>

definition rfocusMorph :: re where
  "rfocusMorph = seqs [Bol False, Alt (lit ''focusinfocus'') (lit ''focusoutblur''), Eol False]"

fun chain_up :: "page \<Rightarrow> nat \<Rightarrow> nat option \<Rightarrow> nat list" where
  "chain_up pg 0 c = []"
| "chain_up pg (Suc n) c = (case c of None \<Rightarrow> [] | Some x \<Rightarrow> x # chain_up pg n (pg_parent pg x))"

definition event_path :: "page \<Rightarrow> nat \<Rightarrow> string \<Rightarrow> bool \<Rightarrow> nat list" where
  "event_path pg elem type onlyHandlers =
     (if \<not> onlyHandlers \<and> \<not> noBubble type \<and> \<not> pg_isWindow pg elem
      then (let bubbleType = mapped_type True type;
                cur = (if re_test rfocusMorph (bubbleType @ type) then Some elem else pg_parent pg elem);
                up = chain_up pg (pg_depth pg) cur
            in elem # up @ (if last (elem # up) = pg_document pg then [pg_view pg] else []))
      else [elem])"

definition fire_native :: "page \<Rightarrow> hcall \<Rightarrow> string \<Rightarrow> nat \<Rightarrow> evt \<Rightarrow> eworld \<Rightarrow> (nat, evt, eworld) res" where
  "fire_native pg call type cur ev w =
     (case (if CHR '':'' \<in> set type then None else onprop w cur (''on'' @ type)) of
        None \<Rightarrow> Done ev w
      | Some f \<Rightarrow>
          if acceptData (pg_info pg cur)
          then bindR (call (Client f) cur ev w) (\<lambda>(ret, ev1) w1. Done (if ret = RFalse then preventDefault ev1 else ev1) w1)
          else Done ev w)"

fun fire_path :: "page \<Rightarrow> hcall \<Rightarrow> string \<Rightarrow> bool \<Rightarrow> nat list \<Rightarrow> evt \<Rightarrow> eworld \<Rightarrow> (nat, evt, eworld) res" where
  "fire_path pg call type first [] ev w = Done ev w"
| "fire_path pg call type first (cur # path) ev w =
     (if e_stopped ev then Done ev w
      else (let ev1 = ev\<lparr>e_type := mapped_type (\<not> first) type\<rparr> in
            bindR (if (case events w cur of None \<Rightarrow> False | Some evs \<Rightarrow> map_of evs (e_type ev1) \<noteq> None)
                   then elem_handle pg call cur ev1 w else Done ev1 w) (\<lambda>ev2 w2.
            bindR (fire_native pg call type cur ev2 w2) (\<lambda>ev3 w3.
            fire_path pg call type False path ev3 w3))))"

type_synonym ncall = "nat \<Rightarrow> string \<Rightarrow> eworld \<Rightarrow> (nat, unit, eworld) res"

definition nodeName_is :: "page \<Rightarrow> nat \<Rightarrow> string \<Rightarrow> bool" where
  "nodeName_is pg el name = (nodeName (pg_info pg el) \<noteq> [] \<and> lower (nodeName (pg_info pg el)) = lower name)"

text \<open>Calling a native method; exceptions are caught where the code catches them.\<close>

definition caught :: "(nat, unit, eworld) res \<Rightarrow> (nat, unit, eworld) res" where
  "caught r = (case r of Exn e w \<Rightarrow> Done () w | _ \<Rightarrow> r)"

text \<open>\<open>special.trigger\<close>: whether the event has been left to the native method.\<close>

definition special_trigger :: "page \<Rightarrow> ncall \<Rightarrow> nat \<Rightarrow> string \<Rightarrow> eworld \<Rightarrow> (nat, bool, eworld) res" where
  "special_trigger pg native el type w =
     (if type = ''focus'' \<and> activeEl w \<noteq> Some el \<and> pg_method pg el type
      then (case native el type w of Diverge \<Rightarrow> Diverge | Done u w1 \<Rightarrow> Done True w1 | Exn e w1 \<Rightarrow> Done False w1)
      else if (type = ''blur'' \<and> activeEl w = Some el \<and> pg_method pg el type) \<or>
              (type = ''click'' \<and> nodeName_is pg el ''input'' \<and> pg_checkbox pg el \<and> pg_method pg el type)
      then bindR (native el type w) (\<lambda>_ w1. Done True w1)
      else Done False w)"

definition default_allowed :: "page \<Rightarrow> string \<Rightarrow> evt \<Rightarrow> bool" where
  "default_allowed pg type ev =
     (type = ''click'' \<longrightarrow> (case e_target ev of Some t \<Rightarrow> nodeName (pg_info pg t) \<noteq> [] \<and> \<not> nodeName_is pg t ''a'' | None \<Rightarrow> False))"

definition default_action :: "page \<Rightarrow> ncall \<Rightarrow> nat \<Rightarrow> string \<Rightarrow> eworld \<Rightarrow> (nat, unit, eworld) res" where
  "default_action pg native elem type w =
     (if CHR '':'' \<notin> set type \<and> pg_method pg elem type \<and> \<not> pg_isWindow pg elem
      then (let on = ''on'' @ type; tmp = onprop w elem on;
                w1 = (if tmp \<noteq> None then w\<lparr>onprop := (onprop w)(elem := (onprop w elem)(on := None))\<rparr> else w)
            in bindR (caught (native elem type (w1\<lparr>triggered := Some type\<rparr>))) (\<lambda>_ w2.
                 let w3 = w2\<lparr>triggered := None\<rparr> in
                 Done () (if tmp \<noteq> None then w3\<lparr>onprop := (onprop w3)(elem := (onprop w3 elem)(on := tmp))\<rparr> else w3)))
      else Done () w)"

text \<open>The event to trigger: a type with namespaces, or an event object.\<close>

datatype trig = TType string | TEvent evt

definition trig_type :: "trig \<Rightarrow> string" where
  "trig_type t = (case t of TType s \<Rightarrow> s | TEvent e \<Rightarrow> e_type e)"

definition trig_event :: "trig \<Rightarrow> nat \<Rightarrow> bool \<Rightarrow> string \<times> evt" where
  "trig_event t elem onlyHandlers =
     (let full = trig_type t;
          parts = split_on (CHR ''.'') full;
          (type, ns) = (if CHR ''.'' \<in> set full then (hd parts, sort (tl parts))
                        else (full, case t of TEvent e \<Rightarrow> (case e_ns e of Some s \<Rightarrow> split_on (CHR ''.'') s | None \<Rightarrow> []) | TType s \<Rightarrow> []));
          e = (case t of TEvent e \<Rightarrow> e | TType s \<Rightarrow> new_Event type);
          name = join_on ''.'' ns
      in (type, e\<lparr>e_isTrigger := (if onlyHandlers then 2 else 3), e_ns := Some name,
            e_ns_re := (if name \<noteq> [] then Some (ns_re ns) else None), e_result := RUndef,
            e_target := (case e_target e of None \<Rightarrow> Some elem | x \<Rightarrow> x)\<rparr>))"

definition event_trigger :: "page \<Rightarrow> hcall \<Rightarrow> ncall \<Rightarrow> trig \<Rightarrow> nat \<Rightarrow> bool \<Rightarrow> eworld \<Rightarrow> (nat, eret \<times> bool, eworld) res" where
  "event_trigger pg call native t elem onlyHandlers w =
     (if nodeType (pg_info pg elem) = 3 \<or> nodeType (pg_info pg elem) = 8 then Done (RUndef, False) w
      else if re_test rfocusMorph (trig_type t @ (case triggered w of None \<Rightarrow> ''undefined'' | Some u \<Rightarrow> u))
      then Done (RUndef, False) w
      else (let (type, ev) = trig_event t elem onlyHandlers in
            bindR (if onlyHandlers then Done False w else special_trigger pg native elem type w) (\<lambda>over w1.
              if over then Done (RUndef, e_prevented ev) w1
              else bindR (fire_path pg call type True (event_path pg elem type onlyHandlers) ev w1) (\<lambda>ev2 w2.
                bindR (if \<not> onlyHandlers \<and> \<not> e_prevented ev2 \<and> default_allowed pg type ev2 \<and> acceptData (pg_info pg elem)
                       then default_action pg native elem type w2 else Done () w2)
                  (\<lambda>_ w3. Done (e_result ev2, e_prevented ev2) w3)))))"

text \<open>\<open>simulate\<close>: a copy of the donor under another type; preventing it prevents the donor.\<close>

definition simulate :: "page \<Rightarrow> hcall \<Rightarrow> ncall \<Rightarrow> string \<Rightarrow> nat \<Rightarrow> evt \<Rightarrow> bool \<Rightarrow> eworld \<Rightarrow> (nat, evt, eworld) res" where
  "simulate pg call native type elem ev bubble w =
     (let e = ev\<lparr>e_type := type, e_simulated := True\<rparr> in
      if bubble
      then bindR (event_trigger pg call native (TEvent e) elem False w)
             (\<lambda>(r, prev) w1. Done (if prev then preventDefault ev else ev) w1)
      else bindR (dispatch pg call elem e w) (\<lambda>e1 w1. Done (if e_prevented e1 then preventDefault ev else ev) w1))"

section \<open>on, one, off and client programs\<close>

definition event_one :: "page \<Rightarrow> nat \<Rightarrow> string \<Rightarrow> nat \<Rightarrow> nat option \<Rightarrow> string option \<Rightarrow> eworld \<Rightarrow> eworld" where
  "event_one pg el types f dat selector w =
     (let w1 = give_guid (Client f) w in
      event_add pg el types (Once f) dat selector (w1\<lparr>onceguid := (onceguid w1)(f := fguid w1 f)\<rparr>))"

definition off_depth :: nat where "off_depth = 2"

definition event_off :: "nat \<Rightarrow> string \<Rightarrow> hfn option \<Rightarrow> string option \<Rightarrow> eworld \<Rightarrow> eworld option" where
  "event_off el types fn selector w =
     event_remove off_depth el (tokens types) (map_option (\<lambda>f. fn_guid f w) fn) (sel_of selector) False w"

text \<open>\<open>off( event )\<close> with the event that is being handled.\<close>

definition off_event :: "evt \<Rightarrow> eworld \<Rightarrow> eworld option" where
  "off_event ev w =
     (case e_hobj ev of
        None \<Rightarrow> Some w
      | Some h \<Rightarrow> event_off (e_delegate ev)
          (if o_namespace h \<noteq> [] then o_origType h @ ''.'' @ o_namespace h else o_origType h)
          (Some (o_handler h)) (o_selector h) w)"

type_synonym eemit = "nat \<Rightarrow> nat \<Rightarrow> evt \<Rightarrow> eworld \<Rightarrow> (nat, eret \<times> evt, eworld) res"

definition call_fn :: "eemit \<Rightarrow> hcall" where
  "call_fn emit f el ev w =
     (case f of
        Client k \<Rightarrow> emit k el ev w
      | Once k \<Rightarrow> (case off_event ev w of None \<Rightarrow> Diverge | Some w1 \<Rightarrow> emit k el ev w1))"

datatype eop = EvOn nat string "string option" nat | EvOne nat string "string option" nat
  | EvOff nat string "nat option" "string option" | EvTrigger nat string | EvTriggerHandler nat string | EvNative nat native

text \<open>What client code does: some operations, and then the event methods, the result or an exception.\<close>

record hreact =
  r_ops :: "eop list"
  r_throw :: "nat option"
  r_ret :: eret
  r_prevent :: bool
  r_stop :: bool
  r_immediate :: bool

datatype cause = CHandler nat nat evt | CNative nat string

definition react_event :: "hreact \<Rightarrow> evt \<Rightarrow> evt" where
  "react_event a ev =
     (let e1 = (if r_prevent a then preventDefault ev else ev);
          e2 = (if r_stop a then stopPropagation e1 else e1)
      in if r_immediate a then stopImmediatePropagation e2 else e2)"

definition e_op :: "page \<Rightarrow> hcall \<Rightarrow> ncall \<Rightarrow> eop \<Rightarrow> eworld \<Rightarrow> (nat, unit, eworld) res" where
  "e_op pg call native c w =
     (case c of
        EvOn el types sel f \<Rightarrow> Done () (event_add pg el types (Client f) None sel w)
      | EvOne el types sel f \<Rightarrow> Done () (event_one pg el types f None sel w)
      | EvOff el types f sel \<Rightarrow> (case event_off el types (map_option Client f) sel w of None \<Rightarrow> Diverge | Some w1 \<Rightarrow> Done () w1)
      | EvTrigger el t \<Rightarrow> bindR (event_trigger pg call native (TType t) el False w) (\<lambda>_ w1. Done () w1)
      | EvTriggerHandler el t \<Rightarrow> bindR (event_trigger pg call native (TType t) el True w) (\<lambda>_ w1. Done () w1)
      | EvNative el n \<Rightarrow>
          (if (el, n_type n) \<in> set (bound w)
           then bindR (elem_handle pg call el (fix_event pg n) w) (\<lambda>_ w1. Done () w1) else Done () w))"

fun e_ops :: "page \<Rightarrow> hcall \<Rightarrow> ncall \<Rightarrow> eop list \<Rightarrow> eworld \<Rightarrow> (nat, unit, eworld) res" where
  "e_ops pg call native [] w = Done () w"
| "e_ops pg call native (c # cs) w = bindR (e_op pg call native c w) (\<lambda>_ w1. e_ops pg call native cs w1)"

fun e_react :: "page \<Rightarrow> (cause \<Rightarrow> eworld \<Rightarrow> hreact) \<Rightarrow> nat \<Rightarrow> cause \<Rightarrow> eworld \<Rightarrow> (nat, eret \<times> evt, eworld) res" where
  "e_react pg code 0 c w = Diverge"
| "e_react pg code (Suc n) c w =
     (let a = code c w;
          w1 = (case c of CHandler k el ev \<Rightarrow> w\<lparr>elog := elog w @ [(k, el, e_type ev)]\<rparr> | CNative el t \<Rightarrow> w);
          ev = (case c of CHandler k el ev \<Rightarrow> ev | CNative el t \<Rightarrow> new_Event t)
      in bindR (e_ops pg (call_fn (\<lambda>k el ev. e_react pg code n (CHandler k el ev)))
                  (\<lambda>el t w. bindR (e_react pg code n (CNative el t) w) (\<lambda>_ w2. Done () w2)) (r_ops a) w1)
           (\<lambda>_ w2. case r_throw a of Some x \<Rightarrow> Exn x w2 | None \<Rightarrow> Done (r_ret a, react_event a ev) w2))"

section \<open>When remove comes back\<close>

definition no_white :: "string \<Rightarrow> bool" where
  "no_white t = (\<forall>c \<in> set t. \<not> is_white c)"

lemma no_white_simps [simp]:
  "no_white []" "no_white (c # s) \<longleftrightarrow> \<not> is_white c \<and> no_white s" "no_white (rev s) = no_white s"
  "no_white (s @ t) \<longleftrightarrow> no_white s \<and> no_white t"
  by (auto simp: no_white_def)

definition plain_type :: "string \<Rightarrow> bool" where
  "plain_type t = (t \<noteq> [] \<and> no_white t \<and> (\<forall>c \<in> set t. nodot c))"

lemma white_newline: "no_white t \<Longrightarrow> no_newline t"
  by (auto simp: no_white_def no_newline_def dotc_def nl_def is_white_def)

lemma words_single: "no_white s \<Longrightarrow> words_aux cur s = (if cur = [] \<and> s = [] then [] else [rev cur @ s])"
  by (induction s arbitrary: cur) (auto simp: no_white_def)

lemma tokens_single: "no_white s \<Longrightarrow> tokens s = [s]"
  by (auto simp: tokens_def match_notwhite_def words_single)

lemma words_no_white: "t \<in> set (words_aux cur s) \<Longrightarrow> no_white cur \<Longrightarrow> no_white t"
proof (induction cur s rule: words_aux.induct)
  case (2 cur c s)
  then show ?case by (cases "is_white c"; cases "cur = []") auto
qed (auto split: if_splits)

lemma tokens_no_white: "t \<in> set (tokens s) \<Longrightarrow> no_white t"
proof -
  assume t: "t \<in> set (tokens s)"
  have nil: "no_white []" by (simp add: no_white_def)
  show ?thesis
  proof (cases "match_notwhite s = []")
    case True
    with t nil show ?thesis by (simp add: tokens_def)
  next
    case False
    with t have "t \<in> set (words_aux [] s)" by (simp add: tokens_def match_notwhite_def)
    then show ?thesis using nil by (rule words_no_white)
  qed
qed

definition good_token :: "string \<Rightarrow> bool" where
  "good_token t = (no_white t \<and> token_parse t \<noteq> None)"

definition plain_keys :: "nat \<Rightarrow> eworld \<Rightarrow> bool" where
  "plain_keys el w = (\<forall>evs t h. events w el = Some evs \<longrightarrow> (t, h) \<in> set evs \<longrightarrow> plain_type t)"

lemma takeWhile_plain: "\<forall>c \<in> set k. nodot c \<Longrightarrow> takeWhile nodot (k @ t) = k @ takeWhile nodot t"
  "\<forall>c \<in> set k. nodot c \<Longrightarrow> dropWhile nodot (k @ t) = dropWhile nodot t"
  by (induction k) auto

text \<open>A type put in front of a token without one makes a token with that type.\<close>

lemma prefixed_token:
  assumes "plain_type k" and "good_token tok" and "token_type tok = Some []"
  shows "token_type (k @ tok) = Some k" "tokens (k @ tok) = [k @ tok]" "token_rest (k @ tok) = token_rest tok"
proof -
  have tw: "no_white tok" "no_white (k @ tok)" using assms by (auto simp: good_token_def plain_type_def no_white_def)
  then show "tokens (k @ tok) = [k @ tok]" by (intro tokens_single)
  note nl = white_newline [OF tw(1)] white_newline [OF tw(2)]
  obtain a r where p: "token_parse tok = Some (a, r)" using assms(2) by (cases "token_parse tok") (auto simp: good_token_def)
  then have "a = []" using assms(3) token_spec(1) [OF nl(1)] by simp
  then have "takeWhile nodot tok = []" using p by (auto simp: token_parse_def Let_def split: if_splits)
  moreover have "\<forall>c \<in> set k. nodot c" using assms(1) by (simp add: plain_type_def)
  ultimately have "token_parse (k @ tok) = Some (k, r)"
    using p \<open>a = []\<close> unfolding token_parse_def Let_def by (simp only: takeWhile_plain append_Nil2 split: if_splits) simp_all
  then show "token_type (k @ tok) = Some k" "token_rest (k @ tok) = token_rest tok"
    using p token_spec [OF nl(1)] token_spec [OF nl(2)] by simp_all
qed

lemma remove_typed_token:
  assumes "no_white tok" and "token_type tok = Some (c # orig)"
  shows "remove_tokens n el (tok # toks) gd sel mapped w =
    remove_tokens n el toks gd sel mapped (remove_typed el (c # orig) tok gd sel mapped w)"
  using assms by simp

lemma remove_one_token:
  assumes "token_type tok = Some (c # orig)"
  shows "\<exists>w'. event_remove (Suc n) el [tok] gd sel mapped w = Some w'"
  using assms by simp

lemma remove_types_ends:
  assumes "good_token tok" and "token_type tok = Some []"
  shows "\<forall>k \<in> set ks. plain_type k \<Longrightarrow> \<exists>w'. remove_types (Suc n) el ks tok gd sel w = Some w'"
proof (induction ks arbitrary: w)
  case (Cons k ks)
  then have k: "plain_type k" by simp
  then obtain c k' where "k = c # k'" by (cases k) (auto simp: plain_type_def)
  with prefixed_token [OF k assms] obtain w1 where
    "event_remove (Suc n) el (tokens (k @ tok)) gd sel True w = Some w1" by (metis remove_one_token)
  with Cons show ?case by simp
qed simp

section \<open>The loop over the handlers\<close>

lemma remove_handlers_eq:
  "n \<le> length (hs h) \<Longrightarrow> remove_handlers P n h =
     \<lparr>hs = filter (\<lambda>x. \<not> P x) (take n (hs h)) @ drop n (hs h),
      delegateCount = delegateCount h - length (filter (\<lambda>x. P x \<and> o_selector x \<noteq> None) (take n (hs h)))\<rparr>"
proof (induction n arbitrary: h)
  case 0
  then show ?case by simp
next
  case (Suc n)
  let ?x = "hs h ! n"
  have n: "n < length (hs h)" using Suc.prems by simp
  have tk: "take (Suc n) (hs h) = take n (hs h) @ [?x]" using n by (rule take_Suc_conv_app_nth)
  have dr: "drop n (hs h) = ?x # drop (Suc n) (hs h)" using n by (rule Cons_nth_drop_Suc [symmetric])
  show ?case
  proof (cases "P ?x")
    case False
    then show ?thesis using Suc.IH [of h] n tk dr by simp
  next
    case True
    define h' where "h' = \<lparr>hs = splice1 n (hs h), delegateCount = (if o_selector ?x \<noteq> None then delegateCount h - 1 else delegateCount h)\<rparr>"
    have le: "n \<le> length (hs h')" using n by (simp add: h'_def)
    have sp: "take n (splice1 n (hs h)) = take n (hs h)" "drop n (splice1 n (hs h)) = drop (Suc n) (hs h)"
      using n by (simp_all add: splice1_def)
    have "remove_handlers P (Suc n) h = remove_handlers P n h'" using True by (simp add: h'_def)
    with Suc.IH [OF le] sp tk True show ?thesis by (auto simp: h'_def)
  qed
qed

text \<open>Delegated handlers stand in front; \<open>delegateCount\<close> is their number.\<close>

definition delegates_first :: "hlist \<Rightarrow> bool" where
  "delegates_first h \<longleftrightarrow> (\<exists>ds ns. hs h = ds @ ns \<and> delegateCount h = length ds \<and>
     (\<forall>x \<in> set ds. o_selector x \<noteq> None) \<and> (\<forall>x \<in> set ns. o_selector x = None))"

lemma remove_all_handlers:
  fixes P
  assumes "delegates_first h"
  defines "h' \<equiv> remove_handlers P (length (hs h)) h"
  shows "hs h' = filter (\<lambda>x. \<not> P x) (hs h) \<and> delegates_first h'"
proof -
  from assms(1) obtain ds ns where d: "hs h = ds @ ns" "delegateCount h = length ds"
    "\<forall>x \<in> set ds. o_selector x \<noteq> None" "\<forall>x \<in> set ns. o_selector x = None" by (auto simp: delegates_first_def)
  have hs': "hs h' = filter (\<lambda>x. \<not> P x) (hs h)" by (simp add: h'_def remove_handlers_eq)
  have "filter (\<lambda>x. P x \<and> o_selector x \<noteq> None) (hs h) = filter P ds"
    using d(3,4) by (auto simp: d(1) filter_empty_conv intro: filter_cong)
  then have "delegateCount h' = length ds - length (filter P ds)" by (simp add: h'_def remove_handlers_eq d(2))
  also have "\<dots> = length (filter (\<lambda>x. \<not> P x) ds)" using sum_length_filter_compl [of P ds] by simp
  finally have "delegates_first h'"
    unfolding delegates_first_def using hs' d
    by (intro exI [of _ "filter (\<lambda>x. \<not> P x) ds"] exI [of _ "filter (\<lambda>x. \<not> P x) ns"]) auto
  with hs' show ?thesis ..
qed

lemma insert_handler_first:
  assumes "delegates_first h"
  shows "delegates_first (insert_handler x h)"
    "set (hs (insert_handler x h)) = insert x (set (hs h))"
proof -
  from assms obtain ds ns where d: "hs h = ds @ ns" "delegateCount h = length ds"
    "\<forall>x \<in> set ds. o_selector x \<noteq> None" "\<forall>x \<in> set ns. o_selector x = None" by (auto simp: delegates_first_def)
  show "delegates_first (insert_handler x h)"
  proof (cases "o_selector x")
    case None
    then show ?thesis unfolding delegates_first_def using d
      by (intro exI [of _ ds] exI [of _ "ns @ [x]"]) (simp add: insert_handler_def)
  next
    case (Some s)
    then show ?thesis unfolding delegates_first_def using d
      by (intro exI [of _ "ds @ [x]"] exI [of _ ns]) (simp add: insert_handler_def)
  qed
  show "set (hs (insert_handler x h)) = insert x (set (hs h))"
    using d by (cases "o_selector x") (auto simp: insert_handler_def)
qed

section \<open>The invariant of the event store\<close>

text \<open>
  Every list belongs to a type, is not empty, and has its delegates in front; an element
  listens natively exactly to the types it has handlers for, those with a set-up of their
  own aside. The namespaces of a handler are sorted.
\<close>

definition names_ok :: "string \<Rightarrow> bool" where
  "names_ok s \<longleftrightarrow> no_newline s \<and> sorted (split_on (CHR ''.'') s)"

definition hlist_ok :: "string \<Rightarrow> hlist \<Rightarrow> bool" where
  "hlist_ok t h \<longleftrightarrow> hs h \<noteq> [] \<and> delegates_first h \<and> (\<forall>x \<in> set (hs h). o_type x = t \<and> names_ok (o_namespace x))"

definition el_ok :: "(string \<times> hlist) list option \<Rightarrow> string set \<Rightarrow> bool" where
  "el_ok evs ts \<longleftrightarrow> (case evs of None \<Rightarrow> ts = {} | Some es \<Rightarrow>
     distinct (map fst es) \<and> (\<forall>(t, h) \<in> set es. plain_type t \<and> hlist_ok t h) \<and>
     ts = {t \<in> fst ` set es. \<not> own_setup t})"

definition listens :: "nat \<Rightarrow> eworld \<Rightarrow> string set" where
  "listens el w = {t. (el, t) \<in> set (bound w)}"

definition events_ok :: "eworld \<Rightarrow> bool" where
  "events_ok w \<longleftrightarrow> (\<forall>el. el_ok (events w el) (listens el w))"

lemma el_ok_put:
  assumes "el_ok (Some es) ts" and "plain_type t" and "hlist_ok t h"
  shows "el_ok (Some (put_prop t h es)) (if own_setup t then ts else insert t ts)"
proof -
  have sub: "set (put_prop t h es) \<subseteq> insert (t, h) (set es)" for es :: "(string \<times> hlist) list"
    by (induction t h es rule: put_prop.induct) auto
  have all: "\<forall>x \<in> set (put_prop t h es). case x of (t, h) \<Rightarrow> plain_type t \<and> hlist_ok t h"
  proof
    fix x assume "x \<in> set (put_prop t h es)"
    with sub have "x = (t, h) \<or> x \<in> set es" by blast
    then show "case x of (t, h) \<Rightarrow> plain_type t \<and> hlist_ok t h" using assms by (auto simp: el_ok_def)
  qed
  have "fst ` set (put_prop t h es) = insert t (fst ` set es)"
    using keys_put_prop [of t h es] by simp
  with all assms(1) show ?thesis by (auto simp: el_ok_def)
qed

lemma el_ok_del:
  assumes "el_ok (Some es) ts" and "own_setup orig \<longrightarrow> orig = t"
  shows "el_ok (Some (del_prop t es)) (if own_setup orig then ts else ts - {t})"
  using assms by (auto simp: el_ok_def del_prop_def distinct_map_filter)

lemma el_ok_lookup: "el_ok (Some es) ts \<Longrightarrow> map_of es t = Some h \<Longrightarrow> plain_type t \<and> hlist_ok t h"
  by (auto simp: el_ok_def dest!: map_of_SomeD)

lemma own_setup_mapped: "own_setup orig \<Longrightarrow> mapped_type d orig = orig"
  by (auto simp: own_setup_def mapped_type_def delegateType_def bindType_def)

lemma mapped_plain: "plain_type t \<Longrightarrow> plain_type (mapped_type d t)"
  by (auto simp: mapped_type_def delegateType_def bindType_def plain_type_def no_white_def is_white_def split: if_splits)

lemma events_ok_frame [simp]:
  "events_ok (w\<lparr>captures := c\<rparr>) = events_ok w" "events_ok (w\<lparr>fguid := g\<rparr>) = events_ok w"
  "events_ok (w\<lparr>onceguid := g\<rparr>) = events_ok w" "events_ok (w\<lparr>eguid := n\<rparr>) = events_ok w"
  "events_ok (w\<lparr>onprop := p\<rparr>) = events_ok w" "events_ok (w\<lparr>triggered := t\<rparr>) = events_ok w"
  "events_ok (w\<lparr>activeEl := a\<rparr>) = events_ok w" "events_ok (w\<lparr>globalTypes := ts\<rparr>) = events_ok w"
  "events_ok (w\<lparr>elog := l\<rparr>) = events_ok w"
  by (simp_all add: events_ok_def listens_def)

lemma events_ok_at: "events_ok w \<Longrightarrow> el_ok (events w el) (listens el w)"
  by (simp add: events_ok_def)

lemma events_ok_upd:
  assumes "events_ok w" and "el_ok evs ts" and "events w' = (events w)(el := evs)"
    and "\<And>a. listens a w' = (if a = el then ts else listens a w)"
  shows "events_ok w'"
  using assms by (auto simp: events_ok_def)

text \<open>Adding.\<close>

lemma give_guid_frame: "events (give_guid f w) = events w" "bound (give_guid f w) = bound w"
  by (auto simp: give_guid_def set_guid_def split: hfn.split)

lemma give_guid_ok [simp]: "events_ok (give_guid f w) = events_ok w"
  by (simp add: events_ok_def listens_def give_guid_frame)

lemma token_type_plain: "no_white tok \<Longrightarrow> token_type tok = Some orig \<Longrightarrow> orig \<noteq> [] \<Longrightarrow> plain_type orig"
proof -
  assume a: "no_white tok" "token_type tok = Some orig" "orig \<noteq> []"
  then have "orig = takeWhile nodot tok"
    using token_spec(1) [OF white_newline [OF a(1)]] by (auto simp: token_parse_def Let_def split: if_splits)
  then have "set orig \<subseteq> set tok" "\<forall>c \<in> set orig. nodot c" using set_takeWhileD by fastforce+
  with a show ?thesis by (auto simp: plain_type_def no_white_def)
qed

lemma add_handler_ok:
  assumes ok: "events_ok w" and es: "events w el = Some es" and t: "plain_type t" and x: "o_type x = t"
    and nm: "names_ok (o_namespace x)"
  defines "w1 \<equiv> init_handlers el t w"
  shows "events_ok (put_handlers el t (insert_handler x (handlers_at el t w1)) w1)"
    "events (put_handlers el t (insert_handler x (handlers_at el t w1)) w1) el \<noteq> None"
proof -
  let ?h = "handlers_at el t w1" and ?w2 = "put_handlers el t (insert_handler x (handlers_at el t w1)) w1"
  have eo: "el_ok (Some es) (listens el w)" using events_ok_at [OF ok, of el] es by simp
  show "events ?w2 el \<noteq> None" using es by (auto simp: put_handlers_def init_handlers_def w1_def Let_def split: option.split)
  show "events_ok ?w2"
  proof (cases "map_of es t")
    case (Some h)
    then have w1: "w1 = w" using es by (simp add: w1_def init_handlers_def)
    have h: "?h = h" using es Some by (simp add: w1 handlers_at_def)
    have "hlist_ok t h" using el_ok_lookup [OF eo Some] by simp
    then have hl: "hlist_ok t (insert_handler x h)"
      using x nm insert_handler_first [of h x] by (auto simp: hlist_ok_def)
    have mem: "t \<in> fst ` set es" using Some by (force dest: map_of_SomeD)
    have ts: "(if own_setup t then listens el w else insert t (listens el w)) = listens el w"
      using eo mem by (auto simp: el_ok_def)
    have e2: "events ?w2 = (events w)(el := Some (put_prop t (insert_handler x h) es))"
      unfolding h by (simp add: w1 put_handlers_def es)
    show ?thesis
      by (rule events_ok_upd [OF ok el_ok_put [OF eo t hl] e2]) (simp add: ts, simp add: listens_def w1 put_handlers_def es)
  next
    case None
    have ev1: "events w1 = (events w)(el := Some (put_prop t no_handlers es))"
      using None es by (simp add: w1_def init_handlers_def put_handlers_def Let_def)
    have h: "?h = no_handlers" by (simp add: handlers_at_def ev1)
    have "delegates_first no_handlers" unfolding delegates_first_def by (simp add: no_handlers_def)
    then have hl: "hlist_ok t (insert_handler x no_handlers)"
      using x nm insert_handler_first [of no_handlers x] by (auto simp: hlist_ok_def no_handlers_def)
    have "put_prop t g (put_prop t g' ps) = put_prop t g ps" for g g' and ps :: "(string \<times> hlist) list"
      by (induction t g' ps rule: put_prop.induct) auto
    then have e2: "events ?w2 = (events w)(el := Some (put_prop t (insert_handler x no_handlers) es))"
      unfolding h by (simp add: put_handlers_def ev1)
    have b: "bound ?w2 = (if own_setup t then bound w else List.insert (el, t) (bound w))"
      unfolding h using None es by (simp add: w1_def init_handlers_def put_handlers_def Let_def)
    show ?thesis
      by (rule events_ok_upd [OF ok el_ok_put [OF eo t hl] e2]) (auto simp: listens_def b)
  qed
qed

lemma names_fit:
  assumes "no_newline s" and "sorted (split_on (CHR ''.'') s)" and "sorted ns" and "ns \<noteq> []"
    and "\<forall>n \<in> set ns. CHR ''.'' \<notin> set n"
  shows "re_test (ns_re ns) s \<longleftrightarrow> mset ns \<subseteq># mset (split_on (CHR ''.'') s)"
proof -
  obtain n ns' where n: "ns = n # ns'" using assms(4) by (cases ns) auto
  obtain m ms' where m: "split_on (CHR ''.'') s = m # ms'" by (cases "split_on (CHR ''.'') s") auto
  have s: "s = join_on ''.'' (m # ms')" using join_split [of "CHR ''.''" s] m by simp
  have "\<forall>h \<in> set (n # ns') \<union> set (m # ms'). \<forall>c \<in> set h. nodot c"
    using assms(5) n split_on_part [of _ "CHR ''.''" s] m by (metis Un_iff)
  then have "re_test (ns_re ns) s \<longleftrightarrow> subseq ns (m # ms')"
    using test_ns [OF assms(1), of ns] fits_in_join [of n ns' m ms'] by (simp add: s n)
  also have "\<dots> \<longleftrightarrow> mset ns \<subseteq># mset (m # ms')" by (rule sorted_subseq) (use assms(2,3) m in simp_all)
  finally show ?thesis by (simp add: m)
qed




lemma token_rest_white: "no_white tok \<Longrightarrow> no_white (token_rest tok)"
proof -
  assume nw: "no_white tok"
  have "set (tl (dropWhile nodot tok)) \<subseteq> set tok"
  proof
    fix c assume "c \<in> set (tl (dropWhile nodot tok))"
    then have "c \<in> set (dropWhile nodot tok)" by (cases "dropWhile nodot tok") auto
    then show "c \<in> set tok" by (rule set_dropWhileD)
  qed
  with nw show ?thesis
    using token_spec(2) [OF white_newline [OF nw]]
    by (auto simp: token_parse_def Let_def no_white_def split: if_splits option.splits)
qed

lemma token_names_ok: "no_white tok \<Longrightarrow> names_ok (join_on ''.'' (token_namespaces tok))"
proof -
  assume nw: "no_white tok"
  let ?ns = "token_namespaces tok"
  have parts: "CHR ''.'' \<notin> set n \<and> set n \<subseteq> set (token_rest tok)" if "n \<in> set ?ns" for n
    using that split_on_part by (simp add: token_namespaces_def)
  have "?ns \<noteq> []" by (metis length_0_conv length_sort split_on_not_Nil token_namespaces_def)
  then have "split_on (CHR ''.'') (join_on ''.'' ?ns) = ?ns" using parts by (intro split_join) auto
  moreover have "no_newline (join_on ''.'' ?ns)"
    using set_join_on [of "''.''" ?ns] parts white_newline [OF token_rest_white [OF nw]]
    unfolding no_newline_def by (fastforce simp: dotc_def nl_def)
  ultimately show ?thesis by (simp add: names_ok_def token_namespaces_def)
qed

lemma add_token_ok:
  assumes "events_ok w" and "events w el \<noteq> None" and "no_white tok"
  shows "events_ok (add_token pg el handler dat selector tok w)" "events (add_token pg el handler dat selector tok w) el \<noteq> None"
proof -
  obtain es where es: "events w el = Some es" using assms(2) by blast
  have "events_ok (add_token pg el handler dat selector tok w) \<and> events (add_token pg el handler dat selector tok w) el \<noteq> None"
  proof (cases "token_type tok")
    case None
    then show ?thesis using assms by (simp add: add_token_def)
  next
    case (Some orig)
    show ?thesis
    proof (cases "orig = []")
      case True
      then show ?thesis using assms Some by (simp add: add_token_def)
    next
      case False
      have "plain_type (mapped_type (selector \<noteq> None) orig)"
        by (rule mapped_plain, rule token_type_plain [OF assms(3) Some False])
      note ok = add_handler_ok [OF assms(1) es this _, where x = "\<lparr>o_type = mapped_type (selector \<noteq> None) orig, o_origType = orig,
          o_data = dat, o_handler = handler, o_guid = (case fn_guid handler w of Some g \<Rightarrow> g | None \<Rightarrow> 0), o_selector = selector,
          o_needsContext = (case selector of Some s \<Rightarrow> pg_needsContext pg s | None \<Rightarrow> False),
          o_namespace = join_on ''.'' (token_namespaces tok)\<rparr>"]
      show ?thesis using Some False ok token_names_ok [OF assms(3)] by (simp add: add_token_def Let_def)
    qed
  qed
  then show "events_ok (add_token pg el handler dat selector tok w)" "events (add_token pg el handler dat selector tok w) el \<noteq> None"
    by blast+
qed

lemma add_tokens_ok:
  "events_ok w \<Longrightarrow> events w el \<noteq> None \<Longrightarrow> \<forall>t \<in> set toks. no_white t
    \<Longrightarrow> events_ok (fold (add_token pg el handler dat selector) toks w)"
  by (induction toks arbitrary: w) (auto simp: add_token_ok simp del: not_None_eq)

lemma event_add_ok: "events_ok w \<Longrightarrow> events_ok (event_add pg el types handler dat selector w)"
proof -
  assume ok: "events_ok w"
  define w1 where "w1 = give_guid handler w"
  have w1: "events_ok w1" using ok by (simp add: w1_def)
  define w2 where "w2 = (if events w1 el = None then w1\<lparr>events := (events w1)(el \<mapsto> [])\<rparr> else w1)"
  have w2: "events_ok w2" "events w2 el \<noteq> None"
  proof -
    show "events w2 el \<noteq> None" by (simp add: w2_def)
    show "events_ok w2"
    proof (cases "events w1 el")
      case None
      then have "listens el w1 = {}" using events_ok_at [OF w1, of el] by (simp add: el_ok_def)
      then have "el_ok (Some []) {}" "\<And>a. listens a w2 = (if a = el then {} else listens a w1)"
        by (auto simp: el_ok_def w2_def listens_def)
      with None show ?thesis by (intro events_ok_upd [OF w1]) (auto simp: w2_def)
    qed (use w1 in \<open>simp add: w2_def\<close>)
  qed
  have "\<forall>t \<in> set (rev (tokens types)). no_white t" using tokens_no_white by simp
  from add_tokens_ok [OF w2 this] show ?thesis
    using ok by (simp add: event_add_def Let_def w1_def [symmetric] w2_def [symmetric])
qed

text \<open>Removing. What is left of a type is what is not to be removed.\<close>

definition removal :: "bool \<Rightarrow> string \<Rightarrow> string \<Rightarrow> nat option option \<Rightarrow> string option \<Rightarrow> hobj \<Rightarrow> bool" where
  "removal mapped orig tok gd sel =
     to_remove mapped orig gd (if token_rest tok \<noteq> [] then Some (ns_re (token_namespaces tok)) else None) sel"

lemma handlers_first: "events_ok w \<Longrightarrow> delegates_first (handlers_at el t w)"
proof -
  assume ok: "events_ok w"
  have "delegates_first no_handlers" unfolding delegates_first_def by (simp add: no_handlers_def)
  moreover have "delegates_first h" if "events w el = Some es" "map_of es t = Some h" for es h
    using el_ok_lookup [OF _ that(2)] events_ok_at [OF ok, of el] that(1) by (simp add: hlist_ok_def)
  ultimately show ?thesis by (auto simp: handlers_at_def split: option.split)
qed

lemma remove_typed_spec:
  fixes el orig tok gd sel mapped
  assumes ok: "events_ok w"
  defines "w' \<equiv> remove_typed el orig tok gd sel mapped w"
  defines "t \<equiv> mapped_type (sel \<noteq> None) orig"
  shows "events_ok w' \<and>
    (\<forall>a u. hs (handlers_at a u w') = (if a = el \<and> u = t then filter (\<lambda>x. \<not> removal mapped orig tok gd sel x) (hs (handlers_at a u w))
      else hs (handlers_at a u w)))"
proof -
  let ?P = "removal mapped orig tok gd sel" and ?h = "handlers_at el t w"
  define h' where "h' = remove_handlers ?P (length (hs ?h)) ?h"
  have rem: "hs h' = filter (\<lambda>x. \<not> ?P x) (hs ?h)" "delegates_first h'"
    using remove_all_handlers [OF handlers_first [OF ok]] by (simp_all add: h'_def)
  have w': "w' = (if hs ?h = [] then w else if hs h' = [] then drop_type el orig t w else put_handlers el t h' w)"
    unfolding w'_def remove_typed_def Let_def t_def h'_def removal_def ..
  show ?thesis
  proof (cases "hs ?h = []")
    case True
    then show ?thesis using w' ok by auto
  next
    case ne: False
    then obtain es h where es: "events w el = Some es" "map_of es t = Some h" "?h = h"
      by (auto simp: handlers_at_def no_handlers_def split: option.splits)
    have eo: "el_ok (Some es) (listens el w)" using events_ok_at [OF ok, of el] es(1) by simp
    have os: "own_setup orig \<longrightarrow> orig = t" using own_setup_mapped by (simp add: t_def)
    show ?thesis
    proof (cases "hs h' = []")
      case True
      then have wd: "w' = drop_type el orig t w" using w' ne by simp
      have ev: "events w' = (events w)(el := Some (del_prop t es))"
        using es(1) by (simp add: wd drop_type_def Let_def)
      have b: "bound w' = (if own_setup orig then bound w else removeAll (el, t) (bound w))"
        using es(1) by (simp add: wd drop_type_def Let_def)
      have "events_ok w'"
        by (rule events_ok_upd [OF ok el_ok_del [OF eo os] ev]) (auto simp: listens_def b)
      moreover have "handlers_at a u w' = (if a = el \<and> u = t then no_handlers else handlers_at a u w)" for a u
        using es(1) by (auto simp: handlers_at_def ev)
      ultimately show ?thesis using rem(1) True by (simp add: no_handlers_def)
    next
      case False
      then have wp: "w' = put_handlers el t h' w" using w' ne by simp
      have ev: "events w' = (events w)(el := Some (put_prop t h' es))" using es(1) by (simp add: wp put_handlers_def)
      have b: "bound w' = bound w" using es(1) by (simp add: wp put_handlers_def)
      have old: "plain_type t" "hlist_ok t h" using el_ok_lookup [OF eo es(2)] by simp_all
      then have hl: "hlist_ok t h'" using rem False es(3) by (auto simp: hlist_ok_def)
      have mem: "t \<in> fst ` set es" using es(2) by (force dest: map_of_SomeD)
      have ts: "(if own_setup t then listens el w else insert t (listens el w)) = listens el w"
        using eo mem by (auto simp: el_ok_def)
      have "events_ok w'"
        by (rule events_ok_upd [OF ok el_ok_put [OF eo old(1) hl] ev]) (simp add: ts, simp add: listens_def b)
      moreover have "handlers_at a u w' = (if a = el \<and> u = t then h' else handlers_at a u w)" for a u
        using es(1) by (auto simp: handlers_at_def ev)
      ultimately show ?thesis using rem(1) by simp
    qed
  qed
qed

lemma tidy_ok: "events_ok w \<Longrightarrow> events_ok (tidy el w)"
proof -
  assume ok: "events_ok w"
  show ?thesis
  proof (cases "events w el = Some []")
    case True
    then have "listens el w = {}" using events_ok_at [OF ok, of el] by (simp add: el_ok_def)
    then have "el_ok None {}" "\<And>a. listens a (tidy el w) = (if a = el then {} else listens a w)"
      using True by (auto simp: el_ok_def tidy_def listens_def)
    with True show ?thesis by (intro events_ok_upd [OF ok]) (auto simp: tidy_def)
  qed (use ok in \<open>simp add: tidy_def\<close>)
qed

lemma tidy_handlers [simp]: "handlers_at a u (tidy el w) = handlers_at a u w"
  by (auto simp: tidy_def handlers_at_def)

lemma event_remove_ok:
  shows "event_remove n el toks gd sel mapped w = Some w' \<Longrightarrow> events_ok w \<Longrightarrow> events_ok w'"
    and "remove_tokens n el toks gd sel mapped w = Some w' \<Longrightarrow> events_ok w \<Longrightarrow> events_ok w'"
    and "remove_types n el types tok gd sel w = Some w' \<Longrightarrow> events_ok w \<Longrightarrow> events_ok w'"
proof (induction n el toks gd sel mapped w and n el toks gd sel mapped w and n el types tok gd sel w
    arbitrary: w' and w' and w' rule: event_remove_remove_tokens_remove_types.induct)
  case (2 n el toks gd sel mapped w)
  then show ?case by (auto intro!: tidy_ok split: if_splits option.splits)
next
  case (4 n el tok toks gd sel mapped w)
  show ?case
  proof (cases "\<exists>c orig. token_type tok = Some (c # orig)")
    case True
    then show ?thesis using 4 remove_typed_spec [of w] by auto
  next
    case False
    then have "remove_tokens n el (tok # toks) gd sel mapped w =
      (case remove_types n el (map fst (case events w el of Some evs \<Rightarrow> evs | None \<Rightarrow> [])) tok gd sel w of
         None \<Rightarrow> None | Some w1 \<Rightarrow> remove_tokens n el toks gd sel mapped w1)"
      by (auto split: option.split list.split)
    then show ?thesis using 4 False by (auto split: option.splits list.splits)
  qed
next
  case (6 n el type types tok gd sel w)
  then show ?case by (auto split: option.splits)
qed auto

lemma keys_plain: "events_ok w \<Longrightarrow> \<forall>k \<in> set (map fst (case events w el of Some evs \<Rightarrow> evs | None \<Rightarrow> [])). plain_type k"
  using events_ok_at [of w el] by (cases "events w el") (auto simp: el_ok_def)

lemma good_typed: "good_token tok \<Longrightarrow> token_type tok \<noteq> None"
  using token_spec(1) [OF white_newline] by (auto simp: good_token_def)

lemma remove_tokens_ends:
  "events_ok w \<Longrightarrow> \<forall>t \<in> set toks. good_token t \<Longrightarrow> \<exists>w'. remove_tokens (Suc n) el toks gd sel mapped w = Some w'"
proof (induction toks arbitrary: w)
  case (Cons tok toks)
  then have g: "good_token tok" by simp
  from good_typed [OF g] consider (typed) c orig where "token_type tok = Some (c # orig)" | (all) "token_type tok = Some []"
    by (metis list.exhaust not_None_eq)
  then show ?case
  proof cases
    case typed
    then show ?thesis using Cons remove_typed_spec [OF Cons.prems(1)] by simp
  next
    case all
    from remove_types_ends [OF g all keys_plain [OF Cons.prems(1)]] obtain w1 where
      w1: "remove_types (Suc n) el (map fst (case events w el of Some evs \<Rightarrow> evs | None \<Rightarrow> [])) tok gd sel w = Some w1" by blast
    have "events_ok w1" by (rule event_remove_ok(3) [OF w1 Cons.prems(1)])
    then show ?thesis using Cons all w1 by simp
  qed
qed simp

text \<open>
  C27: \<open>off\<close> comes back, whatever handlers the element has, when every word of the types has
  something behind its first dot if it has one; two levels of calls are enough.
\<close>

theorem off_terminates:
  assumes "events_ok w" and "\<forall>t \<in> set (tokens types). token_parse t \<noteq> None"
  shows "\<exists>w'. event_off el types fn sel w = Some w' \<and> events_ok w'"
proof -
  have "\<forall>t \<in> set (rev (tokens types)). good_token t"
    using assms(2) tokens_no_white by (auto simp: good_token_def)
  note ends = remove_tokens_ends [OF assms(1) this]
  have "\<exists>w'. event_remove (Suc (Suc 0)) el (tokens types) gd s m w = Some w'" for gd s m
    using ends [of 0 el gd s m] by auto
  then obtain w' where "event_off el types fn sel w = Some w'"
    unfolding event_off_def off_depth_def numeral_2_eq_2 by blast
  then show ?thesis using event_remove_ok(1) assms(1) unfolding event_off_def by blast
qed

definition one_button :: eworld where
  "one_button = \<lparr>events = (\<lambda>el. None), bound = [], captures = (\<lambda>t. 0), fguid = (\<lambda>f. None), onceguid = (\<lambda>f. None),
     eguid = 1, onprop = (\<lambda>el t. None), triggered = None, activeEl = None, globalTypes = [], elog = []\<rparr>"

definition plain_page :: page where
  "plain_page = \<lparr>pg_parent = (\<lambda>el. if 0 < el \<and> el < 5 then Some (el - 1) else None),
     pg_info = (\<lambda>el. if el = 0 then \<lparr>nodeType = 9, nodeName = ''#document'', classid = None\<rparr>
       else \<lparr>nodeType = 1, nodeName = ''DIV'', classid = None\<rparr>),
     pg_disabled = (\<lambda>el. False), pg_isWindow = (\<lambda>el. el = 9), pg_document = 0, pg_view = 9, pg_depth = 10,
     pg_match = (\<lambda>c s root el. False), pg_needsContext = (\<lambda>s. False), pg_method = (\<lambda>el t. False), pg_checkbox = (\<lambda>el. False)\<rparr>"

lemma one_button_ok [simp]: "events_ok one_button"
  by (simp add: events_ok_def el_ok_def listens_def one_button_def)

lemma off_terminates_witness:
  "\<exists>w'. event_off 3 ''click.a .b'' None None
     (event_add plain_page 3 ''click.a.b keyup.b'' (Client 1) None None one_button) = Some w' \<and> events_ok w'"
proof (rule off_terminates [OF event_add_ok [OF one_button_ok]])
  show "\<forall>t \<in> set (tokens ''click.a .b''). token_parse t \<noteq> None" by code_simp
qed

text \<open>
  \<open>off\<close> with a word that ends in its only dot, as in \<open>off( "click." )\<close>, never comes back
  from an element that has handlers: the word has no type, so \<open>remove\<close> calls itself for
  every type with that type put in front of the word, which again is such a word.
\<close>

theorem off_dot_never_returns:
  assumes "events_ok w" and "events w el = Some (e # es)" and "no_white u" and "\<forall>c \<in> set u. c \<noteq> CHR ''.''"
  shows "event_remove n el [u @ ''.''] gd sel mapped w = None"
  using assms(3,4)
proof (induction n arbitrary: u mapped)
  case (Suc n)
  obtain k h where e: "e = (k, h)" by (rule prod.exhaust)
  have k: "plain_type k" using events_ok_at [OF assms(1), of el] assms(2) by (simp add: el_ok_def e)
  have nw: "no_white (u @ ''.'')" using Suc.prems(1) by (simp add: is_white_def)
  have "token_parse (u @ ''.'') = None"
    using Suc.prems(2) by (simp add: token_parse_def Let_def takeWhile_plain)
  then have tt: "token_type (u @ ''.'') = None" using token_spec(1) [OF white_newline [OF nw]] by simp
  have nk: "no_white (k @ u @ ''.'')" using k nw by (simp add: plain_type_def)
  have "event_remove n el [(k @ u) @ ''.''] gd sel True w = None"
    by (rule Suc.IH) (use k Suc.prems in \<open>auto simp: plain_type_def\<close>)
  then have "remove_types n el (map fst (e # es)) (u @ ''.'') gd sel w = None"
    using tokens_single [OF nk] by (simp add: e)
  then have "remove_tokens n el [u @ ''.''] gd sel mapped w = None"
    using tt by (simp add: assms(2))
  then show ?case using assms(2) by simp
qed simp

lemma off_dot_never_returns_witness:
  "event_remove 1000 3 [''click'' @ ''.''] None None False
     (event_add plain_page 3 ''click'' (Client 1) None None one_button) = None"
proof -
  define w where "w = event_add plain_page 3 ''click'' (Client 1) None None one_button"
  have "case events w 3 of Some (e # es) \<Rightarrow> True | _ \<Rightarrow> False" unfolding w_def by code_simp
  then obtain e es where "events w 3 = Some (e # es)" by (auto split: option.splits list.splits)
  moreover have "events_ok w" unfolding w_def by (rule event_add_ok [OF one_button_ok])
  ultimately show ?thesis unfolding w_def [symmetric]
    by (intro off_dot_never_returns) (auto simp: no_white_def is_white_def)
qed









section \<open>Handlers that change the handlers\<close>

lemma event_one_ok: "events_ok w \<Longrightarrow> events_ok (event_one pg el types f dat sel w)"
  by (simp add: event_one_def Let_def event_add_ok)

lemma event_off_ok: "event_off el types fn sel w = Some w' \<Longrightarrow> events_ok w \<Longrightarrow> events_ok w'"
  unfolding event_off_def by (rule event_remove_ok(1))

text \<open>
  The contract between the event system and the functions it calls, handlers and native
  methods: they leave the event store as the operations leave it, also when they throw.
\<close>

locale event_client =
  fixes pg :: page and emit :: eemit and native :: ncall
  assumes emit_ok: "events_ok w \<Longrightarrow> keeps events_ok (emit k el ev w)"
    and native_ok: "events_ok w \<Longrightarrow> keeps events_ok (native el t w)"
begin

lemma call_ok: "events_ok w \<Longrightarrow> keeps events_ok (call_fn emit f el ev w)"
  by (auto simp: call_fn_def off_event_def emit_ok split: hfn.split option.split dest: event_off_ok)

lemma call_handler_ok: "events_ok w \<Longrightarrow> keeps events_ok (call_handler pg (call_fn emit) h el ev w)"
  by (auto simp: call_handler_def intro!: keeps_bindR call_ok split: option.split prod.split)

lemma run_list_ok: "events_ok w \<Longrightarrow> keeps events_ok (run_list pg (call_fn emit) el hl ev w)"
proof (induction hl arbitrary: ev w)
  case (Cons h hl)
  then show ?case by (auto intro!: keeps_bindR call_handler_ok split: prod.split)
qed simp

lemma run_queue_ok: "events_ok w \<Longrightarrow> keeps events_ok (run_queue pg (call_fn emit) q ev w)"
proof (induction q arbitrary: ev w)
  case (Cons m q)
  then show ?case by (cases m) (auto intro!: keeps_bindR run_list_ok)
qed simp

lemma handle_ok: "events_ok w \<Longrightarrow> keeps events_ok (elem_handle pg (call_fn emit) el ev w)"
  by (simp add: elem_handle_def dispatch_def run_queue_ok)

lemma fire_native_ok: "events_ok w \<Longrightarrow> keeps events_ok (fire_native pg (call_fn emit) t cur ev w)"
  by (auto simp: fire_native_def intro!: keeps_bindR call_ok split: option.split prod.split)

lemma fire_path_ok: "events_ok w \<Longrightarrow> keeps events_ok (fire_path pg (call_fn emit) t first path ev w)"
proof (induction path arbitrary: first ev w)
  case (Cons cur path)
  have start: "keeps events_ok (if (case events w cur of None \<Rightarrow> False | Some evs \<Rightarrow> map_of evs (e_type e) \<noteq> None)
      then elem_handle pg (call_fn emit) cur e w else Done e w)" for e
    using handle_ok [OF Cons.prems] Cons.prems by simp
  have rest: "keeps events_ok (bindR (fire_native pg (call_fn emit) t cur ev2 w2)
      (\<lambda>ev3 w3. fire_path pg (call_fn emit) t False path ev3 w3))" if "events_ok w2" for ev2 w2
    by (rule keeps_bindR [OF fire_native_ok [OF that]]) (rule Cons.IH)
  show ?case
    unfolding fire_path.simps Let_def using keeps_bindR [OF start rest] Cons.prems by simp
qed simp

lemma special_ok: "events_ok w \<Longrightarrow> keeps events_ok (special_trigger pg native el t w)"
proof -
  assume ok: "events_ok w"
  have "keeps events_ok (case native el t w of Diverge \<Rightarrow> Diverge | Done u w1 \<Rightarrow> Done True w1 | Exn e w1 \<Rightarrow> Done False w1)"
    using native_ok [OF ok, of el t] by (cases "native el t w") simp_all
  then show ?thesis using ok native_ok [OF ok] by (auto simp: special_trigger_def intro!: keeps_bindR)
qed

lemma default_ok: "events_ok w \<Longrightarrow> keeps events_ok (default_action pg native el t w)"
proof -
  assume ok: "events_ok w"
  have "keeps events_ok (caught (native el t w1))" if "events_ok w1" for w1
    using native_ok [OF that, of el t] by (cases "native el t w1") (simp_all add: caught_def)
  then show ?thesis using ok by (auto simp: default_action_def Let_def intro!: keeps_bindR)
qed

lemma trigger_ok: "events_ok w \<Longrightarrow> keeps events_ok (event_trigger pg (call_fn emit) native t el only w)"
proof -
  assume ok: "events_ok w"
  obtain type ev where te: "trig_event t el only = (type, ev)" by (rule prod.exhaust)
  have sp: "keeps events_ok (if only then Done False w else special_trigger pg native el type w)"
    using ok special_ok by simp
  have cont: "keeps events_ok (if over then Done (RUndef, e_prevented ev) w1
      else bindR (fire_path pg (call_fn emit) type True (event_path pg el type only) ev w1) (\<lambda>ev2 w2.
        bindR (if \<not> only \<and> \<not> e_prevented ev2 \<and> default_allowed pg type ev2 \<and> acceptData (pg_info pg el)
               then default_action pg native el type w2 else Done () w2)
          (\<lambda>_ w3. Done (e_result ev2, e_prevented ev2) w3)))" if "events_ok w1" for over w1
    using that by (auto intro!: keeps_bindR fire_path_ok default_ok)
  show ?thesis
    unfolding event_trigger_def te Let_def prod.case
    by (intro keeps_if keeps_bindR [OF sp] cont) (simp_all add: ok)
qed

lemma op_ok: "events_ok w \<Longrightarrow> keeps events_ok (e_op pg (call_fn emit) native c w)"
  by (cases c) (auto simp: e_op_def event_add_ok event_one_ok intro!: keeps_bindR trigger_ok handle_ok
      split: option.split dest: event_off_ok)

lemma ops_ok: "events_ok w \<Longrightarrow> keeps events_ok (e_ops pg (call_fn emit) native cs w)"
  by (induction cs arbitrary: w) (auto intro!: keeps_bindR op_ok)

end

lemma e_react_ok: "events_ok w \<Longrightarrow> keeps events_ok (e_react pg code n c w)"
proof (induction n arbitrary: c w)
  case (Suc n)
  have "event_client (\<lambda>k el ev. e_react pg code n (CHandler k el ev))
      (\<lambda>el t w. bindR (e_react pg code n (CNative el t) w) (\<lambda>_ w2. Done () w2))"
    by unfold_locales (auto intro!: keeps_bindR Suc.IH)
  note ops = event_client.ops_ok [OF this]
  show ?case using Suc.prems
    by (auto simp: Let_def intro!: keeps_bindR ops split: option.split cause.split)
qed simp

definition handler_of :: "page \<Rightarrow> (cause \<Rightarrow> eworld \<Rightarrow> hreact) \<Rightarrow> nat \<Rightarrow> eemit" where
  "handler_of pg code n = (\<lambda>k el ev. e_react pg code n (CHandler k el ev))"

definition method_of :: "page \<Rightarrow> (cause \<Rightarrow> eworld \<Rightarrow> hreact) \<Rightarrow> nat \<Rightarrow> ncall" where
  "method_of pg code n = (\<lambda>el t w. bindR (e_react pg code n (CNative el t) w) (\<lambda>_ w2. Done () w2))"

interpretation reacting_events: event_client pg "handler_of pg code n" "method_of pg code n"
  for pg code n
  by unfold_locales (auto simp: handler_of_def method_of_def intro!: keeps_bindR e_react_ok)

text \<open>
  C24: whatever handlers and native methods do while they run, exceptions included: every
  list of handlers belongs to its type and is not empty, its first \<open>delegateCount\<close> members
  are exactly the delegated ones, and an element has a native listener exactly for the
  types it has handlers of, apart from those with a set-up of their own.
\<close>

theorem event_store_consistent:
  "keeps (\<lambda>w. \<forall>el t.
       (events w el \<noteq> None \<longrightarrow> (\<forall>h. map_of (the (events w el)) t = Some h \<longrightarrow>
         hs h \<noteq> [] \<and> (\<forall>x \<in> set (hs h). o_type x = t) \<and>
         (\<forall>i < length (hs h). i < delegateCount h \<longleftrightarrow> o_selector (hs h ! i) \<noteq> None))) \<and>
       ((el, t) \<in> set (bound w) \<longleftrightarrow> \<not> own_setup t \<and> events w el \<noteq> None \<and> map_of (the (events w el)) t \<noteq> None))
     (e_ops pg (call_fn (handler_of pg code n)) (method_of pg code n) cs one_button)"
proof (rule keeps_mono)
  show "keeps events_ok (e_ops pg (call_fn (handler_of pg code n)) (method_of pg code n) cs one_button)"
    by (rule reacting_events.ops_ok) simp
next
  fix w assume ok: "events_ok w"
  have front: "i < delegateCount h \<longleftrightarrow> o_selector (hs h ! i) \<noteq> None" if "delegates_first h" "i < length (hs h)" for h i
  proof -
    from that(1) obtain ds ns where d: "hs h = ds @ ns" "delegateCount h = length ds"
      "\<forall>x \<in> set ds. o_selector x \<noteq> None" "\<forall>x \<in> set ns. o_selector x = None" by (auto simp: delegates_first_def)
    show ?thesis
    proof (cases "i < length ds")
      case True
      then show ?thesis using d by (simp add: nth_append)
    next
      case False
      then have "ns ! (i - length ds) \<in> set ns" using that(2) d(1) by simp
      then show ?thesis using d False by (simp add: nth_append)
    qed
  qed
  show "\<forall>el t.
       (events w el \<noteq> None \<longrightarrow> (\<forall>h. map_of (the (events w el)) t = Some h \<longrightarrow>
         hs h \<noteq> [] \<and> (\<forall>x \<in> set (hs h). o_type x = t) \<and>
         (\<forall>i < length (hs h). i < delegateCount h \<longleftrightarrow> o_selector (hs h ! i) \<noteq> None))) \<and>
       ((el, t) \<in> set (bound w) \<longleftrightarrow> \<not> own_setup t \<and> events w el \<noteq> None \<and> map_of (the (events w el)) t \<noteq> None)"
  proof (intro allI)
    fix el t
    have "hs h \<noteq> [] \<and> (\<forall>x \<in> set (hs h). o_type x = t) \<and>
        (\<forall>i < length (hs h). i < delegateCount h \<longleftrightarrow> o_selector (hs h ! i) \<noteq> None)"
      if a: "events w el \<noteq> None" "map_of (the (events w el)) t = Some h" for h
    proof -
      have "hlist_ok t h" using a el_ok_lookup events_ok_at [OF ok, of el] by fastforce
      then show ?thesis using front by (simp add: hlist_ok_def)
    qed
    moreover have "(el, t) \<in> set (bound w) \<longleftrightarrow> \<not> own_setup t \<and> events w el \<noteq> None \<and> map_of (the (events w el)) t \<noteq> None"
    proof (cases "events w el")
      case None
      then show ?thesis using events_ok_at [OF ok, of el] by (auto simp: el_ok_def listens_def)
    next
      case (Some es)
      then have "listens el w = {t \<in> fst ` set es. \<not> own_setup t}" using events_ok_at [OF ok, of el] by (simp add: el_ok_def)
      then have "(el, t) \<in> set (bound w) \<longleftrightarrow> t \<in> fst ` set es \<and> \<not> own_setup t" by (auto simp: listens_def)
      then show ?thesis using Some by (auto simp: map_of_eq_None_iff)
    qed
    ultimately show "(events w el \<noteq> None \<longrightarrow> (\<forall>h. map_of (the (events w el)) t = Some h \<longrightarrow>
         hs h \<noteq> [] \<and> (\<forall>x \<in> set (hs h). o_type x = t) \<and>
         (\<forall>i < length (hs h). i < delegateCount h \<longleftrightarrow> o_selector (hs h ! i) \<noteq> None))) \<and>
       ((el, t) \<in> set (bound w) \<longleftrightarrow> \<not> own_setup t \<and> events w el \<noteq> None \<and> map_of (the (events w el)) t \<noteq> None)"
      by blast
  qed
qed

definition quiet :: "cause \<Rightarrow> eworld \<Rightarrow> hreact" where
  "quiet c w = \<lparr>r_ops = [], r_throw = None, r_ret = RUndef, r_prevent = False, r_stop = False, r_immediate = False\<rparr>"

lemma event_store_consistent_witness:
  "(case e_ops plain_page (call_fn (handler_of plain_page quiet 3)) (method_of plain_page quiet 3)
      [EvOn 2 ''click'' None 1, EvOn 3 ''click'' None 2, EvTrigger 3 ''click''] one_button of
      Done u w \<Rightarrow> elog w = [(2, 3, ''click''), (1, 2, ''click'')] | _ \<Rightarrow> False) \<and>
   keeps (\<lambda>w. \<forall>el t.
       (events w el \<noteq> None \<longrightarrow> (\<forall>h. map_of (the (events w el)) t = Some h \<longrightarrow>
         hs h \<noteq> [] \<and> (\<forall>x \<in> set (hs h). o_type x = t) \<and>
         (\<forall>i < length (hs h). i < delegateCount h \<longleftrightarrow> o_selector (hs h ! i) \<noteq> None))) \<and>
       ((el, t) \<in> set (bound w) \<longleftrightarrow> \<not> own_setup t \<and> events w el \<noteq> None \<and> map_of (the (events w el)) t \<noteq> None))
     (e_ops plain_page (call_fn (handler_of plain_page quiet 3)) (method_of plain_page quiet 3)
       [EvOn 2 ''click'' None 1, EvOn 3 ''click'' None 2, EvTrigger 3 ''click''] one_button)"
proof
  show "case e_ops plain_page (call_fn (handler_of plain_page quiet 3)) (method_of plain_page quiet 3)
      [EvOn 2 ''click'' None 1, EvOn 3 ''click'' None 2, EvTrigger 3 ''click''] one_button of
      Done u w \<Rightarrow> elog w = [(2, 3, ''click''), (1, 2, ''click'')] | _ \<Rightarrow> False"
    by code_simp
qed (rule event_store_consistent)

section \<open>Namespaced events\<close>

text \<open>
  C26: an event triggered with namespaces reaches a handler exactly when the handler has
  all of them, counted, in whatever order the two were written. The names of the event have
  no characters that are special in a regular expression, and those of the handler no dots
  and no newlines.
\<close>

theorem namespaces_are_sets:
  assumes "e_ns_re ev = Some (ns_re (sort ns))" and "o_namespace h = join_on ''.'' (sort ms)"
    and "ns \<noteq> []" and "ms \<noteq> []" and "\<forall>n \<in> set ns. plain_name n"
    and "\<forall>m \<in> set ms. \<forall>c \<in> set m. c \<noteq> CHR ''.'' \<and> dotc c"
  shows "ns_ok ev h \<longleftrightarrow> mset ns \<subseteq># mset ms"
proof -
  let ?s = "join_on ''.'' (sort ms)"
  have ne: "sort ms \<noteq> []" "sort ns \<noteq> []" using assms(3,4) by (metis length_0_conv length_sort)+
  have sp: "split_on (CHR ''.'') ?s = sort ms" by (rule split_join [OF ne(1)]) (use assms(6) in auto)
  have "no_newline ?s"
    using set_join_on [of "''.''" "sort ms"] assms(6) unfolding no_newline_def by (fastforce simp: dotc_def nl_def)
  moreover note ne(2)
  moreover have "\<forall>n \<in> set (sort ns). CHR ''.'' \<notin> set n" using assms(5) by (auto simp: plain_name_def)
  ultimately have "re_test (ns_re (sort ns)) ?s \<longleftrightarrow> mset (sort ns) \<subseteq># mset (split_on (CHR ''.'') ?s)"
    by (intro names_fit) (simp_all add: sp)
  then show ?thesis using assms(1,2) by (simp add: ns_ok_def sp)
qed

lemma namespaces_are_sets_witness:
  "ns_ok ((new_Event ''click'')\<lparr>e_ns_re := Some (ns_re (sort [''open'', ''menu'']))\<rparr>)
     \<lparr>o_type = ''click'', o_origType = ''click'', o_data = None, o_handler = Client 1, o_guid = 1, o_selector = None,
      o_needsContext = False, o_namespace = join_on ''.'' (sort [''menu'', ''top'', ''open''])\<rparr>
   \<longleftrightarrow> mset [''open'', ''menu''] \<subseteq># mset [''menu'', ''top'', ''open'']"
  by (rule namespaces_are_sets) (simp_all add: dotc_def nl_def plain_name_def)

section \<open>one and nested events\<close>

text \<open>
  The queue of handlers is taken when an event is dispatched: when an earlier handler
  triggers the event again, the function bound with \<open>one\<close> runs for the inner event, is
  taken off, and runs again for the outer one.
\<close>

definition nested_trigger :: "cause \<Rightarrow> eworld \<Rightarrow> hreact" where
  "nested_trigger c w =
     (case c of
        CHandler k el ev \<Rightarrow>
          (quiet c w)\<lparr>r_ops := (if k = 1 \<and> length (elog w) = 0 then [EvTrigger el ''ping''] else [])\<rparr>
      | CNative el t \<Rightarrow> quiet c w)"

text \<open>
  a function bound with \<open>one\<close> can run twice.
\<close>

theorem one_runs_twice:
  "(case e_ops plain_page (call_fn (handler_of plain_page nested_trigger 5)) (method_of plain_page nested_trigger 5)
      [EvOn 3 ''ping'' None 1, EvOne 3 ''ping'' None 2, EvTrigger 3 ''ping''] one_button of
      Done u w \<Rightarrow> elog w = [(1, 3, ''ping''), (1, 3, ''ping''), (2, 3, ''ping''), (2, 3, ''ping'')] | _ \<Rightarrow> False)"
  by code_simp

text \<open>
  Taking off a delegated \<open>focus\<close> handler uses the tear-down of \<open>focus\<close>, which has
  none, instead of that of \<open>focusin\<close>: no handler is left, but the capturing handler on the
  document stays, counted for ever.
\<close>

theorem delegated_focus_leaks:
  "(case e_ops plain_page (call_fn (handler_of plain_page quiet 3)) (method_of plain_page quiet 3)
      [EvOn 3 ''focus'' (Some ''input'') 1, EvOff 3 ''focus'' (Some 1) (Some ''input'')] one_button of
      Done u w \<Rightarrow> events w 3 = None \<and> captures w ''focusin'' = 1 | _ \<Rightarrow> False)"
  by code_simp

end
