(* ===== verification/JqClass.thy ===== *)
theory JqClass
  imports JqEvent
begin

text \<open>
  The class methods of \<open>democlient/js/jquery.js\<close>: \<open>addClass\<close>, \<open>removeClass\<close>, \<open>toggleClass\<close>
  and \<open>hasClass\<close>, on the strings the \<open>className\<close> of each element is, with the string
  methods they search and replace with. The lemmas show that these strings implement lists of
  names without the names ever being stored as such.
\<close>

section \<open>String methods\<close>

text \<open>\<open>s.indexOf( t )\<close> and \<open>s.replace( t, r )\<close> with a string.\<close>

fun find_str :: "string \<Rightarrow> string \<Rightarrow> nat option" where
  "find_str t [] = (if t = [] then Some 0 else None)"
| "find_str t (c # s) = (if take (length t) (c # s) = t then Some 0 else map_option Suc (find_str t s))"

definition replace_str :: "string \<Rightarrow> string \<Rightarrow> string \<Rightarrow> string" where
  "replace_str t r s = (case find_str t s of None \<Rightarrow> s | Some i \<Rightarrow> take i s @ r @ drop (i + length t) s)"

lemma find_str_some: "find_str t s = Some i \<Longrightarrow> s = take i s @ t @ drop (i + length t) s"
proof (induction s arbitrary: i)
  case (Cons c s)
  show ?case
  proof (cases "take (length t) (c # s) = t")
    case True
    with Cons.prems have "i = 0" by simp
    with True show ?thesis by (metis add_0 append_take_drop_id append_Nil take0)
  next
    case False
    with Cons.prems obtain j where j: "find_str t s = Some j" "i = Suc j" by auto
    from Cons.IH [OF j(1)] j(2) show ?thesis by simp
  qed
qed (auto split: if_splits)

lemma find_str_hit: "find_str t (a @ t @ b) \<noteq> None"
proof (induction a)
  case Nil
  have "take (length t) (t @ b) = t" by simp
  then show ?case by (cases "t @ b") (auto split: if_splits)
qed auto

section \<open>The methods\<close>

text \<open>The elements of the page, by number; what \<open>toggleClass\<close> has put aside with \<open>_data\<close>.\<close>

record cstate =
  nodeT :: "nat \<Rightarrow> nat"
  className :: "nat \<Rightarrow> string"
  savedClass :: "nat \<Rightarrow> string option"

text \<open>The argument: a string, a boolean, nothing, or a function of the index and the old class.\<close>

datatype clsarg = CStr string | CBool bool | CNone | CFun "nat \<times> string \<Rightarrow> clsarg"

definition set_class :: "nat \<Rightarrow> string \<Rightarrow> cstate \<Rightarrow> cstate" where
  "set_class el s st = st\<lparr>className := (className st)(el := s)\<rparr>"

definition rclass :: re where
  "rclass = Ch (anyof [CHR 0x09, CHR 0x0D, CHR 0x0A, CHR 0x0C])"

definition spaced :: "string \<Rightarrow> string" where
  "spaced s = '' '' @ s @ '' ''"

definition class_text :: "string \<Rightarrow> string" where
  "class_text s = re_replace_all rclass (\<lambda>_. '' '') (spaced s)"

definition add_name :: "string \<Rightarrow> string \<Rightarrow> string" where
  "add_name clazz cur = (if find_str (spaced clazz) cur = None then cur @ clazz @ '' '' else cur)"

definition add_names :: "string \<Rightarrow> string \<Rightarrow> string" where
  "add_names value s = trim (fold add_name (match_notwhite value) (if s \<noteq> [] then class_text s else '' ''))"

text \<open>All instances of a name are removed, one after the other.\<close>

lemma replace_shorter:
  "find_str (spaced clazz) cur \<noteq> None \<Longrightarrow> length (replace_str (spaced clazz) '' '' cur) < length cur"
proof -
  assume "find_str (spaced clazz) cur \<noteq> None"
  then obtain i where i: "find_str (spaced clazz) cur = Some i" by auto
  from find_str_some [OF i] have "length cur = length (take i cur @ spaced clazz @ drop (i + length (spaced clazz)) cur)"
    by (rule arg_cong)
  with i show ?thesis by (simp add: replace_str_def spaced_def)
qed

function remove_name :: "string \<Rightarrow> string \<Rightarrow> string" where
  "remove_name clazz cur =
     (if find_str (spaced clazz) cur \<noteq> None then remove_name clazz (replace_str (spaced clazz) '' '' cur) else cur)"
  by pat_completeness auto
termination
  by (relation "measure (\<lambda>(clazz, cur). length cur)") (use replace_shorter in auto)

declare remove_name.simps [simp del]

definition remove_names_of :: "string option \<Rightarrow> string \<Rightarrow> string" where
  "remove_names_of value s =
     (let cur = (if s \<noteq> [] then class_text s else []) in
      if cur = [] then s
      else (let left = fold remove_name (match_notwhite (case value of Some v \<Rightarrow> v | None \<Rightarrow> [])) cur
            in case value of None \<Rightarrow> [] | Some v \<Rightarrow> trim left))"

definition each_class :: "nat list \<Rightarrow> (string \<Rightarrow> string) \<Rightarrow> cstate \<Rightarrow> cstate" where
  "each_class els f st = fold (\<lambda>el st. if nodeT st el = 1 then set_class el (f (className st el)) st else st) els st"

text \<open>\<open>this.each\<close> with the index and the class of each element given to the function.\<close>

definition each_arg :: "nat list \<Rightarrow> (nat \<times> string \<Rightarrow> nat list \<Rightarrow> cstate \<Rightarrow> cstate) \<Rightarrow> cstate \<Rightarrow> cstate" where
  "each_arg els f st = fold (\<lambda>(j, el) st. f (j, className st el) [el] st) (zip [0..<length els] els) st"

primrec addClass :: "clsarg \<Rightarrow> nat list \<Rightarrow> cstate \<Rightarrow> cstate" where
  "addClass (CStr v) = (\<lambda>els st. if v \<noteq> [] then each_class els (add_names v) st else st)"
| "addClass (CBool b) = (\<lambda>els st. st)"
| "addClass CNone = (\<lambda>els st. st)"
| "addClass (CFun g) = (\<lambda>els st. each_arg els (\<lambda>x. addClass (g x)) st)"

text \<open>Called without an argument it removes the whole class; passing undefined does nothing.\<close>

primrec removeClass_of :: "clsarg \<Rightarrow> nat list \<Rightarrow> cstate \<Rightarrow> cstate" where
  "removeClass_of (CStr v) = (\<lambda>els st. if v \<noteq> [] then each_class els (remove_names_of (Some v)) st else st)"
| "removeClass_of (CBool b) = (\<lambda>els st. st)"
| "removeClass_of CNone = (\<lambda>els st. st)"
| "removeClass_of (CFun g) = (\<lambda>els st. each_arg els (\<lambda>x. removeClass_of (g x)) st)"

definition removeClass :: "clsarg option \<Rightarrow> nat list \<Rightarrow> cstate \<Rightarrow> cstate" where
  "removeClass arg els st = (case arg of None \<Rightarrow> each_class els (remove_names_of None) st | Some v \<Rightarrow> removeClass_of v els st)"

definition hasClass :: "string \<Rightarrow> nat list \<Rightarrow> cstate \<Rightarrow> bool" where
  "hasClass selector els st =
     list_ex (\<lambda>el. nodeT st el = 1 \<and> find_str (spaced selector) (class_text (className st el)) \<noteq> None) els"

definition toggle_name :: "nat \<Rightarrow> string \<Rightarrow> cstate \<Rightarrow> cstate" where
  "toggle_name el name st =
     (if hasClass name [el] st then removeClass (Some (CStr name)) [el] st else addClass (CStr name) [el] st)"

definition toggle_whole :: "bool \<Rightarrow> nat \<Rightarrow> cstate \<Rightarrow> cstate" where
  "toggle_whole value_false el st =
     (let st1 = (if className st el \<noteq> [] then st\<lparr>savedClass := (savedClass st)(el \<mapsto> className st el)\<rparr> else st)
      in set_class el (if className st1 el \<noteq> [] \<or> value_false then []
                       else (case savedClass st1 el of Some s \<Rightarrow> s | None \<Rightarrow> [])) st1)"

primrec toggleClass :: "clsarg \<Rightarrow> bool option \<Rightarrow> nat list \<Rightarrow> cstate \<Rightarrow> cstate" where
  "toggleClass (CStr v) = (\<lambda>sv els st.
     case sv of Some b \<Rightarrow> (if b then addClass (CStr v) els st else removeClass (Some (CStr v)) els st)
     | None \<Rightarrow> fold (\<lambda>el. fold (toggle_name el) (match_notwhite v)) els st)"
| "toggleClass (CBool b) = (\<lambda>sv els st. fold (toggle_whole (\<not> b)) els st)"
| "toggleClass CNone = (\<lambda>sv els st. fold (toggle_whole False) els st)"
| "toggleClass (CFun g) = (\<lambda>sv els st. each_arg els (\<lambda>x. toggleClass (g x) sv) st)"

section \<open>Strings as lists of names\<close>

text \<open>Splitting at the spaces. The code's strings begin and end with one.\<close>

definition pieces :: "string \<Rightarrow> string list" where
  "pieces s = filter (\<lambda>t. t \<noteq> []) (split_on (CHR '' '') s)"

definition no_space :: "string \<Rightarrow> bool" where
  "no_space s = (CHR '' '' \<notin> set s)"

lemma join_append: "xs \<noteq> [] \<Longrightarrow> ys \<noteq> [] \<Longrightarrow> join_on [d] (xs @ ys) = join_on [d] xs @ d # join_on [d] ys"
proof (induction xs)
  case (Cons x xs)
  then show ?case by (cases xs; cases ys) auto
qed simp

lemma pieces_sep: "pieces (a @ CHR '' '' # b) = pieces a @ pieces b"
  by (simp add: pieces_def split_on_sep)

lemma pieces_Nil [simp]: "pieces [] = []"
  by (simp add: pieces_def)

lemma pieces_single: "no_space t \<Longrightarrow> t \<noteq> [] \<Longrightarrow> pieces t = [t]"
  by (simp add: pieces_def no_space_def split_on_no_sep)

lemma pieces_spaced:
  assumes "no_space t" and "t \<noteq> []"
  shows "pieces (a @ spaced t @ b) = pieces a @ [t] @ pieces b"
proof -
  have "a @ spaced t @ b = a @ CHR '' '' # (t @ CHR '' '' # b)" by (simp add: spaced_def)
  then show ?thesis by (simp only: pieces_sep pieces_single [OF assms])
qed

text \<open>Searching for a name with a space on either side finds the pieces.\<close>

definition framed :: "string \<Rightarrow> bool" where
  "framed s \<longleftrightarrow> s \<noteq> [] \<and> hd s = CHR '' '' \<and> last s = CHR '' ''"

lemma framed_split:
  assumes "framed s"
  obtains u v where "s = CHR '' '' # u" and "s = v @ '' ''"
proof -
  from assms have "s = CHR '' '' # tl s" "s = butlast s @ '' ''"
    unfolding framed_def by (metis list.collapse, metis append_butlast_last_id)
  then show ?thesis by (rule that)
qed

lemma find_piece:
  assumes "framed cur" and "no_space t" and "t \<noteq> []"
  shows "find_str (spaced t) cur \<noteq> None \<longleftrightarrow> t \<in> set (pieces cur)"
proof
  assume "find_str (spaced t) cur \<noteq> None"
  then obtain i where "find_str (spaced t) cur = Some i" by auto
  then have "cur = take i cur @ spaced t @ drop (i + length (spaced t)) cur" by (rule find_str_some)
  then have "pieces cur = pieces (take i cur) @ [t] @ pieces (drop (i + length (spaced t)) cur)"
    using pieces_spaced [OF assms(2,3)] by metis
  then show "t \<in> set (pieces cur)" by simp
next
  assume "t \<in> set (pieces cur)"
  then obtain xs ys where s: "split_on (CHR '' '') cur = xs @ t # ys" by (auto simp: pieces_def dest: split_list)
  obtain u v where u: "cur = CHR '' '' # u" and v: "cur = v @ '' ''" using assms(1) by (rule framed_split)
  have "hd (split_on (CHR '' '') cur) = []" by (simp add: u)
  then have x: "xs \<noteq> []" using s assms(3) by auto
  have "split_on (CHR '' '') cur = split_on (CHR '' '') v @ [[]]" using split_on_sep [of _ v "[]"] v by simp
  then have y: "ys \<noteq> []" using s assms(3) by auto
  have "cur = join_on '' '' (xs @ [t] @ ys)" using join_split [of "CHR '' ''" cur] s by simp
  also have "\<dots> = join_on '' '' xs @ spaced t @ join_on '' '' ys"
    using x y join_append [of xs "[t] @ ys" "CHR '' ''"] join_append [of "[t]" ys "CHR '' ''"] by (simp add: spaced_def)
  finally show "find_str (spaced t) cur \<noteq> None" using find_str_hit by metis
qed

lemma framed_add: "framed cur \<Longrightarrow> framed (cur @ t @ '' '')"
  by (auto simp: framed_def)

lemma pieces_add:
  assumes "framed cur" and "no_space t" and "t \<noteq> []"
  shows "framed (add_name t cur)"
    and "pieces (add_name t cur) = (if t \<in> set (pieces cur) then pieces cur else pieces cur @ [t])"
proof -
  obtain v where v: "cur = v @ '' ''" using assms(1) by (rule framed_split)
  have p: "pieces cur = pieces v" using pieces_sep [of v "[]"] v by simp
  have c: "cur @ t @ '' '' = v @ spaced t @ []" by (simp add: v spaced_def)
  have "pieces (cur @ t @ '' '') = pieces cur @ [t]"
    unfolding c pieces_spaced [OF assms(2,3), of v "[]"] by (simp add: p)
  then show "pieces (add_name t cur) = (if t \<in> set (pieces cur) then pieces cur else pieces cur @ [t])"
    using find_piece [OF assms] by (cases "t \<in> set (pieces cur)") (simp_all add: add_name_def)
  show "framed (add_name t cur)" using framed_add [OF assms(1)] assms(1) by (simp add: add_name_def)
qed

text \<open>One replacement takes one instance of the name away and keeps the frame.\<close>

lemma replace_piece:
  assumes "framed cur" and "find_str (spaced t) cur \<noteq> None" and "no_space t" and "t \<noteq> []"
  shows "framed (replace_str (spaced t) '' '' cur)"
    and "filter (\<lambda>x. x \<noteq> t) (pieces (replace_str (spaced t) '' '' cur)) = filter (\<lambda>x. x \<noteq> t) (pieces cur)"
proof -
  obtain i where i: "find_str (spaced t) cur = Some i" using assms(2) by auto
  define a b where "a = take i cur" and "b = drop (i + length (spaced t)) cur"
  have cur: "cur = a @ spaced t @ b" using find_str_some [OF i] by (simp add: a_def b_def)
  have r: "replace_str (spaced t) '' '' cur = a @ CHR '' '' # b" using i by (simp add: replace_str_def a_def b_def)
  show "filter (\<lambda>x. x \<noteq> t) (pieces (replace_str (spaced t) '' '' cur)) = filter (\<lambda>x. x \<noteq> t) (pieces cur)"
    unfolding r by (simp add: cur pieces_sep pieces_spaced [OF assms(3,4)])
  have "framed (a @ spaced t @ b)" using assms(1) cur by metis
  then have "framed (a @ CHR '' '' # b)" unfolding framed_def spaced_def by (cases a; cases b) auto
  with r show "framed (replace_str (spaced t) '' '' cur)" by metis
qed

lemma remove_name_pieces:
  assumes "no_space t" and "t \<noteq> []"
  shows "framed cur \<Longrightarrow> framed (remove_name t cur) \<and> pieces (remove_name t cur) = filter (\<lambda>x. x \<noteq> t) (pieces cur)"
proof (induction "length cur" arbitrary: cur rule: less_induct)
  case less
  show ?case
  proof (cases "find_str (spaced t) cur = None")
    case True
    with find_piece [OF less.prems assms] have "t \<notin> set (pieces cur)" by simp
    then have "filter (\<lambda>x. x \<noteq> t) (pieces cur) = pieces cur" by (intro filter_True) auto
    with True less.prems show ?thesis by (simp add: remove_name.simps [of t cur])
  next
    case False
    note r = replace_piece [OF less.prems False assms]
    have "remove_name t cur = remove_name t (replace_str (spaced t) '' '' cur)"
      using False by (simp add: remove_name.simps [of t cur])
    then show ?thesis using less.hyps [OF replace_shorter [OF False] r(1)] r(2) by simp
  qed
qed

section \<open>The names of an element\<close>

text \<open>White space of HTML separates the names of a class.\<close>

definition html_space :: "char \<Rightarrow> bool" where
  "html_space c = anyof [CHR 0x09, CHR 0x0D, CHR 0x0A, CHR 0x0C] c"

definition class_list :: "string \<Rightarrow> string list" where
  "class_list s = pieces (map (\<lambda>c. if html_space c then CHR '' '' else c) s)"

text \<open>No white space but that of HTML: what \<open>trim\<close> takes off separates names.\<close>

definition plain_class :: "string \<Rightarrow> bool" where
  "plain_class s = list_all (\<lambda>c. spacec c \<longrightarrow> html_space c \<or> c = CHR '' '') s"

lemma class_text_map: "class_text s = spaced (map (\<lambda>c. if html_space c then CHR '' '' else c) s)"
proof -
  have "concat (map (\<lambda>c. if P c then [d] else [c]) u) = map (\<lambda>c. if P c then d else c) u"
    for P and d :: char and u by (induction u) auto
  then show ?thesis
    unfolding class_text_def rclass_def replace_class by (simp add: spaced_def html_space_def)
qed

lemma class_text_framed [simp]: "framed (class_text s)"
  by (simp add: class_text_map framed_def spaced_def)

lemma pieces_space [simp]: "pieces (CHR '' '' # s) = pieces s" "pieces (s @ '' '') = pieces s"
  using pieces_sep [of "[]" s] pieces_sep [of s "[]"] by simp_all

lemma class_text_pieces [simp]: "pieces (class_text s) = class_list s"
  by (simp add: class_text_map class_list_def spaced_def)

text \<open>Only spaces, no other white space.\<close>

definition clean :: "string \<Rightarrow> bool" where
  "clean s = list_all (\<lambda>c. spacec c \<longrightarrow> c = CHR '' '') s"

lemma clean_simps [simp]:
  "clean []" "clean (a @ b) \<longleftrightarrow> clean a \<and> clean b" "clean (rev a) = clean a"
  "clean (c # a) \<longleftrightarrow> (spacec c \<longrightarrow> c = CHR '' '') \<and> clean a"
  by (auto simp: clean_def)

lemma spacec_white: "spacec c = is_white c"
  by (simp add: spacec_def is_white_def)

lemma clean_html: "clean s \<Longrightarrow> map (\<lambda>c. if html_space c then CHR '' '' else c) s = s"
  by (induction s) (auto simp: html_space_def spacec_def)

lemma clean_class_text: "plain_class s \<Longrightarrow> clean (class_text s)"
  by (induction s) (auto simp: class_text_map plain_class_def spaced_def spacec_def)

lemma clean_plain: "clean s \<Longrightarrow> plain_class s"
  by (auto simp: clean_def plain_class_def list_all_iff)

lemma clean_list: "clean s \<Longrightarrow> class_list s = pieces s"
  by (simp add: class_list_def clean_html)

lemma clean_drop [simp]: "clean s \<Longrightarrow> clean (dropWhile p s)"
  by (auto simp: clean_def list_all_iff dest: set_dropWhileD)

lemma pieces_rev: "pieces (rev s) = rev (map rev (pieces s))"
proof -
  have snoc: "split_on d (t @ [c]) = (if c = d then split_on d t @ [[]] else butlast (split_on d t) @ [last (split_on d t) @ [c]])"
    for c d :: char and t by (induction t) (auto split: list.splits)
  have "split_on (CHR '' '') (rev s) = rev (map rev (split_on (CHR '' '') s))"
    by (induction s) (auto simp: snoc split: list.splits)
  then show ?thesis by (simp add: pieces_def rev_filter rev_map filter_map comp_def)
qed

lemma pieces_drop: "clean s \<Longrightarrow> pieces (dropWhile spacec s) = pieces s"
  by (induction s) auto

lemma pieces_trim: "clean s \<Longrightarrow> pieces (trim s) = pieces s \<and> clean (trim s)"
proof -
  assume s: "clean s"
  define u where "u = dropWhile spacec s"
  have u: "clean u" "pieces u = pieces s"
    using s by (simp_all add: u_def pieces_drop)
  have "pieces (dropWhile spacec (rev u)) = pieces (rev u)" using u(1) by (intro pieces_drop) simp
  then have "pieces (trim s) = pieces u" by (simp add: trim_def u_def [symmetric] pieces_rev rev_map comp_def)
  moreover have "clean (trim s)" using s by (simp add: trim_def)
  ultimately show ?thesis using u(2) by simp
qed

lemma words_names: "t \<in> set (match_notwhite v) \<Longrightarrow> no_space t \<and> t \<noteq> [] \<and> clean t"
proof -
  assume t: "t \<in> set (match_notwhite v)"
  then have "no_white t" by (auto simp: match_notwhite_def intro: words_no_white)
  moreover have "[] \<notin> set (words_aux cur s)" for cur s by (induction cur s rule: words_aux.induct) auto
  ultimately show ?thesis using t
    by (auto simp: match_notwhite_def no_space_def clean_def list_all_iff no_white_def spacec_white is_white_def)
qed

section \<open>The methods on lists of names\<close>

definition with_name :: "string \<Rightarrow> string list \<Rightarrow> string list" where
  "with_name t ns = (if t \<in> set ns then ns else ns @ [t])"

definition without_name :: "string \<Rightarrow> string list \<Rightarrow> string list" where
  "without_name t ns = filter (\<lambda>x. x \<noteq> t) ns"

lemma add_loop:
  "framed cur \<Longrightarrow> clean cur \<Longrightarrow> \<forall>t \<in> set ts. no_space t \<and> t \<noteq> [] \<and> clean t \<Longrightarrow>
    clean (fold add_name ts cur) \<and> pieces (fold add_name ts cur) = fold with_name ts (pieces cur)"
proof (induction ts arbitrary: cur)
  case (Cons t ts)
  then have t: "no_space t" "t \<noteq> []" "clean t" by auto
  note p = pieces_add [OF Cons.prems(1) t(1,2)]
  have "clean (add_name t cur)" using Cons.prems(2) t(3) by (simp add: add_name_def)
  from Cons.IH [OF p(1) this] Cons.prems(3) p(2) show ?case by (simp add: with_name_def)
qed simp

lemma remove_name_clean: "clean cur \<Longrightarrow> clean (remove_name t cur)"
proof (induction t cur rule: remove_name.induct)
  case (1 t cur)
  show ?case
  proof (cases "find_str (spaced t) cur")
    case None
    with 1 show ?thesis by (simp add: remove_name.simps [of t cur])
  next
    case (Some i)
    have "clean (take i cur @ drop (i + length (spaced t)) cur)"
      using "1.prems" by (auto simp: clean_def list_all_iff dest: in_set_takeD in_set_dropD)
    then have "clean (replace_str (spaced t) '' '' cur)" using Some by (simp add: replace_str_def)
    with "1.IH" Some show ?thesis by (simp add: remove_name.simps [of t cur])
  qed
qed

lemma remove_loop_names:
  "framed cur \<Longrightarrow> clean cur \<Longrightarrow> \<forall>t \<in> set ts. no_space t \<and> t \<noteq> [] \<and> clean t \<Longrightarrow>
    clean (fold remove_name ts cur) \<and> pieces (fold remove_name ts cur) = fold without_name ts (pieces cur)"
proof (induction ts arbitrary: cur)
  case (Cons t ts)
  then have t: "no_space t" "t \<noteq> []" by auto
  from Cons.IH [of "remove_name t cur"] remove_name_pieces [OF t Cons.prems(1)] remove_name_clean [OF Cons.prems(2)] Cons.prems(3)
  show ?case by (simp add: without_name_def)
qed simp

lemma add_names_list:
  assumes "plain_class s"
  shows "plain_class (add_names v s)" and "class_list (add_names v s) = fold with_name (match_notwhite v) (class_list s)"
proof -
  define cur where "cur = (if s \<noteq> [] then class_text s else '' '')"
  have cur: "framed cur" "clean cur" "pieces cur = class_list s"
    using clean_class_text [OF assms]
    by (cases "s = []"; simp add: cur_def; simp add: framed_def class_list_def pieces_def)+
  have "\<forall>t \<in> set (match_notwhite v). no_space t \<and> t \<noteq> [] \<and> clean t" using words_names by blast
  note l = add_loop [OF cur(1,2) this]
  have a: "add_names v s = trim (fold add_name (match_notwhite v) cur)" by (simp add: add_names_def cur_def)
  from l pieces_trim have t: "clean (add_names v s)" "pieces (add_names v s) = fold with_name (match_notwhite v) (pieces cur)"
    unfolding a by metis+
  from t(1) show "plain_class (add_names v s)" by (rule clean_plain)
  from t clean_list cur(3) show "class_list (add_names v s) = fold with_name (match_notwhite v) (class_list s)" by simp
qed

lemma remove_names_list:
  assumes "plain_class s"
  shows "plain_class (remove_names_of (Some v) s)"
    and "class_list (remove_names_of (Some v) s) = fold without_name (match_notwhite v) (class_list s)"
proof -
  have "fold without_name ts [] = []" for ts by (induction ts) (simp_all add: without_name_def)
  then have nil: "plain_class [] \<and> class_list [] = fold without_name ts (class_list [])" for ts
    by (simp add: plain_class_def class_list_def)
  have cur: "framed (class_text s)" "clean (class_text s)" using clean_class_text [OF assms] by simp_all
  have "\<forall>t \<in> set (match_notwhite v). no_space t \<and> t \<noteq> [] \<and> clean t" using words_names by blast
  note l = remove_loop_names [OF cur this]
  have "class_text s \<noteq> []" using cur(1) by (auto simp: framed_def)
  then have a: "s \<noteq> [] \<Longrightarrow> remove_names_of (Some v) s = trim (fold remove_name (match_notwhite v) (class_text s))"
    by (simp add: remove_names_of_def Let_def)
  from l pieces_trim have t: "s \<noteq> [] \<Longrightarrow> clean (remove_names_of (Some v) s)"
    "s \<noteq> [] \<Longrightarrow> pieces (remove_names_of (Some v) s) = fold without_name (match_notwhite v) (class_list s)"
    unfolding a class_text_pieces by metis+
  show "plain_class (remove_names_of (Some v) s)" using t(1) clean_plain nil
    by (cases "s = []") (auto simp: remove_names_of_def)
  show "class_list (remove_names_of (Some v) s) = fold without_name (match_notwhite v) (class_list s)"
    using t nil clean_list by (cases "s = []") (simp_all add: remove_names_of_def)
qed

lemma words_of_word: "t \<in> set (match_notwhite v) \<Longrightarrow> match_notwhite t = [t]"
proof -
  assume "t \<in> set (match_notwhite v)"
  then have "no_white t" "t \<noteq> []" using words_names by (auto simp: match_notwhite_def intro: words_no_white)
  then show ?thesis by (simp add: match_notwhite_def words_single)
qed

text \<open>What the methods do to the names of every element.\<close>

datatype class_op = AddC "nat list" string | RemoveC "nat list" string | ToggleC "nat list" string "bool option"

definition class_step :: "class_op \<Rightarrow> cstate \<Rightarrow> cstate" where
  "class_step c = (case c of
      AddC els v \<Rightarrow> addClass (CStr v) els
    | RemoveC els v \<Rightarrow> removeClass (Some (CStr v)) els
    | ToggleC els v sv \<Rightarrow> toggleClass (CStr v) sv els)"

definition flip_name :: "string \<Rightarrow> string list \<Rightarrow> string list" where
  "flip_name t ns = (if t \<in> set ns then without_name t ns else ns @ [t])"

definition on_elements :: "(nat \<Rightarrow> nat) \<Rightarrow> nat list \<Rightarrow> (string list \<Rightarrow> string list) \<Rightarrow> (nat \<Rightarrow> string list) \<Rightarrow> nat \<Rightarrow> string list" where
  "on_elements T els f = fold (\<lambda>el m. if T el = 1 then m(el := f (m el)) else m) els"

definition class_spec :: "(nat \<Rightarrow> nat) \<Rightarrow> class_op \<Rightarrow> (nat \<Rightarrow> string list) \<Rightarrow> nat \<Rightarrow> string list" where
  "class_spec T c = (case c of
      AddC els v \<Rightarrow> on_elements T els (fold with_name (match_notwhite v))
    | RemoveC els v \<Rightarrow> on_elements T els (fold without_name (match_notwhite v))
    | ToggleC els v sv \<Rightarrow> on_elements T els (fold (case sv of Some b \<Rightarrow> (if b then with_name else without_name) | None \<Rightarrow> flip_name)
        (match_notwhite v)))"

definition class_view :: "cstate \<Rightarrow> nat \<Rightarrow> string list" where
  "class_view st el = class_list (className st el)"

definition class_ok :: "(nat \<Rightarrow> nat) \<Rightarrow> cstate \<Rightarrow> bool" where
  "class_ok T st = (nodeT st = T \<and> (\<forall>el. plain_class (className st el)))"

lemma set_class_view:
  "class_ok T st \<Longrightarrow> plain_class s \<Longrightarrow> class_ok T (set_class el s st) \<and>
    class_view (set_class el s st) = (class_view st)(el := class_list s)"
  by (auto simp: class_ok_def set_class_def class_view_def fun_eq_iff)

lemma on_elements_Cons: "on_elements T (el # els) g m = on_elements T els g (if T el = 1 then m(el := g (m el)) else m)"
  by (simp add: on_elements_def)

lemma each_class_Cons:
  "each_class (el # els) f st = each_class els f (if nodeT st el = 1 then set_class el (f (className st el)) st else st)"
  by (simp add: each_class_def)

lemma each_class_view:
  assumes "\<And>s. plain_class s \<Longrightarrow> plain_class (f s) \<and> class_list (f s) = g (class_list s)"
  shows "class_ok T st \<Longrightarrow> class_ok T (each_class els f st) \<and> class_view (each_class els f st) = on_elements T els g (class_view st)"
proof (induction els arbitrary: st)
  case (Cons el els)
  have p: "plain_class (className st el)" and T: "nodeT st = T" using Cons.prems by (simp_all add: class_ok_def)
  have "plain_class (f (className st el))" "class_list (f (className st el)) = g (class_view st el)"
    using assms [OF p] by (simp_all add: class_view_def)
  then have "class_ok T (set_class el (f (className st el)) st)"
    and "class_view (set_class el (f (className st el)) st) = (class_view st)(el := g (class_view st el))"
    using set_class_view [OF Cons.prems] by metis+
  with Cons.IH [of "set_class el (f (className st el)) st"] Cons.IH [OF Cons.prems] T show ?case
    unfolding each_class_Cons on_elements_Cons by (cases "T el = 1") (simp_all add: fun_upd_def)
qed (simp add: each_class_def on_elements_def)

lemma on_elements_same: "on_elements T els (\<lambda>x. x) m = m"
  by (induction els arbitrary: m) (simp_all add: on_elements_def)

lemma add_view:
  "class_ok T st \<Longrightarrow> class_ok T (addClass (CStr v) els st) \<and>
    class_view (addClass (CStr v) els st) = on_elements T els (fold with_name (match_notwhite v)) (class_view st)"
  using each_class_view [of "add_names v" "fold with_name (match_notwhite v)" T st els] add_names_list
  by (cases "v = []") (simp_all add: on_elements_same match_notwhite_def id_def)

lemma remove_view:
  "class_ok T st \<Longrightarrow> class_ok T (removeClass (Some (CStr v)) els st) \<and>
    class_view (removeClass (Some (CStr v)) els st) = on_elements T els (fold without_name (match_notwhite v)) (class_view st)"
  using each_class_view [of "remove_names_of (Some v)" "fold without_name (match_notwhite v)" T st els] remove_names_list
  by (cases "v = []") (simp_all add: on_elements_same match_notwhite_def id_def removeClass_def)

lemma has_view:
  "class_ok T st \<Longrightarrow> no_space t \<Longrightarrow> t \<noteq> [] \<Longrightarrow> hasClass t els st \<longleftrightarrow> (\<exists>el \<in> set els. T el = 1 \<and> t \<in> set (class_view st el))"
  using find_piece [OF class_text_framed, of t] by (auto simp: hasClass_def list_ex_iff class_ok_def class_view_def)

lemma toggle_view:
  assumes "class_ok T st" and "match_notwhite t = [t]"
  shows "class_ok T (toggle_name el t st) \<and>
    class_view (toggle_name el t st) = on_elements T [el] (flip_name t) (class_view st)"
proof -
  have t: "no_space t" "t \<noteq> []" using words_names [of t t] assms(2) by simp_all
  show ?thesis
    using has_view [OF assms(1) t, of "[el]"] add_view [OF assms(1), of t "[el]"] remove_view [OF assms(1), of t "[el]"]
    by (cases "T el = 1"; cases "t \<in> set (class_view st el)")
      (simp_all add: toggle_name_def assms(2) on_elements_def flip_name_def with_name_def)
qed

lemma toggles_view:
  "class_ok T st \<Longrightarrow> \<forall>t \<in> set ts. match_notwhite t = [t] \<Longrightarrow>
    class_ok T (fold (toggle_name el) ts st) \<and>
    class_view (fold (toggle_name el) ts st) = on_elements T [el] (fold flip_name ts) (class_view st)"
proof (induction ts arbitrary: st)
  case (Cons t ts)
  from toggle_view [OF Cons.prems(1), of t el] Cons.IH Cons.prems(2) show ?case by (simp add: on_elements_def)
qed (simp add: on_elements_def)

lemma toggle_all_view:
  "class_ok T st \<Longrightarrow> class_ok T (toggleClass (CStr v) None els st) \<and>
    class_view (toggleClass (CStr v) None els st) = on_elements T els (fold flip_name (match_notwhite v)) (class_view st)"
proof (induction els arbitrary: st)
  case (Cons el els)
  have "\<forall>t \<in> set (match_notwhite v). match_notwhite t = [t]" using words_of_word by blast
  from toggles_view [OF Cons.prems this, of el] Cons.IH show ?case by (simp add: on_elements_def)
qed (simp add: on_elements_def)

lemma class_step_view:
  assumes "class_ok T st"
  shows "class_ok T (class_step c st) \<and> class_view (class_step c st) = class_spec T c (class_view st)"
proof (cases c)
  case (ToggleC els v sv)
  then show ?thesis
    using add_view [OF assms, of v els] remove_view [OF assms, of v els] toggle_all_view [OF assms, of v els]
    by (auto simp: class_step_def class_spec_def split: option.split)
qed (use add_view [OF assms] remove_view [OF assms] in \<open>simp_all add: class_step_def class_spec_def\<close>)

interpretation classes: simulation "class_ok T" class_view class_step "class_spec T" for T
  by unfold_locales (simp_all add: class_step_view)

text \<open>
  C28: the class strings implement lists of names. Any sequence of \<open>addClass\<close>,
  \<open>removeClass\<close> and \<open>toggleClass\<close> with strings, on any collections of elements, adds every
  new name once at the end, removes every instance, or does the one or the other, to the
  elements among the nodes; \<open>hasClass\<close> afterwards is membership.
\<close>

theorem class_refines_lists:
  assumes "\<forall>el. plain_class (className st el)" and "no_space t" and "t \<noteq> []"
  shows "class_view (fold class_step cs st) = fold (class_spec (nodeT st)) cs (class_view st) \<and>
    (hasClass t els (fold class_step cs st) \<longleftrightarrow>
      (\<exists>el \<in> set els. nodeT st el = 1 \<and> t \<in> set (fold (class_spec (nodeT st)) cs (class_view st) el)))"
proof -
  have ok: "class_ok (nodeT st) st" using assms(1) by (simp add: class_ok_def)
  show ?thesis using classes.run [OF ok, of cs] has_view [OF _ assms(2,3)] by metis
qed

definition two_elements :: cstate where
  "two_elements = \<lparr>nodeT = (\<lambda>el. if el = 3 then 3 else 1), className = (\<lambda>el. if el = 1 then ''a  b a'' else []), savedClass = (\<lambda>_. None)\<rparr>"

definition class_changes :: "class_op list" where
  "class_changes = [RemoveC [1, 2] ''a'', AddC [1, 2, 3] ''b c b'', ToggleC [2] ''c d'' None]"

theorem class_refines_lists_witness:
  "class_view (fold class_step class_changes two_elements) 2 = [''b'', ''d''] \<and>
    hasClass ''c'' [2, 1] (fold class_step class_changes two_elements)"
proof -
  have p: "\<forall>el. plain_class (className two_elements el)"
    by (auto simp: two_elements_def plain_class_def spacec_def html_space_def)
  have c: "no_space ''c''" by (simp add: no_space_def)
  let ?after = "fold (class_spec (nodeT two_elements)) class_changes (class_view two_elements)"
  have "?after 2 = [''b'', ''d'']" "\<exists>el \<in> set [2, 1]. nodeT two_elements el = 1 \<and> ''c'' \<in> set (?after el)"
    by code_simp+
  then show ?thesis using class_refines_lists [OF p c, of class_changes "[2, 1]"] by simp
qed

end
