(* ===== verification/SizzleDom.thy ===== *)
theory SizzleDom
  imports JsRegExp
begin

text \<open>
  Documents as the selector engine of \<open>democlient/js/jquery.js\<close> sees them: a tree of nodes,
  each node named by the path of child indices that leads to it from the document. The
  relations between nodes that the engine follows are functions on paths.
\<close>

section \<open>Nodes\<close>

datatype dnode = DNode (n_type: nat) (n_name: string) (n_attrs: "(string \<times> string) list") (n_kids: "dnode list")

type_synonym path = "nat list"

fun node_at :: "dnode \<Rightarrow> path \<Rightarrow> dnode option" where
  "node_at t [] = Some t"
| "node_at t (i # p) = (if i < length (n_kids t) then node_at (n_kids t ! i) p else None)"

definition in_doc :: "dnode \<Rightarrow> path \<Rightarrow> bool" where
  "in_doc T p \<longleftrightarrow> node_at T p \<noteq> None"

definition nodeType :: "dnode \<Rightarrow> path \<Rightarrow> nat" where
  "nodeType T p = (case node_at T p of Some n \<Rightarrow> n_type n | None \<Rightarrow> 0)"

definition nodeName :: "dnode \<Rightarrow> path \<Rightarrow> string" where
  "nodeName T p = (case node_at T p of Some n \<Rightarrow> n_name n | None \<Rightarrow> [])"

text \<open>
  Names that escapes may spell are lists of code units. \<open>toLowerCase\<close> on them: of the units above
  255 two have a lower case below, the Kelvin and the Angstrom sign; the others stay above.
\<close>

type_synonym units = "int list"

definition str_units :: "string \<Rightarrow> units" where
  "str_units s = map of_char s"

definition lower_unit :: "int \<Rightarrow> int" where
  "lower_unit u = (if 65 \<le> u \<and> u \<le> 90 \<or> 192 \<le> u \<and> u \<le> 222 \<and> u \<noteq> 215 then u + 32
     else if u = 0x212A then 107 else if u = 0x212B then 229 else u)"

definition lower_units :: "units \<Rightarrow> units" where
  "lower_units = map lower_unit"

text \<open>\<open>getAttribute\<close>: in a document that is not XML the name is first put to lower case, in ASCII.\<close>

definition ascii_lower_unit :: "int \<Rightarrow> int" where
  "ascii_lower_unit u = (if 65 \<le> u \<and> u \<le> 90 then u + 32 else u)"

definition getAttribute :: "dnode \<Rightarrow> bool \<Rightarrow> path \<Rightarrow> units \<Rightarrow> string option" where
  "getAttribute T xml p name =
     (case node_at T p of
        Some n \<Rightarrow> map_of (map (\<lambda>(k, v). (str_units k, v)) (n_attrs n)) (if xml then name else map ascii_lower_unit name)
      | None \<Rightarrow> None)"

definition kid_count :: "dnode \<Rightarrow> path \<Rightarrow> nat" where
  "kid_count T p = (case node_at T p of Some n \<Rightarrow> length (n_kids n) | None \<Rightarrow> 0)"

lemma node_at_append: "node_at t (p @ q) = Option.bind (node_at t p) (\<lambda>n. node_at n q)"
  by (induction t p rule: node_at.induct) simp_all

lemma in_doc_snoc: "in_doc T (p @ [i]) \<longleftrightarrow> in_doc T p \<and> i < kid_count T p"
  by (auto simp: in_doc_def node_at_append kid_count_def split: option.splits bind_splits)

section \<open>Directions\<close>

datatype dir = ParentNode | PreviousSibling

fun go :: "dir \<Rightarrow> path \<Rightarrow> path option" where
  "go ParentNode p = (if p = [] then None else Some (butlast p))"
| "go PreviousSibling p = (if p = [] \<or> last p = 0 then None else Some (butlast p @ [last p - 1]))"

definition height :: "path \<Rightarrow> nat" where
  "height p = sum_list (map Suc p)"

lemma go_lower: "go d p = Some q \<Longrightarrow> height q < height p"
proof (cases p rule: rev_cases)
  case (snoc r i)
  assume "go d p = Some q"
  then show ?thesis using snoc by (cases d) (auto simp: height_def split: if_splits)
qed (cases d; simp)

text \<open>The nodes that a loop \<open>while ( elem = elem[ dir ] )\<close> comes to, in order.\<close>

function trail :: "dir \<Rightarrow> path \<Rightarrow> path list" where
  "trail d p = (case go d p of None \<Rightarrow> [] | Some q \<Rightarrow> q # trail d q)"
  by pat_completeness auto
termination
  by (relation "measure (\<lambda>(d, p). height p)") (simp_all add: go_lower)

declare trail.simps [simp del]

lemma trail_Some: "go d p = Some q \<Longrightarrow> trail d p = q # trail d q"
  by (simp add: trail.simps [of d p])

lemma trail_None: "go d p = None \<Longrightarrow> trail d p = []"
  by (simp add: trail.simps [of d p])

lemma trail_parent: "q \<in> set (trail ParentNode p) \<longleftrightarrow> (\<exists>r. r \<noteq> [] \<and> p = q @ r)"
proof (induction p rule: rev_induct)
  case Nil
  then show ?case by (simp add: trail_None)
next
  case (snoc i p)
  have "trail ParentNode (p @ [i]) = p # trail ParentNode p" by (simp add: trail_Some)
  then have "q \<in> set (trail ParentNode (p @ [i])) \<longleftrightarrow> q = p \<or> (\<exists>r. r \<noteq> [] \<and> p = q @ r)" using snoc by simp
  also have "\<dots> \<longleftrightarrow> (\<exists>r. r \<noteq> [] \<and> p @ [i] = q @ r)"
  proof
    assume "q = p \<or> (\<exists>r. r \<noteq> [] \<and> p = q @ r)"
    then obtain r where "p = q @ r" by auto
    then show "\<exists>r. r \<noteq> [] \<and> p @ [i] = q @ r" by (intro exI [of _ "r @ [i]"]) simp
  next
    assume "\<exists>r. r \<noteq> [] \<and> p @ [i] = q @ r"
    then obtain r where r: "r \<noteq> []" "p @ [i] = q @ r" by blast
    have e: "r = butlast r @ [last r]" using r(1) by simp
    then have "p @ [i] = (q @ butlast r) @ [last r]" using r(2) by (metis append_assoc)
    then have "p = q @ butlast r" by (metis butlast_snoc)
    then show "q = p \<or> (\<exists>r. r \<noteq> [] \<and> p = q @ r)" by (cases "butlast r = []") auto
  qed
  finally show ?case .
qed

lemma trail_previous: "trail PreviousSibling (p @ [i]) = map (\<lambda>j. p @ [j]) (rev [0..<i])"
proof (induction i)
  case 0
  then show ?case by (simp add: trail_None)
next
  case (Suc i)
  then show ?case by (simp add: trail_Some)
qed

section \<open>All elements below a node\<close>

function below :: "dnode \<Rightarrow> path list" where
  "below (DNode ty nm as ks) = concat (map (\<lambda>i. if i < length ks then [i] # map ((#) i) (below (ks ! i)) else []) [0..<length ks])"
  by pat_completeness auto
termination
proof (relation "measure size")
  fix ks :: "dnode list" and i ty nm as assume "i < length ks"
  then have "size (ks ! i) \<le> size_list size ks" by (rule size_list_estimation' [OF nth_mem order_refl])
  then show "(ks ! i, DNode ty nm as ks) \<in> measure size" by simp
qed simp

declare below.simps [simp del]

text \<open>\<open>getElementsByTagName( "*" )\<close>, in document order.\<close>

definition all_below :: "dnode \<Rightarrow> path \<Rightarrow> path list" where
  "all_below T p = (case node_at T p of None \<Rightarrow> [] | Some n \<Rightarrow> filter (\<lambda>q. nodeType T q = 1) (map ((@) p) (below n)))"

lemma below_mem: "q \<in> set (below n) \<longleftrightarrow> q \<noteq> [] \<and> node_at n q \<noteq> None"
proof (induction n arbitrary: q)
  case (DNode ty nm as ks)
  show ?case
  proof (cases q)
    case Nil
    then show ?thesis by (auto simp: below.simps split: if_splits)
  next
    case (Cons i p)
    have "q \<in> set (below (DNode ty nm as ks)) \<longleftrightarrow> i < length ks \<and> (p = [] \<or> p \<in> set (below (ks ! i)))"
      unfolding below.simps Cons by (auto split: if_splits)
    also have "\<dots> \<longleftrightarrow> i < length ks \<and> (p = [] \<or> (p \<noteq> [] \<and> node_at (ks ! i) p \<noteq> None))"
      using DNode.IH [of "ks ! i" p] by auto
    also have "\<dots> \<longleftrightarrow> q \<noteq> [] \<and> node_at (DNode ty nm as ks) q \<noteq> None" unfolding Cons by (cases p) auto
    finally show ?thesis .
  qed
qed

lemma all_below_mem:
  "in_doc T p \<Longrightarrow> q \<in> set (all_below T p) \<longleftrightarrow> nodeType T q = 1 \<and> p \<in> set (trail ParentNode q)"
proof -
  assume "in_doc T p"
  then obtain n where n: "node_at T p = Some n" by (auto simp: in_doc_def)
  have "q \<in> set (all_below T p) \<longleftrightarrow> nodeType T q = 1 \<and> (\<exists>r. q = p @ r \<and> r \<noteq> [] \<and> node_at n r \<noteq> None)"
    by (auto simp: all_below_def n below_mem)
  moreover have "node_at n r \<noteq> None" if "nodeType T q = 1" "q = p @ r" for r
    using that by (auto simp: nodeType_def node_at_append n split: option.splits)
  ultimately show ?thesis unfolding trail_parent by blast
qed

end
