(* ===== verification/SizzleChild.thy ===== *)
theory SizzleChild
  imports SizzleDom
begin

text \<open>
  The filter for \<open>:nth-child\<close> and its relatives in the selector engine of
  \<open>democlient/js/jquery.js\<close> (\<open>Expr.filter.CHILD\<close>), with the counts it remembers on parents and
  elements for the time of a run. It decides the arithmetic of the selector: whether the
  position of the element is a multiple of the step plus the offset.
\<close>

section \<open>What a run remembers\<close>

text \<open>
  The marks of the engine on the nodes, each with the number of the run that left it; \<open>dircache\<close>
  is for the combinators. A mark is false (for the element number of a run), true or not yet known.
\<close>

datatype mark = MUndef | MTrue | MFail nat

text \<open>\<open>outermostContext\<close>: not set, false for the document, or the context node of the run.\<close>

datatype outer = OUnset | OFalse | ONode path

record sworld =
  dirruns :: nat
  cachedruns :: nat
  outermost :: outer
  dircache :: "path \<Rightarrow> dir \<Rightarrow> ((nat \<times> nat) \<times> mark) option"
  nthcache :: "path \<Rightarrow> (nat \<times> nat \<times> int) option"
  lastcache :: "path \<Rightarrow> (nat \<times> int) option"

section \<open>The filter\<close>

text \<open>
  \<open>type\<close> of the selector; \<open>CFirst\<close>, \<open>CLast\<close> and \<open>COnly\<close> are the simple ones, the others come with
  the numbers \<open>first\<close> and \<open>last\<close> of the function, the step and the offset.
\<close>

datatype childtype = CFirst | CLast | COnly | CNth int int | CNthLast int int

definition same_kind :: "dnode \<Rightarrow> bool \<Rightarrow> path \<Rightarrow> path \<Rightarrow> bool" where
  "same_kind T ofType elem q = (if ofType then lower_units (str_units (nodeName T q)) = lower_units (str_units (nodeName T elem)) else nodeType T q = 1)"

definition following :: "dnode \<Rightarrow> path \<Rightarrow> nat \<Rightarrow> path list" where
  "following T parent i = map (\<lambda>j. parent @ [j]) [Suc i..<kid_count T parent]"

definition preceding :: "path \<Rightarrow> nat \<Rightarrow> path list" where
  "preceding parent i = map (\<lambda>j. parent @ [j]) (rev [0..<i])"

text \<open>The loop over the children from one on: whether the element was found, at which index and count.\<close>

fun seek :: "(path \<Rightarrow> bool) \<Rightarrow> path \<Rightarrow> path \<Rightarrow> nat list \<Rightarrow> int \<Rightarrow> (nat \<times> int) option" where
  "seek test parent elem [] diff = None"
| "seek test parent elem (j # js) diff =
     (if test (parent @ [j])
      then (if parent @ [j] = elem then Some (j, diff + 1) else seek test parent elem js (diff + 1))
      else seek test parent elem js diff)"

text \<open>\<open>:nth-child\<close>: from the index remembered on the parent, and again from the start.\<close>

definition nth_cached :: "dnode \<Rightarrow> path \<Rightarrow> path \<Rightarrow> sworld \<Rightarrow> int \<times> sworld" where
  "nth_cached T parent elem w =
     (let n = kid_count T parent;
          test = (\<lambda>q. nodeType T q = 1);
          again = seek test parent elem [0..<n] 0;
          found = (case nthcache w parent of
              Some (r, i, d) \<Rightarrow>
                if r = dirruns w \<and> i \<noteq> 0
                then (case seek test parent elem [Suc i..<n] d of Some x \<Rightarrow> Some x | None \<Rightarrow> again)
                else again
            | None \<Rightarrow> again)
      in case found of
           Some (i, d) \<Rightarrow> (d, w\<lparr>nthcache := (nthcache w)(parent := Some (dirruns w, i, d))\<rparr>)
         | None \<Rightarrow> (0, w))"

text \<open>The other loop, which remembers the count of every node it meets when \<open>useCache\<close> holds.\<close>

fun count_to :: "bool \<Rightarrow> (path \<Rightarrow> bool) \<Rightarrow> path \<Rightarrow> path list \<Rightarrow> int \<Rightarrow> sworld \<Rightarrow> int \<times> sworld" where
  "count_to useCache test elem [] diff w = (0, w)"
| "count_to useCache test elem (q # qs) diff w =
     (if test q
      then (let w1 = (if useCache then w\<lparr>lastcache := (lastcache w)(q := Some (dirruns w, diff + 1))\<rparr> else w)
            in if q = elem then (diff + 1, w1) else count_to useCache test elem qs (diff + 1) w1)
      else count_to useCache test elem qs diff w)"

text \<open>The language's \<open>%\<close> and \<open>/\<close> on numbers: with 0 they give no number, which is not equal to 0.\<close>

definition in_cycle :: "int \<Rightarrow> int \<Rightarrow> bool" where
  "in_cycle diff first = (diff = first \<or> (first \<noteq> 0 \<and> diff mod first = 0 \<and> diff div first \<ge> 0))"

fun shortcut :: "childtype \<Rightarrow> bool" where
  "shortcut (CNth first lst) = (first = 1 \<and> lst = 0)"
| "shortcut (CNthLast first lst) = (first = 1 \<and> lst = 0)"
| "shortcut _ = False"

definition child_filter :: "dnode \<Rightarrow> childtype \<Rightarrow> bool \<Rightarrow> path \<Rightarrow> bool \<Rightarrow> sworld \<Rightarrow> bool \<times> sworld" where
  "child_filter T type ofType elem xml w =
     (if shortcut type then (elem \<noteq> [], w)
      else if elem = [] then (False, w)
      else
       (let parent = butlast elem; i = last elem;
            test = same_kind T ofType elem;
            useCache = (\<not> xml \<and> \<not> ofType);
            answer = (\<lambda>first lst (diff, w). (in_cycle (diff - lst) first, w))
        in case type of
             CFirst \<Rightarrow> (\<not> list_ex test (preceding parent i), w)
           | CLast \<Rightarrow> (\<not> list_ex test (following T parent i), w)
           | COnly \<Rightarrow> (\<not> list_ex test (preceding parent i) \<and> \<not> list_ex test (following T parent i), w)
           | CNth first lst \<Rightarrow> answer first lst
               (if useCache then nth_cached T parent elem w
                else count_to False test elem (map (\<lambda>j. parent @ [j]) [0..<kid_count T parent]) 0 w)
           | CNthLast first lst \<Rightarrow> answer first lst
               (case if useCache then lastcache w elem else None of
                  Some (r, d) \<Rightarrow> if r = dirruns w then (d, w)
                    else count_to useCache test elem (preceding parent (kid_count T parent)) 0 w
                | None \<Rightarrow> count_to useCache test elem (preceding parent (kid_count T parent)) 0 w)))"

section \<open>Positions\<close>

text \<open>The position of a child among those of its kind, from the start and from the end.\<close>

definition rank :: "dnode \<Rightarrow> bool \<Rightarrow> bool \<Rightarrow> path \<Rightarrow> nat \<Rightarrow> nat" where
  "rank T ofType forward parent i =
     length (filter (\<lambda>j. same_kind T ofType (parent @ [i]) (parent @ [j]))
       (if forward then [0..<Suc i] else [i..<kid_count T parent]))"

text \<open>The selector's meaning.\<close>

definition child_spec :: "dnode \<Rightarrow> childtype \<Rightarrow> bool \<Rightarrow> path \<Rightarrow> bool" where
  "child_spec T type ofType e =
     (e \<noteq> [] \<and> (let r = rank T ofType True (butlast e) (last e); s = rank T ofType False (butlast e) (last e) in
      case type of
        CFirst \<Rightarrow> r = 1
      | CLast \<Rightarrow> s = 1
      | COnly \<Rightarrow> r = 1 \<and> s = 1
      | CNth a b \<Rightarrow> (\<exists>k. int r = a * int k + b)
      | CNthLast a b \<Rightarrow> (\<exists>k. int s = a * int k + b)))"

text \<open>What is remembered for the present run is right.\<close>

definition counts_ok :: "dnode \<Rightarrow> sworld \<Rightarrow> bool" where
  "counts_ok T w \<longleftrightarrow>
     (\<forall>p r i d. nthcache w p = Some (r, i, d) \<longrightarrow> r \<le> dirruns w \<and>
        (r = dirruns w \<longrightarrow> d = int (length (filter (\<lambda>j. nodeType T (p @ [j]) = 1) [0..<Suc i])))) \<and>
     (\<forall>q r d. lastcache w q = Some (r, d) \<longrightarrow> r \<le> dirruns w \<and>
        (r = dirruns w \<longrightarrow> q \<noteq> [] \<and> d = int (rank T False False (butlast q) (last q))))"

lemma in_cycle_spec: "in_cycle (x - b) a \<longleftrightarrow> (\<exists>k. x = a * int k + b)"
proof
  assume "in_cycle (x - b) a"
  then consider "x - b = a" | "a \<noteq> 0" "(x - b) mod a = 0" "(x - b) div a \<ge> 0" by (auto simp: in_cycle_def)
  then show "\<exists>k. x = a * int k + b"
  proof cases
    case 1
    then show ?thesis by (intro exI [of _ 1]) simp
  next
    case 2
    then have "x - b = a * ((x - b) div a)" by (metis add.right_neutral mult_div_mod_eq)
    then show ?thesis using 2(3) by (intro exI [of _ "nat ((x - b) div a)"]) simp
  qed
next
  assume "\<exists>k. x = a * int k + b"
  then obtain k where "x = a * int k + b" by blast
  then have "x - b = a * int k" by simp
  then show "in_cycle (x - b) a" by (cases "a = 0") (simp_all add: in_cycle_def)
qed


section \<open>The loops count\<close>

lemma seek_count:
  "seek test p (p @ [i]) js d =
     (if i \<in> set js \<and> test (p @ [i])
      then Some (i, d + int (length (filter (\<lambda>j. test (p @ [j])) (takeWhile (\<lambda>j. j \<noteq> i) js))) + 1) else None)"
  by (induction js arbitrary: d) auto

lemma upt_split: "a \<le> i \<Longrightarrow> i < n \<Longrightarrow> [a..<n] = [a..<i] @ i # [Suc i..<n]"
  using upt_add_eq_append [of a i "n - i"] upt_conv_Cons [of i n] by simp

lemma takeWhile_tail: "x \<notin> set xs \<Longrightarrow> takeWhile (\<lambda>j. j \<noteq> x) (xs @ x # ys) = xs"
  by (induction xs) auto

lemma takeWhile_upt: "a \<le> i \<Longrightarrow> i < n \<Longrightarrow> takeWhile (\<lambda>j. j \<noteq> i) [a..<n] = [a..<i]"
  by (simp add: upt_split takeWhile_tail del: upt_Suc)

lemma count_count:
  assumes "i \<in> set js" and "test (p @ [i])"
  shows "fst (count_to u test (p @ [i]) (map (\<lambda>j. p @ [j]) js) d w) =
    d + int (length (filter (\<lambda>j. test (p @ [j])) (takeWhile (\<lambda>j. j \<noteq> i) js))) + 1"
  using assms by (induction js arbitrary: d w) (auto simp: Let_def)

lemma rev_upt_takeWhile: "i < n \<Longrightarrow> takeWhile (\<lambda>j. j \<noteq> i) (rev [0..<n]) = rev [Suc i..<n]"
  by (simp add: upt_split [of 0 i n] takeWhile_tail del: upt_Suc)

lemma rank_forward: "rank T ofType True p i = length (filter (\<lambda>j. same_kind T ofType (p @ [i]) (p @ [j])) [0..<i]) + (if same_kind T ofType (p @ [i]) (p @ [i]) then 1 else 0)"
  by (simp add: rank_def)

lemma rank_backward:
  "i < kid_count T p \<Longrightarrow> rank T ofType False p i =
    length (filter (\<lambda>j. same_kind T ofType (p @ [i]) (p @ [j])) [Suc i..<kid_count T p]) + (if same_kind T ofType (p @ [i]) (p @ [i]) then 1 else 0)"
  by (simp add: rank_def upt_conv_Cons)

text \<open>Every element that the loop from the end meets gets its own count.\<close>

lemma count_marks:
  assumes "snd (count_to True (\<lambda>q. nodeType T q = 1) (p @ [i]) (map (\<lambda>j. p @ [j]) js) d w) = w'"
    and "\<And>j us vs. js = us @ j # vs \<Longrightarrow> nodeType T (p @ [j]) = 1 \<Longrightarrow>
      d + int (length (filter (\<lambda>j. nodeType T (p @ [j]) = 1) us)) + 1 = int (rank T False False p j)"
  shows "w' = w\<lparr>lastcache := lastcache w'\<rparr> \<and> (\<forall>q. lastcache w' q = lastcache w q \<or>
    (\<exists>j. q = p @ [j] \<and> lastcache w' q = Some (dirruns w, int (rank T False False p j))))"
  using assms
proof (induction js arbitrary: d w)
  case (Cons j js)
  show ?case
  proof (cases "nodeType T (p @ [j]) = 1")
    case False
    have step: "d + int (length (filter (\<lambda>j. nodeType T (p @ [j]) = 1) us)) + 1 = int (rank T False False p k)"
      if "js = us @ k # vs" "nodeType T (p @ [k]) = 1" for k us vs
      using Cons.prems(2) [of "j # us" k vs] that False by simp
    have run: "snd (count_to True (\<lambda>q. nodeType T q = 1) (p @ [i]) (map (\<lambda>j. p @ [j]) js) d w) = w'"
      using Cons.prems(1) False by simp
    show ?thesis by (rule Cons.IH [OF run]) (rule step)
  next
    case True
    define w1 where "w1 = w\<lparr>lastcache := (lastcache w)(p @ [j] := Some (dirruns w, d + 1))\<rparr>"
    have d: "d + 1 = int (rank T False False p j)" using Cons.prems(2) [of "[]" j js] True by simp
    show ?thesis
    proof (cases "j = i")
      case True
      then have "w' = w1" using Cons.prems(1) \<open>nodeType T (p @ [j]) = 1\<close> by (simp add: w1_def Let_def)
      then show ?thesis using d by (simp add: w1_def fun_upd_def)
    next
      case False
      have step: "(d + 1) + int (length (filter (\<lambda>j. nodeType T (p @ [j]) = 1) us)) + 1 = int (rank T False False p k)"
        if "js = us @ k # vs" "nodeType T (p @ [k]) = 1" for k us vs
        using Cons.prems(2) [of "j # us" k vs] that True by simp
      have run: "snd (count_to True (\<lambda>q. nodeType T q = 1) (p @ [i]) (map (\<lambda>j. p @ [j]) js) (d + 1) w1) = w'"
        using Cons.prems(1) True False by (simp add: w1_def Let_def)
      have ih: "w' = w1\<lparr>lastcache := lastcache w'\<rparr> \<and> (\<forall>q. lastcache w' q = lastcache w1 q \<or>
          (\<exists>k. q = p @ [k] \<and> lastcache w' q = Some (dirruns w1, int (rank T False False p k))))"
        by (rule Cons.IH [OF run]) (rule step)
      then have "w' = w1\<lparr>lastcache := lastcache w'\<rparr>" and
        c: "\<And>q. lastcache w' q = lastcache w1 q \<or> (\<exists>k. q = p @ [k] \<and> lastcache w' q = Some (dirruns w1, int (rank T False False p k)))"
        by blast+
      then have "w' = w\<lparr>lastcache := lastcache w'\<rparr>" by (simp add: w1_def)
      moreover have "lastcache w' q = lastcache w q \<or> (\<exists>k. q = p @ [k] \<and> lastcache w' q = Some (dirruns w, int (rank T False False p k)))" for q
        using c [of q] d by (cases "q = p @ [j]") (auto simp: w1_def)
      ultimately show ?thesis by blast
    qed
  qed
qed simp


lemma count_unmarked: "snd (count_to False test e qs d w) = w"
  by (induction qs arbitrary: d w) (auto simp: Let_def)

lemma same_kind_cached: "nodeType T e = 1 \<Longrightarrow> same_kind T False e = (\<lambda>q. nodeType T q = 1)"
  by (simp add: same_kind_def fun_eq_iff)

lemma same_kind_self: "nodeType T e = 1 \<Longrightarrow> same_kind T ofType e e"
  by (simp add: same_kind_def)

section \<open>The filter decides the position\<close>

definition only_counts :: "sworld \<Rightarrow> sworld \<Rightarrow> bool" where
  "only_counts w w' \<longleftrightarrow> w' = w\<lparr>nthcache := nthcache w', lastcache := lastcache w'\<rparr>"

lemma nth_cached_ok:
  assumes ok: "counts_ok T w" and i: "i < kid_count T p" and el: "nodeType T (p @ [i]) = 1"
  defines "R \<equiv> nth_cached T p (p @ [i]) w"
  shows "fst R = int (rank T False True p i)" and "counts_ok T (snd R)" and "only_counts w (snd R)"
proof -
  let ?t = "\<lambda>q. nodeType T q = 1"
  let ?n = "kid_count T p"
  define c where "c = (\<lambda>j. int (length (filter (\<lambda>j. ?t (p @ [j])) [0..<Suc j])))"
  have again: "seek ?t p (p @ [i]) [0..<?n] 0 = Some (i, c i)"
    using i el by (simp add: seek_count takeWhile_upt c_def)
  have resumed: "seek ?t p (p @ [i]) [Suc k..<?n] (c k) = (if k < i then Some (i, c i) else None)" for k
  proof (cases "k < i")
    case True
    have "[0..<Suc i] = [0..<Suc k] @ [Suc k..<i] @ [i]"
      using True upt_add_eq_append [of 0 "Suc k" "Suc i - Suc k"] by (simp add: upt_add_eq_append)
    then have "c k + int (length (filter (\<lambda>j. ?t (p @ [j])) [Suc k..<i])) + 1 = c i" using el by (simp add: c_def)
    then show ?thesis using True i el by (simp add: seek_count takeWhile_upt del: upt_Suc)
  next
    case False
    then show ?thesis by (simp add: seek_count)
  qed
  have R: "R = (c i, w\<lparr>nthcache := (nthcache w)(p := Some (dirruns w, i, c i))\<rparr>)"
  proof (cases "nthcache w p")
    case None
    then show ?thesis by (simp add: R_def nth_cached_def again Let_def del: One_nat_def)
  next
    case (Some x)
    obtain r k d where x: "x = (r, k, d)" by (cases x)
    have "r = dirruns w \<Longrightarrow> d = c k" using ok Some x by (auto simp: counts_ok_def c_def)
    then show ?thesis using Some x by (auto simp: R_def nth_cached_def again resumed Let_def simp del: One_nat_def)
  qed
  have "c i = int (rank T False True p i)" using el by (simp add: c_def rank_def same_kind_cached)
  then show "fst R = int (rank T False True p i)" by (simp add: R)
  show "counts_ok T (snd R)" using ok unfolding R counts_ok_def by (auto simp: c_def)
  show "only_counts w (snd R)" by (simp add: R only_counts_def)
qed


lemma last_cached_ok:
  assumes ok: "counts_ok T w" and i: "i < kid_count T p" and el: "nodeType T (p @ [i]) = 1"
  defines "R \<equiv> count_to True (\<lambda>q. nodeType T q = 1) (p @ [i]) (preceding p (kid_count T p)) 0 w"
  shows "fst R = int (rank T False False p i)" and "counts_ok T (snd R)" and "only_counts w (snd R)"
proof -
  let ?n = "kid_count T p"
  have pre: "preceding p ?n = map (\<lambda>j. p @ [j]) (rev [0..<?n])" by (simp add: preceding_def)
  have sizes: "0 + int (length (filter (\<lambda>j. nodeType T (p @ [j]) = 1) us)) + 1 = int (rank T False False p j)"
    if "rev [0..<?n] = us @ j # vs" and "nodeType T (p @ [j]) = 1" for j us vs
  proof -
    have "j \<in> set (rev [0..<?n])" unfolding that(1) by simp
    then have j: "j < ?n" by simp
    have "distinct (us @ j # vs)" unfolding that(1) [symmetric] by simp
    then have "takeWhile (\<lambda>x. x \<noteq> j) (us @ j # vs) = us" by (intro takeWhile_tail) auto
    then have "us = rev [Suc j..<?n]" using rev_upt_takeWhile [OF j] that(1) by simp
    then show ?thesis using j that(2)
      by (simp add: rank_backward same_kind_cached rev_filter [symmetric])
  qed
  have "fst R = 0 + int (length (filter (\<lambda>j. nodeType T (p @ [j]) = 1) (takeWhile (\<lambda>j. j \<noteq> i) (rev [0..<?n])))) + 1"
    unfolding R_def pre by (rule count_count) (use i el in simp_all)
  also have "\<dots> = int (rank T False False p i)"
    using i el by (simp add: rev_upt_takeWhile rank_backward same_kind_cached rev_filter [symmetric] del: upt_Suc)
  finally show "fst R = int (rank T False False p i)" .
  have run: "snd (count_to True (\<lambda>q. nodeType T q = 1) (p @ [i]) (map (\<lambda>j. p @ [j]) (rev [0..<?n])) 0 w) = snd R"
    by (simp add: R_def pre)
  have m: "snd R = w\<lparr>lastcache := lastcache (snd R)\<rparr> \<and> (\<forall>q. lastcache (snd R) q = lastcache w q \<or>
      (\<exists>j. q = p @ [j] \<and> lastcache (snd R) q = Some (dirruns w, int (rank T False False p j))))"
    by (rule count_marks [OF run]) (rule sizes)
  have frame: "dirruns (snd R) = dirruns w" "nthcache (snd R) = nthcache w"
    using arg_cong [where f = dirruns, OF m [THEN conjunct1]] arg_cong [where f = nthcache, OF m [THEN conjunct1]]
    by simp_all
  have "w\<lparr>nthcache := nthcache w, lastcache := l\<rparr> = w\<lparr>lastcache := l\<rparr>" for l by simp
  then show "only_counts w (snd R)" unfolding only_counts_def frame(2) using m by metis
  show "counts_ok T (snd R)"
    unfolding counts_ok_def frame
  proof (intro conjI allI impI)
    fix q r d assume a: "lastcache (snd R) q = Some (r, d)"
    from m consider "lastcache (snd R) q = lastcache w q"
      | j where "q = p @ [j]" "lastcache (snd R) q = Some (dirruns w, int (rank T False False p j))" by blast
    then have "r \<le> dirruns w \<and> (r = dirruns w \<longrightarrow> q \<noteq> [] \<and> d = int (rank T False False (butlast q) (last q)))"
      using ok a by cases (auto simp: counts_ok_def)
    then show "r \<le> dirruns w" "r = dirruns w \<Longrightarrow> q \<noteq> []"
      "r = dirruns w \<Longrightarrow> d = int (rank T False False (butlast q) (last q))" by simp_all
  qed (use ok in \<open>auto simp: counts_ok_def\<close>)
qed

lemma rank_one:
  assumes "same_kind T ofType (p @ [i]) (p @ [i])" and "i < kid_count T p"
  shows "rank T ofType True p i = 1 \<longleftrightarrow> \<not> list_ex (same_kind T ofType (p @ [i])) (preceding p i)"
    and "rank T ofType False p i = 1 \<longleftrightarrow> \<not> list_ex (same_kind T ofType (p @ [i])) (following T p i)"
  using assms by (auto simp: rank_forward rank_backward preceding_def following_def list_ex_iff filter_empty_conv)

lemma child_filter_ok:
  assumes ok: "counts_ok T w" and doc: "in_doc T e" and el: "nodeType T e = 1"
  shows "fst (child_filter T type ofType e xml w) = child_spec T type ofType e"
    and "counts_ok T (snd (child_filter T type ofType e xml w))"
    and "only_counts w (snd (child_filter T type ofType e xml w))"
proof -
  let ?R = "child_filter T type ofType e xml w"
  have "fst ?R = child_spec T type ofType e \<and> counts_ok T (snd ?R) \<and> only_counts w (snd ?R)"
  proof (cases "shortcut type")
    case True
    then show ?thesis using ok
      by (cases type; cases "e = []") (auto simp: child_filter_def child_spec_def only_counts_def Let_def)
  next
    case short: False
    show ?thesis
    proof (cases e rule: rev_cases)
      case Nil
      then show ?thesis using ok short by (simp add: child_filter_def child_spec_def only_counts_def)
    next
      case (snoc p i)
      have i: "i < kid_count T p" using doc snoc by (simp add: in_doc_snoc)
      have self: "same_kind T ofType (p @ [i]) (p @ [i])" using el snoc by (simp add: same_kind_self)
      have el': "nodeType T (p @ [i]) = 1" using el snoc by simp
      have forward: "fst (count_to False (same_kind T ofType (p @ [i])) (p @ [i]) (map (\<lambda>j. p @ [j]) [0..<kid_count T p]) 0 w) =
          int (rank T ofType True p i)"
        using count_count [where p = p and i = i and d = 0 and w = w and u = False] i self by (simp add: takeWhile_upt rank_forward)
      have backward: "fst (count_to False (same_kind T ofType (p @ [i])) (p @ [i]) (preceding p (kid_count T p)) 0 w) =
          int (rank T ofType False p i)"
        unfolding preceding_def
        using count_count [where p = p and i = i and d = 0 and w = w and u = False and js = "rev [0..<kid_count T p]"] i self
        by (simp add: rev_upt_takeWhile rank_backward rev_filter [symmetric] del: upt_Suc)
      have unchanged: "only_counts w w" by (simp add: only_counts_def)
      have self': "same_kind T ofType e = same_kind T ofType (p @ [i])" by (simp add: snoc)
      show ?thesis
      proof (cases type)
        case CFirst
        then show ?thesis using ok rank_one [OF self i] snoc
          by (simp add: child_filter_def child_spec_def unchanged Let_def)
      next
        case CLast
        then show ?thesis using ok rank_one [OF self i] snoc
          by (simp add: child_filter_def child_spec_def unchanged Let_def)
      next
        case COnly
        then show ?thesis using ok rank_one [OF self i] snoc
          by (simp add: child_filter_def child_spec_def unchanged Let_def)
      next
        case (CNth a b)
        define r where "r = (if \<not> xml \<and> \<not> ofType then nth_cached T p (p @ [i]) w
          else count_to False (same_kind T ofType (p @ [i])) (p @ [i]) (map (\<lambda>j. p @ [j]) [0..<kid_count T p]) 0 w)"
        have "?R = (in_cycle (fst r - b) a, snd r)"
          using CNth short by (simp add: child_filter_def snoc r_def Let_def split_beta del: shortcut.simps)
        moreover have "fst r = int (rank T ofType True p i) \<and> counts_ok T (snd r) \<and> only_counts w (snd r)"
          using nth_cached_ok [OF ok i el'] forward ok unchanged by (auto simp: r_def count_unmarked)
        ultimately show ?thesis using CNth snoc by (simp add: child_spec_def in_cycle_spec Let_def)
      next
        case (CNthLast a b)
        define fresh where "fresh = count_to (\<not> xml \<and> \<not> ofType) (same_kind T ofType (p @ [i])) (p @ [i]) (preceding p (kid_count T p)) 0 w"
        have f: "fst fresh = int (rank T ofType False p i) \<and> counts_ok T (snd fresh) \<and> only_counts w (snd fresh)"
        proof (cases "\<not> xml \<and> \<not> ofType")
          case True
          then show ?thesis using last_cached_ok [OF ok i el'] el' by (simp add: fresh_def same_kind_cached)
        next
          case False
          then show ?thesis using backward ok unchanged by (auto simp: fresh_def count_unmarked)
        qed
        define r where "r = (case if \<not> xml \<and> \<not> ofType then lastcache w e else None of
            Some (r, d) \<Rightarrow> if r = dirruns w then (d, w) else fresh | None \<Rightarrow> fresh)"
        have "?R = (in_cycle (fst r - b) a, snd r)"
          using CNthLast short
          by (auto simp: child_filter_def snoc r_def fresh_def Let_def split_beta split: option.split simp del: shortcut.simps)
        moreover have "fst r = int (rank T ofType False p i) \<and> counts_ok T (snd r) \<and> only_counts w (snd r)"
        proof (cases "\<exists>d. \<not> xml \<and> \<not> ofType \<and> lastcache w e = Some (dirruns w, d)")
          case True
          then obtain d where d: "\<not> xml" "\<not> ofType" "lastcache w e = Some (dirruns w, d)" by blast
          have "d = int (rank T False False (butlast e) (last e))" using ok [unfolded counts_ok_def] d(3) by blast
          then have "d = int (rank T False False p i)" by (simp add: snoc)
          then show ?thesis using d ok unchanged by (simp add: r_def)
        next
          case False
          then have "r = fresh" by (auto simp: r_def split: option.split)
          then show ?thesis using f by simp
        qed
        ultimately show ?thesis using CNthLast snoc by (simp add: child_spec_def in_cycle_spec Let_def)
      qed
    qed
  qed
  then show "fst ?R = child_spec T type ofType e" "counts_ok T (snd ?R)" "only_counts w (snd ?R)" by simp_all
qed

text \<open>The meaning, in a form that can be evaluated.\<close>

lemma child_spec_code [code]:
  "child_spec T type ofType e =
     (e \<noteq> [] \<and> (let r = rank T ofType True (butlast e) (last e); s = rank T ofType False (butlast e) (last e) in
      case type of
        CFirst \<Rightarrow> r = 1
      | CLast \<Rightarrow> s = 1
      | COnly \<Rightarrow> r = 1 \<and> s = 1
      | CNth a b \<Rightarrow> in_cycle (int r - b) a
      | CNthLast a b \<Rightarrow> in_cycle (int s - b) a))"
  by (cases type) (simp_all add: child_spec_def in_cycle_spec Let_def)

text \<open>\<open>:nth-child( EVEN )\<close> comes with the numbers 0 and 0 and holds nowhere.\<close>

lemma zero_cycle_selects_nothing:
  assumes "in_doc T e" and "nodeType T e = 1"
  shows "\<not> child_spec T (CNth 0 0) ofType e"
proof (cases e rule: rev_cases)
  case (snoc p i)
  have "0 < rank T ofType True p i" using same_kind_self [OF assms(2), of ofType] snoc by (simp add: rank_forward)
  then show ?thesis using snoc by (simp add: child_spec_def Let_def)
qed (simp add: child_spec_def)

definition fresh_engine :: sworld where
  "fresh_engine = \<lparr>dirruns = 0, cachedruns = 0, outermost = OUnset, dircache = (\<lambda>_ _. None), nthcache = (\<lambda>_. None), lastcache = (\<lambda>_. None)\<rparr>"

text \<open>
  C31: The filter of the position pseudo-classes, which resumes counts that it remembers on the parent
  and on the elements, decides whether the position of the element among those of its kind is a
  multiple of the step, at least zero times, plus the offset; what it remembers stays right.
\<close>

theorem child_position:
  assumes "counts_ok T w" and "in_doc T e" and "nodeType T e = 1"
  shows "fst (child_filter T type ofType e xml w) = child_spec T type ofType e \<and>
    counts_ok T (snd (child_filter T type ofType e xml w))"
  using child_filter_ok [OF assms] by simp

text \<open>The third of four children, after the first has left its count on the parent.\<close>

definition four_children :: dnode where
  "four_children = DNode 1 ''ul'' [] [DNode 1 ''li'' [] [], DNode 3 ''#text'' [] [], DNode 1 ''p'' [] [], DNode 1 ''li'' [] [], DNode 1 ''li'' [] []]"

lemma child_position_witness:
  "let w1 = snd (child_filter four_children (CNth 2 1) False [0] False fresh_engine) in
   nthcache w1 [] = Some (0, 0, 1) \<and> nthcache (snd (child_filter four_children (CNth 2 1) False [3] False w1)) [] = Some (0, 3, 3) \<and>
   fst (child_filter four_children (CNth 2 1) False [3] False w1) \<and>
   counts_ok four_children (snd (child_filter four_children (CNth 2 1) False [3] False w1))"
proof -
  have fresh: "counts_ok four_children fresh_engine" by (simp add: counts_ok_def fresh_engine_def)
  have nodes: "in_doc four_children [0] \<and> nodeType four_children [0] = 1 \<and> in_doc four_children [3] \<and> nodeType four_children [3] = 1"
    by code_simp
  have one: "counts_ok four_children (snd (child_filter four_children (CNth 2 1) False [0] False fresh_engine))"
    using child_position [OF fresh, of "[0]"] nodes by simp
  have spec: "child_spec four_children (CNth 2 1) False [3]" by code_simp
  have marks: "nthcache (snd (child_filter four_children (CNth 2 1) False [0] False fresh_engine)) [] = Some (0, 0, 1)"
    "nthcache (snd (child_filter four_children (CNth 2 1) False [3] False (snd (child_filter four_children (CNth 2 1) False [0] False fresh_engine)))) []
      = Some (0, 3, 3)"
    by code_simp+
  show ?thesis using child_position [OF one, of "[3]" "CNth 2 1" False False] nodes spec marks by (simp add: Let_def)
qed

end
