(* ===== verification/SizzleTokens.thy ===== *)
theory SizzleTokens
  imports SizzleDom
begin

text \<open>
  The front of the selector engine of \<open>democlient/js/jquery.js\<close>: the patterns of its tokens,
  the filters that prepare a match (\<open>Expr.preFilter\<close>), \<open>tokenize\<close> and \<open>toSelector\<close>. Escapes
  may name any character, so unescaped text is a list of code units.
\<close>

unbundle bit_operations_syntax

section \<open>Patterns\<close>

definition wsc :: "char \<Rightarrow> bool" where
  "wsc c = (of_char c \<in> {32, 9, 13, 10, 12 :: nat})"

abbreviation ws :: re where "ws \<equiv> Star True (Ch wsc)"

text \<open>\<open>characterEncoding\<close>, with the character that \<open>replace( "w", ... )\<close> adds to its class.\<close>

definition characterEncoding :: "string \<Rightarrow> re" where
  "characterEncoding more = plus (alts
     [Seq (lit [CHR 0x5C]) (Ch dotc), Ch (\<lambda>c. wordc c \<or> c = CHR ''-'' \<or> c \<in> set more), Ch (\<lambda>c. 160 < (of_char c :: nat))])"

definition quoted :: "nat \<Rightarrow> re" where
  "quoted n = seqs [Grp n (Ch (anyof [CHR 0x27, CHR 0x22])),
     Grp (Suc n) (Star False (Alt (Seq (lit [CHR 0x5C]) (Ch dotc)) (Ch (noneof [CHR 0x5C])))), Back n]"

text \<open>\<open>attributes\<close>, with the number of its first group.\<close>

definition attributes :: "nat \<Rightarrow> re" where
  "attributes n = seqs [lit ''['', ws, Grp n (characterEncoding []), ws,
     opt (seqs [Grp (n + 1) (Seq (opt (Ch (anyof ''*^$|!~''))) (lit ''='')), ws,
       alts [quoted (n + 2), Grp (n + 4) (characterEncoding ''#''), Eps]]),
     ws, lit '']'']"

definition pseudos :: re where
  "pseudos = seqs [lit '':'', Grp 1 (characterEncoding []),
     opt (seqs [lit ''('',
       Grp 2 (alts [quoted 3,
         Grp 5 (Star True (alts [Seq (lit [CHR 0x5C]) (Ch dotc), Ch (noneof (CHR 0x5C # ''()[]'')), attributes 6])),
         Star True (Ch dotc)]),
       lit '')''])]"

definition rcomma :: re where
  "rcomma = seqs [Bol False, ws, lit '','', ws]"

definition rcombinators :: re where
  "rcombinators = seqs [Bol False, ws, Grp 1 (Alt (Ch (anyof ''>+~'')) (Ch wsc)), ws]"

definition digits :: re where "digits = Star True (Ch is_digit)"

definition sign :: re where "sign = opt (Ch (anyof ''+-''))"

datatype rel = RChild | RDesc | RNext | RSibling

datatype ttype = Rel rel | TAG | CLASS | ATTR | CHILD | PSEUDO | ID

fun matchExpr :: "ttype \<Rightarrow> re" where
  "matchExpr ID = seqs [Bol False, lit ''#'', Grp 1 (characterEncoding [])]"
| "matchExpr CLASS = seqs [Bol False, lit ''.'', Grp 1 (characterEncoding [])]"
| "matchExpr TAG = seqs [Bol False, Grp 1 (characterEncoding ''*'')]"
| "matchExpr ATTR = seqs [Bol False, attributes 1]"
| "matchExpr PSEUDO = seqs [Bol False, pseudos]"
| "matchExpr CHILD = seqs [Bol False, lit '':'', Grp 1 (alts (map lit_i [''only'', ''first'', ''last'', ''nth'', ''nth-last''])),
     lit ''-'', Grp 2 (alts (map lit_i [''child'', ''of-type''])),
     opt (seqs [lit ''('', ws,
       Grp 3 (alts [lit_i ''even'', lit_i ''odd'',
         seqs [Grp 4 (opt (seqs [Grp 5 sign, Grp 6 digits, lit_i ''n''])), ws,
           opt (seqs [Grp 7 sign, ws, Grp 8 (plus (Ch is_digit))])]]),
       ws, lit '')''])]"
| "matchExpr (Rel r) = rcombinators"

text \<open>A match: its text and its groups.\<close>

definition exec :: "re \<Rightarrow> string \<Rightarrow> (string \<times> (nat \<Rightarrow> string option)) option" where
  "exec r s = (case re_exec r s of None \<Rightarrow> None | Some (i, j, cs) \<Rightarrow> Some (sub s i j, cap s cs))"

section \<open>Escapes\<close>

definition hexc :: "char \<Rightarrow> bool" where
  "hexc c = (is_digit c \<or> lower_char c \<in> set ''abcdef'')"

definition hex_unit :: "char \<Rightarrow> int" where
  "hex_unit c = (if is_digit c then int (digit_val c) else of_char (lower_char c) - 87)"

definition hex_number :: "string \<Rightarrow> int" where
  "hex_number s = foldl (\<lambda>n c. 16 * n + hex_unit c) 0 s"

fun up_to :: "nat \<Rightarrow> re \<Rightarrow> re" where
  "up_to 0 r = Eps"
| "up_to (Suc n) r = opt (Seq r (up_to n r))"

definition runescape :: re where
  "runescape = Seq (lit [CHR 0x5C]) (Grp 1 (alts
     [seqs [Ch hexc, up_to 5 (Ch hexc), opt (Ch wsc)], Grp 2 (Ch wsc), Ch dotc]))"

text \<open>
  \<open>"0x" + escaped - 0x10000\<close> is no number unless \<open>escaped\<close> is digits, which white space may follow.
\<close>

definition funescape :: "string \<Rightarrow> string option \<Rightarrow> units" where
  "funescape escaped escapedWhitespace =
     (let ds = takeWhile hexc escaped; rest = dropWhile hexc escaped; n = hex_number ds
      in if ds = [] \<or> \<not> list_all wsc rest \<or> escapedWhitespace \<notin> {None, Some []} then str_units escaped
         else if n < 0x10000 then [n]
         else let high = n - 0x10000
              in [(high div 1024) OR 0xD800, (high mod 1024) OR 0xDC00])"

fun splice_units :: "string \<Rightarrow> nat \<Rightarrow> (nat \<times> nat \<times> caps) list \<Rightarrow> units" where
  "splice_units s k [] = str_units (drop k s)"
| "splice_units s k ((a, b, cs) # ms) =
     str_units (sub s k a) @ funescape (case cap s cs 1 of Some t \<Rightarrow> t | None \<Rightarrow> []) (cap s cs 2) @ splice_units s b ms"

definition unescape :: "string \<Rightarrow> units" where
  "unescape s = splice_units s 0 (re_all runescape s)"

text \<open>Text without a backslash is what it says.\<close>

lemma matches_lit1: "matches s (lit [c]) st = (if fst st < length s \<and> s ! fst st = c then [(Suc (fst st), snd st)] else [])"
  by (simp add: lit_def)

lemma unescape_plain: "CHR 0x5C \<notin> set s \<Longrightarrow> unescape s = str_units s"
proof -
  assume b: "CHR 0x5C \<notin> set s"
  have miss: "match_at runescape s i = None" for i
    using b by (auto simp: match_at_def runescape_def matches_lit1 in_set_conv_nth)
  have "all_from runescape s i = []" if "i \<le> length s" for i
    using that
  proof (induction "length s - i" arbitrary: i)
    case 0
    then show ?case using all_from_miss [OF miss 0(2)] by simp
  next
    case (Suc k)
    then show ?case using all_from_miss [OF miss Suc.prems] by simp
  qed
  then show ?thesis by (simp add: unescape_def re_all_def)
qed

section \<open>Preparing a match\<close>

datatype mval = VUndef | VStr string | VUnits units | VNum int

record token =
  tvalue :: string
  ttype_of :: ttype
  tmatches :: "mval list"

definition or_empty :: "string option \<Rightarrow> string" where
  "or_empty x = (case x of Some s \<Rightarrow> s | None \<Rightarrow> [])"

definition of_group :: "string option \<Rightarrow> mval" where
  "of_group x = (case x of Some s \<Rightarrow> VStr s | None \<Rightarrow> VUndef)"

text \<open>\<open>Sizzle.error\<close> throws; the error is its message, without the fixed part.\<close>

type_synonym 'a answer = "string + 'a"

definition pre_attr :: "string \<Rightarrow> (nat \<Rightarrow> string option) \<Rightarrow> string \<times> mval list" where
  "pre_attr m0 g =
     (let v = unescape (if or_empty (g 4) \<noteq> [] then or_empty (g 4) else or_empty (g 5));
          v' = (if g 2 = Some ''~='' then 32 # v @ [32] else v)
      in (m0, [VUnits (unescape (or_empty (g 1))), of_group (g 2), VUnits v']))"

text \<open>The value of a sign and digits as a number.\<close>

definition signed :: "string \<Rightarrow> string \<Rightarrow> int" where
  "signed s ds = (if s = ''-'' then - int (str_nat ds) else int (str_nat ds))"

definition pre_child :: "string \<Rightarrow> (nat \<Rightarrow> string option) \<Rightarrow> (string \<times> mval list) answer" where
  "pre_child m0 g =
     (let type = lower (or_empty (g 1)); arg = or_empty (g 3) in
      if take 3 type = ''nth''
      then (if arg = [] then Inl m0
            else
              (let first = (if or_empty (g 4) \<noteq> []
                     then signed (or_empty (g 5)) (if or_empty (g 6) = [] then ''1'' else or_empty (g 6))
                     else if arg = ''even'' \<or> arg = ''odd'' then 2 else 0);
                   lst = (if or_empty (g 8) \<noteq> [] then signed (or_empty (g 7)) (or_empty (g 8))
                     else if arg = ''odd'' then 1 else 0)
               in Inr (m0, [VStr type, of_group (g 2), of_group (g 3), VNum first, VNum lst])))
      else if arg \<noteq> [] then Inl m0
      else Inr (m0, [VStr type, of_group (g 2), of_group (g 3), of_group (g 4), of_group (g 5)]))"

text \<open>\<open>s.indexOf( ")", from )\<close> and \<open>s.slice( 0, k )\<close>.\<close>

definition close_from :: "string \<Rightarrow> nat \<Rightarrow> int" where
  "close_from s from = (case index_of (CHR '')'') (drop from s) of Some i \<Rightarrow> int (from + i) | None \<Rightarrow> - 1)"

definition slice0 :: "string \<Rightarrow> int \<Rightarrow> string" where
  "slice0 s k = take (nat (if k < 0 then int (length s) + k else k)) s"

text \<open>The pseudo filter, given the excess that tokenizing an argument leaves.\<close>

definition pre_pseudo :: "(string \<Rightarrow> nat answer) \<Rightarrow> string \<Rightarrow> (nat \<Rightarrow> string option) \<Rightarrow> (string \<times> mval list) option answer" where
  "pre_pseudo excess m0 g =
     (let unquoted = (if or_empty (g 5) = [] then or_empty (g 2) else []) in
      if re_test (matchExpr CHILD) m0 then Inr None
      else if or_empty (g 3) \<noteq> [] \<and> g 4 \<noteq> None then Inr (Some (m0, [of_group (g 1), of_group (g 4)]))
      else if unquoted \<noteq> [] \<and> re_test pseudos unquoted
      then (case excess unquoted of
              Inl e \<Rightarrow> Inl e
            | Inr n \<Rightarrow>
                if n = 0 then Inr (Some (m0, [of_group (g 1), of_group (g 2)]))
                else let k = close_from unquoted (length unquoted - n) - int (length unquoted)
                     in if k = 0 then Inr (Some (m0, [of_group (g 1), of_group (g 2)]))
                        else Inr (Some (slice0 m0 k, [of_group (g 1), VStr (slice0 unquoted k)])))
      else Inr (Some (m0, [of_group (g 1), of_group (g 2)])))"

definition pre_filter :: "(string \<Rightarrow> nat answer) \<Rightarrow> ttype \<Rightarrow> string \<Rightarrow> (nat \<Rightarrow> string option) \<Rightarrow> (string \<times> mval list) option answer" where
  "pre_filter excess type m0 g =
     (case type of
        ATTR \<Rightarrow> Inr (Some (pre_attr m0 g))
      | CHILD \<Rightarrow> (case pre_child m0 g of Inl e \<Rightarrow> Inl e | Inr x \<Rightarrow> Inr (Some x))
      | PSEUDO \<Rightarrow> pre_pseudo excess m0 g
      | _ \<Rightarrow> Inr (Some (m0, [of_group (g 1)])))"

section \<open>tokenize\<close>

text \<open>The order of \<open>for ( type in Expr.filter )\<close>; \<open>ID\<close> is added last, by \<open>setDocument\<close>.\<close>

definition filter_types :: "ttype list" where
  "filter_types = [TAG, CLASS, ATTR, CHILD, PSEUDO, ID]"

text \<open>The inner loop: the text so far, the tokens of the group and whether something matched.\<close>

fun filter_pass :: "(string \<Rightarrow> nat answer) \<Rightarrow> ttype list \<Rightarrow> string \<Rightarrow> token list \<Rightarrow> bool \<Rightarrow> (string \<times> token list \<times> bool) answer" where
  "filter_pass excess [] soFar tokens matched = Inr (soFar, tokens, matched)"
| "filter_pass excess (type # types) soFar tokens matched =
     (case exec (matchExpr type) soFar of
        None \<Rightarrow> filter_pass excess types soFar tokens matched
      | Some (m0, g) \<Rightarrow>
          (case pre_filter excess type m0 g of
             Inl e \<Rightarrow> Inl e
           | Inr None \<Rightarrow> filter_pass excess types soFar tokens matched
           | Inr (Some (v, ms)) \<Rightarrow>
               filter_pass excess types (drop (length v) soFar)
                 (tokens @ [\<lparr>tvalue = v, ttype_of = type, tmatches = ms\<rparr>]) True))"

definition rel_of :: "string \<Rightarrow> rel" where
  "rel_of s = (if s = ''>'' then RChild else if s = ''+'' then RNext else if s = ''~'' then RSibling else RDesc)"

definition combinator_step :: "string \<Rightarrow> token list \<Rightarrow> string \<times> token list \<times> bool" where
  "combinator_step soFar tokens =
     (case exec rcombinators soFar of
        None \<Rightarrow> (soFar, tokens, False)
      | Some (m0, g) \<Rightarrow>
          (drop (length m0) soFar,
           tokens @ [\<lparr>tvalue = m0, ttype_of = Rel (rel_of (or_empty (g 1))), tmatches = []\<rparr>], True))"

text \<open>
  The comma: when it matches, a new group begins. A comma at the end of the text is not consumed.
\<close>

definition comma_step :: "string \<Rightarrow> (string \<times> bool)" where
  "comma_step soFar =
     (case exec rcomma soFar of
        None \<Rightarrow> (soFar, False)
      | Some (m0, g) \<Rightarrow> (if drop (length m0) soFar = [] then (soFar, True) else (drop (length m0) soFar, True)))"

section \<open>What a match consumes\<close>

fun minlen :: "re \<Rightarrow> nat" where
  "minlen (Ch p) = 1"
| "minlen (Seq a b) = minlen a + minlen b"
| "minlen (Alt a b) = min (minlen a) (minlen b)"
| "minlen (Grp n a) = minlen a"
| "minlen _ = 0"

lemma minlen_matches: "st' \<in> set (matches s r st) \<Longrightarrow> fst st + minlen r \<le> fst st'"
proof (induction r arbitrary: st st')
  case (Seq a b)
  then obtain st1 where "st1 \<in> set (matches s a st)" "st' \<in> set (matches s b st1)" by auto
  then show ?case using Seq.IH(1) [of st1 st] Seq.IH(2) [of st' st1] by simp
next
  case (Alt a b)
  then show ?case by fastforce
next
  case (Star g a)
  then show ?case using matches_mono [OF Star.prems] by simp
next
  case (Ahead p a)
  then show ?case using matches_mono [OF Ahead.prems] by simp
qed (auto split: if_splits option.splits)

lemma matches_bound: "st' \<in> set (matches s r st) \<Longrightarrow> fst st \<le> length s \<Longrightarrow> fst st' \<le> length s"
proof (induction r arbitrary: st st')
  case (Star g a)
  let ?m = "\<lambda>st. matches s a (fst st, filter (\<lambda>e. fst e \<notin> set (groups a)) (snd st))"
  have "st' \<in> set (iter ?m n g st) \<Longrightarrow> fst st \<le> length s \<Longrightarrow> fst st' \<le> length s" for n
  proof (induction n arbitrary: st)
    case (Suc n)
    then show ?case using Star.IH by (fastforce simp: Let_def split: if_splits)
  qed simp
  then show ?case using Star.prems by auto
next
  case (Back n)
  then show ?case by (auto simp: sub_def split: option.splits if_splits dest!: arg_cong [where f = length])
next
  case (Ahead p a)
  then show ?case by (cases "matches s a st") (auto split: if_splits)
qed (auto split: if_splits option.splits)

lemma search_from_match: "search_from r s is = Some (a, b, cs) \<Longrightarrow> (b, cs) \<in> set (matches s r (a, []))"
  by (induction r s "is" rule: search_from.induct) (auto simp: match_at_def split: option.splits list.splits)

lemma exec_at_start:
  assumes "exec (seqs (Bol False # rs)) s = Some (m, g)"
  obtains j cs where "(j, cs) \<in> set (matches s (seqs rs) (0, []))" "m = take j s" "g = cap s cs" "j \<le> length s"
proof -
  obtain a j cs where e: "re_exec (seqs (Bol False # rs)) s = Some (a, j, cs)" "m = sub s a j" "g = cap s cs"
    using assms by (auto simp: exec_def split: option.splits)
  then have "(j, cs) \<in> set (matches s (seqs (Bol False # rs)) (a, []))"
    by (auto simp: re_exec_def dest: search_from_match)
  then have "a = 0" "(j, cs) \<in> set (matches s (seqs rs) (0, []))" by (auto simp: seqs_def split: if_splits)
  then show thesis using that e matches_bound [of "(j, cs)" s "seqs rs" "(0, [])"] by (auto simp: sub_def)
qed

lemma exec_prefix: "exec (seqs (Bol False # rs)) s = Some (m, g) \<Longrightarrow> \<exists>n. m = take n s"
  by (erule exec_at_start) blast

lemma exec_consumes:
  assumes "exec (seqs (Bol False # rs)) s = Some (m, g)"
  shows "minlen (seqs rs) \<le> length m"
proof -
  obtain j cs where "(j, cs) \<in> set (matches s (seqs rs) (0, []))" "m = take j s" "j \<le> length s"
    using assms by (rule exec_at_start)
  then show ?thesis using minlen_matches by fastforce
qed

lemma minlen_seqs [simp]: "minlen (seqs rs) = sum_list (map minlen rs)"
  by (induction rs) (simp_all add: seqs_def)

lemma minlen_lit [simp]: "minlen (lit t) = length t"
  by (induction t) (simp_all add: lit_def)

lemma minlen_characterEncoding: "1 \<le> minlen (characterEncoding cs)"
  by (simp add: characterEncoding_def plus_def)

lemma matchExpr_parts: "\<exists>rs. matchExpr type = seqs (Bol False # rs) \<and> 1 \<le> minlen (seqs rs)"
proof (cases type)
  case ID
  then show ?thesis using minlen_characterEncoding [of "[]"] by (intro exI [of _ "[lit ''#'', Grp 1 (characterEncoding [])]"]) simp
qed (use minlen_characterEncoding in \<open>fastforce simp: rcombinators_def attributes_def pseudos_def\<close>)+

text \<open>A pseudo's text is longer than its argument by the colon, the name and the parentheses.\<close>

lemma seqs_Cons: "seqs (r # rs) = Seq r (seqs rs)"
  by (simp add: seqs_def)

lemma iter_caps:
  assumes "\<And>st st'. st' \<in> set (m st) \<Longrightarrow> map_of (snd st') n = map_of (snd st) n"
  shows "st' \<in> set (iter m k gr st) \<Longrightarrow> map_of (snd st') n = map_of (snd st) n"
proof (induction k arbitrary: st)
  case (Suc k)
  from Suc.prems consider "st' = st" | st1 where "st1 \<in> set (m st)" "st' \<in> set (iter m k gr st1)"
    by (auto simp: Let_def split: if_splits)
  then show ?case using Suc.IH assms by cases auto
qed simp

lemma map_of_filter_keys: "P n \<Longrightarrow> map_of (filter (\<lambda>e. P (fst e)) xs) n = map_of xs n"
  by (induction xs) auto

lemma matches_caps:
  "st' \<in> set (matches s r st) \<Longrightarrow> n \<notin> set (groups r) \<Longrightarrow> map_of (snd st') n = map_of (snd st) n"
proof (induction r arbitrary: st st')
  case (Seq a b)
  then obtain st1 where "st1 \<in> set (matches s a st)" "st' \<in> set (matches s b st1)" by auto
  then show ?case using Seq.IH(1) [of st1 st] Seq.IH(2) [of st' st1] Seq.prems(2) by simp
next
  case (Star g a)
  let ?m = "\<lambda>st. matches s a (fst st, filter (\<lambda>e. fst e \<notin> set (groups a)) (snd st))"
  have "map_of (snd st') n = map_of (snd st) n" if "st' \<in> set (?m st)" for st st'
    using Star.IH [OF that] Star.prems(2) map_of_filter_keys [of "\<lambda>k. k \<notin> set (groups a)" n "snd st"] by simp
  then show ?case using Star.prems(1) by (auto intro: iter_caps [of ?m])
next
  case (Ahead p a)
  then show ?case by (cases "matches s a st") (auto split: if_splits)
qed (auto split: if_splits option.splits)

lemma groups_characterEncoding: "groups (characterEncoding cs) = []"
  by (simp add: characterEncoding_def plus_def lit_def)

lemma pseudo_shape:
  assumes "exec (matchExpr PSEUDO) s = Some (m, g)" and "g 2 = Some u"
  shows "length u + 4 \<le> length m"
proof -
  define enc where "enc = characterEncoding []"
  obtain A where P: "pseudos = Seq (lit '':'') (Seq (Grp 1 enc) (Seq (opt (Seq (lit ''('') (Seq (Grp 2 A) (Seq (lit '')'') Eps)))) Eps))"
    by (simp add: pseudos_def seqs_def enc_def)
  obtain j cs where j: "(j, cs) \<in> set (matches s (seqs [pseudos]) (0, []))" "m = take j s" "g = cap s cs" "j \<le> length s"
    using exec_at_start [OF assms(1) [unfolded matchExpr.simps]] by blast
  obtain j1 cs1 where s1: "(j1, cs1) \<in> set (matches s enc (1, []))"
    and s2: "(j, cs) \<in> set (matches s (opt (Seq (lit ''('') (Seq (Grp 2 A) (Seq (lit '')'') Eps)))) (j1, (1, 1, j1) # cs1))"
    using j(1) by (auto simp: P seqs_def matches_lit1 split: if_splits)
  have none: "map_of cs1 2 = None" using matches_caps [OF s1, of 2] by (simp add: enc_def groups_characterEncoding)
  have j1: "2 \<le> j1" using minlen_matches [OF s1] minlen_characterEncoding [of "[]"] by (simp add: enc_def)
  have two: "map_of cs 2 \<noteq> None" using assms(2) j(3) by (auto simp: cap_def split: option.splits)
  then obtain b cs2 where b: "(b, cs2) \<in> set (matches s A (Suc j1, (1, 1, j1) # cs1))"
    and j': "j = Suc b" "cs = (2, Suc j1, b) # cs2"
    using s2 none by (auto simp: opt_def matches_lit1 split: if_splits)
  have "Suc j1 \<le> b" using matches_mono [OF b] by simp
  moreover have "u = sub s (Suc j1) b" using assms(2) by (simp add: j(3) j' cap_def)
  ultimately show ?thesis using j1 j(2,4) j'(1) by (simp add: sub_def)
qed

text \<open>What a type prepares is a piece of the text, and not an empty one.\<close>

lemma close_from_range: "- 1 \<le> close_from s n"
  by (simp add: close_from_def split: option.split)

lemma pre_filter_piece:
  assumes ex: "exec (matchExpr type) s = Some (m0, g)" and pf: "pre_filter excess type m0 g = Inr (Some (v, ms))"
  shows "v \<noteq> []" and "v = take (length v) s"
proof -
  obtain rs where rs: "matchExpr type = seqs (Bol False # rs)" "1 \<le> minlen (seqs rs)"
    using matchExpr_parts by blast
  obtain n where n: "m0 = take n s" using exec_prefix ex rs by metis
  have m0: "m0 \<noteq> []" using le_trans [OF rs(2) exec_consumes [OF ex [unfolded rs(1)]]] by auto
  have "v = m0 \<or> (type = PSEUDO \<and> (\<exists>u. g 2 = Some u \<and> (\<exists>k. v = slice0 m0 k \<and> - 1 - int (length u) \<le> k \<and> k < 0)))"
  proof (cases "type = PSEUDO")
    case True
    then have pp: "pre_pseudo excess m0 g = Inr (Some (v, ms))" using pf by (simp add: pre_filter_def)
    show ?thesis
    proof (cases "v = m0")
      case False
      let ?u = "if or_empty (g 5) = [] then or_empty (g 2) else []"
      obtain k where k: "?u \<noteq> []" "v = slice0 m0 (close_from ?u k - int (length ?u))" "close_from ?u k - int (length ?u) \<noteq> 0"
        using pp False unfolding pre_pseudo_def Let_def by (auto split: if_splits sum.splits)
      then have g2: "g 2 = Some ?u" by (auto simp: or_empty_def split: option.splits if_splits)
      define u where "u = ?u"
      note k = k [folded u_def] and g2 = g2 [folded u_def]
      have "close_from u k < int (length u)"
      proof (cases "index_of (CHR '')'') (drop k u)")
        case None
        then show ?thesis by (simp add: close_from_def)
      next
        case (Some i)
        then have "i < length (drop k u)" by (auto simp: index_of_def Let_def split: if_splits)
        then show ?thesis using Some by (simp add: close_from_def)
      qed
      then have "- 1 - int (length u) \<le> close_from u k - int (length u) \<and> close_from u k - int (length u) < 0"
        using close_from_range [of u k] by simp
      then show ?thesis using True g2 k(2) by blast
    qed simp
  next
    case False
    then show ?thesis using pf by (cases type) (auto simp: pre_filter_def pre_attr_def Let_def pre_child_def split: sum.splits if_splits)
  qed
  then have "v \<noteq> [] \<and> (\<exists>k. v = take k m0)"
  proof
    assume "v = m0"
    then show ?thesis using m0 by (metis take_all_iff order_refl)
  next
    assume "type = PSEUDO \<and> (\<exists>u. g 2 = Some u \<and> (\<exists>k. v = slice0 m0 k \<and> - 1 - int (length u) \<le> k \<and> k < 0))"
    then obtain u k where u: "type = PSEUDO" "g 2 = Some u" "v = slice0 m0 k" "- 1 - int (length u) \<le> k" "k < 0" by blast
    have "length u + 4 \<le> length m0" using pseudo_shape ex u(1,2) by blast
    then show ?thesis using u(3-5) by (auto simp: slice0_def)
  qed
  then obtain k where k: "v \<noteq> []" "v = take k m0" by blast
  then have "v = take (min k n) s" using n by (simp add: min.commute)
  moreover have "take (length (take q s)) s = take q s" for q by (cases "q \<le> length s") simp_all
  ultimately show "v \<noteq> []" "v = take (length v) s" using k(1) by metis+
qed


section \<open>tokenize\<close>

definition toSelector :: "token list \<Rightarrow> string" where
  "toSelector tokens = concat (map tvalue tokens)"

lemma toSelector_simps [simp]:
  "toSelector [] = []" "toSelector (t # ts) = tvalue t @ toSelector ts" "toSelector (ts @ us) = toSelector ts @ toSelector us"
  by (simp_all add: toSelector_def)

definition real_tokens :: "token list \<Rightarrow> bool" where
  "real_tokens ts \<longleftrightarrow> (\<forall>t\<in>set ts. tvalue t \<noteq> [])"

lemma real_tokens_simps [simp]:
  "real_tokens []" "real_tokens (t # ts) \<longleftrightarrow> tvalue t \<noteq> [] \<and> real_tokens ts" "real_tokens (ts @ us) \<longleftrightarrow> real_tokens ts \<and> real_tokens us"
  by (auto simp: real_tokens_def)

lemma filter_pass_pieces:
  "filter_pass excess types soFar tokens matched = Inr (rest, tokens', matched') \<Longrightarrow>
    \<exists>new. tokens' = tokens @ new \<and> soFar = toSelector new @ rest \<and> real_tokens new \<and> matched' = (matched \<or> new \<noteq> [])"
proof (induction types arbitrary: soFar tokens matched)
  case Nil
  then show ?case by (intro exI [of _ "[]"]) simp
next
  case (Cons type types)
  show ?case
  proof (cases "exec (matchExpr type) soFar")
    case None
    then show ?thesis using Cons by simp
  next
    case (Some x)
    obtain m0 g where x: "x = (m0, g)" by (cases x)
    obtain r where r: "pre_filter excess type m0 g = Inr r" using Cons.prems Some x by (auto split: sum.splits)
    show ?thesis
    proof (cases r)
      case None
      then show ?thesis using Cons Some x r by simp
    next
      case (Some p)
      obtain v ms where p: "p = (v, ms)" by (cases p)
      have piece: "v \<noteq> []" "soFar = v @ drop (length v) soFar"
        using pre_filter_piece [of type soFar m0 g excess v ms] \<open>exec _ _ = _\<close> x r Some p
        by (simp_all, metis append_take_drop_id)
      let ?t = "\<lparr>tvalue = v, ttype_of = type, tmatches = ms\<rparr>"
      have "filter_pass excess types (drop (length v) soFar) (tokens @ [?t]) True = Inr (rest, tokens', matched')"
        using Cons.prems \<open>exec _ _ = _\<close> x r Some p by simp
      from Cons.IH [OF this] obtain new where new: "tokens' = (tokens @ [?t]) @ new" "drop (length v) soFar = toSelector new @ rest"
        "real_tokens new" "matched'" by auto
      have "soFar = v @ toSelector new @ rest" using piece(2) new(2) by metis
      then show ?thesis using new piece(1) by (intro exI [of _ "?t # new"]) simp
    qed
  qed
qed

lemma combinator_step_pieces:
  "combinator_step soFar tokens = (rest, tokens', matched) \<Longrightarrow>
    \<exists>new. tokens' = tokens @ new \<and> soFar = toSelector new @ rest \<and> real_tokens new \<and> matched = (new \<noteq> [])"
proof -
  assume c: "combinator_step soFar tokens = (rest, tokens', matched)"
  show ?thesis
  proof (cases "exec rcombinators soFar")
    case None
    then show ?thesis using c by (intro exI [of _ "[]"]) (simp add: combinator_step_def)
  next
    case (Some x)
    obtain m0 g where x: "x = (m0, g)" by (cases x)
    obtain n where n: "m0 = take n soFar"
      using exec_prefix Some x unfolding rcombinators_def by metis
    have "1 \<le> length m0" using exec_consumes [of _ soFar m0 g] Some x unfolding rcombinators_def by fastforce
    moreover have "soFar = m0 @ drop (length m0) soFar" unfolding n by (cases "n \<le> length soFar") simp_all
    ultimately show ?thesis
      using c Some x by (intro exI [of _ "[\<lparr>tvalue = m0, ttype_of = Rel (rel_of (or_empty (g 1))), tmatches = []\<rparr>]"])
        (auto simp: combinator_step_def)
  qed
qed

text \<open>The loop: the groups so far, the last of them the one that is being filled.\<close>

definition group_step :: "(string \<Rightarrow> nat answer) \<Rightarrow> bool \<Rightarrow> string \<Rightarrow> token list list \<Rightarrow> (string \<times> token list list \<times> bool) answer" where
  "group_step excess first soFar gs =
     (let (soFar, new) = (if first then (soFar, True) else comma_step soFar);
          gs = (if new then gs @ [[]] else gs);
          (soFar, tokens, matched) = combinator_step soFar (last gs)
      in case filter_pass excess filter_types soFar tokens matched of
           Inl e \<Rightarrow> Inl e
         | Inr (soFar, tokens, matched) \<Rightarrow> Inr (soFar, butlast gs @ [tokens], matched))"

text \<open>What separates two groups: white space around one comma.\<close>

definition comma_text :: "string \<Rightarrow> bool" where
  "comma_text s \<longleftrightarrow> (\<exists>a b. s = a @ '','' @ b \<and> list_all wsc a \<and> list_all wsc b)"

fun spells :: "token list list \<Rightarrow> string \<Rightarrow> bool" where
  "spells [] s = (s = [])"
| "spells [g] s = (s = toSelector g)"
| "spells (g # gs) s = (\<exists>sep rest. s = toSelector g @ sep @ rest \<and> comma_text sep \<and> spells gs rest)"

lemma spells_snoc:
  "gs \<noteq> [] \<Longrightarrow> spells (gs @ [g]) s \<longleftrightarrow> (\<exists>t sep. s = t @ sep @ toSelector g \<and> comma_text sep \<and> spells gs t)"
proof (induction gs arbitrary: s)
  case (Cons h gs)
  show ?case
  proof (cases gs)
    case Nil
    then show ?thesis by auto
  next
    case (Cons k ks)
    have "spells ((h # gs) @ [g]) s \<longleftrightarrow> (\<exists>sep rest. s = toSelector h @ sep @ rest \<and> comma_text sep \<and> spells (gs @ [g]) rest)"
      by (simp add: Cons)
    also have "\<dots> \<longleftrightarrow> (\<exists>sep rest t sep2. s = toSelector h @ sep @ rest \<and> comma_text sep \<and> rest = t @ sep2 @ toSelector g \<and> comma_text sep2 \<and> spells gs t)"
      using Cons.IH [unfolded Cons] by (simp add: Cons)
    also have "\<dots> \<longleftrightarrow> (\<exists>t sep2. s = t @ sep2 @ toSelector g \<and> comma_text sep2 \<and> spells (h # gs) t)"
      by (simp add: Cons) (metis append_assoc)
    finally show ?thesis .
  qed
qed simp

lemma spells_more: "spells (gs @ [g]) s \<Longrightarrow> spells (gs @ [g @ g']) (s @ toSelector g')"
proof (cases "gs = []")
  case False
  assume "spells (gs @ [g]) s"
  then show ?thesis unfolding spells_snoc [OF False] by (metis append_assoc toSelector_simps(3))
qed simp

text \<open>The comma takes all the white space around it.\<close>

lemma exec_rcomma:
  "exec rcomma s =
    (let k = run_at wsc s 0 in
     if k < length s \<and> s ! k = CHR '','' then Some (take (run_at wsc s (Suc k)) s, cap s []) else None)"
proof -
  let ?k = "run_at wsc s 0"
  let ?f = "\<lambda>j. if j < length s \<and> s ! j = CHR '','' then map (\<lambda>j. (j, [])) (rev [Suc j..<Suc (run_at wsc s (Suc j))]) else []"
  have m: "matches s (seqs [ws, lit '','', ws]) (0, []) = concat (map ?f (rev [0..<Suc ?k]))"
    by (simp add: seqs_def star_class matches_lit1 o_def if_distrib cong: if_cong del: matches.simps(5) upt_Suc)
  have none: "s ! j \<noteq> CHR '',''" if "j < ?k" for j
    using run_at_inside [of 0 j wsc s] that by (auto simp: wsc_def)
  then have f: "matches s (seqs [ws, lit '','', ws]) (0, []) = ?f ?k"
    unfolding m by (intro concat_rev_last) (auto dest: none)
  have r: "re_exec rcomma s = (case ?f ?k of [] \<Rightarrow> None | (j, cs) # _ \<Rightarrow> Some (0, j, cs))"
    unfolding f [symmetric] rcomma_def seqs_Cons [of "Bol False"] by (rule exec_anchored)
  have "rev [Suc ?k..<Suc (run_at wsc s (Suc ?k))] = run_at wsc s (Suc ?k) # rev [Suc ?k..<run_at wsc s (Suc ?k)]"
    using run_at_ge [of "Suc ?k" wsc s] by simp
  then show ?thesis unfolding exec_def r by (simp add: Let_def)
qed

lemma comma_here:
  "s = a @ CHR '','' # b \<Longrightarrow> list_all wsc a \<Longrightarrow> run_at wsc s 0 = length a \<and> run_at wsc s (Suc (length a)) = Suc (length a) + length (takeWhile wsc b)"
proof -
  assume s: "s = a @ CHR '','' # b" and a: "list_all wsc a"
  have "\<not> wsc (CHR '','')" by (simp add: wsc_def)
  then have "takeWhile wsc s = a" using a unfolding s by (induction a) auto
  then show ?thesis by (simp add: run_at_def s)
qed

lemma comma_text_run: "comma_text s \<Longrightarrow> exec rcomma s = Some (s, cap s [])"
proof -
  assume "comma_text s"
  then obtain a b where s: "s = a @ CHR '','' # b" and ab: "list_all wsc a" "list_all wsc b" by (auto simp: comma_text_def)
  have "takeWhile wsc b = b" using ab(2) by (simp add: list_all_iff)
  then show ?thesis using comma_here [OF s ab(1)] \<open>takeWhile wsc b = b\<close>
    by (simp add: exec_rcomma Let_def) (simp add: s)
qed

lemma comma_found:
  assumes "exec rcomma s = Some (m, g)"
  shows "comma_text m" and "s = m @ drop (length m) s"
proof -
  define k where "k = run_at wsc s 0"
  have k: "k < length s" "s ! k = CHR '',''" "m = take (run_at wsc s (Suc k)) s"
    using assms by (auto simp: exec_rcomma Let_def k_def split: if_splits)
  have tk: "take k s = takeWhile wsc s" by (simp add: k_def run_at_def takeWhile_eq_take [symmetric])
  define a b where "a = take k s" and "b = drop (Suc k) s"
  have s: "s = a @ CHR '','' # b" unfolding a_def b_def using id_take_nth_drop [OF k(1)] by (simp add: k(2))
  have a: "list_all wsc a" by (simp add: a_def tk list_all_iff) (meson set_takeWhileD)
  have "length a = k" using k(1) by (simp add: a_def)
  then have "run_at wsc s (Suc k) = Suc (length a) + length (takeWhile wsc b)" using comma_here [OF s a] by simp
  then have m: "m = a @ CHR '','' # takeWhile wsc b" unfolding k(3) by (simp add: s takeWhile_eq_take [symmetric])
  have "list_all wsc (takeWhile wsc b)" by (simp add: list_all_iff) (meson set_takeWhileD)
  then show "comma_text m" using a m by (auto simp: comma_text_def)
  show "s = m @ drop (length m) s" unfolding m by (subst (1 2) s) (simp add: dropWhile_eq_drop [symmetric])
qed

lemma comma_step_pieces:
  assumes "comma_step s = (rest, new)"
  shows "(\<not> new \<and> rest = s) \<or> (new \<and> rest = s \<and> comma_text s) \<or> (new \<and> (\<exists>sep. s = sep @ rest \<and> comma_text sep) \<and> rest \<noteq> [])"
proof (cases "exec rcomma s")
  case None
  then show ?thesis using assms by (simp add: comma_step_def)
next
  case (Some x)
  obtain m g where "x = (m, g)" by (cases x)
  then have e: "exec rcomma s = Some (m, g)" using Some by simp
  note c = comma_found [OF e]
  show ?thesis
  proof (cases "drop (length m) s = []")
    case True
    then have "m = s" using c(2) by simp
    then show ?thesis using c(1) assms e by (simp add: comma_step_def)
  next
    case False
    then have "rest = drop (length m) s" "new" using assms e by (simp_all add: comma_step_def)
    then show ?thesis using c False by metis
  qed
qed

lemma comma_step_at_end: "comma_text s \<Longrightarrow> comma_step s = (s, True)"
  by (simp add: comma_step_def comma_text_run)

lemma matches_class_plus: "matches s (plus r) st \<noteq> [] \<Longrightarrow> matches s r st \<noteq> []"
  by (auto simp: plus_def)

lemma exec_none: "matches s (seqs rs) (0, []) = [] \<Longrightarrow> exec (seqs (Bol False # rs)) s = None"
  unfolding exec_def seqs_Cons [of "Bol False"] by (simp add: exec_anchored)

lemma lit_first:
  assumes "s ! 0 \<noteq> c"
  shows "exec (seqs (Bol False # lit [c] # rs)) s = None" and "exec (seqs [Bol False, seqs (lit [c] # rs)]) s = None"
  by (rule exec_none, simp add: seqs_Cons matches_lit1 assms)+

lemma no_token_here:
  assumes "s \<noteq> []" and "wsc (hd s) \<or> hd s = CHR '',''" and "type \<in> set filter_types"
  shows "exec (matchExpr type) s = None"
proof -
  have h: "s ! 0 = hd s" using assms(1) by (simp add: hd_conv_nth)
  have other: "hd s \<notin> set ''#.[:''" "hd s \<noteq> CHR 0x5C" "\<not> wordc (hd s)" "hd s \<noteq> CHR ''-''" "hd s \<noteq> CHR ''*''" "\<not> 160 < (of_char (hd s) :: nat)"
    using assms(2) by (auto simp: wsc_def wordc_def)
  have none: "matches s (characterEncoding ''*'') (0, []) = []"
    using matches_class_plus [of s _ "(0, [])"] other h assms(1)
    by (auto simp: characterEncoding_def plus_def matches_lit1)
  have tag: "exec (matchExpr TAG) s = None"
    unfolding matchExpr.simps by (rule exec_none) (simp add: seqs_Cons none)
  from assms(3) consider "type = TAG" | "type = CLASS" | "type = ATTR" | "type = CHILD" | "type = PSEUDO" | "type = ID"
    by (auto simp: filter_types_def)
  then show ?thesis
  proof cases
    case 1
    then show ?thesis using tag by simp
  next
    case 3
    then show ?thesis by (simp only: matchExpr.simps attributes_def) (rule lit_first(2), use other h in simp)
  next
    case 5
    then show ?thesis by (simp only: matchExpr.simps pseudos_def) (rule lit_first(2), use other h in simp)
  qed (simp only: matchExpr.simps, rule lit_first(1), use other h in simp)+
qed

lemma filter_pass_here:
  assumes "s \<noteq> []" and "wsc (hd s) \<or> hd s = CHR '',''"
  shows "set types \<subseteq> set filter_types \<Longrightarrow> filter_pass excess types s tokens matched = Inr (s, tokens, matched)"
  by (induction types) (simp_all add: no_token_here [OF assms])

text \<open>A comma that nothing follows stays to the end.\<close>

lemma comma_text_head: "comma_text s \<Longrightarrow> s \<noteq> [] \<and> (wsc (hd s) \<or> hd s = CHR '','')"
proof -
  assume "comma_text s"
  then obtain a b where "s = a @ CHR '','' # b" "list_all wsc a" by (auto simp: comma_text_def)
  then show ?thesis by (cases a) simp_all
qed

lemma combinator_no_comma:
  assumes "exec rcombinators s = Some (m, g)"
  shows "CHR '','' \<notin> set m"
proof -
  have nc: "\<not> wsc (CHR '','')" by (simp add: wsc_def)
  obtain j cs where j: "(j, cs) \<in> set (matches s (seqs [ws, Grp 1 (Alt (Ch (anyof ''>+~'')) (Ch wsc)), ws]) (0, []))"
    and m: "m = take j s" "j \<le> length s"
    using exec_at_start [OF assms [unfolded rcombinators_def]] by blast
  define G where "G = Grp 1 (Alt (Ch (anyof ''>+~'')) (Ch wsc))"
  obtain st1 st2 where st: "st1 \<in> set (matches s ws (0, []))" "st2 \<in> set (matches s G st1)" "(j, cs) \<in> set (matches s ws st2)"
    using j unfolding G_def [symmetric] seqs_def by (auto simp del: matches.simps(5))
  obtain i where st1: "st1 = (i, [])" and i: "i \<le> run_at wsc s 0"
    using st(1) by (auto simp: star_class simp del: matches.simps(5) upt_Suc)
  have si: "s ! i \<noteq> CHR '',''" using st(2) nc unfolding G_def st1 by (auto split: if_splits)
  obtain cs' where st2: "st2 = (Suc i, cs')" using st(2) unfolding G_def st1 by (auto split: if_splits)
  have jr: "j \<le> run_at wsc s (Suc i)" using st(3) unfolding st2 by (auto simp: star_class simp del: matches.simps(5) upt_Suc)
  have "s ! k \<noteq> CHR '',''" if "k < j" for k
  proof -
    consider "k < i" | "k = i" | "Suc i \<le> k" by linarith
    then show ?thesis
    proof cases
      case 1
      then have "wsc (s ! k)" using i by (intro run_at_inside [of 0 k wsc s]) simp_all
      then show ?thesis using nc by auto
    next
      case 2
      then show ?thesis using si by simp
    next
      case 3
      then have "wsc (s ! k)" using that jr by (intro run_at_inside [of "Suc i" k wsc s]) simp_all
      then show ?thesis using nc by auto
    qed
  qed
  then show ?thesis using m by (auto simp: in_set_conv_nth)
qed

lemma combinator_at_comma:
  assumes "comma_text s" and "combinator_step s tokens = (rest, tokens', matched)"
  shows "comma_text rest"
proof (cases "exec rcombinators s")
  case None
  then show ?thesis using assms by (simp add: combinator_step_def)
next
  case (Some x)
  obtain m g where x: "x = (m, g)" by (cases x)
  then have rest: "rest = drop (length m) s" using Some assms(2) by (simp add: combinator_step_def)
  obtain a b where s: "s = a @ CHR '','' # b" "list_all wsc a" "list_all wsc b" using assms(1) by (auto simp: comma_text_def)
  have "CHR '','' \<notin> set m" using combinator_no_comma Some x by blast
  obtain n where "m = take n s" using exec_prefix Some x unfolding rcombinators_def by metis
  then have "s = m @ rest" unfolding rest by (cases "n \<le> length s") simp_all
  then obtain a' where "rest = a' @ CHR '','' # b" "list_all wsc a'"
  proof -
    have "\<exists>us. a = m @ us \<or> m = a @ us" using \<open>s = m @ rest\<close> s(1) by (metis append_eq_append_conv2)
    then obtain us where "a = m @ us \<or> (m = a @ us \<and> us \<noteq> [])" by (metis append_Nil2)
    then show thesis
    proof
      assume "a = m @ us"
      then have "rest = us @ CHR '','' # b" "list_all wsc us" using \<open>s = m @ rest\<close> s(1,2) by auto
      then show thesis by (rule that)
    next
      assume u: "m = a @ us \<and> us \<noteq> []"
      then have "CHR '','' # b = us @ rest" using \<open>s = m @ rest\<close> s(1) by auto
      then have "CHR '','' \<in> set m" using u by (cases us) auto
      then show thesis using \<open>CHR '','' \<notin> set m\<close> by simp
    qed
  qed
  then show ?thesis using s(3) by (auto simp: comma_text_def)
qed

section \<open>The groups\<close>

text \<open>Either the groups spell what has been consumed, or only a comma without a successor is left.\<close>

definition consumed :: "string \<Rightarrow> token list list \<Rightarrow> string \<Rightarrow> bool" where
  "consumed sel gs soFar \<longleftrightarrow> (\<exists>d. spells gs d \<and> sel = d @ soFar) \<or> comma_text soFar"

lemma group_step_consumes:
  assumes st: "group_step excess (gs = []) s gs = Inr (rest, gs', m)" and c: "consumed sel gs s"
    and all: "\<forall>g\<in>set gs. g \<noteq> [] \<and> real_tokens g" and s: "s \<noteq> []"
  shows "gs' \<noteq> []" and "consumed sel gs' rest" and "m \<Longrightarrow> length rest < length s"
    and "\<forall>g\<in>set gs'. real_tokens g" and "m \<Longrightarrow> \<forall>g\<in>set gs'. g \<noteq> []" and "\<not> m \<Longrightarrow> rest \<noteq> []"
proof -
  obtain s1 new where s1: "(if gs = [] then (s, True) else comma_step s) = (s1, new)"
    by (cases "if gs = [] then (s, True) else comma_step s")
  define gs1 where "gs1 = (if new then gs @ [[]] else gs)"
  obtain s2 toks m1 where s2: "combinator_step s1 (last gs1) = (s2, toks, m1)" by (cases "combinator_step s1 (last gs1)")
  obtain toks' where fp: "filter_pass excess filter_types s2 toks m1 = Inr (rest, toks', m)" and gs': "gs' = butlast gs1 @ [toks']"
    using st unfolding group_step_def s1 by (auto simp: gs1_def [symmetric] s2 split: sum.splits)
  obtain a where a: "toks = last gs1 @ a" "s1 = toSelector a @ s2" "real_tokens a" "m1 = (a \<noteq> [])"
    using combinator_step_pieces [OF s2] by blast
  obtain b where b: "toks' = toks @ b" "s2 = toSelector b @ rest" "real_tokens b" "m = (m1 \<or> b \<noteq> [])"
    using filter_pass_pieces [OF fp] by blast
  have gs1: "gs1 \<noteq> []" using s1 by (auto simp: gs1_def split: if_splits)
  have news: "s1 = toSelector (a @ b) @ rest" "m = (a @ b \<noteq> [])" "real_tokens (a @ b)" "gs' = butlast gs1 @ [last gs1 @ (a @ b)]"
    using a b gs' by simp_all
  have s1s: "length s1 \<le> length s" "s1 \<noteq> []"
    using comma_step_pieces [of s s1 new] s1 s by (auto split: if_splits)
  have shorter: "length rest < length s1" if "a @ b \<noteq> []"
    using that news(1,3) by (cases "a @ b") auto
  show "gs' \<noteq> []" by (simp add: gs')
  show "m \<Longrightarrow> length rest < length s" using shorter s1s news(2) by simp
  show "\<not> m \<Longrightarrow> rest \<noteq> []" using news(1,2) s1s by simp
  have mem: "g \<in> set gs \<or> g = []" if "g \<in> set gs1" for g using that by (auto simp: gs1_def split: if_splits)
  have l: "last gs1 \<in> set gs1" using gs1 by simp
  have real: "real_tokens g" if "g \<in> set gs1" for g using mem [OF that] all by auto
  show "\<forall>g\<in>set gs'. real_tokens g"
    using news(3,4) real l by (auto dest: in_set_butlastD)
  have bl: "butlast gs1 = (if new then gs else butlast gs)" by (simp add: gs1_def)
  show "m \<Longrightarrow> \<forall>g\<in>set gs'. g \<noteq> []"
    using news(2,4) all bl by (auto dest!: in_set_butlastD split: if_splits)
  show "consumed sel gs' rest"
  proof (cases "comma_text s1")
    case True
    then have "comma_text s2" using combinator_at_comma s2 by blast
    then have "comma_text rest"
      using filter_pass_here [of s2 filter_types excess toks m1] comma_text_head [of s2] fp by simp
    then show ?thesis by (simp add: consumed_def)
  next
    case False
    have "\<exists>d. spells gs1 d \<and> sel = d @ s1"
    proof (cases "gs = []")
      case True
      then show ?thesis using s1 c False by (auto simp: gs1_def consumed_def)
    next
      case gs: False
      then have cs: "comma_step s = (s1, new)" using s1 by simp
      have "\<not> comma_text s"
      proof
        assume "comma_text s"
        then have "s1 = s" using comma_step_at_end cs by simp
        then show False using False \<open>comma_text s\<close> by simp
      qed
      then obtain d where d: "spells gs d" "sel = d @ s" using c by (auto simp: consumed_def)
      from comma_step_pieces [OF cs] False consider "\<not> new" "s1 = s" | sep where "new" "s = sep @ s1" "comma_text sep" by auto
      then show ?thesis
      proof cases
        case 1
        then show ?thesis using d by (auto simp: gs1_def)
      next
        case (2 sep)
        then have "spells (gs @ [[]]) (d @ sep)" unfolding spells_snoc [OF gs] using d(1) by auto
        then show ?thesis using 2 d(2) by (intro exI [of _ "d @ sep"]) (simp add: gs1_def)
      qed
    qed
    then obtain d where d: "spells gs1 d" "sel = d @ s1" by blast
    have "spells gs' (d @ toSelector (a @ b))"
      unfolding news(4) by (rule spells_more) (use d(1) gs1 in simp)
    then show ?thesis using d(2) news(1) by (auto simp: consumed_def)
  qed
qed

section \<open>The loop\<close>

lemma group_step_shorter: "group_step excess first s gs = Inr (rest, gs', True) \<Longrightarrow> length rest < length s"
proof -
  assume st: "group_step excess first s gs = Inr (rest, gs', True)"
  obtain s1 new where s1: "(if first then (s, True) else comma_step s) = (s1, new)"
    by (cases "if first then (s, True) else comma_step s")
  define gs1 where "gs1 = (if new then gs @ [[]] else gs)"
  obtain s2 toks m1 where s2: "combinator_step s1 (last gs1) = (s2, toks, m1)" by (cases "combinator_step s1 (last gs1)")
  obtain toks' where fp: "filter_pass excess filter_types s2 toks m1 = Inr (rest, toks', True)"
    using st unfolding group_step_def s1 by (auto simp: gs1_def [symmetric] s2 split: sum.splits)
  obtain a where a: "s1 = toSelector a @ s2" "real_tokens a" "m1 = (a \<noteq> [])" using combinator_step_pieces [OF s2] by blast
  obtain b where b: "s2 = toSelector b @ rest" "real_tokens b" "True = (m1 \<or> b \<noteq> [])" using filter_pass_pieces [OF fp] by blast
  have "length rest < length s1" using a b by (cases a; cases b) auto
  moreover have "length s1 \<le> length s" using comma_step_pieces [of s s1 new] s1 by (auto split: if_splits)
  ultimately show ?thesis by simp
qed

function tok_loop :: "(string \<Rightarrow> nat answer) \<Rightarrow> bool \<Rightarrow> string \<Rightarrow> token list list \<Rightarrow> (string \<times> token list list) answer" where
  "tok_loop excess first soFar gs =
     (if soFar = [] then Inr (soFar, gs)
      else case group_step excess first soFar gs of
             Inl e \<Rightarrow> Inl e
           | Inr (rest, gs', matched) \<Rightarrow> if matched then tok_loop excess False rest gs' else Inr (rest, gs'))"
  by pat_completeness auto
termination
  by (relation "measure (\<lambda>(excess, first, soFar, gs). length soFar)") (auto dest: group_step_shorter)

declare tok_loop.simps [simp del]

text \<open>\<open>tokenize( selector, true )\<close>; the fuel bounds the nesting of arguments.\<close>

fun excess_of :: "nat \<Rightarrow> string \<Rightarrow> nat answer" where
  "excess_of 0 s = Inl s"
| "excess_of (Suc n) s = (case tok_loop (excess_of n) True s [] of Inl e \<Rightarrow> Inl e | Inr (rest, gs) \<Rightarrow> Inr (length rest))"

definition tokenize :: "string \<Rightarrow> token list list answer" where
  "tokenize selector =
     (case tok_loop (excess_of (length selector)) True selector [] of
        Inl e \<Rightarrow> Inl e
      | Inr (rest, gs) \<Rightarrow> if rest \<noteq> [] then Inl selector else Inr gs)"

lemma tok_loop_consumes:
  "tok_loop excess (gs = []) s gs = Inr (rest, gs') \<Longrightarrow> consumed sel gs s \<Longrightarrow>
    \<forall>g\<in>set gs. g \<noteq> [] \<and> real_tokens g \<Longrightarrow>
    consumed sel gs' rest \<and> (rest = [] \<longrightarrow> (\<forall>g\<in>set gs'. g \<noteq> [] \<and> real_tokens g))"
proof (induction "length s" arbitrary: s gs rule: less_induct)
  case less
  show ?case
  proof (cases "s = []")
    case True
    then show ?thesis using less.prems by (simp add: tok_loop.simps)
  next
    case s: False
    then obtain s1 gs1 m where st: "group_step excess (gs = []) s gs = Inr (s1, gs1, m)"
      using less.prems(1) by (auto simp: tok_loop.simps [of _ _ s] split: sum.splits)
    note g = group_step_consumes [OF st less.prems(2,3) s]
    show ?thesis
    proof (cases m)
      case True
      have "tok_loop excess (gs1 = []) s1 gs1 = Inr (rest, gs')"
        using less.prems(1) s st True g(1) by (simp add: tok_loop.simps [of _ _ s])
      then show ?thesis using less.hyps [of s1 gs1] g True by blast
    next
      case False
      then have "rest = s1" "gs' = gs1" using less.prems(1) s st by (simp_all add: tok_loop.simps [of _ _ s])
      then show ?thesis using g False by simp
    qed
  qed
qed

section \<open>The nesting of arguments\<close>

lemma pre_filter_cong:
  assumes ex: "exec (matchExpr type) s = Some (m0, g)" and fg: "\<And>u. length u < length s \<Longrightarrow> f u = f' u"
  shows "pre_filter f type m0 g = pre_filter f' type m0 g"
proof (cases "type = PSEUDO")
  case True
  let ?u = "if or_empty (g 5) = [] then or_empty (g 2) else []"
  have "f ?u = f' ?u" if "?u \<noteq> []"
  proof -
    have "g 2 = Some ?u" using that by (auto simp: or_empty_def split: option.splits if_splits)
    then have "length ?u + 4 \<le> length m0" using pseudo_shape ex True by blast
    moreover obtain n where "m0 = take n s"
      using exec_prefix ex True by (metis matchExpr.simps(5))
    ultimately show ?thesis by (intro fg) simp
  qed
  then show ?thesis unfolding True pre_filter_def pre_pseudo_def Let_def by (simp cong: if_cong)
next
  case False
  then show ?thesis by (cases type) (simp_all add: pre_filter_def)
qed

lemma filter_pass_cong:
  "(\<And>u. length u < length s \<Longrightarrow> f u = f' u) \<Longrightarrow> filter_pass f types s tokens m = filter_pass f' types s tokens m"
proof (induction types arbitrary: s tokens m)
  case (Cons type types)
  show ?case
  proof (cases "exec (matchExpr type) s")
    case None
    then show ?thesis using Cons by simp
  next
    case (Some x)
    obtain m0 g where x: "x = (m0, g)" by (cases x)
    have p: "pre_filter f type m0 g = pre_filter f' type m0 g"
      using pre_filter_cong [of type s m0 g f f'] Some x Cons.prems by simp
    have IH: "filter_pass f types (drop n s) ts b = filter_pass f' types (drop n s) ts b" for n ts b
      using Cons.prems by (intro Cons.IH) simp
    note IH0 = IH [of 0, simplified]
    show ?thesis
    proof (cases "pre_filter f' type m0 g")
      case (Inl e)
      then show ?thesis by (simp add: Some x p)
    next
      case (Inr r)
      then show ?thesis by (cases r) (simp_all add: Some x p IH IH0 split_beta)
    qed
  qed
qed simp

lemma group_step_cong:
  assumes "\<And>u. length u < length s \<Longrightarrow> f u = f' u"
  shows "group_step f first s gs = group_step f' first s gs"
proof -
  obtain s1 new where s1: "(if first then (s, True) else comma_step s) = (s1, new)"
    by (cases "if first then (s, True) else comma_step s")
  obtain s2 toks m1 where s2: "combinator_step s1 (last (if new then gs @ [[]] else gs)) = (s2, toks, m1)"
    by (cases "combinator_step s1 (last (if new then gs @ [[]] else gs))")
  obtain a where "s1 = toSelector a @ s2" using combinator_step_pieces [OF s2] by blast
  moreover have "length s1 \<le> length s" using comma_step_pieces [of s s1 new] s1 by (auto split: if_splits)
  ultimately have "filter_pass f filter_types s2 toks m1 = filter_pass f' filter_types s2 toks m1"
    by (intro filter_pass_cong assms) simp
  then show ?thesis by (simp add: group_step_def s1 s2)
qed

lemma tok_loop_cong:
  "(\<And>u. length u < length s \<Longrightarrow> f u = f' u) \<Longrightarrow> tok_loop f first s gs = tok_loop f' first s gs"
proof (induction "length s" arbitrary: s gs first rule: less_induct)
  case less
  have g: "group_step f first s gs = group_step f' first s gs" by (rule group_step_cong) (rule less.prems)
  have "tok_loop f False rest gs' = tok_loop f' False rest gs'" if "group_step f' first s gs = Inr (rest, gs', True)" for rest gs'
  proof -
    have "length rest < length s" using group_step_shorter that by blast
    then show ?thesis using less.prems by (intro less.hyps) simp_all
  qed
  then show ?case by (simp add: tok_loop.simps [of _ _ s] g split: sum.split)
qed

lemma enough_fuel: "length s < n \<Longrightarrow> length s < n' \<Longrightarrow> excess_of n s = excess_of n' s"
proof (induction "length s" arbitrary: s n n' rule: less_induct)
  case less
  obtain k where k1: "n = Suc k" "length s \<le> k" using less.prems(1) by (cases n) auto
  obtain k' where k2: "n' = Suc k'" "length s \<le> k'" using less.prems(2) by (cases n') auto
  note k = k1(1) k2(1) k1(2) k2(2)
  have "excess_of k u = excess_of k' u" if "length u < length s" for u
    using that k by (intro less.hyps) simp_all
  then have "tok_loop (excess_of k) True s [] = tok_loop (excess_of k') True s []" by (rule tok_loop_cong)
  then show ?case by (simp add: k)
qed

section \<open>Evaluation\<close>

text \<open>The tests of characters, computed on integers, and patterns that begin with \<open>^\<close>.\<close>

lemma wordc_code [code]:
  "wordc c = (let n = of_char c :: int in 48 \<le> n \<and> n < 58 \<or> 65 \<le> n \<and> n < 91 \<or> 97 \<le> n \<and> n < 123 \<or> n = 95)"
  unfolding wordc_def Let_def of_nat_of_char [where 'a = int, symmetric] by auto

lemma wsc_code [code]: "wsc c = (of_char c \<in> set [32, 9, 13, 10, 12 :: int])"
  unfolding wsc_def of_nat_of_char [where 'a = int, symmetric] by auto

lemma high_code [code_unfold]: "160 < (of_char c :: nat) \<longleftrightarrow> 160 < (of_char c :: int)"
  unfolding of_nat_of_char [where 'a = int, symmetric] by auto

lemma nl_code [code]: "nl c = (of_char c \<in> set [10, 13 :: int])"
  unfolding nl_def of_nat_of_char [where 'a = int, symmetric] by auto

lemma lower_char_code [code]:
  "lower_char c = (let n = of_char c :: int in if 65 \<le> n \<and> n \<le> 90 then char_of (n + 32) else c)"
proof -
  have "char_of (int (of_char c) + 32) = char_of (of_char c + 32 :: nat)"
    using char_of_nat [of "of_char c + 32 :: nat", where 'a = int] by simp
  then show ?thesis unfolding lower_char_def Let_def of_nat_of_char [where 'a = int, symmetric] by auto
qed

lemma is_digit_code [code]: "is_digit c = (let n = of_char c :: int in 48 \<le> n \<and> n < 58)"
  unfolding is_digit_def Let_def of_nat_of_char [where 'a = int, symmetric] by auto

lemma exec_code [code]:
  "exec r s = (case (case r of Seq (Bol False) r' \<Rightarrow> (case matches s r' (0, []) of [] \<Rightarrow> None | (j, cs) # _ \<Rightarrow> Some (0, j, cs)) | _ \<Rightarrow> re_exec r s)
     of None \<Rightarrow> None | Some (i, j, cs) \<Rightarrow> Some (sub s i j, cap s cs))"
  by (auto simp: exec_def exec_anchored split: re.split bool.split)

section \<open>Nothing of the text is lost\<close>

text \<open>
  C30: When \<open>tokenize\<close> accepts a selector, the values of the tokens, group by group and with one comma
  and its white space between two groups, are the text of the selector from its first character to
  its last; no group is without a token and no token without text.
\<close>

theorem tokens_spell_selector:
  assumes "tokenize selector = Inr gs"
  shows "spells gs selector \<and> (\<forall>g\<in>set gs. g \<noteq> [] \<and> real_tokens g)"
proof -
  have t: "tok_loop (excess_of (length selector)) ([] = ([] :: token list list)) selector [] = Inr ([], gs)"
    using assms by (auto simp: tokenize_def split: sum.splits if_splits)
  have "consumed selector [] selector" by (simp add: consumed_def)
  then have "consumed selector gs [] \<and> (\<forall>g\<in>set gs. g \<noteq> [] \<and> real_tokens g)"
    using tok_loop_consumes [OF t, of selector] by simp
  then show ?thesis by (auto simp: consumed_def comma_text_def)
qed

lemma tokens_spell_selector_witness:
  "\<exists>gs. tokenize ''a > b , c'' = Inr gs \<and> map (map tvalue) gs = [[''a'', '' > '', ''b''], [''c'']] \<and> spells gs ''a > b , c''"
proof -
  define gs where "gs = (case tokenize ''a > b , c'' of Inr gs \<Rightarrow> gs | Inl _ \<Rightarrow> [])"
  have t: "tokenize ''a > b , c'' = Inr gs" unfolding gs_def by code_simp
  have m: "map (map tvalue) gs = [[''a'', '' > '', ''b''], [''c'']]" unfolding gs_def by code_simp
  from tokens_spell_selector [OF t] have "spells gs ''a > b , c''" by (rule conjunct1)
  with t m show ?thesis by (intro exI [of _ gs] conjI)
qed

section \<open>Selectors that are read in another way\<close>

text \<open>
  An argument that ends with a valid part and an open parenthesis: no closing parenthesis follows what
  was valid, the text is cut after the first one, and the rest is read as the next token.
\<close>

lemma unbalanced_accepted:
  "tokenize '':not(:x(a)'' = Inr [[\<lparr>tvalue = '':not('', ttype_of = PSEUDO, tmatches = [VStr ''not'', VStr []]\<rparr>,
     \<lparr>tvalue = '':x(a)'', ttype_of = PSEUDO, tmatches = [VStr ''x'', VStr ''a'']\<rparr>]]"
  by code_simp

text \<open>
  The pattern of \<open>CHILD\<close> ignores case, but the preparation compares the argument and leaves the second
  word as it is: \<open>EVEN\<close> gives the numbers 0 and 0, and \<open>OF-TYPE\<close> is not \<open>of-type\<close>.
\<close>

lemma upper_case_child:
  "tokenize '':nth-child(EVEN):first-OF-TYPE'' = Inr
     [[\<lparr>tvalue = '':nth-child(EVEN)'', ttype_of = CHILD, tmatches = [VStr ''nth'', VStr ''child'', VStr ''EVEN'', VNum 0, VNum 0]\<rparr>,
       \<lparr>tvalue = '':first-OF-TYPE'', ttype_of = CHILD, tmatches = [VStr ''first'', VStr ''OF-TYPE'', VUndef, VUndef, VUndef]\<rparr>]]"
  by code_simp

end
