(* ===== verification/SizzleFilters.thy ===== *)
theory SizzleFilters
  imports SizzleChild SizzleTokens
begin

text \<open>
  The functions that \<open>Expr.filter\<close> of the selector engine of \<open>democlient/js/jquery.js\<close> makes of
  a token: tag, class, id, attribute and position. A token of another type, a class with an
  escape and an attribute on which \<open>Sizzle.attr\<close> does not return have no function here.
\<close>

section \<open>Attributes\<close>

definition booleans :: "units list" where
  "booleans = map str_units [''checked'', ''selected'', ''async'', ''autofocus'', ''autoplay'', ''controls'', ''defer'',
     ''disabled'', ''hidden'', ''ismap'', ''loop'', ''multiple'', ''open'', ''readonly'', ''required'', ''scoped'']"

text \<open>
  \<open>Sizzle.attr\<close> with the handlers that jQuery installs for the boolean attributes. A handler
  takes itself out, under the name it is called with, and calls \<open>Sizzle.attr\<close> again, which looks for
  it under the name in lower case. The fuel counts these calls.
\<close>

fun sizzle_attr :: "nat \<Rightarrow> dnode \<Rightarrow> bool \<Rightarrow> units list \<Rightarrow> path \<Rightarrow> units \<Rightarrow> units option option" where
  "sizzle_attr 0 T xml hs e name = None"
| "sizzle_attr (Suc n) T xml hs e name =
     (if lower_units name \<in> set hs \<and> \<not> xml
      then (case sizzle_attr n T xml (filter (\<lambda>h. h \<noteq> name) hs) e name of
              None \<Rightarrow> None
            | Some v \<Rightarrow> Some (if v = None then None else Some (lower_units name)))
      else Some (map_option str_units (getAttribute T xml e name)))"

definition attr_returns :: "units \<Rightarrow> bool" where
  "attr_returns name \<longleftrightarrow> lower_units name \<in> set booleans \<longrightarrow> name = lower_units name"

definition attr_value :: "dnode \<Rightarrow> bool \<Rightarrow> path \<Rightarrow> units \<Rightarrow> units option" where
  "attr_value T xml e name =
     (case getAttribute T xml e name of
        None \<Rightarrow> None
      | Some v \<Rightarrow> Some (if lower_units name \<in> set booleans \<and> \<not> xml then lower_units name else str_units v))"

lemma sizzle_attr_value: "attr_returns name \<Longrightarrow> sizzle_attr (Suc (Suc n)) T xml booleans e name = Some (attr_value T xml e name)"
  by (auto simp: attr_returns_def attr_value_def split: option.split)

text \<open>The name of a boolean attribute in upper case makes the handler call itself for ever.\<close>

lemma sizzle_attr_loops: "\<not> attr_returns name \<Longrightarrow> sizzle_attr n T False booleans e name = None"
proof -
  assume "\<not> attr_returns name"
  then have b: "lower_units name \<in> set hs \<Longrightarrow> lower_units name \<in> set (filter (\<lambda>h. h \<noteq> name) hs)" for hs
    by (auto simp: attr_returns_def)
  have "lower_units name \<in> set hs \<Longrightarrow> sizzle_attr n T False hs e name = None" for hs
  proof (induction n arbitrary: hs)
    case (Suc n)
    then show ?case using b [OF Suc.prems] by simp
  qed simp
  moreover have "lower_units name \<in> set booleans" using \<open>\<not> attr_returns name\<close> by (simp add: attr_returns_def)
  ultimately show ?thesis by blast
qed

definition contains_units :: "units \<Rightarrow> units \<Rightarrow> bool" where
  "contains_units result check = list_ex (\<lambda>i. take (length check) (drop i result) = check) [0..<Suc (length result)]"

definition attr_filter :: "dnode \<Rightarrow> units \<Rightarrow> string option \<Rightarrow> units \<Rightarrow> path \<Rightarrow> bool \<Rightarrow> bool" where
  "attr_filter T name operator check e xml =
     (case attr_value T xml e name of
        None \<Rightarrow> operator = Some ''!=''
      | Some result \<Rightarrow>
          (case operator of
             None \<Rightarrow> True
           | Some ope \<Rightarrow>
               if ope = [] then True
               else if ope = ''='' then result = check
               else if ope = ''!='' then result \<noteq> check
               else if ope = ''^='' then check \<noteq> [] \<and> take (length check) result = check
               else if ope = ''*='' then check \<noteq> [] \<and> contains_units result check
               else if ope = ''$='' then check \<noteq> [] \<and> drop (length result - length check) result = check
               else if ope = ''~='' then contains_units (32 # result @ [32]) check
               else if ope = ''|='' then result = check \<or> take (length check + 1) result = check @ [45]
               else False))"

section \<open>The other filters\<close>

definition tag_filter :: "dnode \<Rightarrow> string \<Rightarrow> path \<Rightarrow> bool" where
  "tag_filter T sel e =
     (sel = ''*'' \<or> (nodeName T e \<noteq> [] \<and> lower_units (str_units (nodeName T e)) = lower_units (unescape sel)))"

definition id_filter :: "dnode \<Rightarrow> string \<Rightarrow> path \<Rightarrow> bool \<Rightarrow> bool" where
  "id_filter T sel e xml = (map_option str_units (getAttribute T xml e (str_units ''id'')) = Some (unescape sel))"

definition class_pattern :: "string \<Rightarrow> re" where
  "class_pattern name = seqs [Alt (Bol False) (Ch wsc), lit name, Alt (Ch wsc) (Eol False)]"

definition class_filter :: "dnode \<Rightarrow> string \<Rightarrow> path \<Rightarrow> bool \<Rightarrow> bool" where
  "class_filter T name e xml = re_test (class_pattern name) (or_empty (getAttribute T xml e (str_units ''class'')))"

fun child_type :: "string \<Rightarrow> mval \<Rightarrow> mval \<Rightarrow> childtype option" where
  "child_type type (VNum first) (VNum lst) =
     (if type = ''nth'' then Some (CNth first lst) else if type = ''nth-last'' then Some (CNthLast first lst) else None)"
| "child_type type _ _ =
     (if type = ''first'' then Some CFirst else if type = ''last'' then Some CLast
      else if type = ''only'' then Some COnly else None)"

section \<open>Tokens\<close>

type_synonym filterfun = "path \<Rightarrow> bool \<Rightarrow> sworld \<Rightarrow> bool \<times> sworld"

fun expr_filter :: "dnode \<Rightarrow> ttype \<Rightarrow> mval list \<Rightarrow> filterfun option" where
  "expr_filter T TAG (VStr s # _) = Some (\<lambda>e xml w. (tag_filter T s e, w))"
| "expr_filter T ID (VStr s # _) = Some (\<lambda>e xml w. (id_filter T s e xml, w))"
| "expr_filter T CLASS (VStr s # _) =
     (if CHR 0x5C \<in> set s then None else Some (\<lambda>e xml w. (class_filter T s e xml, w)))"
| "expr_filter T ATTR (VUnits name # VUndef # VUnits check # _) =
     (if attr_returns name then Some (\<lambda>e xml w. (attr_filter T name None check e xml, w)) else None)"
| "expr_filter T ATTR (VUnits name # VStr ope # VUnits check # _) =
     (if attr_returns name then Some (\<lambda>e xml w. (attr_filter T name (Some ope) check e xml, w)) else None)"
| "expr_filter T CHILD (VStr type # VStr what # _ # first # lst # _) =
     (case child_type type first lst of
        None \<Rightarrow> None
      | Some c \<Rightarrow> Some (\<lambda>e xml w. child_filter T c (what = ''of-type'') e xml w))"
| "expr_filter T _ _ = None"

text \<open>The meaning of a token.\<close>

fun token_sem :: "dnode \<Rightarrow> bool \<Rightarrow> ttype \<Rightarrow> mval list \<Rightarrow> path \<Rightarrow> bool" where
  "token_sem T xml TAG (VStr s # _) e = tag_filter T s e"
| "token_sem T xml ID (VStr s # _) e = id_filter T s e xml"
| "token_sem T xml CLASS (VStr s # _) e = class_filter T s e xml"
| "token_sem T xml ATTR (VUnits name # VUndef # VUnits check # _) e = attr_filter T name None check e xml"
| "token_sem T xml ATTR (VUnits name # VStr ope # VUnits check # _) e = attr_filter T name (Some ope) check e xml"
| "token_sem T xml CHILD (VStr type # VStr what # _ # first # lst # _) e =
     (case child_type type first lst of None \<Rightarrow> False | Some c \<Rightarrow> child_spec T c (what = ''of-type'') e)"
| "token_sem T xml _ _ e = False"

lemma only_counts_refl [simp]: "only_counts w w"
  by (simp add: only_counts_def)

lemma expr_filter_ok:
  assumes "expr_filter T type ms = Some f" and "counts_ok T w" and "in_doc T e" and "nodeType T e = 1"
  shows "fst (f e xml w) = token_sem T xml type ms e \<and> counts_ok T (snd (f e xml w)) \<and> only_counts w (snd (f e xml w))"
  using assms by (induction T type ms rule: expr_filter.induct) (auto simp: child_filter_ok split: if_splits option.splits)

end
