(* ===== verification/SizzleMatch.thy ===== *)
theory SizzleMatch
  imports SizzleFilters
begin

text \<open>
  How the selector engine of \<open>democlient/js/jquery.js\<close> decides whether an element is selected:
  \<open>addCombinator\<close> with the marks it leaves on the nodes it passes, \<open>elementMatcher\<close>,
  \<open>matcherFromTokens\<close>, \<open>matcherFromGroupMatchers\<close> and \<open>compile\<close>. The closures of the code are
  functions here; \<open>done\<close>, the number that a combinator gets for its marks, is passed along.
\<close>

section \<open>Combinators\<close>

text \<open>The context of a match is one node or an array of them.\<close>

datatype ctx = One path | Many "path list"

type_synonym matcher = "path \<Rightarrow> ctx \<Rightarrow> bool \<Rightarrow> sworld \<Rightarrow> bool \<times> sworld"

fun rel_dir :: "rel \<Rightarrow> dir" where
  "rel_dir RChild = ParentNode"
| "rel_dir RDesc = ParentNode"
| "rel_dir RNext = PreviousSibling"
| "rel_dir RSibling = PreviousSibling"

fun rel_first :: "rel \<Rightarrow> bool" where
  "rel_first RChild = True"
| "rel_first RDesc = False"
| "rel_first RNext = True"
| "rel_first RSibling = False"

definition eligible :: "dnode \<Rightarrow> bool \<Rightarrow> path \<Rightarrow> bool" where
  "eligible T checkNonElements q = (nodeType T q = 1 \<or> checkNonElements)"

text \<open>With \<open>first\<close>: the closest node that is eligible decides.\<close>

function closest :: "dnode \<Rightarrow> bool \<Rightarrow> dir \<Rightarrow> (path \<Rightarrow> sworld \<Rightarrow> bool \<times> sworld) \<Rightarrow> path \<Rightarrow> sworld \<Rightarrow> bool \<times> sworld" where
  "closest T nonEl d m elem w =
     (case go d elem of
        None \<Rightarrow> (False, w)
      | Some q \<Rightarrow> if eligible T nonEl q then m q w else closest T nonEl d m q w)"
  by pat_completeness auto
termination
  by (relation "measure (\<lambda>(T, nonEl, d, m, elem, w). height elem)") (auto dest: go_lower)

text \<open>In an XML document: every eligible node until one matches.\<close>

function any_plain :: "dnode \<Rightarrow> bool \<Rightarrow> dir \<Rightarrow> (path \<Rightarrow> sworld \<Rightarrow> bool \<times> sworld) \<Rightarrow> path \<Rightarrow> sworld \<Rightarrow> bool \<times> sworld" where
  "any_plain T nonEl d m elem w =
     (case go d elem of
        None \<Rightarrow> (False, w)
      | Some q \<Rightarrow>
          if eligible T nonEl q
          then (case m q w of (True, w1) \<Rightarrow> (True, w1) | (False, w1) \<Rightarrow> any_plain T nonEl d m q w1)
          else any_plain T nonEl d m q w)"
  by pat_completeness auto
termination
  by (relation "measure (\<lambda>(T, nonEl, d, m, elem, w). height elem)") (auto dest: go_lower)

definition set_mark :: "path \<Rightarrow> dir \<Rightarrow> nat \<times> nat \<Rightarrow> mark \<Rightarrow> sworld \<Rightarrow> sworld" where
  "set_mark q d key x w = w\<lparr>dircache := (dircache w)(q := (dircache w q)(d := Some (key, x)))\<rparr>"

text \<open>
  Otherwise the nodes are marked, one mark for each direction, with the run and the combinator as
  its key. What the code stores for a failure is \<open>cachedruns\<close>, the number of the element.
\<close>

function any_cached :: "dnode \<Rightarrow> bool \<Rightarrow> dir \<Rightarrow> nat \<times> nat \<Rightarrow> (path \<Rightarrow> sworld \<Rightarrow> bool \<times> sworld) \<Rightarrow> path \<Rightarrow> sworld \<Rightarrow> bool \<times> sworld" where
  "any_cached T nonEl d key m elem w =
     (case go d elem of
        None \<Rightarrow> (False, w)
      | Some q \<Rightarrow>
          if \<not> eligible T nonEl q then any_cached T nonEl d key m q w
          else (case dircache w q d of
                  Some (key', data) \<Rightarrow>
                    if key' = key
                    then (if data = MTrue \<or> data = MFail (cachedruns w) then (data = MTrue, w)
                          else any_cached T nonEl d key m q w)
                    else (case m q (set_mark q d key MUndef w) of
                            (True, w1) \<Rightarrow> (True, set_mark q d key MTrue w1)
                          | (False, w1) \<Rightarrow> any_cached T nonEl d key m q (set_mark q d key (MFail (cachedruns w1)) w1))
                | None \<Rightarrow>
                    (case m q (set_mark q d key MUndef w) of
                       (True, w1) \<Rightarrow> (True, set_mark q d key MTrue w1)
                     | (False, w1) \<Rightarrow> any_cached T nonEl d key m q (set_mark q d key (MFail (cachedruns w1)) w1))))"
  by pat_completeness auto
termination
  by (relation "measure (\<lambda>(T, nonEl, d, key, m, elem, w). height elem)") (auto dest: go_lower)

declare closest.simps [simp del] any_plain.simps [simp del] any_cached.simps [simp del]

definition addCombinator :: "dnode \<Rightarrow> matcher \<Rightarrow> rel \<Rightarrow> bool \<Rightarrow> nat \<Rightarrow> matcher" where
  "addCombinator T matcher combinator base doneName =
     (let d = rel_dir combinator; checkNonElements = (base \<and> d = ParentNode) in
      if rel_first combinator
      then (\<lambda>elem context xml. closest T checkNonElements d (\<lambda>q. matcher q context xml) elem)
      else (\<lambda>elem context xml w.
        if xml then any_plain T checkNonElements d (\<lambda>q. matcher q context xml) elem w
        else any_cached T checkNonElements d (dirruns w, doneName) (\<lambda>q. matcher q context xml) elem w))"

text \<open>All the matchers, the last of them first.\<close>

fun all_back :: "matcher list \<Rightarrow> matcher" where
  "all_back [] elem context xml w = (True, w)"
| "all_back (m # ms) elem context xml w =
     (case m elem context xml w of (False, w1) \<Rightarrow> (False, w1) | (True, w1) \<Rightarrow> all_back ms elem context xml w1)"

definition elementMatcher :: "matcher list \<Rightarrow> matcher" where
  "elementMatcher matchers = (if length matchers > 1 then all_back (rev matchers) else hd matchers)"

section \<open>Matchers from tokens\<close>

fun same_context :: "ctx \<Rightarrow> outer \<Rightarrow> bool" where
  "same_context (One c) (ONode c') = (c = c')"
| "same_context _ _ = False"

definition foundation :: "dnode \<Rightarrow> rel option \<Rightarrow> nat \<Rightarrow> matcher" where
  "foundation T leadingRelative n =
     (let implicitRelative = (case leadingRelative of Some r \<Rightarrow> r | None \<Rightarrow> RDesc);
          matchContext = addCombinator T (\<lambda>elem context xml w. (context = One elem, w)) implicitRelative True n;
          matchAnyContext = addCombinator T
            (\<lambda>elem context xml w. (case context of Many cs \<Rightarrow> elem \<in> set cs | One _ \<Rightarrow> False, w)) implicitRelative True (Suc n)
      in (\<lambda>elem context xml w.
        if leadingRelative = None \<and> (xml \<or> \<not> same_context context (outermost w)) then (True, w)
        else (case context of One _ \<Rightarrow> matchContext elem context xml w | Many _ \<Rightarrow> matchAnyContext elem context xml w)))"

fun add_tokens :: "dnode \<Rightarrow> token list \<Rightarrow> matcher list \<Rightarrow> nat \<Rightarrow> (matcher list \<times> nat) option" where
  "add_tokens T [] matchers n = Some (matchers, n)"
| "add_tokens T (t # ts) matchers n =
     (case ttype_of t of
        Rel r \<Rightarrow> add_tokens T ts [addCombinator T (elementMatcher matchers) r False n] (Suc n)
      | type \<Rightarrow>
          (case expr_filter T type (tmatches t) of
             None \<Rightarrow> None
           | Some f \<Rightarrow> add_tokens T ts (matchers @ [\<lambda>elem context xml. f elem xml]) n))"

definition leading :: "token list \<Rightarrow> rel option" where
  "leading tokens = (case tokens of t # _ \<Rightarrow> (case ttype_of t of Rel r \<Rightarrow> Some r | _ \<Rightarrow> None) | [] \<Rightarrow> None)"

definition after_leading :: "token list \<Rightarrow> token list" where
  "after_leading tokens = (if leading tokens = None then tokens else tl tokens)"

text \<open>An empty list of tokens throws at \<open>tokens[0].type\<close>.\<close>

definition matcherFromTokens :: "dnode \<Rightarrow> token list \<Rightarrow> nat \<Rightarrow> (matcher \<times> nat) option" where
  "matcherFromTokens T tokens n =
     (if tokens = [] then None else
      case add_tokens T (after_leading tokens) [foundation T (leading tokens) n] (n + 2) of
        None \<Rightarrow> None
      | Some (matchers, n') \<Rightarrow> Some (elementMatcher matchers, n'))"

section \<open>Running a compiled selector\<close>

text \<open>\<open>compile\<close> goes through the groups from the last to the first.\<close>

fun from_groups :: "dnode \<Rightarrow> token list list \<Rightarrow> nat \<Rightarrow> (matcher list \<times> nat) option" where
  "from_groups T [] n = Some ([], n)"
| "from_groups T (g # gs) n =
     (case matcherFromTokens T g n of
        None \<Rightarrow> None
      | Some (m, n1) \<Rightarrow> (case from_groups T gs n1 of None \<Rightarrow> None | Some (ms, n2) \<Rightarrow> Some (m # ms, n2)))"

definition compile :: "dnode \<Rightarrow> token list list \<Rightarrow> nat \<Rightarrow> (matcher list \<times> nat) option" where
  "compile T gs n = from_groups T (rev gs) n"

fun first_of :: "matcher list \<Rightarrow> matcher" where
  "first_of [] elem context xml w = (False, w)"
| "first_of (m # ms) elem context xml w =
     (case m elem context xml w of (True, w1) \<Rightarrow> (True, w1) | (False, w1) \<Rightarrow> first_of ms elem context xml w1)"

text \<open>The loop over the elements; the run's number comes back and the element's number goes up.\<close>

fun match_elems :: "matcher list \<Rightarrow> ctx \<Rightarrow> bool \<Rightarrow> nat \<Rightarrow> path list \<Rightarrow> nat \<Rightarrow> sworld \<Rightarrow> path list \<times> nat \<times> sworld" where
  "match_elems ms context xml dirrunsUnique [] matcherCachedRuns w = ([], matcherCachedRuns, w)"
| "match_elems ms context xml dirrunsUnique (elem # elems) matcherCachedRuns w =
     (let (found, w1) = first_of ms elem context xml w;
          (results, k, w2) = match_elems ms context xml dirrunsUnique elems (Suc matcherCachedRuns)
            (w1\<lparr>dirruns := dirrunsUnique, cachedruns := Suc matcherCachedRuns\<rparr>)
      in (if found then elem # results else results, k, w2))"

text \<open>
  The super matcher as \<open>select\<close> calls it, while no other run is in progress; \<open>matcherCachedRuns\<close>
  belongs to the compiled selector and stays from one run to the next. With a seed the elements
  of the seed are tested.
\<close>

definition superMatcher :: "dnode \<Rightarrow> matcher list \<Rightarrow> path list option \<Rightarrow> path \<Rightarrow> bool \<Rightarrow> bool \<Rightarrow> nat \<Rightarrow> sworld \<Rightarrow> path list \<times> nat \<times> sworld" where
  "superMatcher T ms seed context xml expandContext matcherCachedRuns w =
     (let elems = (case seed of
            Some s \<Rightarrow> s
          | None \<Rightarrow> if ms = [] then [] else all_below T (if expandContext \<and> context \<noteq> [] then butlast context else context));
          dirrunsUnique = Suc (dirruns w);
          w1 = w\<lparr>dirruns := dirrunsUnique, outermost := (if context = [] then OFalse else ONode context),
                 cachedruns := matcherCachedRuns\<rparr>;
          (results, k, w2) = match_elems ms (One context) xml dirrunsUnique elems matcherCachedRuns w1
      in (results, k, w2\<lparr>dirruns := dirrunsUnique, outermost := outermost w\<rparr>))"

section \<open>What the marks mean\<close>

text \<open>
  \<open>H k q\<close>: node \<open>q\<close> is one that combinator \<open>k\<close> looks for. A mark of the present run is right about its
  node, and a failure of the present element says also that no node further on is one. That
  second part holds while the element has not been matched: then \<open>strong\<close> is true.
\<close>

definition entry_ok :: "(nat \<Rightarrow> path \<Rightarrow> bool) \<Rightarrow> nat \<Rightarrow> bool \<Rightarrow> path \<Rightarrow> dir \<Rightarrow> nat \<Rightarrow> mark \<Rightarrow> bool" where
  "entry_ok H cr strong q d k x =
     (case x of MTrue \<Rightarrow> H k q
      | MFail c \<Rightarrow> c \<le> cr \<and> \<not> H k q \<and> (strong \<and> c = cr \<longrightarrow> (\<forall>y\<in>set (trail d q). \<not> H k y))
      | MUndef \<Rightarrow> False)"

definition marks_ok :: "(nat \<Rightarrow> path \<Rightarrow> bool) \<Rightarrow> bool \<Rightarrow> nat \<Rightarrow> sworld \<Rightarrow> bool" where
  "marks_ok H strong h w \<longleftrightarrow> (\<forall>q d k x. height q < h \<longrightarrow> dircache w q d = Some ((dirruns w, k), x) \<longrightarrow>
     entry_ok H (cachedruns w) strong q d k x)"

definition old_marks :: "sworld \<Rightarrow> bool" where
  "old_marks w \<longleftrightarrow> (\<forall>q d r k x. dircache w q d = Some ((r, k), x) \<longrightarrow> r \<le> dirruns w)"

definition good :: "dnode \<Rightarrow> (nat \<Rightarrow> path \<Rightarrow> bool) \<Rightarrow> outer \<Rightarrow> nat \<Rightarrow> sworld \<Rightarrow> bool" where
  "good T H oc h w \<longleftrightarrow> marks_ok H True h w \<and> counts_ok T w \<and> old_marks w \<and> outermost w = oc"

definition after :: "dnode \<Rightarrow> (nat \<Rightarrow> path \<Rightarrow> bool) \<Rightarrow> nat \<Rightarrow> bool \<Rightarrow> sworld \<Rightarrow> sworld \<Rightarrow> bool" where
  "after T H h strong w w' \<longleftrightarrow>
     dirruns w' = dirruns w \<and> cachedruns w' = cachedruns w \<and> outermost w' = outermost w \<and>
     counts_ok T w' \<and> old_marks w' \<and> marks_ok H strong h w' \<and>
     (\<forall>q d. h \<le> height q \<longrightarrow> dircache w' q d = dircache w q d)"

text \<open>The contract of a matcher that decides \<open>P\<close> on the nodes of \<open>A\<close>.\<close>

definition serves :: "dnode \<Rightarrow> (nat \<Rightarrow> path \<Rightarrow> bool) \<Rightarrow> outer \<Rightarrow> (path \<Rightarrow> bool) \<Rightarrow> (path \<Rightarrow> bool) \<Rightarrow> (path \<Rightarrow> sworld \<Rightarrow> bool \<times> sworld) \<Rightarrow> bool" where
  "serves T H oc A P m \<longleftrightarrow> (\<forall>e w. A e \<longrightarrow> in_doc T e \<longrightarrow> good T H oc (height e) w \<longrightarrow>
     fst (m e w) = P e \<and> after T H (height e) (\<not> P e) w (snd (m e w)))"

lemma servesD:
  "serves T H oc A P m \<Longrightarrow> A e \<Longrightarrow> in_doc T e \<Longrightarrow> good T H oc (height e) w \<Longrightarrow>
    fst (m e w) = P e \<and> after T H (height e) (\<not> P e) w (snd (m e w))"
  by (simp add: serves_def)

lemma entry_weaken: "entry_ok H cr s q d k x \<Longrightarrow> (t \<Longrightarrow> s) \<Longrightarrow> entry_ok H cr t q d k x"
  by (auto simp: entry_ok_def split: mark.splits)

lemma marks_weaken: "marks_ok H s h w \<Longrightarrow> (t \<Longrightarrow> s) \<Longrightarrow> h' \<le> h \<Longrightarrow> marks_ok H t h' w"
  unfolding marks_ok_def by (meson entry_weaken less_le_trans)

lemma good_lower: "good T H oc h w \<Longrightarrow> h' \<le> h \<Longrightarrow> good T H oc h' w"
  by (auto simp: good_def intro: marks_weaken)

lemma good_after: "good T H oc h w \<Longrightarrow> after T H h True w w' \<Longrightarrow> good T H oc h w'"
  by (simp add: good_def after_def)

lemma after_refl: "good T H oc h w \<Longrightarrow> after T H h s w w"
  by (auto simp: good_def after_def intro: marks_weaken)

text \<open>From the nodes below a node \<open>q\<close> to those below \<open>h\<close>, when only the mark of \<open>q\<close> for \<open>d\<close> has changed too.\<close>

lemma after_step:
  assumes "good T H oc h w" and "height q < h"
    and "dirruns w' = dirruns w" "cachedruns w' = cachedruns w" "outermost w' = outermost w" "counts_ok T w'" "old_marks w'"
    and "marks_ok H s (height q) w'"
    and "\<And>y e. height q \<le> height y \<Longrightarrow> (y, e) \<noteq> (q, d) \<Longrightarrow> dircache w' y e = dircache w y e"
    and "\<And>k x. dircache w' q d = Some ((dirruns w, k), x) \<Longrightarrow> entry_ok H (cachedruns w) s q d k x"
  shows "after T H h s w w'"
proof -
  have "entry_ok H (cachedruns w') s y e k x"
    if y: "height y < h" and c: "dircache w' y e = Some ((dirruns w', k), x)" for y e k x
  proof -
    consider "height y < height q" | "(y, e) = (q, d)" | "height q \<le> height y" "(y, e) \<noteq> (q, d)" by linarith
    then show ?thesis
    proof cases
      case 1
      then show ?thesis using assms(8) c by (auto simp: marks_ok_def)
    next
      case 2
      then show ?thesis using assms(3,4,10) c by simp
    next
      case 3
      then have "dircache w y e = Some ((dirruns w, k), x)" using assms(3,9) c by simp
      then have "entry_ok H (cachedruns w) True y e k x" using assms(1) y by (auto simp: good_def marks_ok_def)
      then show ?thesis using assms(4) by (auto intro: entry_weaken)
    qed
  qed
  then have "marks_ok H s h w'" by (simp add: marks_ok_def)
  moreover have "dircache w' y e = dircache w y e" if "h \<le> height y" for y e
    using assms(2) assms(9) [of y e] that by (cases "(y, e) = (q, d)") auto
  ultimately show ?thesis using assms(3-7) by (simp add: after_def)
qed

lemma after_below:
  assumes g: "good T H oc h w" and q: "height q < h" and a: "after T H (height q) s w w'"
  shows "after T H h s w w'"
proof (rule after_step [OF g q, where d = ParentNode])
  show "entry_ok H (cachedruns w) s q ParentNode k x" if "dircache w' q ParentNode = Some ((dirruns w, k), x)" for k x
  proof -
    have "dircache w q ParentNode = Some ((dirruns w, k), x)" using a that by (simp add: after_def)
    then have "entry_ok H (cachedruns w) True q ParentNode k x" using g q by (auto simp: good_def marks_ok_def)
    then show ?thesis by (rule entry_weaken) simp
  qed
qed (use a in \<open>auto simp: after_def\<close>)

lemma after_trans: "after T H h True w w1 \<Longrightarrow> after T H h s w1 w' \<Longrightarrow> after T H h s w w'"
  by (simp add: after_def)

section \<open>Combinators find what they look for\<close>

lemma go_in_doc: "go d e = Some q \<Longrightarrow> in_doc T e \<Longrightarrow> in_doc T q"
proof (cases e rule: rev_cases)
  case (snoc p i)
  assume "go d e = Some q" "in_doc T e"
  then show ?thesis using snoc by (cases d) (auto simp: in_doc_snoc split: if_splits)
qed (cases d; simp)

definition nearby :: "dnode \<Rightarrow> bool \<Rightarrow> dir \<Rightarrow> path \<Rightarrow> path list" where
  "nearby T nonEl d e = filter (eligible T nonEl) (trail d e)"

lemma nearby_step:
  "go d e = Some q \<Longrightarrow> nearby T nonEl d e = (if eligible T nonEl q then [q] else []) @ nearby T nonEl d q"
  by (simp add: nearby_def trail_Some)

lemma nearby_None: "go d e = None \<Longrightarrow> nearby T nonEl d e = []"
  by (simp add: nearby_def trail_None)

definition first_holds :: "(path \<Rightarrow> bool) \<Rightarrow> path list \<Rightarrow> bool" where
  "first_holds P qs = (case qs of q # _ \<Rightarrow> P q | [] \<Rightarrow> False)"

lemma closest_serves:
  assumes "serves T H oc (eligible T nonEl) P m"
  shows "serves T H oc A (\<lambda>e. first_holds P (nearby T nonEl d e)) (closest T nonEl d m)"
proof -
  have "fst (closest T nonEl d m e w) = first_holds P (nearby T nonEl d e) \<and>
      after T H (height e) (\<not> first_holds P (nearby T nonEl d e)) w (snd (closest T nonEl d m e w))"
    if "in_doc T e" "good T H oc (height e) w" for e w
    using that
  proof (induction "height e" arbitrary: e rule: less_induct)
    case less
    show ?case
    proof (cases "go d e")
      case None
      then show ?thesis using less.prems by (simp add: closest.simps [of _ _ _ _ e] nearby_None first_holds_def after_refl)
    next
      case (Some q)
      have q: "height q < height e" "in_doc T q" "good T H oc (height q) w"
        using go_lower [OF Some] go_in_doc [OF Some] less.prems good_lower [OF less.prems(2)] by simp_all
      show ?thesis
      proof (cases "eligible T nonEl q")
        case True
        have "fst (m q w) = P q" "after T H (height q) (\<not> P q) w (snd (m q w))"
          using servesD [OF assms True q(2,3)] by simp_all
        then show ?thesis using Some True after_below [OF less.prems(2) q(1)]
          by (simp add: closest.simps [of _ _ _ _ e] nearby_step first_holds_def)
      next
        case False
        then show ?thesis using less.hyps [OF q] Some after_below [OF less.prems(2) q(1)]
          by (simp add: closest.simps [of _ _ _ _ e] nearby_step)
      qed
    qed
  qed
  then show ?thesis by (simp add: serves_def)
qed

lemma any_plain_serves:
  assumes "serves T H oc (eligible T nonEl) P m"
  shows "serves T H oc A (\<lambda>e. \<exists>q\<in>set (nearby T nonEl d e). P q) (any_plain T nonEl d m)"
proof -
  have "fst (any_plain T nonEl d m e w) = (\<exists>q\<in>set (nearby T nonEl d e). P q) \<and>
      after T H (height e) (\<not> (\<exists>q\<in>set (nearby T nonEl d e). P q)) w (snd (any_plain T nonEl d m e w))"
    if "in_doc T e" "good T H oc (height e) w" for e w
    using that
  proof (induction "height e" arbitrary: e w rule: less_induct)
    case less
    show ?case
    proof (cases "go d e")
      case None
      then show ?thesis using less.prems by (simp add: any_plain.simps [of _ _ _ _ e] nearby_None after_refl)
    next
      case (Some q)
      have q: "height q < height e" "in_doc T q" "good T H oc (height q) w"
        using go_lower [OF Some] go_in_doc [OF Some] less.prems good_lower [OF less.prems(2)] by simp_all
      note below = after_below [OF less.prems(2) q(1)]
      show ?thesis
      proof (cases "eligible T nonEl q")
        case el: True
        obtain b w1 where m: "m q w = (b, w1)" by (cases "m q w")
        have p: "b = P q" "after T H (height q) (\<not> P q) w w1" using servesD [OF assms el q(2,3)] m by simp_all
        show ?thesis
        proof (cases b)
          case True
          then show ?thesis using Some el m p below by (simp add: any_plain.simps [of _ _ _ _ e] nearby_step)
        next
          case False
          then have a: "after T H (height q) True w w1" using p by simp
          have "good T H oc (height q) w1" using good_after [OF q(3) a] .
          from less.hyps [OF q(1,2) this] show ?thesis using Some el m p False below after_trans [OF a]
            by (simp add: any_plain.simps [of _ _ _ _ e] nearby_step)
        qed
      next
        case False
        then show ?thesis using less.hyps [OF q] Some below by (simp add: any_plain.simps [of _ _ _ _ e] nearby_step)
      qed
    qed
  qed
  then show ?thesis by (simp add: serves_def)
qed

lemma set_mark_simps [simp]:
  "dirruns (set_mark q d key x w) = dirruns w" "cachedruns (set_mark q d key x w) = cachedruns w"
  "outermost (set_mark q d key x w) = outermost w"
  "dircache (set_mark q d key x w) y e = (if (y, e) = (q, d) then Some (key, x) else dircache w y e)"
  "counts_ok T (set_mark q d key x w) = counts_ok T w"
  by (auto simp: set_mark_def counts_ok_def)

lemma set_mark_good:
  "good T H oc (height q) w \<Longrightarrow> good T H oc (height q) (set_mark q d (dirruns w, k) x w)"
  by (auto simp: good_def marks_ok_def old_marks_def split: if_splits)

lemma set_mark_marks: "marks_ok H s (height q) w \<Longrightarrow> marks_ok H s (height q) (set_mark q d key x w)"
  by (auto simp: marks_ok_def)

lemma set_mark_old: "old_marks w \<Longrightarrow> old_marks (set_mark q d (dirruns w, k) x w)"
  by (auto simp: old_marks_def)

lemma any_cached_serves:
  assumes inner: "serves T H oc (eligible T nonEl) P m" and H: "H k = (\<lambda>q. eligible T nonEl q \<and> P q)"
  shows "serves T H oc A (\<lambda>e. \<exists>q\<in>set (nearby T nonEl d e). P q) (\<lambda>e w. any_cached T nonEl d (dirruns w, k) m e w)"
proof -
  define Q where "Q = (\<lambda>e. \<exists>q\<in>set (nearby T nonEl d e). P q)"
  have Qw: "(\<forall>y\<in>set (trail d e). \<not> H k y) = (\<not> Q e)" for e by (auto simp: Q_def nearby_def H)
  have "fst (any_cached T nonEl d (dirruns w, k) m e w) = Q e \<and>
      after T H (height e) (\<not> Q e) w (snd (any_cached T nonEl d (dirruns w, k) m e w))"
    if "in_doc T e" "good T H oc (height e) w" for e w
    using that
  proof (induction "height e" arbitrary: e w rule: less_induct)
    case less
    show ?case
    proof (cases "go d e")
      case None
      then show ?thesis using less.prems by (simp add: any_cached.simps [of _ _ _ _ _ e] Q_def nearby_None after_refl)
    next
      case (Some q)
      have q: "height q < height e" "in_doc T q" "good T H oc (height q) w"
        using go_lower [OF Some] go_in_doc [OF Some] less.prems good_lower [OF less.prems(2)] by simp_all
      note below = after_below [OF less.prems(2) q(1)]
      have Qe: "Q e = ((eligible T nonEl q \<and> P q) \<or> Q q)" using Some by (auto simp: Q_def nearby_step)
      note later = less.hyps [OF q]
      show ?thesis
      proof (cases "eligible T nonEl q")
        case False
        then show ?thesis using later Some below Qe by (simp add: any_cached.simps [of _ _ _ _ _ e])
      next
        case el: True
        show ?thesis
        proof (cases "\<exists>x. dircache w q d = Some ((dirruns w, k), x)")
          case True
          then obtain x where x: "dircache w q d = Some ((dirruns w, k), x)" by blast
          then have ok: "entry_ok H (cachedruns w) True q d k x"
            using less.prems(2) q(1) by (auto simp: good_def marks_ok_def)
          show ?thesis
          proof (cases "x = MTrue \<or> x = MFail (cachedruns w)")
            case True
            then have "Q e = (x = MTrue)" using ok Qe el Qw [of q] by (auto simp: entry_ok_def H split: mark.splits)
            then show ?thesis using Some el x True after_refl [OF less.prems(2)] by (simp add: any_cached.simps [of _ _ _ _ _ e])
          next
            case False
            then have "\<not> P q" using ok el by (auto simp: entry_ok_def H split: mark.splits)
            then show ?thesis using later Some el x False below Qe by (simp add: any_cached.simps [of _ _ _ _ _ e])
          qed
        next
          case False
          define w0 where "w0 = set_mark q d (dirruns w, k) MUndef w"
          obtain b w1 where m: "m q w0 = (b, w1)" by (cases "m q w0")
          have g0: "good T H oc (height q) w0" unfolding w0_def by (rule set_mark_good [OF q(3)])
          have p: "b = P q" "after T H (height q) (\<not> P q) w0 w1" using servesD [OF inner el q(2) g0] m by simp_all
          have w1: "dirruns w1 = dirruns w" "cachedruns w1 = cachedruns w" "outermost w1 = outermost w"
            "counts_ok T w1" "old_marks w1" "marks_ok H (\<not> P q) (height q) w1"
            "height q \<le> height y \<Longrightarrow> (y, d') \<noteq> (q, d) \<Longrightarrow> dircache w1 y d' = dircache w y d'" for y d'
            using p(2) by (auto simp: after_def w0_def)
          have run: "any_cached T nonEl d (dirruns w, k) m e w =
              (if b then (True, set_mark q d (dirruns w, k) MTrue w1)
               else any_cached T nonEl d (dirruns w, k) m q (set_mark q d (dirruns w, k) (MFail (cachedruns w1)) w1))"
            using Some el False m by (auto simp: any_cached.simps [of _ _ _ _ _ e] w0_def split: option.split)
          show ?thesis
          proof (cases b)
            case True
            let ?w = "set_mark q d (dirruns w, k) MTrue w1"
            have "after T H (height e) False w ?w"
              by (rule after_step [OF less.prems(2) q(1), where d = d])
                (use w1 p(1) True el in \<open>auto simp: entry_ok_def H intro: set_mark_old [of w1, unfolded w1(1)] marks_weaken set_mark_marks\<close>)
            then show ?thesis using run True Qe el p(1) by simp
          next
            case b: False
            let ?w = "set_mark q d (dirruns w, k) (MFail (cachedruns w)) w1"
            have g1: "good T H oc (height q) ?w"
              using w1 p(1) b q(3) set_mark_old [of w1 q d k] by (simp add: good_def set_mark_marks)
            define r where "r = any_cached T nonEl d (dirruns w, k) m q ?w"
            have r: "fst r = Q q" "after T H (height q) (\<not> Q q) ?w (snd r)"
              using less.hyps [OF q(1,2) g1] w1(1) by (simp_all add: r_def)
            have kept: "dircache (snd r) y d' = dircache ?w y d'" if "height q \<le> height y" for y d'
              using r(2) that by (simp add: after_def)
            have "after T H (height e) (\<not> Q q) w (snd r)"
            proof (rule after_step [OF less.prems(2) q(1), where d = d])
              show "dircache (snd r) y d' = dircache w y d'" if "height q \<le> height y" "(y, d') \<noteq> (q, d)" for y d'
                using kept [OF that(1)] that w1(7) [OF that] by auto
              show "entry_ok H (cachedruns w) (\<not> Q q) q d k' x" if "dircache (snd r) q d = Some ((dirruns w, k'), x)" for k' x
              proof -
                have "k' = k" "x = MFail (cachedruns w)" using that kept [of q d] by simp_all
                then show ?thesis using p(1) b Qw [of q] by (simp add: entry_ok_def H)
              qed
            qed (use r(2) w1 in \<open>auto simp: after_def\<close>)
            then show ?thesis using run b Qe p(1) r(1) w1(2) by (simp add: r_def)
          qed
        qed
      qed
    qed
  qed
  then show ?thesis by (simp add: serves_def Q_def)
qed

end
