(* ===== verification/SizzleSelect.thy ===== *)
theory SizzleSelect
  imports SizzleMatch
begin

text \<open>
  The answers of the selector engine of \<open>democlient/js/jquery.js\<close>: what a list of tokens means, and
  that a compiled selector selects the elements with that meaning, whatever marks and counts
  earlier runs have left on the nodes and however the document has changed since.
\<close>

section \<open>The meaning of a selector\<close>

definition reach :: "dnode \<Rightarrow> rel \<Rightarrow> bool \<Rightarrow> (path \<Rightarrow> bool) \<Rightarrow> path \<Rightarrow> bool" where
  "reach T r base P e =
     (let qs = nearby T (base \<and> rel_dir r = ParentNode) (rel_dir r) e
      in if rel_first r then first_holds P qs else list_ex P qs)"

text \<open>The tokens from the left: a combinator moves on to the nodes that reach one of those so far.\<close>

fun tokens_sem :: "dnode \<Rightarrow> bool \<Rightarrow> token list \<Rightarrow> (path \<Rightarrow> bool) \<Rightarrow> path \<Rightarrow> bool" where
  "tokens_sem T xml [] P = P"
| "tokens_sem T xml (t # ts) P =
     (case ttype_of t of
        Rel r \<Rightarrow> tokens_sem T xml ts (reach T r False P)
      | type \<Rightarrow> tokens_sem T xml ts (\<lambda>e. P e \<and> token_sem T xml type (tmatches t) e))"

definition implicit :: "rel option \<Rightarrow> rel" where
  "implicit lead = (case lead of Some r \<Rightarrow> r | None \<Rightarrow> RDesc)"

text \<open>
  The first compound selector: its element is reached from the context; in an XML document this is
  asked only when the selector begins with a combinator.
\<close>

definition from_context :: "dnode \<Rightarrow> bool \<Rightarrow> path \<Rightarrow> rel option \<Rightarrow> path \<Rightarrow> bool" where
  "from_context T xml c lead e =
     (lead = None \<and> (xml \<or> c = []) \<or> reach T (implicit lead) True (\<lambda>q. q = c) e)"

definition selects :: "dnode \<Rightarrow> bool \<Rightarrow> path \<Rightarrow> token list \<Rightarrow> path \<Rightarrow> bool" where
  "selects T xml c tokens = tokens_sem T xml (after_leading tokens) (from_context T xml c (leading tokens))"

section \<open>Matchers decide the meaning\<close>

lemma reach_ex:
  "reach T r base P e = (if rel_first r then first_holds P (nearby T (base \<and> rel_dir r = ParentNode) (rel_dir r) e)
     else (\<exists>q\<in>set (nearby T (base \<and> rel_dir r = ParentNode) (rel_dir r) e). P q))"
  by (simp add: reach_def list_ex_iff Let_def)

lemma addCombinator_serves:
  assumes m: "serves T H oc (eligible T (base \<and> rel_dir r = ParentNode)) P (\<lambda>q. m q ctx xml)"
    and H: "H k = (\<lambda>q. eligible T (base \<and> rel_dir r = ParentNode) q \<and> P q)"
  shows "serves T H oc A (reach T r base P) (\<lambda>e. addCombinator T m r base k e ctx xml)"
proof (cases "rel_first r")
  case True
  have "(\<lambda>e. addCombinator T m r base k e ctx xml) = closest T (base \<and> rel_dir r = ParentNode) (rel_dir r) (\<lambda>q. m q ctx xml)"
    by (simp add: addCombinator_def True Let_def)
  moreover have "reach T r base P = (\<lambda>e. first_holds P (nearby T (base \<and> rel_dir r = ParentNode) (rel_dir r) e))"
    by (simp add: reach_ex True fun_eq_iff)
  ultimately show ?thesis using closest_serves [OF m, of A "rel_dir r"] by (simp only:)
next
  case False
  have R: "reach T r base P = (\<lambda>e. \<exists>q\<in>set (nearby T (base \<and> rel_dir r = ParentNode) (rel_dir r) e). P q)"
    by (simp add: reach_ex False fun_eq_iff)
  show ?thesis
  proof (cases xml)
    case True
    have "(\<lambda>e. addCombinator T m r base k e ctx xml) = any_plain T (base \<and> rel_dir r = ParentNode) (rel_dir r) (\<lambda>q. m q ctx xml)"
      by (simp add: addCombinator_def False True Let_def fun_eq_iff)
    then show ?thesis using any_plain_serves [OF m, of A "rel_dir r"] by (simp only: R)
  next
    case xml: False
    have "(\<lambda>e. addCombinator T m r base k e ctx xml) =
        (\<lambda>e w. any_cached T (base \<and> rel_dir r = ParentNode) (rel_dir r) (dirruns w, k) (\<lambda>q. m q ctx xml) e w)"
      by (simp add: addCombinator_def False xml Let_def fun_eq_iff)
    then show ?thesis using any_cached_serves [OF m H, of A "rel_dir r"] by (simp only: R)
  qed
qed

text \<open>A filter changes no mark of a combinator.\<close>

definition steady :: "dnode \<Rightarrow> (path \<Rightarrow> bool) \<Rightarrow> (path \<Rightarrow> sworld \<Rightarrow> bool \<times> sworld) \<Rightarrow> bool" where
  "steady T F f \<longleftrightarrow> (\<forall>e w. eligible T False e \<longrightarrow> in_doc T e \<longrightarrow> counts_ok T w \<longrightarrow>
     fst (f e w) = F e \<and> counts_ok T (snd (f e w)) \<and> only_counts w (snd (f e w)))"

lemma steadyD:
  "steady T F f \<Longrightarrow> eligible T False e \<Longrightarrow> in_doc T e \<Longrightarrow> counts_ok T w \<Longrightarrow>
    fst (f e w) = F e \<and> counts_ok T (snd (f e w)) \<and> only_counts w (snd (f e w))"
  by (simp add: steady_def)

lemma only_counts_after:
  assumes "good T H oc h w" and "only_counts w w'" and "counts_ok T w'"
  shows "after T H h True w w'"
proof -
  have e: "w' = w\<lparr>nthcache := nthcache w', lastcache := lastcache w'\<rparr>" using assms(2) by (simp add: only_counts_def)
  have "dirruns w' = dirruns w" "cachedruns w' = cachedruns w" "outermost w' = outermost w" "dircache w' = dircache w"
    by (subst e, simp)+
  then show ?thesis using assms(1,3) by (simp add: good_def after_def marks_ok_def old_marks_def)
qed

lemma all_back_serves:
  assumes m: "serves T H oc (eligible T False) P (\<lambda>e. m e ctx xml)"
  shows "list_all2 (\<lambda>f F. steady T F (\<lambda>e. f e ctx xml)) fs Fs \<Longrightarrow>
    serves T H oc (eligible T False) (\<lambda>e. P e \<and> (\<forall>F\<in>set Fs. F e)) (\<lambda>e. all_back (fs @ [m]) e ctx xml)"
proof (induction fs Fs rule: list_all2_induct)
  case Nil
  have "all_back ([] @ [m]) e ctx xml = m e ctx xml" for e by (auto simp: fun_eq_iff split: prod.split bool.split)
  then show ?case using m by simp
next
  case (Cons f fs F Fs)
  show ?case
    unfolding serves_def
  proof (intro allI impI)
    fix e w assume e: "eligible T False e" "in_doc T e" and g: "good T H oc (height e) w"
    obtain b w1 where f: "f e ctx xml w = (b, w1)" by (cases "f e ctx xml w")
    have b: "b = F e" "counts_ok T w1" "only_counts w w1"
      using steadyD [OF Cons.hyps(1) e, of w] g f by (simp_all add: good_def)
    have a: "after T H (height e) True w w1" by (rule only_counts_after [OF g b(3,2)])
    show "fst (all_back ((f # fs) @ [m]) e ctx xml w) = (P e \<and> (\<forall>F\<in>set (F # Fs). F e)) \<and>
        after T H (height e) (\<not> (P e \<and> (\<forall>F\<in>set (F # Fs). F e))) w (snd (all_back ((f # fs) @ [m]) e ctx xml w))"
    proof (cases b)
      case True
      have "good T H oc (height e) w1" by (rule good_after [OF g a])
      from servesD [OF Cons.IH e this] show ?thesis using f True b(1) after_trans [OF a] by simp
    next
      case False
      then show ?thesis using f b(1) a by simp
    qed
  qed
qed

text \<open>The list \<open>matchers\<close> of \<open>matcherFromTokens\<close>: one that may leave marks and then filters.\<close>

definition serving :: "dnode \<Rightarrow> (nat \<Rightarrow> path \<Rightarrow> bool) \<Rightarrow> outer \<Rightarrow> ctx \<Rightarrow> bool \<Rightarrow> matcher list \<Rightarrow> (path \<Rightarrow> bool) \<Rightarrow> bool" where
  "serving T H oc ctx xml ms P \<longleftrightarrow> (\<exists>m fs P0 Fs. ms = m # fs \<and> serves T H oc (eligible T False) P0 (\<lambda>e. m e ctx xml) \<and>
     list_all2 (\<lambda>f F. steady T F (\<lambda>e. f e ctx xml)) fs Fs \<and> (\<forall>e. P e = (P0 e \<and> (\<forall>F\<in>set Fs. F e))))"

lemma serving_one: "serves T H oc (eligible T False) P (\<lambda>e. m e ctx xml) \<Longrightarrow> serving T H oc ctx xml [m] P"
  unfolding serving_def by (intro exI [of _ m] exI [of _ "[]"] exI [of _ P]) simp

lemma serving_more:
  assumes "serving T H oc ctx xml ms P" and "steady T F (\<lambda>e. f e ctx xml)"
  shows "serving T H oc ctx xml (ms @ [f]) (\<lambda>e. P e \<and> F e)"
proof -
  obtain m fs P0 Fs where "ms = m # fs" "serves T H oc (eligible T False) P0 (\<lambda>e. m e ctx xml)"
    "list_all2 (\<lambda>f F. steady T F (\<lambda>e. f e ctx xml)) fs Fs" "\<forall>e. P e = (P0 e \<and> (\<forall>F\<in>set Fs. F e))"
    using assms(1) by (auto simp: serving_def)
  then show ?thesis unfolding serving_def using assms(2)
    by (intro exI [of _ m] exI [of _ "fs @ [f]"] exI [of _ P0] exI [of _ "Fs @ [F]"]) (auto intro: list_all2_appendI)
qed

lemma elementMatcher_serves:
  assumes "serving T H oc ctx xml ms P"
  shows "serves T H oc (eligible T False) P (\<lambda>e. elementMatcher ms e ctx xml)"
proof -
  obtain m fs P0 Fs where ms: "ms = m # fs" and m: "serves T H oc (eligible T False) P0 (\<lambda>e. m e ctx xml)"
    and fs: "list_all2 (\<lambda>f F. steady T F (\<lambda>e. f e ctx xml)) fs Fs" and P: "\<And>e. P e = (P0 e \<and> (\<forall>F\<in>set Fs. F e))"
    using assms by (auto simp: serving_def)
  show ?thesis
  proof (cases "fs = []")
    case True
    then have "P = P0" using fs P by (auto simp: fun_eq_iff)
    then show ?thesis using m ms True by (simp add: elementMatcher_def)
  next
    case False
    have "list_all2 (\<lambda>f F. steady T F (\<lambda>e. f e ctx xml)) (rev fs) (rev Fs)" using fs by simp
    from all_back_serves [where m = m and fs = "rev fs" and Fs = "rev Fs" and ctx = ctx and xml = xml, OF m this] have "serves T H oc (eligible T False) P (\<lambda>e. all_back (rev fs @ [m]) e ctx xml)"
      by (simp add: P [abs_def])
    then show ?thesis using ms False by (simp add: elementMatcher_def)
  qed
qed

section \<open>Compiled selectors\<close>

text \<open>What the combinators look for, in the order of their numbers.\<close>

fun sought :: "dnode \<Rightarrow> bool \<Rightarrow> token list \<Rightarrow> (path \<Rightarrow> bool) \<Rightarrow> (path \<Rightarrow> bool) list" where
  "sought T xml [] P = []"
| "sought T xml (t # ts) P =
     (case ttype_of t of
        Rel r \<Rightarrow> (\<lambda>q. eligible T False q \<and> P q) # sought T xml ts (reach T r False P)
      | type \<Rightarrow> sought T xml ts (\<lambda>e. P e \<and> token_sem T xml type (tmatches t) e))"

definition agrees :: "(nat \<Rightarrow> path \<Rightarrow> bool) \<Rightarrow> nat \<Rightarrow> (path \<Rightarrow> bool) list \<Rightarrow> bool" where
  "agrees H n tab \<longleftrightarrow> (\<forall>i<length tab. H (n + i) = tab ! i)"

lemma agrees_Cons: "agrees H n (p # tab) \<longleftrightarrow> H n = p \<and> agrees H (Suc n) tab"
  by (auto simp: agrees_def less_Suc_eq_0_disj all_conj_distrib)

lemma agrees_append: "agrees H n (tab @ tab') \<longleftrightarrow> agrees H n tab \<and> agrees H (n + length tab) tab'"
proof (induction tab arbitrary: n)
  case Nil
  then show ?case by (simp add: agrees_def)
next
  case (Cons p tab)
  then show ?case by (simp add: agrees_Cons)
qed

lemma expr_filter_steady:
  "expr_filter T type ms = Some f \<Longrightarrow> steady T (token_sem T xml type ms) (\<lambda>e. f e xml)"
  unfolding steady_def by (auto simp: expr_filter_ok eligible_def)

lemma expr_filter_Rel: "expr_filter T (Rel r) ms = None"
  by simp

lemma add_tokens_serves:
  assumes "add_tokens T ts ms n = Some (ms', n')" and "serving T H oc ctx xml ms P" and "agrees H n (sought T xml ts P)"
  shows "serving T H oc ctx xml ms' (tokens_sem T xml ts P) \<and> n' = n + length (sought T xml ts P)"
  using assms
proof (induction ts arbitrary: ms n P)
  case Nil
  then show ?case by simp
next
  case (Cons t ts)
  show ?case
  proof (cases "\<exists>r. ttype_of t = Rel r")
    case True
    then obtain r where r: "ttype_of t = Rel r" by blast
    let ?m = "addCombinator T (elementMatcher ms) r False n"
    have run: "add_tokens T ts [?m] (Suc n) = Some (ms', n')" using Cons.prems(1) r by simp
    have tab: "H n = (\<lambda>q. eligible T False q \<and> P q)" "agrees H (Suc n) (sought T xml ts (reach T r False P))"
      using Cons.prems(3) r by (simp_all add: agrees_Cons)
    have "serves T H oc (eligible T False) (reach T r False P) (\<lambda>e. ?m e ctx xml)"
      by (rule addCombinator_serves) (use elementMatcher_serves [OF Cons.prems(2)] tab(1) in simp_all)
    then have "serving T H oc ctx xml [?m] (reach T r False P)" by (rule serving_one)
    from Cons.IH [OF run this tab(2)] show ?thesis using r by simp
  next
    case False
    then have sem: "tokens_sem T xml (t # ts) P = tokens_sem T xml ts (\<lambda>e. P e \<and> token_sem T xml (ttype_of t) (tmatches t) e)"
      and tab: "sought T xml (t # ts) P = sought T xml ts (\<lambda>e. P e \<and> token_sem T xml (ttype_of t) (tmatches t) e)"
      by (cases "ttype_of t"; simp)+
    have "add_tokens T (t # ts) ms n = (case expr_filter T (ttype_of t) (tmatches t) of None \<Rightarrow> None
        | Some f \<Rightarrow> add_tokens T ts (ms @ [\<lambda>elem context xml. f elem xml]) n)"
      using False by (cases "ttype_of t") simp_all
    then obtain f where f: "expr_filter T (ttype_of t) (tmatches t) = Some f"
      and run: "add_tokens T ts (ms @ [\<lambda>elem context xml. f elem xml]) n = Some (ms', n')"
      using Cons.prems(1) by (auto split: option.splits)
    have "serving T H oc ctx xml (ms @ [\<lambda>elem context xml. f elem xml]) (\<lambda>e. P e \<and> token_sem T xml (ttype_of t) (tmatches t) e)"
      by (rule serving_more [OF Cons.prems(2)]) (use expr_filter_steady [OF f] in simp)
    from Cons.IH [OF run this] Cons.prems(3) show ?thesis unfolding sem tab by blast
  qed
qed

lemma serves_const: "serves T H oc A P (\<lambda>e w. (P e, w))"
  by (auto simp: serves_def after_refl)

definition context_of :: "path \<Rightarrow> outer" where
  "context_of c = (if c = [] then OFalse else ONode c)"

lemma foundation_serves:
  assumes H: "H n = (\<lambda>q. eligible T (rel_dir (implicit lead) = ParentNode) q \<and> q = c)"
  shows "serves T H (context_of c) A (from_context T xml c lead) (\<lambda>e. foundation T lead n e (One c) xml)"
proof -
  let ?m = "addCombinator T (\<lambda>elem context xml w. (context = One elem, w)) (implicit lead) True n"
  have "serves T H (context_of c) A (reach T (implicit lead) True (\<lambda>q. q = c)) (\<lambda>e. ?m e (One c) xml)"
  proof (rule addCombinator_serves)
    have "(One c = One q) = (q = c)" for q by auto
    then show "serves T H (context_of c) (eligible T (True \<and> rel_dir (implicit lead) = ParentNode)) (\<lambda>q. q = c)
        (\<lambda>q w. (One c = One q, w))" using serves_const by simp
  qed (simp add: H)
  note ctx = this
  have same: "same_context (One c) (context_of c) = (c \<noteq> [])" by (simp add: context_of_def)
  have open_: "foundation T lead n e (One c) xml w =
      (if lead = None \<and> (xml \<or> c = []) then (True, w) else ?m e (One c) xml w)" if "outermost w = context_of c" for e w
    using that same by (simp add: foundation_def implicit_def Let_def)
  show ?thesis
    unfolding serves_def
  proof (intro allI impI)
    fix e w assume e: "A e" "in_doc T e" and g: "good T H (context_of c) (height e) w"
    then have o: "outermost w = context_of c" by (simp add: good_def)
    show "fst (foundation T lead n e (One c) xml w) = from_context T xml c lead e \<and>
        after T H (height e) (\<not> from_context T xml c lead e) w (snd (foundation T lead n e (One c) xml w))"
      using servesD [OF ctx e g] after_refl [OF g] unfolding open_ [OF o] from_context_def by auto
  qed
qed

definition sought_all :: "dnode \<Rightarrow> bool \<Rightarrow> path \<Rightarrow> token list \<Rightarrow> (path \<Rightarrow> bool) list" where
  "sought_all T xml c tokens =
     (\<lambda>q. eligible T (rel_dir (implicit (leading tokens)) = ParentNode) q \<and> q = c) # (\<lambda>q. False) #
     sought T xml (after_leading tokens) (from_context T xml c (leading tokens))"

lemma matcherFromTokens_serves:
  assumes "matcherFromTokens T tokens n = Some (m, n')" and "agrees H n (sought_all T xml c tokens)"
  shows "serves T H (context_of c) (eligible T False) (selects T xml c tokens) (\<lambda>e. m e (One c) xml) \<and>
    n' = n + length (sought_all T xml c tokens)"
proof -
  obtain ms where run: "add_tokens T (after_leading tokens) [foundation T (leading tokens) n] (n + 2) = Some (ms, n')"
    and m: "m = elementMatcher ms" using assms(1) by (auto simp: matcherFromTokens_def split: option.splits if_splits)
  have H: "H n = (\<lambda>q. eligible T (rel_dir (implicit (leading tokens)) = ParentNode) q \<and> q = c)"
    and tab: "agrees H (n + 2) (sought T xml (after_leading tokens) (from_context T xml c (leading tokens)))"
    using assms(2) by (simp_all add: sought_all_def agrees_Cons)
  have "serves T H (context_of c) (eligible T False) (from_context T xml c (leading tokens))
      (\<lambda>e. foundation T (leading tokens) n e (One c) xml)"
    by (rule foundation_serves) (rule H)
  then have "serving T H (context_of c) (One c) xml [foundation T (leading tokens) n] (from_context T xml c (leading tokens))"
    by (rule serving_one)
  note r = add_tokens_serves [OF run this tab]
  show ?thesis using r elementMatcher_serves [OF r [THEN conjunct1]] m by (simp add: selects_def sought_all_def)
qed

lemma from_groups_serves:
  "from_groups T gs n = Some (ms, n') \<Longrightarrow> agrees H n (concat (map (sought_all T xml c) gs)) \<Longrightarrow>
    list_all2 (\<lambda>m g. serves T H (context_of c) (eligible T False) (selects T xml c g) (\<lambda>e. m e (One c) xml)) ms gs"
proof (induction gs arbitrary: n ms)
  case (Cons g gs)
  obtain m n1 where m: "matcherFromTokens T g n = Some (m, n1)" using Cons.prems(1) by (auto split: option.splits)
  obtain ms1 where ms: "from_groups T gs n1 = Some (ms1, n')" "ms = m # ms1" using Cons.prems(1) m by (auto split: option.splits)
  have a: "agrees H n (sought_all T xml c g)"
    and b: "agrees H (n + length (sought_all T xml c g)) (concat (map (sought_all T xml c) gs))"
    using Cons.prems(2) by (simp_all add: agrees_append)
  note s = matcherFromTokens_serves [OF m a]
  show ?case using Cons.IH [OF ms(1)] b s ms(2) by simp
qed simp

section \<open>Runs\<close>

lemma first_of_serves:
  "list_all2 (\<lambda>m g. serves T H oc A (S g) (\<lambda>e. m e ctx xml)) ms gs \<Longrightarrow>
    serves T H oc A (\<lambda>e. \<exists>g\<in>set gs. S g e) (\<lambda>e. first_of ms e ctx xml)"
proof (induction ms gs rule: list_all2_induct)
  case Nil
  then show ?case using serves_const [of T H oc A "\<lambda>_. False"] by simp
next
  case (Cons m ms g gs)
  show ?case
    unfolding serves_def
  proof (intro allI impI)
    fix e w assume e: "A e" "in_doc T e" and good: "good T H oc (height e) w"
    obtain b w1 where m: "m e ctx xml w = (b, w1)" by (cases "m e ctx xml w")
    have b: "b = S g e" "after T H (height e) (\<not> S g e) w w1" using servesD [OF Cons.hyps(1) e good] m by simp_all
    show "fst (first_of (m # ms) e ctx xml w) = (\<exists>g\<in>set (g # gs). S g e) \<and>
        after T H (height e) (\<not> (\<exists>g\<in>set (g # gs). S g e)) w (snd (first_of (m # ms) e ctx xml w))"
    proof (cases b)
      case True
      then show ?thesis using m b by simp
    next
      case False
      then have a: "after T H (height e) True w w1" using b by simp
      have "good T H oc (height e) w1" by (rule good_after [OF good a])
      from servesD [OF Cons.IH e this] show ?thesis using m b(1) False after_trans [OF a] by simp
    qed
  qed
qed

text \<open>When the number of the element goes up, no failure is one of the present element any more.\<close>

lemma next_element:
  assumes g: "\<And>h. good T H oc h w" and a: "after T H (height e) s w w1"
  shows "good T H oc h (w1\<lparr>dirruns := dirruns w, cachedruns := Suc (cachedruns w)\<rparr>)"
proof -
  have run: "dirruns w1 = dirruns w" "cachedruns w1 = cachedruns w" using a by (simp_all add: after_def)
  have "entry_ok H (cachedruns w) False q d k x" if c: "dircache w1 q d = Some ((dirruns w, k), x)" for q d k x
  proof (cases "height q < height e")
    case True
    then have "entry_ok H (cachedruns w) s q d k x" using a c run by (simp add: after_def marks_ok_def)
    then show ?thesis by (rule entry_weaken) simp
  next
    case False
    then have "dircache w q d = Some ((dirruns w, k), x)" using a c by (simp add: after_def)
    then have "entry_ok H (cachedruns w) True q d k x" using g [of "Suc (height q)"] by (auto simp: good_def marks_ok_def)
    then show ?thesis by (rule entry_weaken) simp
  qed
  then have "entry_ok H (Suc (cachedruns w)) True q d k x" if "dircache w1 q d = Some ((dirruns w, k), x)" for q d k x
    using that by (fastforce simp: entry_ok_def split: mark.splits)
  then have "marks_ok H True h (w1\<lparr>dirruns := dirruns w, cachedruns := Suc (cachedruns w)\<rparr>)" by (simp add: marks_ok_def)
  moreover have "counts_ok T w1" "old_marks w1" "outermost w1 = outermost w" using a by (simp_all add: after_def)
  ultimately show ?thesis using g [of 0] run by (simp add: good_def counts_ok_def old_marks_def)
qed

lemma match_elems_ok:
  assumes s: "serves T H oc (eligible T False) P (\<lambda>e. first_of ms e ctx xml)"
  shows "(\<And>h. good T H oc h w) \<Longrightarrow> dirruns w = u \<Longrightarrow> cachedruns w = k \<Longrightarrow>
    \<forall>e\<in>set es. in_doc T e \<and> nodeType T e = 1 \<Longrightarrow> match_elems ms ctx xml u es k w = (results, k', w') \<Longrightarrow>
    results = filter P es \<and> (\<forall>h. good T H oc h w') \<and> dirruns w' = u"
proof (induction es arbitrary: w k results k' w')
  case Nil
  then show ?case by simp
next
  case (Cons e es)
  obtain b w1 where f: "first_of ms e ctx xml w = (b, w1)" by (cases "first_of ms e ctx xml w")
  have b: "b = P e" "after T H (height e) (\<not> P e) w w1"
    using servesD [OF s _ _ Cons.prems(1), of e] Cons.prems(4) f by (simp_all add: eligible_def)
  define w2 where "w2 = w1\<lparr>dirruns := u, cachedruns := Suc k\<rparr>"
  have g: "good T H oc h w2" for h
    using next_element [OF Cons.prems(1) b(2), of h] Cons.prems(2,3) by (simp add: w2_def)
  obtain rs k2 w3 where r: "match_elems ms ctx xml u es (Suc k) w2 = (rs, k2, w3)" by (cases "match_elems ms ctx xml u es (Suc k) w2") auto
  have "rs = filter P es \<and> (\<forall>h. good T H oc h w3) \<and> dirruns w3 = u"
    by (rule Cons.IH [OF g _ _ _ r]) (use Cons.prems(4) in \<open>simp_all add: w2_def\<close>)
  moreover have "results = (if P e then e # rs else rs)" "w' = w3"
    using Cons.prems(5) f r b(1) by (simp_all add: w2_def [symmetric])
  ultimately show ?case by simp
qed

text \<open>Between the runs: no number of a run is ahead of the last one. The document may have changed.\<close>

definition engine_idle :: "sworld \<Rightarrow> bool" where
  "engine_idle w \<longleftrightarrow> outermost w = OUnset \<and> old_marks w \<and>
     (\<forall>p r i d. nthcache w p = Some (r, i, d) \<longrightarrow> r \<le> dirruns w) \<and> (\<forall>q r d. lastcache w q = Some (r, d) \<longrightarrow> r \<le> dirruns w)"

lemma run_begins:
  assumes "engine_idle w"
  shows "good T H (context_of c) h (w\<lparr>dirruns := Suc (dirruns w), outermost := context_of c, cachedruns := k\<rparr>)"
proof -
  have new: "dircache w q d \<noteq> Some ((Suc (dirruns w), j), x)" "nthcache w q \<noteq> Some (Suc (dirruns w), i, y)"
    "lastcache w q \<noteq> Some (Suc (dirruns w), y)" for q d j x i y
    using assms unfolding engine_idle_def old_marks_def by (metis not_less_eq_eq order_refl)+
  have le: "dircache w q d = Some ((r, j), x) \<Longrightarrow> r \<le> Suc (dirruns w)" "nthcache w q = Some (r, i, y) \<Longrightarrow> r \<le> Suc (dirruns w)"
    "lastcache w q = Some (r, y) \<Longrightarrow> r \<le> Suc (dirruns w)" for q d r j x i y
    using assms unfolding engine_idle_def old_marks_def by (metis le_SucI)+
  show ?thesis
    unfolding good_def marks_ok_def old_marks_def counts_ok_def using new le by auto
qed

lemma run_ends: "good T H oc h w \<Longrightarrow> engine_idle (w\<lparr>dirruns := dirruns w, outermost := OUnset\<rparr>)"
  by (auto simp: good_def engine_idle_def old_marks_def counts_ok_def)

lemma superMatcher_run:
  assumes comp: "compile T gs n = Some (ms, n')" and idle: "engine_idle w"
    and run: "superMatcher T ms seed c xml expandContext k w = (results, k', w')"
    and elems: "\<And>s. seed = Some s \<Longrightarrow> \<forall>e\<in>set s. in_doc T e \<and> nodeType T e = 1"
  shows "results = filter (\<lambda>e. \<exists>g\<in>set gs. selects T xml c g e)
      (case seed of Some s \<Rightarrow> s | None \<Rightarrow> all_below T (if expandContext \<and> c \<noteq> [] then butlast c else c))"
    and "engine_idle w'"
proof -
  let ?tab = "concat (map (sought_all T xml c) (rev gs))"
  define H where "H = (\<lambda>k. if k < n then (\<lambda>_. False) else ?tab ! (k - n))"
  have "agrees H n ?tab" by (simp add: agrees_def H_def)
  with comp have "list_all2 (\<lambda>m g. serves T H (context_of c) (eligible T False) (selects T xml c g) (\<lambda>e. m e (One c) xml)) ms (rev gs)"
    unfolding compile_def by (rule from_groups_serves)
  from first_of_serves [OF this] have s: "serves T H (context_of c) (eligible T False) (\<lambda>e. \<exists>g\<in>set gs. selects T xml c g e)
      (\<lambda>e. first_of ms e (One c) xml)" by simp
  define root where "root = (if expandContext \<and> c \<noteq> [] then butlast c else c)"
  define es where "es = (case seed of Some s \<Rightarrow> s | None \<Rightarrow> if ms = [] then [] else all_below T root)"
  define w1 where "w1 = w\<lparr>dirruns := Suc (dirruns w), outermost := context_of c, cachedruns := k\<rparr>"
  obtain rs k2 w2 where m: "match_elems ms (One c) xml (Suc (dirruns w)) es k w1 = (rs, k2, w2)"
    by (cases "match_elems ms (One c) xml (Suc (dirruns w)) es k w1") auto
  have "superMatcher T ms seed c xml expandContext k w =
      (case match_elems ms (One c) xml (Suc (dirruns w)) es k w1 of
         (results, k', w2) \<Rightarrow> (results, k', w2\<lparr>dirruns := Suc (dirruns w), outermost := outermost w\<rparr>))"
    unfolding superMatcher_def Let_def w1_def es_def root_def context_of_def by (rule refl)
  then have r: "results = rs" "w' = w2\<lparr>dirruns := Suc (dirruns w), outermost := outermost w\<rparr>"
    using run m by simp_all
  have nodes: "\<forall>e\<in>set es. in_doc T e \<and> nodeType T e = 1"
    using elems by (auto simp: es_def all_below_def nodeType_def in_doc_def split: option.splits if_splits)
  have "good T H (context_of c) h w1" for h unfolding w1_def by (rule run_begins [OF idle])
  then have q: "rs = filter (\<lambda>e. \<exists>g\<in>set gs. selects T xml c g e) es \<and> (\<forall>h. good T H (context_of c) h w2) \<and> dirruns w2 = Suc (dirruns w)"
    by (rule match_elems_ok [OF s _ _ _ nodes m]) (simp_all add: w1_def)
  have "gs = []" if "ms = []"
    using from_groups_serves [of T "rev gs" n ms n' H xml c] comp that \<open>agrees H n ?tab\<close> by (simp add: compile_def)
  then show "results = filter (\<lambda>e. \<exists>g\<in>set gs. selects T xml c g e)
      (case seed of Some s \<Rightarrow> s | None \<Rightarrow> all_below T (if expandContext \<and> c \<noteq> [] then butlast c else c))"
    using q r(1) by (auto simp: es_def root_def split: option.split)
  have "outermost w = OUnset" using idle by (simp add: engine_idle_def)
  then show "engine_idle w'" using q run_ends [of T H "context_of c" 0 w2] r(2) by simp
qed

text \<open>
  C29: A compiled selector without positional filters, run on a context, returns the elements with
  the selector's meaning, in document order: the marks of the combinators and the counts of
  \<open>:nth-child\<close>, of this run and of any runs before, change nothing of the answer. After the run
  the engine is as ready as before it.
\<close>

theorem selected_elements:
  assumes "compile T gs n = Some (ms, n')" and "engine_idle w"
  shows "fst (superMatcher T ms None c xml expandContext k w) =
      filter (\<lambda>e. \<exists>g\<in>set gs. selects T xml c g e) (all_below T (if expandContext \<and> c \<noteq> [] then butlast c else c)) \<and>
    engine_idle (snd (snd (superMatcher T ms None c xml expandContext k w)))"
proof -
  obtain results k' w' where run: "superMatcher T ms None c xml expandContext k w = (results, k', w')"
    by (cases "superMatcher T ms None c xml expandContext k w") auto
  show ?thesis using superMatcher_run [OF assms run] run by simp
qed

section \<open>Context\<close>

lemma nearby_parent: "q \<in> set (nearby T b ParentNode e) \<Longrightarrow> \<exists>r. r \<noteq> [] \<and> e = q @ r"
  by (simp add: nearby_def trail_parent)

lemma nearby_previous: "q \<in> set (nearby T b PreviousSibling e) \<Longrightarrow> \<exists>p i j. e = p @ [i] \<and> q = p @ [j]"
  by (cases e rule: rev_cases) (auto simp: nearby_def trail_previous trail_None)

lemma reach_nearby: "reach T r b P e \<Longrightarrow> \<exists>q\<in>set (nearby T (b \<and> rel_dir r = ParentNode) (rel_dir r) e). P q"
  by (auto simp: reach_ex first_holds_def split: if_splits list.splits)

definition beneath :: "path \<Rightarrow> path \<Rightarrow> bool" where
  "beneath c e \<longleftrightarrow> (\<exists>r. r \<noteq> [] \<and> e = c @ r)"

lemma reach_beneath:
  assumes "reach T r b P e" and "\<And>q. P q \<Longrightarrow> beneath c q"
  shows "beneath c e"
proof -
  obtain q where q: "q \<in> set (nearby T (b \<and> rel_dir r = ParentNode) (rel_dir r) e)" "beneath c q"
    using reach_nearby [OF assms(1)] assms(2) by blast
  then obtain s where s: "s \<noteq> []" "q = c @ s" by (auto simp: beneath_def)
  show ?thesis
  proof (cases "rel_dir r")
    case ParentNode
    then obtain t where "e = q @ t" using nearby_parent q(1) by fastforce
    then show ?thesis using s unfolding beneath_def by (intro exI [of _ "s @ t"]) simp
  next
    case PreviousSibling
    then obtain p i j where e: "e = p @ [i]" "q = p @ [j]" using nearby_previous q(1) by fastforce
    have "s = butlast s @ [last s]" using s(1) by simp
    then have "q = (c @ butlast s) @ [last s]" using s(2) by (metis append_assoc)
    then have "p = c @ butlast s" using e(2) by (metis butlast_snoc)
    then show ?thesis using e(1) unfolding beneath_def by (intro exI [of _ "butlast s @ [i]"]) simp
  qed
qed

lemma tokens_sem_beneath:
  "tokens_sem T xml ts P e \<Longrightarrow> (\<And>q. P q \<Longrightarrow> beneath c q) \<Longrightarrow> beneath c e"
proof (induction ts arbitrary: P)
  case (Cons t ts)
  show ?case
  proof (cases "\<exists>r. ttype_of t = Rel r")
    case True
    then obtain r where "ttype_of t = Rel r" by blast
    then show ?thesis using Cons.prems Cons.IH [of "reach T r False P"] reach_beneath [of T r False P _ c] by auto
  next
    case False
    then have "tokens_sem T xml (t # ts) P = tokens_sem T xml ts (\<lambda>e. P e \<and> token_sem T xml (ttype_of t) (tmatches t) e)"
      by (cases "ttype_of t"; simp)
    then show ?thesis using Cons.prems Cons.IH [of "\<lambda>e. P e \<and> token_sem T xml (ttype_of t) (tmatches t) e"] by auto
  qed
qed simp

lemma selects_beneath:
  assumes "selects T False c tokens e" and "e \<noteq> []" and "leading tokens \<notin> {Some RNext, Some RSibling}"
  shows "beneath c e"
proof (cases "c = []")
  case True
  then show ?thesis using assms(2) by (simp add: beneath_def)
next
  case False
  have d: "rel_dir (implicit (leading tokens)) = ParentNode"
  proof (cases "leading tokens")
    case (Some r)
    then show ?thesis using assms(3) by (cases r) (simp_all add: implicit_def)
  qed (simp add: implicit_def)
  have "beneath c q" if "from_context T False c (leading tokens) q" for q
  proof -
    have "reach T (implicit (leading tokens)) True (\<lambda>q. q = c) q" using that False by (simp add: from_context_def)
    then have "c \<in> set (nearby T True ParentNode q)" using reach_nearby [of T "implicit (leading tokens)" True _ q] d by auto
    then show ?thesis using nearby_parent by (simp add: beneath_def)
  qed
  then show ?thesis using tokens_sem_beneath assms(1) unfolding selects_def by blast
qed

text \<open>
  C32: In a document that is not XML a run of a compiled selector returns only elements below its
  context, unless one of its groups begins with \<open>+\<close> or \<open>~\<close>; although the engine looks at all the
  elements below the parent of the context whenever one of these occurs in the selector, and at
  any elements of the document it is given as a seed.
\<close>

theorem selects_in_context:
  assumes "compile T gs n = Some (ms, n')" and "engine_idle w"
    and "\<forall>g \<in> set gs. leading g \<notin> {Some RNext, Some RSibling}"
    and "seed = None \<or> (\<forall>e \<in> set (the seed). in_doc T e \<and> nodeType T e = 1 \<and> e \<noteq> [])"
    and "e \<in> set (fst (superMatcher T ms seed c False expandContext k w))"
  shows "beneath c e"
proof -
  obtain results k' w' where run: "superMatcher T ms seed c False expandContext k w = (results, k', w')"
    by (cases "superMatcher T ms seed c False expandContext k w") auto
  have r: "results = filter (\<lambda>e. \<exists>g\<in>set gs. selects T False c g e)
      (case seed of Some s \<Rightarrow> s | None \<Rightarrow> all_below T (if expandContext \<and> c \<noteq> [] then butlast c else c))"
    by (rule superMatcher_run(1) [OF assms(1,2) run]) (use assms(4) in auto)
  have "e \<in> set results" using assms(5) run by simp
  then obtain g where g: "g \<in> set gs" "selects T False c g e"
    and e: "e \<in> set (case seed of Some s \<Rightarrow> s | None \<Rightarrow> all_below T (if expandContext \<and> c \<noteq> [] then butlast c else c))"
    unfolding r by auto
  have "e \<noteq> []"
  proof (cases seed)
    case None
    then show ?thesis using e by (auto simp: all_below_def below_mem split: option.splits)
  next
    case (Some s)
    then show ?thesis using e assms(4) by auto
  qed
  then show ?thesis using selects_beneath g assms(3) by blast
qed

section \<open>A document\<close>

definition demo_tree :: dnode where
  "demo_tree = DNode 9 ''#document'' []
     [DNode 1 ''r'' [] [DNode 1 ''a'' [] [], DNode 1 ''b'' [(''x'', ''1'')] [DNode 1 ''a'' [] []], DNode 1 ''c'' [] []]]"

text \<open>\<open>r a:nth-child(odd)\<close>\<close>

definition demo_tokens :: "token list" where
  "demo_tokens = [\<lparr>tvalue = ''r'', ttype_of = TAG, tmatches = [VStr ''r'']\<rparr>, \<lparr>tvalue = '' '', ttype_of = Rel RDesc, tmatches = []\<rparr>,
     \<lparr>tvalue = ''a'', ttype_of = TAG, tmatches = [VStr ''a'']\<rparr>,
     \<lparr>tvalue = '':nth-child(odd)'', ttype_of = CHILD, tmatches = [VStr ''nth'', VStr ''child'', VStr ''odd'', VNum 2, VNum 1]\<rparr>]"

lemma demo_selector: "tokenize ''r a:nth-child(odd)'' = Inr [demo_tokens]"
  by code_simp

lemma fresh_engine_idle: "engine_idle fresh_engine"
  by (simp add: engine_idle_def old_marks_def fresh_engine_def)

lemma demo_compiles: "\<exists>ms n. compile demo_tree [demo_tokens] 0 = Some (ms, n)"
  by (simp add: compile_def matcherFromTokens_def demo_tokens_def after_leading_def leading_def)

lemma selected_elements_witness:
  "\<exists>ms n. compile demo_tree [demo_tokens] 0 = Some (ms, n) \<and>
     fst (superMatcher demo_tree ms None [] False False 0 fresh_engine) = [[0, 0], [0, 1, 0]]"
proof -
  obtain ms n where c: "compile demo_tree [demo_tokens] 0 = Some (ms, n)" using demo_compiles by blast
  have "filter (selects demo_tree False [] demo_tokens) (all_below demo_tree []) = [[0, 0], [0, 1, 0]]" by code_simp
  then show ?thesis using selected_elements [OF c fresh_engine_idle, of "[]" False False 0] c by simp
qed

text \<open>The tag \<open>a\<close> in the context of the second child, whose own sibling of that name is not taken.\<close>

definition tag_a :: "token list" where
  "tag_a = [\<lparr>tvalue = ''a'', ttype_of = TAG, tmatches = [VStr ''a'']\<rparr>]"

lemma selects_in_context_witness:
  "\<exists>ms n. compile demo_tree [tag_a] 0 = Some (ms, n) \<and>
     fst (superMatcher demo_tree ms None [0, 1] False True 0 fresh_engine) = [[0, 1, 0]] \<and> beneath [0, 1] [0, 1, 0]"
proof -
  obtain ms n where c: "compile demo_tree [tag_a] 0 = Some (ms, n)"
    by (simp add: compile_def matcherFromTokens_def tag_a_def after_leading_def leading_def)
  have "filter (selects demo_tree False [0, 1] tag_a) (all_below demo_tree [0]) = [[0, 1, 0]]" by code_simp
  then have r: "fst (superMatcher demo_tree ms None [0, 1] False True 0 fresh_engine) = [[0, 1, 0]]"
    using superMatcher_run(1) [OF c fresh_engine_idle, of None "[0, 1]" False True 0] by (simp add: prod_eq_iff)
  moreover have "beneath [0, 1] [0, 1, 0]"
    by (rule selects_in_context [OF c fresh_engine_idle, of None _ "[0, 1]" True 0])
      (simp_all add: r [unfolded One_nat_def], simp add: tag_a_def leading_def)
  ultimately show ?thesis using c by blast
qed

text \<open>
  In an XML document the foundation of the matchers does not look at the context, and a sibling
  combinator anywhere in the selector widens the search to the parent: \<open>a + [x]\<close> in the context of the
  third child selects the second child of its parent.
\<close>

definition sibling_tokens :: "token list" where
  "sibling_tokens = [\<lparr>tvalue = ''a'', ttype_of = TAG, tmatches = [VStr ''a'']\<rparr>, \<lparr>tvalue = '' + '', ttype_of = Rel RNext, tmatches = []\<rparr>,
     \<lparr>tvalue = ''[x]'', ttype_of = ATTR, tmatches = [VUnits [120], VUndef, VUnits []]\<rparr>]"

lemma xml_leaves_context:
  "\<exists>ms n. compile demo_tree [sibling_tokens] 0 = Some (ms, n) \<and>
     fst (superMatcher demo_tree ms None [0, 2] True True 0 fresh_engine) = [[0, 1]] \<and>
     fst (superMatcher demo_tree ms None [0, 2] False True 0 fresh_engine) = []"
proof -
  have "attr_returns [120]" by code_simp
  then obtain ms n where c: "compile demo_tree [sibling_tokens] 0 = Some (ms, n)"
    by (simp add: compile_def matcherFromTokens_def sibling_tokens_def after_leading_def leading_def)
  have "filter (selects demo_tree True [0, 2] sibling_tokens) (all_below demo_tree [0]) = [[0, 1]]"
    "filter (selects demo_tree False [0, 2] sibling_tokens) (all_below demo_tree [0]) = []" by code_simp+
  moreover note superMatcher_run(1) [OF c fresh_engine_idle, of None "[0, 2]" _ True 0]
  ultimately show ?thesis using c by (simp add: prod_eq_iff)
qed

end
