(* ===== verification/RevealFragments.thy ===== *)
theory RevealFragments
  imports JsRegExp
begin

text \<open>
  The fragments of a slide of \<open>doc/slides/js/reveal.js\<close>: \<open>sortFragments\<close>, which groups and
  renumbers them, and what \<open>navigateFragment\<close> does to them. The lemmas show that going on
  always shows something that was hidden, and hides nothing.
\<close>

text \<open>A fragment: \<open>data-fragment-index\<close>, the classes, \<open>data-autoslide\<close>.\<close>

record frag =
  fr_index :: "int option"
  fr_visible :: bool
  fr_current :: bool
  fr_auto :: "int option"

section \<open>Fragments\<close>

text \<open>
  \<open>sortFragments\<close>: the fragments with an index in groups, those without one after them. What
  is no index of an array is a property of \<open>ordered\<close> that the loops over it do not see. The
  result is the order, by position, and the fragments renumbered by group.
\<close>

definition array_index :: "int \<Rightarrow> bool" where
  "array_index k = (0 \<le> k \<and> k < 4294967295)"

definition with_index :: "int option \<Rightarrow> frag list \<Rightarrow> nat list" where
  "with_index k fs = filter (\<lambda>p. fr_index (fs ! p) = k) [0..<length fs]"

definition indices_of :: "frag list \<Rightarrow> int list" where
  "indices_of fs = sort (remdups (filter array_index (List.map_filter fr_index fs)))"

definition frag_groups :: "frag list \<Rightarrow> nat list list" where
  "frag_groups fs = map (\<lambda>k. with_index (Some k) fs) (indices_of fs) @ map (\<lambda>p. [p]) (with_index None fs)"

definition number_group :: "nat \<times> nat list \<Rightarrow> frag list \<Rightarrow> frag list" where
  "number_group kg fs = fold (\<lambda>p fs. fs[p := (fs ! p)\<lparr>fr_index := Some (int (fst kg))\<rparr>]) (snd kg) fs"

definition sortFragments :: "frag list \<Rightarrow> frag list \<times> nat list" where
  "sortFragments fs =
     (let gs = frag_groups fs in (fold number_group (enumerate 0 gs) fs, concat gs))"

definition show_frag :: "frag \<Rightarrow> frag" where
  "show_frag f = f\<lparr>fr_visible := True, fr_current := False\<rparr>"

definition hide_frag :: "frag \<Rightarrow> frag" where
  "hide_frag f = (if fr_visible f then f\<lparr>fr_visible := False, fr_current := False\<rparr> else f)"

text \<open>The loop of \<open>navigateFragment\<close> at one fragment.\<close>

definition set_frag :: "int \<Rightarrow> frag \<Rightarrow> frag" where
  "set_frag k f =
     (let i = (case fr_index f of Some i \<Rightarrow> i | None \<Rightarrow> 0)
      in if i \<le> k then f\<lparr>fr_visible := True, fr_current := (i = k)\<rparr> else f\<lparr>fr_visible := False, fr_current := False\<rparr>)"

text \<open>The index of the last visible fragment, in an order made of the visible ones only.\<close>

fun write_back :: "frag list \<Rightarrow> frag list \<Rightarrow> frag list" where
  "write_back [] vs = []"
| "write_back (f # fs) vs = (if fr_visible f then hd vs # write_back fs (tl vs) else f # write_back fs vs)"

definition last_visible :: "frag list \<Rightarrow> frag list \<times> int" where
  "last_visible fs =
     (let (vs, order) = sortFragments (filter fr_visible fs)
      in (write_back fs vs, if order = [] then - 1 else (case fr_index (vs ! last order) of Some i \<Rightarrow> i | None \<Rightarrow> 0)))"

text \<open>\<open>navigateFragment\<close> on the fragments of a slide: with what it has shown and hidden.\<close>

definition step_fragments :: "int option \<Rightarrow> int option \<Rightarrow> frag list \<Rightarrow> frag list \<times> nat list \<times> nat list" where
  "step_fragments index offset fs =
     (let (fs1, order) = sortFragments fs in
      if order = [] then (fs1, [], [])
      else (let (fs2, i) = (case index of Some i \<Rightarrow> (fs1, i) | None \<Rightarrow> last_visible fs1);
                k = (case offset of Some d \<Rightarrow> i + d | None \<Rightarrow> i)
            in (fold (\<lambda>p fs. fs[p := set_frag k (fs ! p)]) order fs2,
                filter (\<lambda>p. fr_visible (set_frag k (fs2 ! p)) \<and> \<not> fr_visible (fs2 ! p)) order,
                filter (\<lambda>p. \<not> fr_visible (set_frag k (fs2 ! p)) \<and> fr_visible (fs2 ! p)) order)))"

section \<open>The groups\<close>

lemma with_index_mem: "p \<in> set (with_index k fs) \<longleftrightarrow> p < length fs \<and> fr_index (fs ! p) = k"
  by (auto simp: with_index_def)

definition valid_frag :: "frag \<Rightarrow> bool" where
  "valid_frag f = (case fr_index f of None \<Rightarrow> True | Some k \<Rightarrow> array_index k)"

lemma indices_of_mem: "k \<in> set (indices_of fs) \<longleftrightarrow> array_index k \<and> (\<exists>p < length fs. fr_index (fs ! p) = Some k)"
proof -
  have "k \<in> set (List.map_filter fr_index fs) \<longleftrightarrow> (\<exists>f \<in> set fs. fr_index f = Some k)"
    by (force simp: map_filter_def)
  then have "k \<in> set (indices_of fs) \<longleftrightarrow> array_index k \<and> (\<exists>f \<in> set fs. fr_index f = Some k)"
    by (auto simp: indices_of_def)
  then show ?thesis by (metis in_set_conv_nth)
qed

lemma distinct_indices: "distinct (indices_of fs)"
  by (simp add: indices_of_def)

lemma groups_disjoint:
  assumes "i < length (frag_groups fs)" "j < length (frag_groups fs)"
    and "p \<in> set (frag_groups fs ! i)" "p \<in> set (frag_groups fs ! j)"
  shows "i = j"
proof -
  let ?n = "length (indices_of fs)"
  have d: "distinct (with_index None fs)" by (simp add: with_index_def)
  have low: "k < ?n \<Longrightarrow> p \<in> set (frag_groups fs ! k) \<Longrightarrow> fr_index (fs ! p) = Some (indices_of fs ! k)" for k
    by (simp add: frag_groups_def nth_append with_index_mem)
  have high: "\<not> k < ?n \<Longrightarrow> k < length (frag_groups fs) \<Longrightarrow> p \<in> set (frag_groups fs ! k) \<Longrightarrow>
      p = with_index None fs ! (k - ?n) \<and> fr_index (fs ! p) = None" for k
  proof -
    assume k: "\<not> k < ?n" "k < length (frag_groups fs)" "p \<in> set (frag_groups fs ! k)"
    then have "k - ?n < length (with_index None fs)" by (simp add: frag_groups_def)
    then have "with_index None fs ! (k - ?n) \<in> set (with_index None fs)" by (rule nth_mem)
    with k show ?thesis by (simp add: frag_groups_def nth_append with_index_mem)
  qed
  show ?thesis
  proof (cases "i < ?n"; cases "j < ?n")
    assume ij: "i < ?n" "j < ?n"
    then have "indices_of fs ! i = indices_of fs ! j" using low [of i] low [of j] assms(3,4) by simp
    with ij show ?thesis using distinct_indices nth_eq_iff_index_eq by metis
  next
    assume ij: "\<not> i < ?n" "\<not> j < ?n"
    then have "with_index None fs ! (i - ?n) = with_index None fs ! (j - ?n)"
      using high [of i] high [of j] assms by metis
    moreover have "i - ?n < length (with_index None fs)" "j - ?n < length (with_index None fs)"
      using ij assms(1,2) by (simp_all add: frag_groups_def)
    ultimately have "i - ?n = j - ?n" using d nth_eq_iff_index_eq by metis
    with ij show ?thesis by simp
  qed (use low [of i] low [of j] high [of i] high [of j] assms in auto)
qed

lemma set_groups: "set (concat (frag_groups fs)) = {p. p < length fs \<and> valid_frag (fs ! p)}"
proof -
  have "p \<in> set (concat (frag_groups fs)) \<longleftrightarrow>
      (\<exists>k \<in> set (indices_of fs). p \<in> set (with_index (Some k) fs)) \<or> p \<in> set (with_index None fs)" for p
    by (auto simp: frag_groups_def)
  then have mem: "p \<in> set (concat (frag_groups fs)) \<longleftrightarrow> p < length fs \<and>
      (\<exists>k \<in> set (indices_of fs). fr_index (fs ! p) = Some k) \<or> p < length fs \<and> fr_index (fs ! p) = None" for p
    unfolding with_index_mem by blast
  have "p \<in> set (concat (frag_groups fs)) \<longleftrightarrow> p < length fs \<and> valid_frag (fs ! p)" for p
  proof (cases "fr_index (fs ! p)")
    case None
    then show ?thesis unfolding mem valid_frag_def by simp
  next
    case (Some a)
    then have "p < length fs \<Longrightarrow> a \<in> set (indices_of fs) \<longleftrightarrow> array_index a" using indices_of_mem by blast
    with Some show ?thesis unfolding mem valid_frag_def by auto
  qed
  then show ?thesis by blast
qed

lemma groups_nonempty: "g \<in> set (frag_groups fs) \<Longrightarrow> g \<noteq> []"
proof -
  assume "g \<in> set (frag_groups fs)"
  then obtain p where "p \<in> set g"
    by (auto simp: frag_groups_def indices_of_mem) (use with_index_mem in blast)
  then show ?thesis by auto
qed

section \<open>Renumbering\<close>

lemma number_group_length [simp]: "length (number_group kg fs) = length fs"
proof -
  have "length (fold (\<lambda>p fs. fs[p := (fs ! p)\<lparr>fr_index := k\<rparr>]) ps fs) = length fs" for k ps
    by (induction ps arbitrary: fs) simp_all
  then show ?thesis by (simp add: number_group_def)
qed

lemma number_group_nth:
  "p < length fs \<Longrightarrow> number_group (k, ps) fs ! p = (if p \<in> set ps then (fs ! p)\<lparr>fr_index := Some (int k)\<rparr> else fs ! p)"
proof (induction ps arbitrary: fs)
  case (Cons q ps)
  then show ?case by (cases "p = q") (simp_all add: number_group_def)
qed (simp add: number_group_def)

lemma renumber_length [simp]: "length (fold number_group kgs fs) = length fs"
  by (induction kgs arbitrary: fs) simp_all

lemma renumber_out:
  "p < length fs \<Longrightarrow> \<forall>j < length gs. p \<notin> set (gs ! j) \<Longrightarrow> fold number_group (enumerate n gs) fs ! p = fs ! p"
proof (induction gs arbitrary: n fs)
  case (Cons g gs)
  have "p \<notin> set g" using Cons.prems(2) by auto
  moreover have "\<forall>j < length gs. p \<notin> set (gs ! j)" using Cons.prems(2) by auto
  ultimately show ?case using Cons.IH [of "number_group (n, g) fs" "Suc n"] Cons.prems(1)
    by (simp add: number_group_nth)
qed simp

lemma renumber_in:
  "p < length fs \<Longrightarrow> i < length gs \<Longrightarrow> p \<in> set (gs ! i) \<Longrightarrow> \<forall>j < length gs. p \<in> set (gs ! j) \<longrightarrow> j = i \<Longrightarrow>
    fold number_group (enumerate n gs) fs ! p = (fs ! p)\<lparr>fr_index := Some (int (n + i))\<rparr>"
proof (induction gs arbitrary: n fs i)
  case (Cons g gs)
  show ?case
  proof (cases i)
    case 0
    then have "\<forall>j < length gs. p \<notin> set (gs ! j)" using Cons.prems(4) by auto
    with 0 Cons.prems show ?thesis using renumber_out [of p "number_group (n, g) fs" gs "Suc n"]
      by (simp add: number_group_nth)
  next
    case (Suc i')
    then have "p \<notin> set g" using Cons.prems(4) by auto
    then have p: "number_group (n, g) fs ! p = fs ! p" using Cons.prems(1) by (simp add: number_group_nth)
    have "j = i'" if "j < length gs" "p \<in> set (gs ! j)" for j using Cons.prems(4) [rule_format, of "Suc j"] that Suc by simp
    then have u: "\<forall>j < length gs. p \<in> set (gs ! j) \<longrightarrow> j = i'" by blast
    have "fold number_group (enumerate (Suc n) gs) (number_group (n, g) fs) ! p =
        (number_group (n, g) fs ! p)\<lparr>fr_index := Some (int (Suc n + i'))\<rparr>"
      by (rule Cons.IH [OF _ _ _ u]) (use Cons.prems(1,2,3) Suc in simp_all)
    then show ?thesis using Suc p by simp
  qed
qed simp

text \<open>\<open>sortFragments\<close> numbers the groups from 0 without gaps and orders what has an index or none.\<close>

definition idx :: "frag \<Rightarrow> int" where
  "idx f = (case fr_index f of Some i \<Rightarrow> i | None \<Rightarrow> 0)"

lemma sort_spec:
  assumes "sortFragments fs = (fs', order)"
  defines "m \<equiv> length (frag_groups fs)"
  shows "length fs' = length fs" "set order = {p. p < length fs \<and> valid_frag (fs ! p)}"
    and "p < length fs \<Longrightarrow> p \<notin> set order \<Longrightarrow> fs' ! p = fs ! p"
    and "p \<in> set order \<Longrightarrow> \<exists>j < m. fs' ! p = (fs ! p)\<lparr>fr_index := Some (int j)\<rparr>"
    and "j < m \<Longrightarrow> \<exists>p \<in> set order. fr_index (fs' ! p) = Some (int j)"
    and "order \<noteq> [] \<Longrightarrow> fr_index (fs' ! last order) = Some (int m - 1)"
    and "order = [] \<Longrightarrow> m = 0"
proof -
  let ?gs = "frag_groups fs"
  have fs': "fs' = fold number_group (enumerate 0 ?gs) fs" and order: "order = concat ?gs"
    using assms(1) by (simp_all add: sortFragments_def Let_def)
  show "length fs' = length fs" by (simp add: fs')
  show o: "set order = {p. p < length fs \<and> valid_frag (fs ! p)}" unfolding order by (rule set_groups)
  have mem: "p \<in> set order \<longleftrightarrow> (\<exists>j < m. p \<in> set (?gs ! j))" for p
    unfolding order m_def set_concat UN_iff by (metis in_set_conv_nth)
  have at: "fs' ! p = (fs ! p)\<lparr>fr_index := Some (int j)\<rparr>" if "j < m" "p \<in> set (?gs ! j)" for p j
  proof -
    have "p < length fs" using that mem o by blast
    moreover have "\<forall>i < length ?gs. p \<in> set (?gs ! i) \<longrightarrow> i = j"
      using groups_disjoint that unfolding m_def by blast
    ultimately have "fold number_group (enumerate 0 ?gs) fs ! p = (fs ! p)\<lparr>fr_index := Some (int (0 + j))\<rparr>"
      using that unfolding m_def by (intro renumber_in)
    then show ?thesis unfolding fs' by simp
  qed
  show "p < length fs \<Longrightarrow> p \<notin> set order \<Longrightarrow> fs' ! p = fs ! p"
    using renumber_out [of p fs ?gs 0] mem unfolding fs' m_def by blast
  show "p \<in> set order \<Longrightarrow> \<exists>j < m. fs' ! p = (fs ! p)\<lparr>fr_index := Some (int j)\<rparr>" using mem at by blast
  show "\<exists>p \<in> set order. fr_index (fs' ! p) = Some (int j)" if "j < m" for j
  proof -
    have "?gs ! j \<noteq> []" using that groups_nonempty nth_mem unfolding m_def by blast
    then obtain p where "p \<in> set (?gs ! j)" by (metis list.set_intros(1) neq_Nil_conv)
    with at [OF that] mem that show ?thesis by (metis frag.select_convs(1) frag.surjective frag.update_convs(1))
  qed
  show "order \<noteq> [] \<Longrightarrow> fr_index (fs' ! last order) = Some (int m - 1)"
  proof -
    assume ne: "order \<noteq> []"
    then have g: "?gs \<noteq> []" by (auto simp: order)
    then have l: "last ?gs \<noteq> []" using groups_nonempty last_in_set by blast
    have "order = concat (butlast ?gs) @ last ?gs" unfolding order using g
      by (metis append_butlast_last_id concat.simps(1,2) concat_append append_Nil2)
    with l have "last order \<in> set (last ?gs)" by simp
    then have "last order \<in> set (?gs ! (m - 1))" using g by (simp add: last_conv_nth m_def)
    moreover have "m - 1 < m" using g by (simp add: m_def)
    ultimately have "fs' ! last order = (fs ! last order)\<lparr>fr_index := Some (int (m - 1))\<rparr>" by (rule at [rotated])
    with g show ?thesis by (cases m) (simp_all add: m_def)
  qed
  show "m = 0" if "order = []"
  proof -
    have "\<forall>g \<in> set ?gs. g = []" using that unfolding order concat_eq_Nil_conv .
    then have "?gs = []" using groups_nonempty [of "hd ?gs" fs] hd_in_set [of ?gs] by metis
    then show ?thesis unfolding m_def by simp
  qed
qed

lemma write_back_nth:
  assumes "length vs = length (filter fr_visible fs)" and "p < length fs"
  shows "if fr_visible (fs ! p) then \<exists>q < length vs. write_back fs vs ! p = vs ! q \<and> filter fr_visible fs ! q = fs ! p
    else write_back fs vs ! p = fs ! p"
  using assms
proof (induction fs vs arbitrary: p rule: write_back.induct)
  case (2 f fs vs)
  show ?case
  proof (cases "fr_visible f")
    case True
    then obtain v vs' where vs: "vs = v # vs'" "length vs' = length (filter fr_visible fs)" using "2.prems"(1) by (cases vs) auto
    show ?thesis
    proof (cases p)
      case 0
      with True vs show ?thesis by auto
    next
      case (Suc q)
      with "2.IH"(1) [OF True, of q] True vs "2.prems"(2) show ?thesis by (auto split: if_splits)
    qed
  next
    case False
    with "2.IH"(2) [OF False, of "p - 1"] "2.prems" show ?thesis by (cases p) (auto split: if_splits)
  qed
qed simp

lemma write_back_length [simp]: "length (write_back fs vs) = length fs"
  by (induction fs vs rule: write_back.induct) auto

section \<open>Going on\<close>

lemma set_frag_idem [simp]: "set_frag k (set_frag k f) = set_frag k f"
  by (simp add: set_frag_def Let_def split: option.split)

lemma set_frags_nth:
  "p < length fs \<Longrightarrow> fold (\<lambda>p fs. fs[p := set_frag k (fs ! p)]) ps fs ! p = (if p \<in> set ps then set_frag k (fs ! p) else fs ! p)"
proof (induction ps arbitrary: fs)
  case (Cons q ps)
  then show ?case by (cases "p = q") simp_all
qed simp

lemma set_frags_length [simp]: "length (fold (\<lambda>p fs. fs[p := set_frag k (fs ! p)]) ps fs) = length fs"
  by (induction ps arbitrary: fs) simp_all

lemma set_frag_visible [simp]: "fr_visible (set_frag k f) \<longleftrightarrow> idx f \<le> k"
  by (simp add: set_frag_def idx_def Let_def)

lemma set_frag_index [simp]: "fr_index (set_frag k f) = fr_index f"
  by (simp add: set_frag_def Let_def)

text \<open>
  Renumbering the visible fragments among themselves: what is visible comes before the index
  after the last, and so does the first of the hidden groups.
\<close>

definition few :: "frag list \<Rightarrow> bool" where
  "few fs \<longleftrightarrow> length fs < 4294967295 \<and> (\<forall>f \<in> set fs. valid_frag f)"

lemma sorted_few:
  assumes "sortFragments fs0 = (fs, order)" and "few fs0"
  shows "set order = {..<length fs0}" "length fs = length fs0"
    and "p < length fs0 \<Longrightarrow> \<exists>j. j < length (frag_groups fs0) \<and> fs ! p = (fs0 ! p)\<lparr>fr_index := Some (int j)\<rparr>"
    and "length (frag_groups fs0) \<le> length fs0"
    and "j < length (frag_groups fs0) \<Longrightarrow> \<exists>p < length fs0. fr_index (fs ! p) = Some (int j)"
proof -
  note s = sort_spec [OF assms(1)]
  show o: "set order = {..<length fs0}" using s(2) assms(2) by (auto simp: few_def)
  show "length fs = length fs0" by (rule s(1))
  show "p < length fs0 \<Longrightarrow> \<exists>j. j < length (frag_groups fs0) \<and> fs ! p = (fs0 ! p)\<lparr>fr_index := Some (int j)\<rparr>"
    using s(4) [of p] o by auto
  show ex: "\<exists>p < length fs0. fr_index (fs ! p) = Some (int j)" if "j < length (frag_groups fs0)" for j
    using s(5) [OF that] o by auto
  have "{..<length (frag_groups fs0)} \<subseteq> (\<lambda>p. nat (idx (fs ! p))) ` {..<length fs0}"
  proof
    fix j assume "j \<in> {..<length (frag_groups fs0)}"
    then obtain p where "p < length fs0" "fr_index (fs ! p) = Some (int j)" using ex by auto
    then show "j \<in> (\<lambda>p. nat (idx (fs ! p))) ` {..<length fs0}" by (intro image_eqI [of _ _ p]) (simp_all add: idx_def)
  qed
  then have "card {..<length (frag_groups fs0)} \<le> card {..<length fs0}" by (rule surj_card_le [rotated]) simp
  then show "length (frag_groups fs0) \<le> length fs0" by simp
qed

lemma last_visible_spec:
  assumes "sortFragments fs0 = (fs, order)" and "few fs0" and lv: "last_visible fs = (fs', l)"
  shows "length fs' = length fs" "\<And>p. p < length fs \<Longrightarrow> fr_visible (fs' ! p) = fr_visible (fs ! p)"
    and "\<And>p. p < length fs \<Longrightarrow> valid_frag (fs' ! p)"
    and "\<And>p. p < length fs \<Longrightarrow> fr_visible (fs ! p) \<Longrightarrow> idx (fs' ! p) \<le> l"
    and "\<exists>p < length fs. \<not> fr_visible (fs ! p) \<Longrightarrow> \<exists>p < length fs. \<not> fr_visible (fs ! p) \<and> idx (fs' ! p) \<le> l + 1"
proof -
  let ?m = "length (frag_groups fs0)"
  let ?ws = "filter fr_visible fs"
  note s = sorted_few [OF assms(1,2)]
  have n: "?m < 4294967295" using s(4) assms(2) by (simp add: few_def)
  have idx: "\<exists>j < ?m. fr_index (fs ! p) = Some (int j)" if "p < length fs" for p
    using s(3) [of p] s(2) that by fastforce
  have valid: "valid_frag (fs ! p)" if "p < length fs" for p
    using idx [OF that] n by (auto simp: valid_frag_def array_index_def)
  have some: "\<exists>k. fr_index f = Some k \<and> array_index k" if "f \<in> set ?ws" for f
    using that idx n by (fastforce simp: in_set_conv_nth array_index_def)
  obtain vs ord where so: "sortFragments ?ws = (vs, ord)" by (cases "sortFragments ?ws")
  have fs': "fs' = write_back fs vs" and l: "l = int (length (frag_groups ?ws)) - 1"
    using lv sort_spec(6,7) [OF so] unfolding last_visible_def so by (auto simp: Let_def split: if_splits)
  have wf: "few ?ws" using some assms(2) s(2) length_filter_le [of fr_visible fs]
    by (auto simp: few_def valid_frag_def split: option.splits) fastforce+
  note v = sorted_few [OF so wf]
  note wb = write_back_nth [of vs fs, OF v(2)]
  show "length fs' = length fs" by (simp add: fs')
  have vis: "\<exists>q < length vs. fs' ! p = vs ! q \<and> ?ws ! q = fs ! p" if "p < length fs" "fr_visible (fs ! p)" for p
    using wb [OF that(1)] that(2) by (simp add: fs')
  have hid: "fs' ! p = fs ! p" if "p < length fs" "\<not> fr_visible (fs ! p)" for p
    using wb [OF that(1)] that(2) by (simp add: fs')
  have at: "\<exists>j < length (frag_groups ?ws). fs' ! p = (fs ! p)\<lparr>fr_index := Some (int j)\<rparr>"
    if p: "p < length fs" "fr_visible (fs ! p)" for p
  proof -
    obtain q where q: "q < length vs" "fs' ! p = vs ! q" "?ws ! q = fs ! p" using vis [OF p] by blast
    with v(3) [of q] v(2) show ?thesis by auto
  qed
  show "fr_visible (fs' ! p) = fr_visible (fs ! p)" if "p < length fs" for p
    using at [OF that] hid [OF that] by fastforce
  have g: "length (frag_groups ?ws) < 4294967295" using v(4) wf by (simp add: few_def)
  show "valid_frag (fs' ! p)" if "p < length fs" for p
    using at [OF that] hid [OF that] valid [OF that] g by (cases "fr_visible (fs ! p)") (auto simp: valid_frag_def array_index_def)
  show "idx (fs' ! p) \<le> l" if "p < length fs" "fr_visible (fs ! p)" for p
    using at [OF that] by (auto simp: idx_def l)
  show "\<exists>p < length fs. \<not> fr_visible (fs ! p) \<and> idx (fs' ! p) \<le> l + 1"
    if "\<exists>p < length fs. \<not> fr_visible (fs ! p)"
  proof -
    let ?hidden = "\<lambda>j. \<exists>p < length fs. \<not> fr_visible (fs ! p) \<and> fr_index (fs ! p) = Some (int j)"
    from that idx have "\<exists>j. ?hidden j" by blast
    then have h: "?hidden (LEAST j. ?hidden j)" by (rule LeastI_ex)
    define j where "j = (LEAST j. ?hidden j)"
    obtain p where p: "p < length fs" "\<not> fr_visible (fs ! p)" "fr_index (fs ! p) = Some (int j)"
      using h unfolding j_def by blast
    have "int ` {..<j} \<subseteq> set (indices_of ?ws)"
    proof
      fix k assume "k \<in> int ` {..<j}"
      then obtain i where i: "k = int i" "i < j" by auto
      have "j < ?m" using idx [OF p(1)] p(3) by auto
      then obtain q where q: "q < length fs" "fr_index (fs ! q) = Some (int i)" using s(5) [of i] i s(2) by auto
      have "fr_visible (fs ! q)" using q not_less_Least [of i ?hidden] i(2) unfolding j_def by blast
      then have mem: "fs ! q \<in> set ?ws" using q(1) by simp
      then have "array_index (int i)" using some q(2) by fastforce
      then show "k \<in> set (indices_of ?ws)" using mem q(2) i(1) indices_of_mem in_set_conv_nth by metis
    qed
    then have "card (int ` {..<j}) \<le> card (set (indices_of ?ws))" by (intro card_mono) simp_all
    also have "\<dots> = length (indices_of ?ws)" using distinct_indices by (rule distinct_card)
    also have "\<dots> \<le> length (frag_groups ?ws)" by (simp add: frag_groups_def)
    finally have "int j \<le> l + 1" by (simp add: l card_image)
    then show ?thesis using p hid [OF p(1,2)] by (intro exI [of _ p]) (simp add: idx_def)
  qed
qed

text \<open>The step itself, once the index to go to is known.\<close>

lemma step_to:
  assumes "step_fragments index offset fs0 = (fs', shown, hidden)"
    and "sortFragments fs0 = (fs, order)" and "set order = {..<length fs0}" and "fs0 \<noteq> []"
    and "(case index of Some i \<Rightarrow> (fs, i) | None \<Rightarrow> last_visible fs) = (fs2, i)" and "length fs2 = length fs0"
  defines "k \<equiv> (case offset of Some d \<Rightarrow> i + d | None \<Rightarrow> i)"
  shows "length fs' = length fs0" "\<And>p. p < length fs0 \<Longrightarrow> fs' ! p = set_frag k (fs2 ! p)"
    and "set shown = {p. p < length fs0 \<and> idx (fs2 ! p) \<le> k \<and> \<not> fr_visible (fs2 ! p)}"
    and "set hidden = {p. p < length fs0 \<and> \<not> idx (fs2 ! p) \<le> k \<and> fr_visible (fs2 ! p)}"
proof -
  have "0 \<in> set order" unfolding assms(3) using assms(4) by simp
  then have "order \<noteq> []" by (metis empty_iff list.set(1))
  then have eq: "fs' = fold (\<lambda>p fs. fs[p := set_frag k (fs ! p)]) order fs2"
    "shown = filter (\<lambda>p. fr_visible (set_frag k (fs2 ! p)) \<and> \<not> fr_visible (fs2 ! p)) order"
    "hidden = filter (\<lambda>p. \<not> fr_visible (set_frag k (fs2 ! p)) \<and> fr_visible (fs2 ! p)) order"
    using assms(1,2,5) by (simp_all add: step_fragments_def k_def Let_def)
  show "length fs' = length fs0" unfolding eq using assms(6) by simp
  show "fs' ! p = set_frag k (fs2 ! p)" if "p < length fs0" for p
    unfolding eq using that assms(3,6) by (simp add: set_frags_nth)
  show "set shown = {p. p < length fs0 \<and> idx (fs2 ! p) \<le> k \<and> \<not> fr_visible (fs2 ! p)}"
    "set hidden = {p. p < length fs0 \<and> \<not> idx (fs2 ! p) \<le> k \<and> fr_visible (fs2 ! p)}"
    unfolding eq using assms(3) by auto
qed

lemma step_empty: "step_fragments index offset [] = ([], [], [])"
  by (simp add: step_fragments_def sortFragments_def frag_groups_def indices_of_def with_index_def map_filter_def)

lemma step_any:
  assumes "step_fragments index offset fs0 = (fs', shown, hidden)"
    and "sortFragments fs0 = (fs, order)" and "set order = {..<length fs0}"
    and "(case index of Some i \<Rightarrow> (fs, i) | None \<Rightarrow> last_visible fs) = (fs2, i)" and "length fs2 = length fs0"
  defines "k \<equiv> (case offset of Some d \<Rightarrow> i + d | None \<Rightarrow> i)"
  shows "length fs' = length fs0 \<and> (\<forall>p < length fs0. fs' ! p = set_frag k (fs2 ! p)) \<and>
    set shown = {p. p < length fs0 \<and> idx (fs2 ! p) \<le> k \<and> \<not> fr_visible (fs2 ! p)} \<and>
    set hidden = {p. p < length fs0 \<and> \<not> idx (fs2 ! p) \<le> k \<and> fr_visible (fs2 ! p)}"
proof (cases "fs0 = []")
  case True
  with assms(1) show ?thesis by (simp add: step_empty)
next
  case False
  from step_to [OF assms(1,2,3) False assms(4,5), folded k_def] show ?thesis by blast
qed

lemma step_next:
  assumes "step_fragments None (Some 1) fs0 = (fs', shown, hidden)" and "few fs0"
  shows "length fs' = length fs0" "few fs'" "hidden = []"
    and "\<And>p. p < length fs0 \<Longrightarrow> fr_visible (fs0 ! p) \<Longrightarrow> fr_visible (fs' ! p)"
    and "shown = [] \<Longrightarrow> p < length fs0 \<Longrightarrow> fr_visible (fs0 ! p)"
    and "\<exists>p < length fs0. \<not> fr_visible (fs0 ! p) \<Longrightarrow> \<exists>p < length fs0. \<not> fr_visible (fs0 ! p) \<and> fr_visible (fs' ! p)"
    and "p < length fs0 \<Longrightarrow> \<not> fr_visible (fs0 ! p) \<Longrightarrow> fr_visible (fs' ! p) \<Longrightarrow> shown \<noteq> []"
    and "shown \<noteq> [] \<Longrightarrow> \<exists>p < length fs0. \<not> fr_visible (fs0 ! p) \<and> fr_visible (fs' ! p)"
proof -
  obtain fs order where so: "sortFragments fs0 = (fs, order)" by (cases "sortFragments fs0")
  obtain fs2 l where lv: "last_visible fs = (fs2, l)" by (cases "last_visible fs")
  note s = sorted_few [OF so assms(2)]
  note v = last_visible_spec [OF so assms(2) lv]
  have vis: "fr_visible (fs2 ! p) = fr_visible (fs0 ! p)" if "p < length fs0" for p
    using v(2) [of p] s(2) s(3) [OF that] that by auto
  have l2: "length fs2 = length fs0" using v(1) s(2) by simp
  have st: "length fs' = length fs0" "\<forall>p < length fs0. fs' ! p = set_frag (l + 1) (fs2 ! p)"
    "set shown = {p. p < length fs0 \<and> idx (fs2 ! p) \<le> l + 1 \<and> \<not> fr_visible (fs2 ! p)}"
    "set hidden = {p. p < length fs0 \<and> \<not> idx (fs2 ! p) \<le> l + 1 \<and> fr_visible (fs2 ! p)}"
    using step_any [OF assms(1) so s(1), of fs2 l] lv l2 by simp_all
  show len: "length fs' = length fs0" by (rule st(1))
  show "few fs'" unfolding few_def
  proof (intro conjI ballI)
    show "length fs' < 4294967295" using assms(2) len by (simp add: few_def)
    fix f assume "f \<in> set fs'"
    then obtain p where "p < length fs0" "f = fs' ! p" using len by (auto simp: in_set_conv_nth)
    then show "valid_frag f" using st(2) v(3) [of p] s(2) by (simp add: valid_frag_def)
  qed
  have low: "idx (fs2 ! p) \<le> l" if "p < length fs0" "fr_visible (fs0 ! p)" for p
    using v(4) [of p] v(2) [of p] vis [OF that(1)] s(2) that by simp
  show "hidden = []"
  proof -
    have "set hidden = {}" unfolding st(4) using low vis by fastforce
    then show ?thesis by simp
  qed
  show "fr_visible (fs' ! p)" if "p < length fs0" "fr_visible (fs0 ! p)" for p
    using st(2) low [OF that] that by simp
  have first: "\<exists>p < length fs0. \<not> fr_visible (fs0 ! p) \<and> idx (fs2 ! p) \<le> l + 1"
    if "\<exists>p < length fs0. \<not> fr_visible (fs0 ! p)"
    using v(5) that v(2) vis s(2) by metis
  then show "\<exists>p < length fs0. \<not> fr_visible (fs0 ! p) \<and> fr_visible (fs' ! p)"
    if "\<exists>p < length fs0. \<not> fr_visible (fs0 ! p)"
    using that st(2) by (metis set_frag_visible)
  show "fr_visible (fs0 ! p)" if "shown = []" "p < length fs0" for p
    using first that st(3) vis by (metis (mono_tags, lifting) empty_iff list.set(1) mem_Collect_eq)
  show "shown \<noteq> []" if "p < length fs0" "\<not> fr_visible (fs0 ! p)" "fr_visible (fs' ! p)" for p
    using st(2,3) that vis [OF that(1)] by (metis (mono_tags, lifting) empty_iff list.set(1) mem_Collect_eq set_frag_visible)
  show "\<exists>p < length fs0. \<not> fr_visible (fs0 ! p) \<and> fr_visible (fs' ! p)" if "shown \<noteq> []"
  proof -
    have "hd shown \<in> set shown" using that by (rule hd_in_set)
    then have "hd shown < length fs0 \<and> idx (fs2 ! hd shown) \<le> l + 1 \<and> \<not> fr_visible (fs2 ! hd shown)" unfolding st(3) by blast
    then show ?thesis using vis [of "hd shown"] st(2) by auto
  qed
qed

text \<open>No step makes an index that is none.\<close>

lemma few_sort: "few fs0 \<Longrightarrow> few (fst (sortFragments fs0))"
proof -
  assume f: "few fs0"
  obtain fs order where so: "sortFragments fs0 = (fs, order)" by (cases "sortFragments fs0")
  note s = sorted_few [OF so f]
  have "valid_frag (fs ! p)" if p: "p < length fs0" for p
    using s(3) [OF p] s(4) f by (auto simp: few_def valid_frag_def array_index_def)
  then show ?thesis using s(2) f by (simp add: so few_def all_set_conv_all_nth)
qed

lemma few_step:
  assumes "step_fragments index offset fs0 = (fs', shown, hidden)" and "few fs0"
  shows "few fs'"
proof -
  obtain fs order where so: "sortFragments fs0 = (fs, order)" by (cases "sortFragments fs0")
  note s = sorted_few [OF so assms(2)]
  obtain fs2 i where two: "(case index of Some i \<Rightarrow> (fs, i) | None \<Rightarrow> last_visible fs) = (fs2, i)" by fastforce
  have v: "length fs2 = length fs0 \<and> (\<forall>p < length fs0. valid_frag (fs2 ! p))"
  proof (cases index)
    case None
    then show ?thesis using last_visible_spec(1,3) [OF so assms(2)] two s(2) by simp
  next
    case (Some k)
    then show ?thesis using two few_sort [OF assms(2)] s(2) by (simp add: so few_def all_set_conv_all_nth)
  qed
  with step_any [OF assms(1) so s(1) two] show ?thesis
    using assms(2) by (simp add: few_def all_set_conv_all_nth valid_frag_def)
qed

section \<open>The rank of a fragment\<close>

text \<open>
  How many steps come before a fragment: the different indices below its own, or, if it has
  none, all of them and the fragments without one before it.
\<close>

definition frag_rank :: "frag list \<Rightarrow> nat \<Rightarrow> nat" where
  "frag_rank fs p =
     (let used = set (List.map_filter fr_index fs) in
      case fr_index (fs ! p) of
        Some i \<Rightarrow> card {k \<in> used. k < i}
      | None \<Rightarrow> card used + card (set (filter (\<lambda>q. fr_index (fs ! q) = None) [0..<p])))"

lemma sorted_position:
  assumes "sorted xs" "distinct xs" "j < length xs"
  shows "card {x \<in> set xs. x < xs ! j} = j"
proof -
  have "{x \<in> set xs. x < xs ! j} = (!) xs ` {..<j}"
  proof (intro set_eqI iffI)
    fix x assume "x \<in> {x \<in> set xs. x < xs ! j}"
    then obtain i where i: "i < length xs" "x = xs ! i" "xs ! i < xs ! j" by (auto simp: in_set_conv_nth)
    then have "i < j" using assms(1,3) sorted_nth_mono [of xs j i] by (meson leD not_le_imp_less)
    with i show "x \<in> (!) xs ` {..<j}" by blast
  next
    fix x assume "x \<in> (!) xs ` {..<j}"
    then obtain i where i: "i < j" "x = xs ! i" by auto
    then have "xs ! i \<le> xs ! j" "xs ! i \<noteq> xs ! j"
      using assms sorted_nth_mono [of xs i j] nth_eq_iff_index_eq [OF assms(2), of i j] by auto
    then show "x \<in> {x \<in> set xs. x < xs ! j}" using i assms(3) by simp
  qed
  moreover have "inj_on ((!) xs) {..<j}" using assms(2,3) by (auto intro!: inj_onI simp: nth_eq_iff_index_eq)
  ultimately show ?thesis by (simp add: card_image)
qed

lemma sort_rank:
  assumes "sortFragments fs0 = (fs, order)" and "few fs0" and p: "p < length fs0"
  shows "idx (fs ! p) = int (frag_rank fs0 p)"
proof -
  let ?gs = "frag_groups fs0" and ?ks = "indices_of fs0" and ?ns = "with_index None fs0"
  have fs: "fs = fold number_group (enumerate 0 ?gs) fs0" using assms(1) by (simp add: sortFragments_def Let_def)
  have used: "set (List.map_filter fr_index fs0) = set ?ks"
  proof -
    have "array_index k" if "k \<in> set (List.map_filter fr_index fs0)" for k
    proof -
      have "\<exists>f \<in> set fs0. fr_index f = Some k" using that by (force simp: map_filter_def)
      then obtain f where "f \<in> set fs0" "fr_index f = Some k" by blast
      with assms(2) show ?thesis unfolding few_def valid_frag_def by fastforce
    qed
    then show ?thesis by (auto simp: indices_of_def)
  qed
  have at: "idx (fs ! p) = int j" if "j < length ?gs" "p \<in> set (?gs ! j)" for j
  proof -
    have "\<forall>i < length ?gs. p \<in> set (?gs ! i) \<longrightarrow> i = j" using groups_disjoint that by blast
    with that p have "fs ! p = (fs0 ! p)\<lparr>fr_index := Some (int (0 + j))\<rparr>" unfolding fs by (intro renumber_in)
    then show ?thesis by (simp add: idx_def)
  qed
  show ?thesis
  proof (cases "fr_index (fs0 ! p)")
    case (Some i)
    moreover have "array_index i" using assms(2) nth_mem [OF p] Some unfolding few_def valid_frag_def by fastforce
    ultimately have "i \<in> set ?ks" using indices_of_mem p by blast
    then obtain j where j: "j < length ?ks" "?ks ! j = i" by (auto simp: in_set_conv_nth)
    then have "j < length ?gs" "p \<in> set (?gs ! j)" using Some p by (simp_all add: frag_groups_def nth_append with_index_mem)
    then have "idx (fs ! p) = int j" by (rule at)
    moreover have "card {k \<in> set ?ks. k < i} = j"
      using sorted_position [of ?ks j] j distinct_indices by (simp add: indices_of_def)
    ultimately show ?thesis using Some used by (simp add: frag_rank_def)
  next
    case None
    then have "p \<in> set ?ns" using p by (simp add: with_index_mem)
    then obtain j where j: "j < length ?ns" "?ns ! j = p" by (auto simp: in_set_conv_nth)
    then have "length ?ks + j < length ?gs" "p \<in> set (?gs ! (length ?ks + j))"
      by (simp_all add: frag_groups_def nth_append)
    then have "idx (fs ! p) = int (length ?ks + j)" by (rule at)
    moreover have "sorted ?ns" "distinct ?ns" by (simp_all add: with_index_def sorted_wrt_filter)
    then have "card {q \<in> set ?ns. q < p} = j" using sorted_position [of ?ns j] j by simp
    moreover have "{q \<in> set ?ns. q < p} = set (filter (\<lambda>q. fr_index (fs0 ! q) = None) [0..<p])" using p by (auto simp: with_index_mem)
    moreover have "card (set ?ks) = length ?ks" using distinct_indices by (rule distinct_card)
    ultimately show ?thesis using None used by (simp add: frag_rank_def)
  qed
qed

text \<open>
  C33: going to a step of a slide's fragments shows exactly those whose rank is at most the
  step, and reports exactly those that were hidden or visible before.
\<close>

theorem fragments_follow_rank:
  assumes "few fs" and "step_fragments (Some k) None fs = (fs', shown, hidden)"
  shows "length fs' = length fs \<and> (\<forall>p < length fs. fr_visible (fs' ! p) = (int (frag_rank fs p) \<le> k)) \<and>
    set shown = {p. p < length fs \<and> \<not> fr_visible (fs ! p) \<and> fr_visible (fs' ! p)} \<and>
    set hidden = {p. p < length fs \<and> fr_visible (fs ! p) \<and> \<not> fr_visible (fs' ! p)}"
proof -
  obtain fs1 order where so: "sortFragments fs = (fs1, order)" by (cases "sortFragments fs")
  note s = sorted_few [OF so assms(1)]
  have vis: "fr_visible (fs1 ! p) = fr_visible (fs ! p)" if "p < length fs" for p using s(3) [OF that] by auto
  from step_any [OF assms(2) so s(1), of fs1 k] s(2)
  have st: "length fs' = length fs" "\<forall>p < length fs. fs' ! p = set_frag k (fs1 ! p)"
    "set shown = {p. p < length fs \<and> idx (fs1 ! p) \<le> k \<and> \<not> fr_visible (fs1 ! p)}"
    "set hidden = {p. p < length fs \<and> \<not> idx (fs1 ! p) \<le> k \<and> fr_visible (fs1 ! p)}" by simp_all
  have v: "fr_visible (fs' ! p) = (idx (fs1 ! p) \<le> k)" if "p < length fs" for p using st(2) that by simp
  show ?thesis using st(1) v sort_rank [OF so assms(1)] vis unfolding st(3,4) by auto
qed

definition three_frags :: "frag list" where
  "three_frags = map (\<lambda>i. \<lparr>fr_index = i, fr_visible = False, fr_current = False, fr_auto = None\<rparr>) [None, Some 7, Some 2, Some 7]"

theorem fragments_follow_rank_witness:
  "map fr_visible (fst (step_fragments (Some 1) None three_frags)) = [False, True, True, True]"
proof -
  have f: "few three_frags" by (simp add: few_def three_frags_def valid_frag_def array_index_def)
  obtain fs' shown hidden where st: "step_fragments (Some 1) None three_frags = (fs', shown, hidden)"
    by (cases "step_fragments (Some 1) None three_frags")
  have n: "length three_frags = 4" by (simp add: three_frags_def)
  have r: "frag_rank three_frags 0 = 2" "frag_rank three_frags 1 = 1" "frag_rank three_frags 2 = 0" "frag_rank three_frags 3 = 1"
    by code_simp+
  have "length fs' = 4 \<and> (\<forall>p < 4. fr_visible (fs' ! p) = (int (frag_rank three_frags p) \<le> 1))"
    using fragments_follow_rank [OF f st, unfolded n] by blast
  then have l: "length fs' = 4" and v: "\<And>p. p < 4 \<Longrightarrow> fr_visible (fs' ! p) = (int (frag_rank three_frags p) \<le> 1)" by auto
  have "map fr_visible fs' = map (\<lambda>p. fr_visible (fs' ! p)) [0..<4]" by (rule nth_equalityI) (simp_all add: l)
  also have "[0..<4] = [0, 1, 2, 3::nat]" by code_simp
  finally show ?thesis using v [of 0] v [of 1] v [of 2] v [of 3] r by (simp add: st)
qed

end
