(* ===== verification/RevealDeck.thy ===== *)
theory RevealDeck
  imports RevealFragments
begin

text \<open>
  The deck of \<open>doc/slides/js/reveal.js\<close>: its slides with the classes and attributes the
  navigation keeps on them, \<open>updateSlides\<close>, \<open>updateSlidesVisibility\<close> and the counts made over a deck. A deck is a list
  of horizontal slides, each of which may be a stack of vertical ones; sections are not
  nested any deeper.
\<close>

section \<open>Slides\<close>

record sect =
  sc_id :: "string option"
  sc_state :: "string option"
  sc_auto :: "int option"
  sc_media :: "int list"           \<comment> \<open>durations of its media with \<open>data-autoplay\<close>\<close>
  sc_past :: bool
  sc_present :: bool
  sc_future :: bool
  sc_hidden :: bool
  sc_aria :: bool
  sc_shown :: bool
  sc_frags :: "frag list"

record hsect =
  hsec :: sect
  vsecs :: "sect list"
  stack :: bool
  prevv :: "int option"            \<comment> \<open>\<open>data-previous-indexv\<close>\<close>
  startv :: "int option"           \<comment> \<open>\<open>data-start-indexv\<close>\<close>

record rconfig =
  rc_loop :: bool
  rc_rtl :: bool
  rc_fragments :: bool
  rc_overview :: bool
  rc_pause :: bool
  rc_history :: bool
  rc_autoSlide :: int
  rc_slidesAuto :: "int option"    \<comment> \<open>\<open>data-autoslide\<close> of the element that holds the slides\<close>
  rc_autoSlideStoppable :: bool
  rc_viewDistance :: int
  rc_mobile :: bool
  rc_printing :: bool
  rc_slideNumber :: "string option"
  rc_transforms3d :: bool

section \<open>updateSlides\<close>

text \<open>The language's \<open>%\<close>, whose sign is that of the dividend.\<close>

definition js_rem :: "int \<Rightarrow> int \<Rightarrow> int" where
  "js_rem a n = (if a < 0 then - ((- a) mod abs n) else a mod abs n)"

definition clamp_index :: "rconfig \<Rightarrow> nat \<Rightarrow> int \<Rightarrow> int" where
  "clamp_index C n index =
     (let i = (if rc_loop C then (let r = js_rem index (int n) in if r < 0 then int n + r else r) else index)
      in max (min i (int n - 1)) 0)"

definition map_frags :: "(frag \<Rightarrow> frag) \<Rightarrow> sect \<Rightarrow> sect" where
  "map_frags f s = s\<lparr>sc_frags := map f (sc_frags s)\<rparr>"

text \<open>The classes of the \<open>i\<close>-th of the slides when the one at \<open>index\<close> is shown.\<close>

definition mark_slide :: "rconfig \<Rightarrow> bool \<Rightarrow> int \<Rightarrow> int \<Rightarrow> sect \<Rightarrow> sect" where
  "mark_slide C reverse index i s =
     (let s0 = s\<lparr>sc_past := False, sc_present := False, sc_future := False, sc_hidden := True, sc_aria := True\<rparr>;
          s1 = (if rc_printing C then s0\<lparr>sc_present := True\<rparr>
                else if i < index then (if reverse then s0\<lparr>sc_future := True\<rparr> else s0\<lparr>sc_past := True\<rparr>)
                else if i > index then (if reverse then s0\<lparr>sc_past := True\<rparr> else s0\<lparr>sc_future := True\<rparr>)
                else s0)
      in if i = index then s1\<lparr>sc_present := True, sc_hidden := False, sc_aria := False\<rparr> else s1)"

text \<open>The fragments in a slide before the one shown are all visible, those after it are not.\<close>

definition mark_frags :: "rconfig \<Rightarrow> int \<Rightarrow> int \<Rightarrow> sect \<Rightarrow> sect" where
  "mark_frags C index i s =
     (if rc_printing C \<or> \<not> rc_fragments C then s
      else if i < index then map_frags show_frag s
      else if i > index then map_frags hide_frag s
      else s)"

definition mark_h :: "rconfig \<Rightarrow> int \<Rightarrow> nat \<Rightarrow> hsect \<Rightarrow> hsect" where
  "mark_h C index i h =
     h\<lparr>hsec := mark_frags C index (int i) (mark_slide C (rc_rtl C) index (int i) (hsec h)),
       vsecs := map (mark_frags C index (int i)) (vsecs h),
       stack := (stack h \<or> vsecs h \<noteq> [])\<rparr>"

definition mark_v :: "rconfig \<Rightarrow> int \<Rightarrow> nat \<Rightarrow> sect \<Rightarrow> sect" where
  "mark_v C index i s = mark_frags C index (int i) (mark_slide C False index (int i) s)"

text \<open>The names in \<open>data-state\<close>, split at every single space, and those that \<open>classList.add\<close> takes.\<close>

definition names_of_state :: "string option \<Rightarrow> string list" where
  "names_of_state t = (case t of None \<Rightarrow> [] | Some [] \<Rightarrow> [] | Some t \<Rightarrow> split_on (CHR '' '') t)"

definition state_names :: "sect \<Rightarrow> string list" where
  "state_names s = names_of_state (sc_state s)"

definition class_token :: "string \<Rightarrow> bool" where
  "class_token t = (t \<noteq> [] \<and> (\<forall>c \<in> set t. c \<notin> {CHR 0x09, CHR 0x0A, CHR 0x0C, CHR 0x0D, CHR '' ''}))"

definition map_nth :: "(nat \<Rightarrow> 'a \<Rightarrow> 'b) \<Rightarrow> 'a list \<Rightarrow> 'b list" where
  "map_nth f xs = map (\<lambda>i. f i (xs ! i)) [0..<length xs]"

text \<open>\<open>.slides>section\<close>.\<close>

definition update_h :: "rconfig \<Rightarrow> int \<Rightarrow> hsect list \<Rightarrow> hsect list \<times> int \<times> string list" where
  "update_h C index deck =
     (if deck = [] then (deck, 0, [])
      else (let i = clamp_index C (length deck) index
            in (map_nth (mark_h C i) deck, i, state_names (hsec (deck ! nat i)))))"

text \<open>\<open>.slides>section.present>section\<close>: the vertical slides under every present slide, in order.\<close>

definition present_verticals :: "hsect list \<Rightarrow> sect list" where
  "present_verticals deck = concat (map (\<lambda>h. if sc_present (hsec h) then vsecs h else []) deck)"

fun put_verticals :: "hsect list \<Rightarrow> sect list \<Rightarrow> hsect list" where
  "put_verticals [] vs = []"
| "put_verticals (h # deck) vs =
     (if sc_present (hsec h)
      then h\<lparr>vsecs := take (length (vsecs h)) vs\<rparr> # put_verticals deck (drop (length (vsecs h)) vs)
      else h # put_verticals deck vs)"

definition update_v :: "rconfig \<Rightarrow> int \<Rightarrow> hsect list \<Rightarrow> hsect list \<times> int \<times> string list" where
  "update_v C index deck =
     (let vs = present_verticals deck in
      if vs = [] then (deck, 0, [])
      else (let i = clamp_index C (length vs) index
            in (put_verticals deck (map_nth (mark_v C i) vs), i, state_names (vs ! nat i))))"

section \<open>updateSlidesVisibility and counts\<close>

definition getPreviousVerticalIndex :: "hsect option \<Rightarrow> int" where
  "getPreviousVerticalIndex h =
     (case h of
        Some h \<Rightarrow> (if stack h then (case (if startv h \<noteq> None then startv h else prevv h) of Some v \<Rightarrow> v | None \<Rightarrow> 0) else 0)
      | None \<Rightarrow> 0)"

definition max_value :: int where "max_value = 2 ^ 1024 - 2 ^ 971"

definition view_distance :: "rconfig \<Rightarrow> bool \<Rightarrow> int" where
  "view_distance C overview =
     (if rc_printing C then max_value
      else if rc_mobile C then (if overview then 6 else 2)
      else if overview then 10 else rc_viewDistance C)"

definition distance_x :: "rconfig \<Rightarrow> int \<Rightarrow> nat \<Rightarrow> int \<Rightarrow> int \<Rightarrow> int" where
  "distance_x C dist n indexh x =
     (if rc_loop C then (if int n - dist = 0 then 0 else abs (js_rem (indexh - x) (int n - dist))) else abs (indexh - x))"

definition visible_h :: "rconfig \<Rightarrow> int \<Rightarrow> nat \<Rightarrow> int \<Rightarrow> int \<Rightarrow> nat \<Rightarrow> hsect \<Rightarrow> hsect" where
  "visible_h C dist n indexh indexv x h =
     (let dx = distance_x C dist n indexh (int x);
          oy = getPreviousVerticalIndex (Some h);
          dy = (\<lambda>y. if int x = indexh then abs (indexv - int y) else abs (int y - oy))
      in h\<lparr>hsec := (hsec h)\<lparr>sc_shown := (dx < dist)\<rparr>,
           vsecs := map_nth (\<lambda>y s. s\<lparr>sc_shown := (dx + dy y < dist)\<rparr>) (vsecs h)\<rparr>)"

definition updateSlidesVisibility :: "rconfig \<Rightarrow> bool \<Rightarrow> int \<Rightarrow> int \<Rightarrow> hsect list \<Rightarrow> hsect list" where
  "updateSlidesVisibility C overview indexh indexv deck =
     map_nth (visible_h C (view_distance C overview) (length deck) indexh indexv) deck"

text \<open>\<open>getSlidePastCount\<close>: with whether the present slide has been met.\<close>

fun past_in_stack :: "sect list \<Rightarrow> nat \<times> bool" where
  "past_in_stack [] = (0, False)"
| "past_in_stack (s # ss) = (if sc_present s then (0, True) else (case past_in_stack ss of (n, b) \<Rightarrow> (Suc n, b)))"

fun getSlidePastCount :: "hsect list \<Rightarrow> nat" where
  "getSlidePastCount [] = 0"
| "getSlidePastCount (h # deck) =
     (case past_in_stack (vsecs h) of
        (n, True) \<Rightarrow> n
      | (n, False) \<Rightarrow>
          if sc_present (hsec h) then n
          else n + (if stack h then 0 else 1) + getSlidePastCount deck)"

definition getTotalSlides :: "hsect list \<Rightarrow> nat" where
  "getTotalSlides deck = sum_list (map (\<lambda>h. (if stack h then 0 else 1) + length (vsecs h)) deck)"

definition resetVerticalSlides :: "hsect list \<Rightarrow> hsect list" where
  "resetVerticalSlides deck =
     map (\<lambda>h. h\<lparr>vsecs := map_nth (\<lambda>y s. if y > 0
        then s\<lparr>sc_present := False, sc_past := False, sc_future := True, sc_aria := True\<rparr> else s) (vsecs h)\<rparr>) deck"

definition sortAllFragments :: "hsect list \<Rightarrow> hsect list" where
  "sortAllFragments deck =
     (let sf = (\<lambda>s. s\<lparr>sc_frags := fst (sortFragments (sc_frags s))\<rparr>)
      in map (\<lambda>h. if vsecs h = [] then h\<lparr>hsec := sf (hsec h)\<rparr> else h\<lparr>vsecs := map sf (vsecs h)\<rparr>) deck)"

section \<open>Skeletons\<close>

text \<open>What the position in a deck depends on: the classes that mark the slides, without the rest.\<close>

definition flags :: "sect \<Rightarrow> bool \<times> bool \<times> bool" where
  "flags s = (sc_past s, sc_present s, sc_future s)"

definition hskel :: "hsect \<Rightarrow> bool \<times> (bool \<times> bool \<times> bool) \<times> (bool \<times> bool \<times> bool) list" where
  "hskel h = (stack h, flags (hsec h), map flags (vsecs h))"

definition skel :: "hsect list \<Rightarrow> (bool \<times> (bool \<times> bool \<times> bool) \<times> (bool \<times> bool \<times> bool) list) list" where
  "skel D = map hskel D"

text \<open>What no step changes: the ids and states of the slides, and how they are arranged.\<close>

definition tag :: "sect \<Rightarrow> string option \<times> string option" where
  "tag s = (sc_id s, sc_state s)"

type_synonym deck_shape = "((string option \<times> string option) \<times> (string option \<times> string option) list) list"

definition shape :: "hsect list \<Rightarrow> deck_shape" where
  "shape D = map (\<lambda>h. (tag (hsec h), map tag (vsecs h))) D"

text \<open>Decks whose states are names of classes.\<close>

definition states_ok :: "hsect list \<Rightarrow> bool" where
  "states_ok D \<longleftrightarrow> (\<forall>h \<in> set D. \<forall>s \<in> set (hsec h # vsecs h). \<forall>t \<in> set (state_names s). class_token t)"

lemma states_ok_shape:
  assumes "shape D = shape D'"
  shows "states_ok D = states_ok D'"
proof -
  have "states_ok D = (\<forall>(a, as) \<in> set (shape D). \<forall>b \<in> set (a # as). \<forall>t \<in> set (names_of_state (snd b)). class_token t)" for D
    by (auto simp: states_ok_def shape_def tag_def state_names_def)
  then show ?thesis using assms by simp
qed

lemma length_map_nth [simp]: "length (map_nth f xs) = length xs"
  by (simp add: map_nth_def)

lemma nth_map_nth [simp]: "i < length xs \<Longrightarrow> map_nth f xs ! i = f i (xs ! i)"
  by (simp add: map_nth_def)

lemma map_nth_Nil [simp]: "map_nth f xs = [] \<longleftrightarrow> xs = []"
  by (simp add: map_nth_def)

lemma shape_length: "shape D = shape D' \<Longrightarrow> length D = length D'"
  unfolding shape_def by (rule map_eq_imp_length_eq)

lemma shape_vlength: "shape D = shape D' \<Longrightarrow> i < length D \<Longrightarrow> length (vsecs (D ! i)) = length (vsecs (D' ! i))"
proof -
  assume s: "shape D = shape D'" and i: "i < length D"
  then have "shape D ! i = shape D' ! i" by simp
  then have "map tag (vsecs (D ! i)) = map tag (vsecs (D' ! i))"
    using i shape_length [OF s] by (simp add: shape_def)
  then show ?thesis by (rule map_eq_imp_length_eq)
qed

lemma skel_length: "skel D = skel D' \<Longrightarrow> length D = length D'"
  unfolding skel_def by (rule map_eq_imp_length_eq)

lemma skel_nth: "skel D = skel D' \<Longrightarrow> i < length D \<Longrightarrow> hskel (D ! i) = hskel (D' ! i)"
  by (metis nth_map skel_def skel_length)

lemma skel_update: "hskel h = hskel (D ! i) \<Longrightarrow> skel (D[i := h]) = skel D"
  by (cases "i < length D") (simp_all add: skel_def map_update list_update_same_conv list_update_beyond not_less)

lemma shape_update:
  "tag (hsec e) = tag (hsec (D ! i)) \<Longrightarrow> map tag (vsecs e) = map tag (vsecs (D ! i)) \<Longrightarrow> shape (D[i := e]) = shape D"
  by (cases "i < length D") (simp_all add: shape_def map_update list_update_same_conv list_update_beyond not_less)

lemma map_update_same: "g e = g (xs ! v) \<Longrightarrow> map g (xs[v := e]) = map g xs"
  by (cases "v < length xs") (simp_all add: map_update list_update_same_conv list_update_beyond not_less)

lemma visibility_skel [simp]: "skel (updateSlidesVisibility C ov h v D) = skel D"
proof -
  have "map flags (map_nth (\<lambda>y s. s\<lparr>sc_shown := g y\<rparr>) vs) = map flags vs" for g vs
    by (rule nth_equalityI) (simp_all add: flags_def)
  then have "hskel (visible_h C d n h v x e) = hskel e" for d n x e
    by (simp add: hskel_def visible_h_def Let_def) (simp add: flags_def)
  then show ?thesis unfolding skel_def updateSlidesVisibility_def by (intro nth_equalityI) simp_all
qed

section \<open>Where the marks are\<close>

definition present_h :: "hsect list \<Rightarrow> nat \<Rightarrow> bool" where
  "present_h D h \<longleftrightarrow> (\<forall>i < length D. sc_present (hsec (D ! i)) = (i = h))"

definition past_h :: "rconfig \<Rightarrow> hsect list \<Rightarrow> nat \<Rightarrow> bool" where
  "past_h C D h \<longleftrightarrow> (\<forall>i < length D.
     sc_past (hsec (D ! i)) = (if rc_rtl C then h < i else i < h) \<and>
     sc_future (hsec (D ! i)) = (if rc_rtl C then i < h else h < i))"

definition present_v :: "hsect list \<Rightarrow> (nat \<times> nat) set \<Rightarrow> bool" where
  "present_v D P \<longleftrightarrow> (\<forall>i < length D. \<forall>j < length (vsecs (D ! i)). sc_present (vsecs (D ! i) ! j) = ((i, j) \<in> P))"

definition stacks_ok :: "hsect list \<Rightarrow> bool" where
  "stacks_ok D \<longleftrightarrow> (\<forall>h \<in> set D. stack h = (vsecs h \<noteq> []))"

lemma present_verticals_one:
  "present_h D h \<Longrightarrow> h < length D \<Longrightarrow> present_verticals D = vsecs (D ! h)"
proof (induction D arbitrary: h)
  case (Cons d D)
  show ?case
  proof (cases h)
    case 0
    then have "sc_present (hsec d)" using Cons.prems by (auto simp: present_h_def)
    moreover have "\<forall>i < length D. \<not> sc_present (hsec (D ! i))" using Cons.prems(1) 0 by (auto simp: present_h_def)
    then have "present_verticals D = []" by (auto simp: present_verticals_def in_set_conv_nth)
    ultimately show ?thesis using 0 by (simp add: present_verticals_def)
  next
    case (Suc n)
    then have "\<not> sc_present (hsec d)" using Cons.prems by (auto simp: present_h_def)
    moreover have "present_h D n" using Cons.prems(1) Suc by (auto simp: present_h_def)
    ultimately show ?thesis using Cons.IH [of n] Cons.prems(2) Suc by (simp add: present_verticals_def)
  qed
qed simp

lemma put_verticals_none:
  "\<forall>i < length D. \<not> sc_present (hsec (D ! i)) \<Longrightarrow> put_verticals D vs = D"
proof (induction D arbitrary: vs)
  case (Cons d D)
  have "\<not> sc_present (hsec d)" "\<forall>i < length D. \<not> sc_present (hsec (D ! i))" using Cons.prems by auto
  then show ?case using Cons.IH by simp
qed simp

lemma put_verticals_one:
  "present_h D h \<Longrightarrow> h < length D \<Longrightarrow> length vs = length (vsecs (D ! h)) \<Longrightarrow>
    put_verticals D vs = D[h := (D ! h)\<lparr>vsecs := vs\<rparr>]"
proof (induction D arbitrary: h)
  case (Cons d D)
  show ?case
  proof (cases h)
    case 0
    then have "sc_present (hsec d)" using Cons.prems by (auto simp: present_h_def)
    moreover have "\<forall>i < length D. \<not> sc_present (hsec (D ! i))" using Cons.prems(1) 0 by (auto simp: present_h_def)
    ultimately show ?thesis using 0 Cons.prems(3) put_verticals_none by simp
  next
    case (Suc n)
    then have "\<not> sc_present (hsec d)" using Cons.prems by (auto simp: present_h_def)
    moreover have "present_h D n" using Cons.prems(1) Suc by (auto simp: present_h_def)
    ultimately show ?thesis using Cons.IH [of n] Cons.prems(2,3) Suc by simp
  qed
qed simp

lemma clamp_range: "n > 0 \<Longrightarrow> 0 \<le> clamp_index C n i \<and> clamp_index C n i < int n"
  by (auto simp: clamp_index_def Let_def)

lemma clamp_in_range: "0 \<le> i \<Longrightarrow> i < int n \<Longrightarrow> clamp_index C n i = i"
  by (auto simp: clamp_index_def js_rem_def Let_def)

end
