(* ===== verification/RevealNav.thy ===== *)
theory RevealNav
  imports Complex_Main RevealDeck
begin

text \<open>
  Navigation in \<open>doc/slides/js/reveal.js\<close>: \<open>slide\<close>, the fragment and direction functions,
  the overview, pausing, automatic sliding, the location in the URL, saved states and the
  keyboard. A step is a function on the state of the presentation; \<open>None\<close> is an exception:
  \<open>slide\<close> throws on a deck without slides, and at a name of a state that is no name of a class. What
  is only drawn (layout, backgrounds, transforms, embedded media, notes) is not in the state,
  and the listeners of the events do not call back. Indices are exact integers; the hash, where
  they may come in with any number of digits, is dealt with in \<open>RevealInput\<close>.
\<close>

section \<open>The state\<close>

datatype revent = SlideChanged int int | FragmentsShown "nat list" | FragmentsHidden "nat list" | StateEvent string
  | Paused | Resumed | AutoPaused | AutoResumed | OverviewShown | OverviewHidden

record controls =
  c_left :: bool
  c_right :: bool
  c_up :: bool
  c_down :: bool
  c_prev :: bool
  c_next :: bool
  c_fragmented :: "string list"

text \<open>
  A slide is named by its position: the horizontal index and, in a stack, the vertical one.
  Before the first call of \<open>slide\<close> there is no current slide and the indices, undefined in the
  code, stand at 0.
\<close>

type_synonym slideref = "nat \<times> nat option"

record rstate =
  deck :: "hsect list"
  indexh :: int
  indexv :: int
  current :: "slideref option"
  previous :: "slideref option"
  dstate :: "string list"
  docClasses :: "string list"
  overview :: bool
  paused :: bool
  autoSlide :: int
  autoSlidePaused :: bool
  autoTimer :: "int option"
  resets :: nat                        \<comment> \<open>pending resets of the stacks\<close>
  hash :: string
  overlay :: bool
  lastWheel :: int
  rcontrols :: controls
  rlog :: "revent list"

definition dispatchEvent :: "revent \<Rightarrow> rstate \<Rightarrow> rstate" where
  "dispatchEvent e st = st\<lparr>rlog := rlog st @ [e]\<rparr>"

definition sect_at :: "hsect list \<Rightarrow> slideref \<Rightarrow> sect" where
  "sect_at D r = (case snd r of None \<Rightarrow> hsec (D ! fst r) | Some v \<Rightarrow> vsecs (D ! fst r) ! v)"

definition upd_sect :: "slideref \<Rightarrow> (sect \<Rightarrow> sect) \<Rightarrow> hsect list \<Rightarrow> hsect list" where
  "upd_sect r f D =
     (let h = D ! fst r in
      D[fst r := (case snd r of None \<Rightarrow> h\<lparr>hsec := f (hsec h)\<rparr> | Some v \<Rightarrow> h\<lparr>vsecs := (vsecs h)[v := f (vsecs h ! v)]\<rparr>)])"

text \<open>The fragments of the current slide; those of a stack are not asked for.\<close>

definition current_frags :: "rstate \<Rightarrow> frag list" where
  "current_frags st = (case current st of None \<Rightarrow> [] | Some r \<Rightarrow> sc_frags (sect_at (deck st) r))"

section \<open>Routes, controls, progress\<close>

definition availableRoutes :: "rconfig \<Rightarrow> rstate \<Rightarrow> bool \<times> bool \<times> bool \<times> bool" where
  "availableRoutes C st =
     (let left = (indexh st > 0 \<or> rc_loop C);
          right = (indexh st < int (length (deck st)) - 1 \<or> rc_loop C);
          up = (indexv st > 0);
          down = (indexv st < int (length (present_verticals (deck st))) - 1)
      in if rc_rtl C then (right, left, up, down) else (left, right, up, down))"

definition route_left :: "rconfig \<Rightarrow> rstate \<Rightarrow> bool" where "route_left C st = fst (availableRoutes C st)"
definition route_right :: "rconfig \<Rightarrow> rstate \<Rightarrow> bool" where "route_right C st = fst (snd (availableRoutes C st))"
definition route_up :: "rconfig \<Rightarrow> rstate \<Rightarrow> bool" where "route_up C st = fst (snd (snd (availableRoutes C st)))"
definition route_down :: "rconfig \<Rightarrow> rstate \<Rightarrow> bool" where "route_down C st = snd (snd (snd (availableRoutes C st)))"

definition availableFragments :: "rconfig \<Rightarrow> rstate \<Rightarrow> bool \<times> bool" where
  "availableFragments C st =
     (if current st \<noteq> None \<and> rc_fragments C
      then (let fs = current_frags st; hidden = filter (\<lambda>f. \<not> fr_visible f) fs
            in (length fs - length hidden > 0, hidden \<noteq> []))
      else (False, False))"

definition is_vertical :: "rstate \<Rightarrow> bool" where
  "is_vertical st = (case current st of Some (h, Some v) \<Rightarrow> True | _ \<Rightarrow> False)"

definition updateControls :: "rconfig \<Rightarrow> rstate \<Rightarrow> rstate" where
  "updateControls C st =
     (let (left, right, up, down) = availableRoutes C st;
          (fp, fn) = availableFragments C st;
          cur = current st \<noteq> None; vert = is_vertical st
      in st\<lparr>rcontrols := \<lparr>
           c_left = (left \<or> (cur \<and> fp \<and> \<not> vert)),
           c_right = (right \<or> (cur \<and> fn \<and> \<not> vert)),
           c_up = (up \<or> (cur \<and> fp \<and> vert)),
           c_down = (down \<or> (cur \<and> fn \<and> vert)),
           c_prev = (left \<or> up \<or> (cur \<and> fp)),
           c_next = (right \<or> down \<or> (cur \<and> fn)),
           c_fragmented = (if cur then (if fp then [''prev'', if vert then ''up'' else ''left''] else [])
                             @ (if fn then [''next'', if vert then ''down'' else ''right''] else []) else [])\<rparr>\<rparr>)"

text \<open>\<open>getProgress\<close>, with the weight of the fragments as the exact 9/10; no number with one slide.\<close>

definition getProgress :: "rstate \<Rightarrow> rat option" where
  "getProgress st =
     (let fs = current_frags st;
          past = of_nat (getSlidePastCount (deck st)) +
            (if fs \<noteq> [] then of_nat (length (filter fr_visible fs)) / of_nat (length fs) * (9 / 10) else 0);
          total = getTotalSlides (deck st)
      in if total = 1 then None else Some (past / (of_nat total - 1)))"

definition slide_number :: "rconfig \<Rightarrow> rstate \<Rightarrow> string list" where
  "slide_number C st =
     (case rc_slideNumber C of
        Some t \<Rightarrow>
          if t = ''c'' then [nat_str (getSlidePastCount (deck st) + 1)]
          else if t = ''c/t'' then [nat_str (getSlidePastCount (deck st) + 1), ''/'', nat_str (getTotalSlides (deck st))]
          else int_str (indexh st + 1) #
            (if is_vertical st then [if t = ''h/v'' then ''/'' else ''.'', int_str (indexv st + 1)] else [])
      | None \<Rightarrow> [])"

section \<open>Fragments\<close>

definition navigateFragment :: "rconfig \<Rightarrow> int option \<Rightarrow> int option \<Rightarrow> rstate \<Rightarrow> rstate \<times> bool" where
  "navigateFragment C index offset st =
     (case current st of
        None \<Rightarrow> (st, False)
      | Some r \<Rightarrow>
          if \<not> rc_fragments C then (st, False)
          else (let fs = sc_frags (sect_at (deck st) r);
                    (fs', shown, hidden) = step_fragments index offset fs;
                    st1 = st\<lparr>deck := upd_sect r (\<lambda>s. s\<lparr>sc_frags := fs'\<rparr>) (deck st)\<rparr>;
                    st2 = (if hidden \<noteq> [] then dispatchEvent (FragmentsHidden hidden) st1 else st1);
                    st3 = (if shown \<noteq> [] then dispatchEvent (FragmentsShown shown) st2 else st2)
                in if snd (sortFragments fs) = [] then (st1, False)
                   else (updateControls C st3, shown \<noteq> [] \<or> hidden \<noteq> [])))"

definition nextFragment :: "rconfig \<Rightarrow> rstate \<Rightarrow> rstate \<times> bool" where
  "nextFragment C st = navigateFragment C None (Some 1) st"

definition previousFragment :: "rconfig \<Rightarrow> rstate \<Rightarrow> rstate \<times> bool" where
  "previousFragment C st = navigateFragment C None (Some (- 1)) st"

section \<open>Automatic sliding\<close>

text \<open>
  A slide without a next sibling, and in a stack without one. While the overview is shown, the
  element of the backgrounds is the last sibling of the horizontal slides.
\<close>

definition isLastSlide :: "rstate \<Rightarrow> bool" where
  "isLastSlide st =
     (\<not> overview st \<and> (case current st of
        None \<Rightarrow> False
      | Some (h, None) \<Rightarrow> Suc h \<ge> length (deck st)
      | Some (h, Some v) \<Rightarrow> Suc v \<ge> length (vsecs (deck st ! h)) \<and> Suc h \<ge> length (deck st)))"

text \<open>
  The delay of the current fragment, slide or stack, or that of the configuration; media may lengthen it.
\<close>

definition own_delay :: "rconfig \<Rightarrow> slideref \<Rightarrow> rstate \<Rightarrow> int" where
  "own_delay C r st =
     (let s = sect_at (deck st) r;
          fragment = (case filter fr_current (sc_frags s) of f # _ \<Rightarrow> fr_auto f | [] \<Rightarrow> None);
          parent = (if snd r = None then rc_slidesAuto C else sc_auto (hsec (deck st ! fst r)))
      in case fragment of Some d \<Rightarrow> d
         | None \<Rightarrow> (case sc_auto s of Some d \<Rightarrow> d | None \<Rightarrow> (case parent of Some d \<Rightarrow> d | None \<Rightarrow> rc_autoSlide C)))"

definition media_delay :: "sect \<Rightarrow> int \<Rightarrow> int" where
  "media_delay s d = (if sc_frags s = [] then fold (\<lambda>m d. if d \<noteq> 0 \<and> m > d then m + 1000 else d) (sc_media s) d else d)"

definition cueAutoSlide :: "rconfig \<Rightarrow> rstate \<Rightarrow> rstate" where
  "cueAutoSlide C st =
     (let st0 = st\<lparr>autoTimer := None\<rparr> in
      case current st of
        None \<Rightarrow> st0
      | Some r \<Rightarrow>
          (let d = media_delay (sect_at (deck st) r) (own_delay C r st);
               cued = (d \<noteq> 0 \<and> \<not> autoSlidePaused st \<and> \<not> paused st \<and> \<not> overview st \<and>
                       (\<not> isLastSlide st \<or> snd (availableFragments C st) \<or> rc_loop C))
           in st0\<lparr>autoSlide := d, autoTimer := (if cued then Some d else None)\<rparr>))"

definition pauseAutoSlide :: "rstate \<Rightarrow> rstate" where
  "pauseAutoSlide st =
     (if autoSlide st \<noteq> 0 \<and> \<not> autoSlidePaused st
      then (dispatchEvent AutoPaused (st\<lparr>autoSlidePaused := True\<rparr>))\<lparr>autoTimer := None\<rparr> else st)"

definition resumeAutoSlide :: "rconfig \<Rightarrow> rstate \<Rightarrow> rstate" where
  "resumeAutoSlide C st =
     (if autoSlide st \<noteq> 0 \<and> autoSlidePaused st
      then cueAutoSlide C (dispatchEvent AutoResumed (st\<lparr>autoSlidePaused := False\<rparr>)) else st)"

definition toggleAutoSlide :: "rconfig \<Rightarrow> bool option \<Rightarrow> rstate \<Rightarrow> rstate" where
  "toggleAutoSlide C override st =
     (if (case override of Some b \<Rightarrow> b | None \<Rightarrow> autoSlidePaused st) then resumeAutoSlide C st else pauseAutoSlide st)"

definition pause :: "rconfig \<Rightarrow> rstate \<Rightarrow> rstate" where
  "pause C st =
     (if rc_pause C
      then (let st1 = st\<lparr>autoTimer := None, paused := True\<rparr> in if \<not> paused st then dispatchEvent Paused st1 else st1)
      else st)"

definition resume :: "rconfig \<Rightarrow> rstate \<Rightarrow> rstate" where
  "resume C st =
     (let st1 = cueAutoSlide C (st\<lparr>paused := False\<rparr>) in if paused st then dispatchEvent Resumed st1 else st1)"

definition togglePause :: "rconfig \<Rightarrow> bool option \<Rightarrow> rstate \<Rightarrow> rstate" where
  "togglePause C override st =
     (if (case override of Some b \<Rightarrow> b | None \<Rightarrow> \<not> paused st) then pause C st else resume C st)"

section \<open>slide\<close>

definition url_char :: "char \<Rightarrow> bool" where
  "url_char c = (wordc c \<or> c = CHR ''-'' \<or> c = CHR '':'' \<or> c = CHR ''.'')"

definition url_name :: "sect \<Rightarrow> string" where
  "url_name s = (case sc_id s of Some i \<Rightarrow> filter url_char i | None \<Rightarrow> [])"

definition index_url :: "int \<Rightarrow> int \<Rightarrow> string" where
  "index_url h v =
     ''/'' @ (if h > 0 \<or> v > 0 then int_str h else []) @ (if v > 0 then CHR ''/'' # int_str v else [])"

definition writeURL :: "rconfig \<Rightarrow> rstate \<Rightarrow> rstate" where
  "writeURL C st =
     (case current st of
        None \<Rightarrow> st
      | Some r \<Rightarrow>
          if \<not> rc_history C then st
          else (let name = url_name (sect_at (deck st) r)
                in st\<lparr>hash := CHR ''#'' # (if name \<noteq> [] then CHR ''/'' # name else index_url (indexh st) (indexv st))\<rparr>))"

text \<open>
  The names of the state that are new are added to the document, each with an event; the rest is
  removed. Adding the empty string, or one with white space in it, throws.
\<close>

fun apply_states :: "string list \<Rightarrow> string list \<Rightarrow> rstate \<Rightarrow> rstate option" where
  "apply_states [] before st = Some (st\<lparr>docClasses := filter (\<lambda>c. c \<notin> set before) (docClasses st)\<rparr>)"
| "apply_states (s # ss) before st =
     (if s \<in> set before then apply_states ss (remove1 s before) st
      else if \<not> class_token s then None
      else apply_states ss before (dispatchEvent (StateEvent s) (st\<lparr>docClasses := List.insert s (docClasses st)\<rparr>)))"

definition setPreviousVerticalIndex :: "nat \<Rightarrow> int \<Rightarrow> hsect list \<Rightarrow> hsect list" where
  "setPreviousVerticalIndex h v D = D[h := (D ! h)\<lparr>prevv := Some v\<rparr>]"

definition nth_opt :: "'a list \<Rightarrow> int \<Rightarrow> 'a option" where
  "nth_opt xs i = (if 0 \<le> i \<and> i < int (length xs) then Some (xs ! nat i) else None)"

text \<open>The vertical index a stack is resumed at, and the indices of the slide that is left.\<close>

definition slide_v :: "int \<Rightarrow> int option \<Rightarrow> rstate \<Rightarrow> int option" where
  "slide_v h v st = (if v = None \<and> \<not> overview st then Some (getPreviousVerticalIndex (nth_opt (deck st) h)) else v)"

definition leave_stack :: "rstate \<Rightarrow> rstate" where
  "leave_stack st =
     (case current st of
        Some (h, Some v) \<Rightarrow> if stack (deck st ! h) then st\<lparr>deck := setPreviousVerticalIndex h (indexv st) (deck st)\<rparr> else st
      | _ \<Rightarrow> st)"

definition show_indices :: "rconfig \<Rightarrow> int \<Rightarrow> int option \<Rightarrow> rstate \<Rightarrow> rstate" where
  "show_indices C h v st =
     (let (D1, ih, n1) = update_h C h (deck st);
          (D2, iv, n2) = update_v C (case v of Some x \<Rightarrow> x | None \<Rightarrow> indexv st) D1
      in st\<lparr>deck := updateSlidesVisibility C (overview st) ih iv D2, indexh := ih, indexv := iv, dstate := n1 @ n2\<rparr>)"

definition current_ref :: "rstate \<Rightarrow> slideref" where
  "current_ref st =
     (let h = nat (indexh st) in
      (h, if indexv st < int (length (vsecs (deck st ! h))) then Some (nat (indexv st)) else None))"

definition home_present :: "rstate \<Rightarrow> bool" where
  "home_present st = (case deck st of h # _ \<Rightarrow> sc_present (hsec h) | [] \<Rightarrow> False)"

definition drop_previous :: "slideref option \<Rightarrow> rstate \<Rightarrow> rstate" where
  "drop_previous prev st =
     (case prev of
        None \<Rightarrow> st
      | Some r \<Rightarrow>
          (let st1 = st\<lparr>deck := upd_sect r (\<lambda>s. s\<lparr>sc_present := False, sc_aria := True\<rparr>) (deck st)\<rparr>
           in if home_present st1 then st1\<lparr>resets := Suc (resets st1)\<rparr> else st1))"

definition slide :: "rconfig \<Rightarrow> int \<Rightarrow> int option \<Rightarrow> int option \<Rightarrow> rstate \<Rightarrow> rstate option" where
  "slide C h v f st =
     (if deck st = [] then None
      else
       (let prev = current st;
            before = dstate st;
            st1 = show_indices C h (slide_v h v st) (leave_stack st)
        in
        case apply_states (dstate st1) before st1 of
          None \<Rightarrow> None
        | Some st2 \<Rightarrow>
       (let st3 = st2\<lparr>current := Some (current_ref st2)\<rparr>;
            st4 = (case f of Some i \<Rightarrow> fst (navigateFragment C (Some i) None st3) | None \<Rightarrow> st3);
            changed = (indexh st4 \<noteq> indexh st \<or> indexv st4 \<noteq> indexv st);
            prev' = (if changed then prev else None);
            st5 = (if changed then dispatchEvent (SlideChanged (indexh st4) (indexv st4)) st4 else st4);
            st6 = drop_previous prev' (st5\<lparr>previous := prev'\<rparr>)
        in Some (cueAutoSlide C (writeURL C (updateControls C st6))))))"

text \<open>The task that forgets where the stacks were left.\<close>

definition run_reset :: "rstate \<Rightarrow> rstate" where
  "run_reset st =
     (if resets st = 0 then st
      else st\<lparr>resets := resets st - 1, deck := map (\<lambda>h. if stack h then h\<lparr>prevv := Some 0\<rparr> else h) (deck st)\<rparr>)"

section \<open>Overview\<close>

definition activateOverview :: "rconfig \<Rightarrow> rstate \<Rightarrow> rstate" where
  "activateOverview C st =
     (if rc_overview C \<and> \<not> overview st
      then dispatchEvent OverviewShown (st\<lparr>overview := True, autoTimer := None,
             deck := (if current st \<noteq> None then updateSlidesVisibility C True (indexh st) (indexv st) (deck st) else deck st)\<rparr>)
      else st)"

definition deactivateOverview :: "rconfig \<Rightarrow> rstate \<Rightarrow> rstate option" where
  "deactivateOverview C st =
     (if rc_overview C
      then map_option (\<lambda>st1. dispatchEvent OverviewHidden (cueAutoSlide C st1))
             (slide C (indexh st) (Some (indexv st)) None (st\<lparr>overview := False\<rparr>))
      else Some st)"

definition toggleOverview :: "rconfig \<Rightarrow> bool option \<Rightarrow> rstate \<Rightarrow> rstate option" where
  "toggleOverview C override st =
     (if (case override of Some b \<Rightarrow> b | None \<Rightarrow> \<not> overview st) then Some (activateOverview C st) else deactivateOverview C st)"

section \<open>Directions\<close>

text \<open>Fragments come first, unless the overview is shown: whether to go on, after trying one.\<close>

definition try_fragment :: "(rstate \<Rightarrow> rstate \<times> bool) \<Rightarrow> rstate \<Rightarrow> rstate \<times> bool" where
  "try_fragment frag st = (if overview st then (st, True) else (let (st1, b) = frag st in (st1, \<not> b)))"

definition navigateLeft :: "rconfig \<Rightarrow> rstate \<Rightarrow> rstate option" where
  "navigateLeft C st =
     (if rc_rtl C
      then (let (st1, go) = try_fragment (nextFragment C) st
            in if go \<and> route_left C st1 then slide C (indexh st1 + 1) None None st1 else Some st1)
      else (let (st1, go) = try_fragment (previousFragment C) st
            in if go \<and> route_left C st1 then slide C (indexh st1 - 1) None None st1 else Some st1))"

definition navigateRight :: "rconfig \<Rightarrow> rstate \<Rightarrow> rstate option" where
  "navigateRight C st =
     (if rc_rtl C
      then (let (st1, go) = try_fragment (previousFragment C) st
            in if go \<and> route_right C st1 then slide C (indexh st1 - 1) None None st1 else Some st1)
      else (let (st1, go) = try_fragment (nextFragment C) st
            in if go \<and> route_right C st1 then slide C (indexh st1 + 1) None None st1 else Some st1))"

definition navigateUp :: "rconfig \<Rightarrow> rstate \<Rightarrow> rstate option" where
  "navigateUp C st =
     (let (st1, go) = try_fragment (previousFragment C) st
      in if go \<and> route_up C st1 then slide C (indexh st1) (Some (indexv st1 - 1)) None st1 else Some st1)"

definition navigateDown :: "rconfig \<Rightarrow> rstate \<Rightarrow> rstate option" where
  "navigateDown C st =
     (let (st1, go) = try_fragment (nextFragment C) st
      in if go \<and> route_down C st1 then slide C (indexh st1) (Some (indexv st1 + 1)) None st1 else Some st1)"

text \<open>The last of the horizontal slides marked as past, or as future from right to left.\<close>

definition last_past :: "rconfig \<Rightarrow> rstate \<Rightarrow> hsect option" where
  "last_past C st =
     (case rev (filter (\<lambda>h. if rc_rtl C then sc_future (hsec h) else sc_past (hsec h)) (deck st)) of
        h # _ \<Rightarrow> Some h | [] \<Rightarrow> None)"

definition navigatePrev :: "rconfig \<Rightarrow> rstate \<Rightarrow> rstate option" where
  "navigatePrev C st =
     (let (st1, b) = previousFragment C st in
      if b then Some st1
      else if route_up C st1 then navigateUp C st1
      else (case last_past C st1 of
              None \<Rightarrow> Some st1
            | Some h \<Rightarrow>
                (let n = int (length (vsecs h)) - 1
                 in slide C (indexh st1 - 1) (if n = 0 then None else Some n) None st1)))"

definition navigateNext :: "rconfig \<Rightarrow> rstate \<Rightarrow> rstate option" where
  "navigateNext C st =
     (let (st1, b) = nextFragment C st in
      map_option (cueAutoSlide C)
        (if b then Some st1
         else if route_down C st1 then navigateDown C st1
         else if rc_rtl C then navigateLeft C st1
         else navigateRight C st1))"

definition fire_timer :: "rconfig \<Rightarrow> rstate \<Rightarrow> rstate option" where
  "fire_timer C st = (if autoTimer st = None then Some st else navigateNext C (st\<lparr>autoTimer := None\<rparr>))"

end
