(* ===== verification/RevealInput.thy ===== *)
theory RevealInput
  imports RevealNav
begin

text \<open>
  What drives the navigation of \<open>doc/slides/js/reveal.js\<close>: the hash of the URL, saved states,
  the keyboard, the mouse wheel, clicks and timers.
\<close>

section \<open>The hash\<close>

text \<open>\<open>parseInt( s, 10 )\<close>; \<open>None\<close> is \<open>NaN\<close>.\<close>

definition parseInt :: "string \<Rightarrow> int option" where
  "parseInt s =
     (let t = dropWhile spacec s;
          (neg, u) = (case t of c # r \<Rightarrow> if c = CHR ''-'' then (True, r) else if c = CHR ''+'' then (False, r) else (False, t)
                      | [] \<Rightarrow> (False, t));
          ds = takeWhile is_digit u
      in if ds = [] then None else Some (if neg then - int (str_nat ds) else int (str_nat ds)))"

text \<open>What \<open>document.getElementById\<close> finds: a slide, or something inside one.\<close>

datatype found = FSlide slideref | FChild slideref | FDeep

text \<open>\<open>getIndices\<close> of an element: whether its parent is a section decides.\<close>

definition getIndices_of :: "found \<Rightarrow> int \<times> int option" where
  "getIndices_of e =
     (case e of
        FSlide (h, v) \<Rightarrow> (int h, map_option int v)
      | FChild (h, None) \<Rightarrow> (int h, Some 0)
      | FChild (h, Some v) \<Rightarrow> (0, Some 0)
      | FDeep \<Rightarrow> (0, None))"

definition getIndices :: "rstate \<Rightarrow> int \<times> int \<times> int option" where
  "getIndices st =
     (let fs = current_frags st
      in (indexh st, indexv st,
          if fs = [] then None
          else (case filter fr_current fs of
                  f # _ \<Rightarrow> (case fr_index f of Some i \<Rightarrow> Some i | None \<Rightarrow> Some (int (length (filter fr_visible fs)) - 1))
                | [] \<Rightarrow> Some (int (length (filter fr_visible fs)) - 1))))"

text \<open>The slide of an id, the first in the document.\<close>

definition all_refs :: "hsect list \<Rightarrow> slideref list" where
  "all_refs D = concat (map (\<lambda>h. (h, None) # map (\<lambda>v. (h, Some v)) [0..<length (vsecs (D ! h))]) [0..<length D])"

definition find_slide :: "hsect list \<Rightarrow> string \<Rightarrow> slideref option" where
  "find_slide D name = List.find (\<lambda>r. sc_id (sect_at D r) = Some name) (all_refs D)"

definition rname :: re where
  "rname = seqs [Bol False, Ch (\<lambda>c. wordc c \<and> c \<noteq> CHR ''_'' \<and> \<not> is_digit c),
     Star True (Ch (\<lambda>c. wordc c \<or> anyof '':.-'' c)), Eol False]"

text \<open>
  The numbers of a hash. Beyond \<open>2^53\<close> the language's numbers are not exact, and one of more than
  308 digits is \<open>Infinity\<close>, whose remainder is no number: a presentation that loops then throws
  in \<open>updateSlides\<close>. \<open>readURL\<close> is \<open>None\<close> on such a hash.
\<close>

definition sound_hash :: "string \<Rightarrow> bool" where
  "sound_hash s = list_all (\<lambda>b. case parseInt b of None \<Rightarrow> True | Some n \<Rightarrow> abs n \<le> 2 ^ 53) (take 2 (split_on (CHR ''/'') (drop 2 s)))"

text \<open>
  \<open>inner\<close>: the ids whose first element in the document, the one \<open>getElementById\<close> finds, is not
  a slide.
\<close>

definition readURL :: "rconfig \<Rightarrow> (string \<Rightarrow> found option) \<Rightarrow> rstate \<Rightarrow> rstate option" where
  "readURL C inner st =
     (let bits = split_on (CHR ''/'') (drop 2 (hash st));
          name = filter (\<lambda>c. c \<noteq> CHR ''#'' \<and> c \<noteq> CHR ''/'') (hash st);
          first = parseInt (hd bits);
          second = (if length bits > 1 then parseInt (bits ! 1) else None)
      in if \<not> sound_hash (hash st) then None
         else if first = None \<and> name \<noteq> []
         then (case (if re_test rname name
                     then (case inner name of Some e \<Rightarrow> Some e | None \<Rightarrow> map_option FSlide (find_slide (deck st) name))
                     else None) of
                 Some e \<Rightarrow> (let (h, v) = getIndices_of e in slide C h v None st)
               | None \<Rightarrow> slide C (indexh st) (Some (indexv st)) None st)
         else (let h = (case first of Some i \<Rightarrow> i | None \<Rightarrow> 0); v = (case second of Some i \<Rightarrow> i | None \<Rightarrow> 0)
               in if current st = None \<or> h \<noteq> indexh st \<or> v \<noteq> indexv st then slide C h (Some v) None st else Some st))"

section \<open>Saved states\<close>

record saved =
  sv_h :: int
  sv_v :: int
  sv_f :: "int option"
  sv_paused :: bool
  sv_overview :: bool

definition getState :: "rstate \<Rightarrow> saved" where
  "getState st =
     (let (h, v, f) = getIndices st
      in \<lparr>sv_h = h, sv_v = v, sv_f = f, sv_paused = paused st, sv_overview = overview st\<rparr>)"

definition setState :: "rconfig \<Rightarrow> saved \<Rightarrow> rstate \<Rightarrow> rstate option" where
  "setState C s st =
     (case slide C (sv_h s) (Some (sv_v s)) (sv_f s) st of
        None \<Rightarrow> None
      | Some st1 \<Rightarrow>
          (let st2 = (if sv_paused s \<noteq> paused st1 then togglePause C (Some (sv_paused s)) st1 else st1)
           in if sv_overview s \<noteq> overview st2 then toggleOverview C (Some (sv_overview s)) st2 else Some st2))"

section \<open>The keyboard, the mouse and the timers\<close>

definition onUserInput :: "rconfig \<Rightarrow> rstate \<Rightarrow> rstate" where
  "onUserInput C st = (if rc_autoSlideStoppable C then pauseAutoSlide st else st)"

record key =
  k_allowed :: bool             \<comment> \<open>what \<open>config.keyboardCondition\<close> answers\<close>
  k_code :: int
  k_shift :: bool
  k_modified :: bool            \<comment> \<open>alt, control or meta\<close>
  k_typing :: bool              \<comment> \<open>something editable has the focus\<close>

datatype api = ALeft | ARight | AUp | ADown | APrev | ANext | AToggleOverview | ATogglePause | AToggleAutoSlide | AFragment bool

definition call_api :: "rconfig \<Rightarrow> api \<Rightarrow> rstate \<Rightarrow> rstate option" where
  "call_api C a st =
     (case a of
        ALeft \<Rightarrow> navigateLeft C st | ARight \<Rightarrow> navigateRight C st | AUp \<Rightarrow> navigateUp C st | ADown \<Rightarrow> navigateDown C st
      | APrev \<Rightarrow> navigatePrev C st | ANext \<Rightarrow> navigateNext C st
      | AToggleOverview \<Rightarrow> toggleOverview C None st
      | ATogglePause \<Rightarrow> Some (togglePause C None st)
      | AToggleAutoSlide \<Rightarrow> Some (toggleAutoSlide C None st)
      | AFragment b \<Rightarrow> Some (fst (if b then nextFragment C st else previousFragment C st)))"

text \<open>\<open>config.keyboard\<close>: a function of the API, or a callback that leaves the presentation alone.\<close>

type_synonym bindings = "(int \<times> api option) list"

fun run_bindings :: "rconfig \<Rightarrow> bindings \<Rightarrow> int \<Rightarrow> rstate \<Rightarrow> rstate option" where
  "run_bindings C [] code st = Some st"
| "run_bindings C ((k, a) # bs) code st =
     (if k = code
      then Option.bind (case a of Some f \<Rightarrow> call_api C f st | None \<Rightarrow> Some st) (run_bindings C bs code)
      else run_bindings C bs code st)"

text \<open>The bindings of the system; the second component tells whether the key was one.\<close>

definition system_key :: "rconfig \<Rightarrow> bool \<Rightarrow> key \<Rightarrow> rstate \<Rightarrow> (rstate \<times> bool) option" where
  "system_key C wasPaused e st =
     (let k = k_code e; did = map_option (\<lambda>st1. (st1, True)) in
      if k = 80 \<or> k = 33 then did (navigatePrev C st)
      else if k = 78 \<or> k = 34 then did (navigateNext C st)
      else if k = 72 \<or> k = 37 then did (navigateLeft C st)
      else if k = 76 \<or> k = 39 then did (navigateRight C st)
      else if k = 75 \<or> k = 38 then did (navigateUp C st)
      else if k = 74 \<or> k = 40 then did (navigateDown C st)
      else if k = 36 then did (slide C 0 None None st)
      else if k = 35 then did (slide C max_value None None st)
      else if k = 32
      then did (if overview st then deactivateOverview C st else if k_shift e then navigatePrev C st else navigateNext C st)
      else if k = 13 then (if overview st then did (deactivateOverview C st) else Some (st, False))
      else if k \<in> {58, 59, 66, 190, 191} then did (Some (togglePause C None st))
      else if k = 70 then did (Some st)
      else if k = 65 then did (Some (if rc_autoSlideStoppable C then toggleAutoSlide C (Some wasPaused) st else st))
      else Some (st, False))"

definition onDocumentKeyDown :: "rconfig \<Rightarrow> bindings \<Rightarrow> key \<Rightarrow> rstate \<Rightarrow> rstate option" where
  "onDocumentKeyDown C bs e st =
     (let wasPaused = autoSlidePaused st;
          st1 = onUserInput C st;
          resumeKeys = [66, 190, 191] @ map fst (filter (\<lambda>b. snd b = Some ATogglePause) bs)
      in if \<not> k_allowed e then Some st
         else if k_typing e \<or> (k_shift e \<and> k_code e \<noteq> 32) \<or> k_modified e then Some st1
         else if paused st1 \<and> k_code e \<notin> set resumeKeys then Some st1
         else map_option (cueAutoSlide C)
          (Option.bind
            (if k_code e \<in> set (map fst bs) then map_option (\<lambda>st2. (st2, True)) (run_bindings C bs (k_code e) st1)
             else system_key C wasPaused e st1)
            (\<lambda>(st2, triggered).
               if \<not> triggered \<and> (k_code e = 27 \<or> k_code e = 79) \<and> rc_transforms3d C
               then (if overlay st2 then Some (st2\<lparr>overlay := False\<rparr>) else toggleOverview C None st2)
               else Some st2)))"

text \<open>
  A click on the overview, on a slide with the indices that were written to it. One that is
  not vertical has no vertical index; the code's \<open>NaN\<close> ends as 0 there.
\<close>

definition onOverviewSlideClicked :: "rconfig \<Rightarrow> slideref \<Rightarrow> rstate \<Rightarrow> rstate option" where
  "onOverviewSlideClicked C r st =
     (if overview st
      then Option.bind (deactivateOverview C st) (slide C (int (fst r)) (Some (case snd r of Some v \<Rightarrow> int v | None \<Rightarrow> 0)) None)
      else Some st)"

text \<open>
  A click on the progress bar; \<open>i\<close> is the part of the width before it times the number of
  slides, rounded down.
\<close>

definition onProgressClicked :: "rconfig \<Rightarrow> int \<Rightarrow> rstate \<Rightarrow> rstate option" where
  "onProgressClicked C i st =
     slide C (if rc_rtl C then int (length (deck st)) - i else i) None None (onUserInput C st)"

definition onDocumentMouseScroll :: "rconfig \<Rightarrow> int \<Rightarrow> int \<Rightarrow> rstate \<Rightarrow> rstate option" where
  "onDocumentMouseScroll C now delta st =
     (if now - lastWheel st > 600
      then (let st1 = st\<lparr>lastWheel := now\<rparr> in if delta > 0 then navigateNext C st1 else navigatePrev C st1)
      else Some st)"

section \<open>Whole presentations\<close>

datatype input = IKey key | IScroll int int | IProgress int | IOverview slideref | IHash string | ITimer | IReset
  | ISlide int "int option" "int option" | ISetState saved | IApi api | IControl api

definition sound_input :: "input \<Rightarrow> bool" where
  "sound_input i = (case i of IHash s \<Rightarrow> sound_hash s | _ \<Rightarrow> True)"

definition input_step :: "rconfig \<Rightarrow> bindings \<Rightarrow> (string \<Rightarrow> found option) \<Rightarrow> input \<Rightarrow> rstate \<Rightarrow> rstate option" where
  "input_step C bs inner i st =
     (case i of
        IKey e \<Rightarrow> onDocumentKeyDown C bs e st
      | IScroll now d \<Rightarrow> onDocumentMouseScroll C now d st
      | IProgress n \<Rightarrow> onProgressClicked C n st
      | IOverview r \<Rightarrow> onOverviewSlideClicked C r st
      | IHash s \<Rightarrow> readURL C inner (st\<lparr>hash := s\<rparr>)
      | ITimer \<Rightarrow> fire_timer C st
      | IReset \<Rightarrow> Some (run_reset st)
      | ISlide h v f \<Rightarrow> slide C h v f st
      | ISetState s \<Rightarrow> setState C s st
      | IApi a \<Rightarrow> call_api C a st
      | IControl a \<Rightarrow> call_api C a (onUserInput C st))"

definition fresh_deck :: "hsect list \<Rightarrow> string \<Rightarrow> rstate" where
  "fresh_deck D url =
     \<lparr>deck = resetVerticalSlides D, indexh = 0, indexv = 0, current = None, previous = None, dstate = [], docClasses = [],
      overview = False, paused = False, autoSlide = 0, autoSlidePaused = False, autoTimer = None, resets = 0, hash = url,
      overlay = False, lastWheel = 0, rcontrols = \<lparr>c_left = False, c_right = False, c_up = False, c_down = False, c_prev = False,
      c_next = False, c_fragmented = []\<rparr>, rlog = []\<rparr>"

text \<open>\<open>start\<close>: the vertical slides are reset, \<open>sync\<close> sorts the fragments, and the hash is followed.\<close>

definition start :: "rconfig \<Rightarrow> (string \<Rightarrow> found option) \<Rightarrow> hsect list \<Rightarrow> string \<Rightarrow> rstate option" where
  "start C inner D url =
     (let st = fresh_deck D url
      in readURL C inner (st\<lparr>deck := sortAllFragments (deck st), autoSlide := rc_autoSlide C\<rparr>))"

fun inputs :: "rconfig \<Rightarrow> bindings \<Rightarrow> (string \<Rightarrow> found option) \<Rightarrow> input list \<Rightarrow> rstate \<Rightarrow> rstate option" where
  "inputs C bs inner [] st = Some st"
| "inputs C bs inner (i # is) st = Option.bind (input_step C bs inner i st) (inputs C bs inner is)"

lemma readURL_sound: "readURL C inner st \<noteq> None \<Longrightarrow> sound_hash (hash st)"
  by (auto simp: readURL_def Let_def split: if_splits)

lemma step_sound: "input_step C bs inner i st \<noteq> None \<Longrightarrow> sound_input i"
  using readURL_sound [of C inner "st\<lparr>hash := s\<rparr>" for s] by (cases i) (simp_all add: sound_input_def input_step_def)

lemma inputs_sound: "inputs C bs inner is st = Some st' \<Longrightarrow> \<forall>i \<in> set is. sound_input i"
proof (induction "is" arbitrary: st)
  case (Cons i "is")
  then obtain st1 where s: "input_step C bs inner i st = Some st1" "inputs C bs inner is st1 = Some st'"
    by (auto simp: bind_eq_Some_conv)
  then show ?case using step_sound [of C bs inner i st] Cons.IH [OF s(2)] by simp
qed simp

end
