(* ===== verification/RevealSteps.thy ===== *)
theory RevealSteps
  imports RevealInput
begin

text \<open>
  Invariants of the navigation in \<open>doc/slides/js/reveal.js\<close>. Every key, click, timer and call
  of the API is made of a few steps; what these keep, in states where \<open>slide\<close> comes back, is
  kept by whatever is done with a presentation. The components that follow show that the
  position, the fragments and the timers are kept.
\<close>

section \<open>Results of steps\<close>

definition safe :: "(rstate \<Rightarrow> bool) \<Rightarrow> rstate option \<Rightarrow> bool" where
  "safe I r \<longleftrightarrow> (\<exists>st. r = Some st \<and> I st)"

lemma safe_Some [simp]: "safe I (Some st) = I st"
  by (simp add: safe_def)

lemma safe_bind: "safe I r \<Longrightarrow> (\<And>st. I st \<Longrightarrow> safe I (g st)) \<Longrightarrow> safe I (Option.bind r g)"
  by (auto simp: safe_def)

lemma safe_map: "safe I r \<Longrightarrow> (\<And>st. I st \<Longrightarrow> I (g st)) \<Longrightarrow> safe I (map_option g r)"
  by (auto simp: safe_def)

lemma safe_if: "(b \<Longrightarrow> safe I x) \<Longrightarrow> (\<not> b \<Longrightarrow> safe I y) \<Longrightarrow> safe I (if b then x else y)"
  by simp

section \<open>The steps everything is made of\<close>

locale navigation_invariant =
  fixes C :: rconfig and I :: "rstate \<Rightarrow> bool"
  assumes slide_safe: "I st \<Longrightarrow> safe I (slide C h v f st)"
    and fragment_keeps: "I st \<Longrightarrow> I (fst (navigateFragment C index offset st))"
    and cue_keeps: "I st \<Longrightarrow> I (cueAutoSlide C st)"
    and cancel_keeps: "I st \<Longrightarrow> I (st\<lparr>autoTimer := None\<rparr>)"
    and halt_keeps: "I st \<Longrightarrow> autoTimer st = None \<Longrightarrow> I (st\<lparr>autoSlidePaused := True\<rparr>)"
      "I st \<Longrightarrow> autoTimer st = None \<Longrightarrow> I (st\<lparr>paused := True\<rparr>)" "I st \<Longrightarrow> autoTimer st = None \<Longrightarrow> I (st\<lparr>overview := True\<rparr>)"
    and visibility_keeps: "I st \<Longrightarrow> I (st\<lparr>deck := updateSlidesVisibility C b (indexh st) (indexv st) (deck st)\<rparr>)"
    and going_on_keeps: "I st \<Longrightarrow> I (st\<lparr>autoSlidePaused := False\<rparr>)" "I st \<Longrightarrow> I (st\<lparr>paused := False\<rparr>)" "I st \<Longrightarrow> I (st\<lparr>overview := False\<rparr>)"
    and reset_keeps: "I st \<Longrightarrow> I (run_reset st)"
    and outside_keeps: "I st \<Longrightarrow> I (st\<lparr>rlog := es\<rparr>)" "I st \<Longrightarrow> I (st\<lparr>hash := u\<rparr>)" "I st \<Longrightarrow> I (st\<lparr>overlay := b\<rparr>)"
      "I st \<Longrightarrow> I (st\<lparr>lastWheel := t\<rparr>)"
begin

lemma event_keeps: "I st \<Longrightarrow> I (dispatchEvent e st)"
  by (simp add: dispatchEvent_def outside_keeps)

lemma pause_auto_keeps: "I st \<Longrightarrow> I (pauseAutoSlide st)"
proof -
  assume i: "I st"
  have "(dispatchEvent AutoPaused (st\<lparr>autoSlidePaused := True\<rparr>))\<lparr>autoTimer := None\<rparr>
      = dispatchEvent AutoPaused ((st\<lparr>autoTimer := None\<rparr>)\<lparr>autoSlidePaused := True\<rparr>)"
    by (simp add: dispatchEvent_def)
  then show ?thesis using event_keeps [OF halt_keeps(1) [OF cancel_keeps [OF i]]] i
    by (simp add: pauseAutoSlide_def)
qed

lemma toggle_auto_keeps: "I st \<Longrightarrow> I (toggleAutoSlide C b st)"
  by (simp add: toggleAutoSlide_def pause_auto_keeps resumeAutoSlide_def cue_keeps event_keeps going_on_keeps)

lemma toggle_pause_keeps: "I st \<Longrightarrow> I (togglePause C b st)"
proof -
  assume i: "I st"
  have "I (st\<lparr>autoTimer := None, paused := True\<rparr>)" using halt_keeps(2) [OF cancel_keeps [OF i]] by simp
  then have "I (pause C st)" using i by (simp add: pause_def Let_def event_keeps)
  moreover have "I (resume C st)" using i by (simp add: resume_def Let_def event_keeps cue_keeps going_on_keeps)
  ultimately show ?thesis by (simp add: togglePause_def)
qed

lemma input_keeps: "I st \<Longrightarrow> I (onUserInput C st)"
  by (simp add: onUserInput_def pause_auto_keeps)

lemma fragments_keep: "I st \<Longrightarrow> I (fst (nextFragment C st))" "I st \<Longrightarrow> I (fst (previousFragment C st))"
  by (simp_all add: nextFragment_def previousFragment_def fragment_keeps)

lemma activate_keeps: "I st \<Longrightarrow> I (activateOverview C st)"
proof -
  assume i: "I st"
  have e: "st\<lparr>overview := True, autoTimer := None\<rparr> = (st\<lparr>autoTimer := None\<rparr>)\<lparr>overview := True\<rparr>" by simp
  have o: "I (st\<lparr>overview := True, autoTimer := None\<rparr>)" unfolding e by (rule halt_keeps(3) [OF cancel_keeps [OF i]]) simp
  from visibility_keeps [OF this, of True]
  have "I (st\<lparr>overview := True, autoTimer := None, deck := updateSlidesVisibility C True (indexh st) (indexv st) (deck st)\<rparr>)" by simp
  moreover have "I (st\<lparr>overview := True, autoTimer := None, deck := deck st\<rparr>)" using o by simp
  ultimately show ?thesis using i by (simp add: activateOverview_def event_keeps)
qed

lemma deactivate_safe: "I st \<Longrightarrow> safe I (deactivateOverview C st)"
  by (simp add: deactivateOverview_def safe_map slide_safe going_on_keeps event_keeps cue_keeps)

lemma overview_safe: "I st \<Longrightarrow> safe I (toggleOverview C b st)"
  by (simp add: toggleOverview_def activate_keeps deactivate_safe)

lemma try_safe:
  assumes "I st" and "try_fragment (navigateFragment C index offset) st = (st1, go)"
  shows "safe I (if b then slide C h v f st1 else Some st1)"
proof -
  have "I st1" using assms fragment_keeps [OF assms(1), of index offset] by (auto simp: try_fragment_def split: if_splits prod.splits)
  then show ?thesis by (simp add: slide_safe)
qed

lemmas fragment_steps = nextFragment_def [abs_def] previousFragment_def [abs_def]

lemma directions_safe:
  assumes "I st"
  shows "safe I (navigateLeft C st)" "safe I (navigateRight C st)" "safe I (navigateUp C st)" "safe I (navigateDown C st)"
  unfolding navigateLeft_def navigateRight_def navigateUp_def navigateDown_def fragment_steps
  by (auto simp only: Let_def split: prod.split intro!: try_safe [OF assms] safe_if)

lemma next_safe: "I st \<Longrightarrow> safe I (navigateNext C st)"
proof -
  assume i: "I st"
  obtain st1 b where n: "nextFragment C st = (st1, b)" by (cases "nextFragment C st")
  have "I st1" using fragments_keep(1) [OF i] n by simp
  then show ?thesis using directions_safe by (auto simp: navigateNext_def n intro!: safe_map cue_keeps)
qed

lemma prev_safe: "I st \<Longrightarrow> safe I (navigatePrev C st)"
proof -
  assume i: "I st"
  obtain st1 b where n: "previousFragment C st = (st1, b)" by (cases "previousFragment C st")
  have "I st1" using fragments_keep(2) [OF i] n by simp
  then show ?thesis using directions_safe(3) slide_safe by (simp add: navigatePrev_def n Let_def split: option.split)
qed

lemma url_safe: "I st \<Longrightarrow> sound_hash (hash st) \<Longrightarrow> safe I (readURL C inner st)"
  by (auto simp: readURL_def slide_safe Let_def split: option.split prod.split)

lemma state_safe:
  assumes "I st"
  shows "safe I (setState C s st)"
proof -
  obtain st1 where st1: "slide C (sv_h s) (Some (sv_v s)) (sv_f s) st = Some st1" "I st1"
    using slide_safe [OF assms, of "sv_h s" "Some (sv_v s)" "sv_f s"] by (auto simp: safe_def)
  then show ?thesis using toggle_pause_keeps [OF st1(2)] overview_safe by (simp add: setState_def Let_def)
qed

lemma api_safe: "I st \<Longrightarrow> safe I (call_api C a st)"
  by (cases a) (simp_all add: call_api_def directions_safe next_safe prev_safe overview_safe toggle_pause_keeps toggle_auto_keeps fragments_keep)

lemma bindings_safe: "I st \<Longrightarrow> safe I (run_bindings C bs k st)"
proof (induction bs arbitrary: st)
  case (Cons b bs)
  have "safe I (case snd b of Some f \<Rightarrow> call_api C f st | None \<Rightarrow> Some st)"
    using Cons.prems api_safe by (auto split: option.split)
  then show ?case using Cons by (cases b) (auto simp: safe_def)
qed simp

text \<open>A key of the system: the same for what it returns next to the state.\<close>

lemma key_safe:
  assumes "I st"
  shows "safe I (map_option fst (system_key C wp e st))"
proof -
  have did: "map_option fst (map_option (\<lambda>st1. (st1, True)) r) = r" for r :: "rstate option" by (cases r) simp_all
  have if_map: "map_option fst (if b then x else y) = (if b then map_option fst x else map_option fst y)"
    for b and x y :: "(rstate \<times> bool) option" by simp
  note steps = directions_safe [OF assms] next_safe [OF assms] prev_safe [OF assms] slide_safe [OF assms] deactivate_safe [OF assms]
    toggle_pause_keeps [OF assms] toggle_auto_keeps [OF assms]
  show ?thesis unfolding system_key_def Let_def if_map did
    by (intro safe_if) (simp_all add: steps assms)
qed

lemma keydown_safe:
  assumes "I st"
  shows "safe I (onDocumentKeyDown C bs e st)"
proof -
  let ?st1 = "onUserInput C st"
  have i: "I ?st1" by (rule input_keeps [OF assms])
  define r where "r = (if k_code e \<in> set (map fst bs) then map_option (\<lambda>st2. (st2, True)) (run_bindings C bs (k_code e) ?st1)
    else system_key C (autoSlidePaused st) e ?st1)"
  have "safe I (map_option fst r)"
    using bindings_safe [OF i] key_safe [OF i] by (simp add: r_def option.map_comp comp_def option.map_ident)
  then obtain st2 b where r: "r = Some (st2, b)" "I st2" by (auto simp: safe_def)
  have "safe I (if \<not> b \<and> (k_code e = 27 \<or> k_code e = 79) \<and> rc_transforms3d C
      then (if overlay st2 then Some (st2\<lparr>overlay := False\<rparr>) else toggleOverview C None st2) else Some st2)"
    using overview_safe [OF r(2)] r(2) by (simp add: outside_keeps)
  then have "safe I (map_option (cueAutoSlide C) (Option.bind r (\<lambda>(st2, triggered).
      if \<not> triggered \<and> (k_code e = 27 \<or> k_code e = 79) \<and> rc_transforms3d C
      then (if overlay st2 then Some (st2\<lparr>overlay := False\<rparr>) else toggleOverview C None st2) else Some st2)))"
    unfolding r(1) by (intro safe_map cue_keeps) simp_all
  then show ?thesis unfolding onDocumentKeyDown_def Let_def r_def [symmetric] using i assms by simp
qed

lemma step_safe:
  assumes "I st" and "sound_input i"
  shows "safe I (input_step C bs inner i st)"
proof (cases i)
  case (IOverview r)
  then show ?thesis using assms deactivate_safe [OF assms(1)] slide_safe
    by (auto simp: input_step_def onOverviewSlideClicked_def intro!: safe_bind)
qed (use assms(2) in \<open>simp_all add: sound_input_def input_step_def onDocumentMouseScroll_def onProgressClicked_def fire_timer_def Let_def assms(1) keydown_safe
    next_safe prev_safe outside_keeps slide_safe url_safe cancel_keeps reset_keeps state_safe api_safe input_keeps\<close>)

lemma inputs_safe: "I st \<Longrightarrow> \<forall>i \<in> set is. sound_input i \<Longrightarrow> safe I (inputs C bs inner is st)"
proof (induction "is" arbitrary: st)
  case (Cons i "is")
  then show ?case using step_safe by (auto intro: safe_bind)
qed simp

lemma inputs_keep: "I st \<Longrightarrow> inputs C bs inner is st = Some st' \<Longrightarrow> I st'"
  using inputs_safe [of st "is" bs inner] inputs_sound [of C bs inner "is" st st'] by simp

end

end
