(* ===== verification/RevealPosition.thy ===== *)
theory RevealPosition
  imports RevealSteps
begin

text \<open>
  Where the presentation of \<open>doc/slides/js/reveal.js\<close> is: the indices, the current slide and
  the classes on all slides agree after any input, whatever was done before. The other
  properties of the navigation rest on this.
\<close>

section \<open>Skeletons decide the marks\<close>

lemma skel_hsec: "skel D = skel D' \<Longrightarrow> i < length D \<Longrightarrow> flags (hsec (D ! i)) = flags (hsec (D' ! i)) \<and>
    stack (D ! i) = stack (D' ! i) \<and> map flags (vsecs (D ! i)) = map flags (vsecs (D' ! i))"
  using skel_nth [of D D' i] by (simp add: hskel_def)

lemma skel_present_h: "skel D = skel D' \<Longrightarrow> present_h D h = present_h D' h"
proof -
  assume s: "skel D = skel D'"
  have "sc_present (hsec (D ! i)) = sc_present (hsec (D' ! i))" if "i < length D" for i
    using skel_hsec [OF s that] by (simp add: flags_def)
  then show ?thesis using skel_length [OF s] by (simp add: present_h_def)
qed

lemma skel_past_h: "skel D = skel D' \<Longrightarrow> past_h C D h = past_h C D' h"
proof -
  assume s: "skel D = skel D'"
  have "sc_past (hsec (D ! i)) = sc_past (hsec (D' ! i)) \<and> sc_future (hsec (D ! i)) = sc_future (hsec (D' ! i))"
    if "i < length D" for i using skel_hsec [OF s that] by (simp add: flags_def)
  then show ?thesis using skel_length [OF s] by (simp add: past_h_def)
qed

lemma skel_present_v: "skel D = skel D' \<Longrightarrow> present_v D P = present_v D' P"
proof -
  assume s: "skel D = skel D'"
  have v: "map flags (vsecs (D ! i)) = map flags (vsecs (D' ! i))" if "i < length D" for i
    using skel_hsec [OF s that] by blast
  have "length (vsecs (D ! i)) = length (vsecs (D' ! i))" if "i < length D" for i
    using v [OF that] by (rule map_eq_imp_length_eq)
  moreover have "sc_present (vsecs (D ! i) ! j) = sc_present (vsecs (D' ! i) ! j)"
    if "i < length D" "j < length (vsecs (D ! i))" for i j
    using arg_cong [OF v [OF that(1)], of "\<lambda>l. fst (snd (l ! j))"] that calculation by (simp add: flags_def)
  ultimately show ?thesis using skel_length [OF s] by (simp add: present_v_def)
qed

lemma skel_stacks: "skel D = skel D' \<Longrightarrow> stacks_ok D = stacks_ok D'"
proof -
  assume s: "skel D = skel D'"
  have "stack (D ! i) = stack (D' ! i) \<and> (vsecs (D ! i) = []) = (vsecs (D' ! i) = [])" if "i < length D" for i
    using skel_hsec [OF s that] by (metis list.map_disc_iff)
  then show ?thesis using skel_length [OF s] by (auto simp: stacks_ok_def all_set_conv_all_nth)
qed

section \<open>updateSlides\<close>

lemma mark_frags_flags [simp]:
  "sc_past (mark_frags C k i s) = sc_past s" "sc_present (mark_frags C k i s) = sc_present s"
  "sc_future (mark_frags C k i s) = sc_future s" "sc_id (mark_frags C k i s) = sc_id s" "sc_state (mark_frags C k i s) = sc_state s"
  by (simp_all add: mark_frags_def map_frags_def)

lemma mark_frags_tag [simp]: "tag (mark_frags C k i s) = tag s"
  by (simp add: tag_def)

lemma mark_slide_flags:
  "\<not> rc_printing C \<Longrightarrow> sc_present (mark_slide C r k i s) = (i = k)"
  "\<not> rc_printing C \<Longrightarrow> sc_past (mark_slide C r k i s) = (if r then k < i else i < k)"
  "\<not> rc_printing C \<Longrightarrow> sc_future (mark_slide C r k i s) = (if r then i < k else k < i)"
  by (auto simp: mark_slide_def Let_def)

lemma mark_slide_tag [simp]: "tag (mark_slide C r k i s) = tag s"
  by (auto simp: mark_slide_def tag_def Let_def)

lemma shape_map_nth:
  "(\<And>i. i < length D \<Longrightarrow> tag (hsec (f i (D ! i))) = tag (hsec (D ! i)) \<and> map tag (vsecs (f i (D ! i))) = map tag (vsecs (D ! i))) \<Longrightarrow>
    shape (map_nth f D) = shape D"
  unfolding shape_def by (rule nth_equalityI) simp_all

lemma map_flag_vsecs: "map (\<lambda>s. g (mark_frags C k i s)) vs = map g vs" if "\<And>s. g (mark_frags C k i s) = g s" for g :: "sect \<Rightarrow> 'b"
  using that by simp

lemma update_h_spec:
  assumes "D \<noteq> []" and "\<not> rc_printing C" and "update_h C x D = (D1, ih, n)"
  shows "ih = clamp_index C (length D) x" "0 \<le> ih" "ih < int (length D)" "shape D1 = shape D"
    and "present_h D1 (nat ih)" "past_h C D1 (nat ih)"
    and "\<forall>h \<in> set D. stack h \<longrightarrow> vsecs h \<noteq> [] \<Longrightarrow> stacks_ok D1"
    and "present_v D P \<Longrightarrow> present_v D1 P"
proof -
  have D1: "D1 = map_nth (mark_h C ih) D" and ih: "ih = clamp_index C (length D) x"
    using assms(1,3) by (auto simp: update_h_def Let_def)
  show "ih = clamp_index C (length D) x" by (rule ih)
  show r: "0 \<le> ih" "ih < int (length D)" using clamp_range [of "length D" C x] assms(1) ih by auto
  show "shape D1 = shape D" unfolding D1
    by (rule shape_map_nth) (simp add: mark_h_def mark_slide_flags comp_def)
  show "present_h D1 (nat ih)" using r by (auto simp: present_h_def D1 mark_h_def mark_slide_flags assms(2))
  show "past_h C D1 (nat ih)" using r by (auto simp: past_h_def D1 mark_h_def mark_slide_flags assms(2))
  show "stacks_ok D1" if "\<forall>h \<in> set D. stack h \<longrightarrow> vsecs h \<noteq> []"
    using that by (auto simp: stacks_ok_def D1 mark_h_def map_nth_def)
  show "present_v D1 P" if "present_v D P"
    using that by (auto simp: present_v_def D1 mark_h_def)
qed

lemma update_v_spec:
  assumes "present_h D h" and "h < length D" and "\<not> rc_printing C" and "update_v C x D = (D2, iv, n)"
  defines "vs \<equiv> vsecs (D ! h)"
  shows "iv = (if vs = [] then 0 else clamp_index C (length vs) x)" "shape D2 = shape D"
    and "present_h D2 h" "past_h C D k \<Longrightarrow> past_h C D2 k" "stacks_ok D \<Longrightarrow> stacks_ok D2"
    and "present_v D P \<Longrightarrow> present_v D2 ({p \<in> P. fst p \<noteq> h} \<union> (if vs = [] then {} else {(h, nat iv)}))"
proof -
  have pv: "present_verticals D = vs" unfolding vs_def by (rule present_verticals_one [OF assms(1,2)])
  show iv: "iv = (if vs = [] then 0 else clamp_index C (length vs) x)"
    using assms(4) by (auto simp: update_v_def pv Let_def)
  define vs' where "vs' = map_nth (mark_v C iv) vs"
  have D2: "D2 = D[h := (D ! h)\<lparr>vsecs := vs'\<rparr>]"
  proof (cases "vs = []")
    case True
    then have "D2 = D" using assms(4) by (auto simp: update_v_def pv)
    moreover have "vsecs (D ! h) = vs'" using True by (simp add: vs'_def vs_def map_nth_def)
    then have "(D ! h)\<lparr>vsecs := vs'\<rparr> = D ! h" by simp
    ultimately show ?thesis by (simp del: list_update_id) (metis list_update_id)
  next
    case False
    then have "D2 = put_verticals D vs'" using assms(4) iv by (auto simp: update_v_def pv Let_def vs'_def)
    then show ?thesis using put_verticals_one [OF assms(1,2), of vs'] by (simp add: vs'_def vs_def)
  qed
  have len: "length vs' = length vs" by (simp add: vs'_def)
  have at: "D2 ! i = (if i = h then (D ! h)\<lparr>vsecs := vs'\<rparr> else D ! i)" if "i < length D" for i
    using that assms(2) by (simp add: D2 nth_list_update)
  have l2: "length D2 = length D" by (simp add: D2)
  have "map tag vs' = map tag vs" unfolding vs'_def
    by (rule nth_equalityI) (simp_all add: mark_v_def mark_slide_flags)
  then show "shape D2 = shape D" unfolding shape_def using at l2 by (intro nth_equalityI) (auto simp: vs_def)
  show "present_h D2 h" using assms(1) at l2 by (simp add: present_h_def)
  show "past_h C D2 k" if "past_h C D k" using that at l2 by (simp add: past_h_def)
  show "stacks_ok D2" if "stacks_ok D"
    using that at l2 len assms(2) by (auto simp: stacks_ok_def all_set_conv_all_nth vs_def)
  show "present_v D2 ({p \<in> P. fst p \<noteq> h} \<union> (if vs = [] then {} else {(h, nat iv)}))" if P: "present_v D P"
    unfolding present_v_def
  proof (intro allI impI)
    fix i j assume i: "i < length D2" and j: "j < length (vsecs (D2 ! i))"
    show "sc_present (vsecs (D2 ! i) ! j) = ((i, j) \<in> {p \<in> P. fst p \<noteq> h} \<union> (if vs = [] then {} else {(h, nat iv)}))"
    proof (cases "i = h")
      case False
      with P i j at l2 show ?thesis by (simp add: present_v_def)
    next
      case True
      then have j: "j < length vs" using j at i l2 len by simp
      then have "0 \<le> iv" using iv clamp_range [of "length vs" C x] by auto
      moreover have "sc_present (vsecs (D2 ! i) ! j) = (int j = iv)"
        using True j at i l2 assms(3) by (simp add: vs'_def mark_v_def mark_slide_flags)
      ultimately show ?thesis using True j by auto
    qed
  qed
qed

section \<open>Positions\<close>

text \<open>The state is consistent: one slide is present, by its indices and by its classes.\<close>

definition nav_ok :: "rconfig \<Rightarrow> rstate \<Rightarrow> bool" where
  "nav_ok C st \<longleftrightarrow>
     (let D = deck st; h = nat (indexh st); vs = vsecs (D ! h)
      in 0 \<le> indexh st \<and> indexh st < int (length D) \<and>
         0 \<le> indexv st \<and> (if vs = [] then indexv st = 0 else indexv st < int (length vs)) \<and>
         current st = Some (current_ref st) \<and>
         present_h D h \<and> past_h C D h \<and> stacks_ok D \<and> states_ok D \<and>
         present_v D (if vs = [] then {} else {(h, nat (indexv st))}))"

text \<open>Before \<open>slide\<close> has been called for the first time.\<close>

definition unvisited :: "rstate \<Rightarrow> bool" where
  "unvisited st \<longleftrightarrow> deck st \<noteq> [] \<and> current st = None \<and> indexh st = 0 \<and> indexv st = 0 \<and>
     (\<forall>h \<in> set (deck st). stack h \<longrightarrow> vsecs h \<noteq> []) \<and> states_ok (deck st) \<and> present_v (deck st) {}"

definition where_at :: "rstate \<Rightarrow> _" where
  "where_at st = (skel (deck st), shape (deck st), indexh st, indexv st, current st)"

lemma where_current: "where_at st = where_at st' \<Longrightarrow> indexh st < int (length (deck st)) \<Longrightarrow> 0 \<le> indexh st \<Longrightarrow>
    current_ref st = current_ref st' \<and> length (vsecs (deck st ! nat (indexh st))) = length (vsecs (deck st' ! nat (indexh st')))"
  using shape_vlength [of "deck st" "deck st'" "nat (indexh st)"]
  by (simp add: where_at_def current_ref_def Let_def)

lemma nav_ok_where: "where_at st = where_at st' \<Longrightarrow> nav_ok C st \<Longrightarrow> nav_ok C st'"
proof -
  assume w: "where_at st = where_at st'" and ok: "nav_ok C st"
  have r: "0 \<le> indexh st" "indexh st < int (length (deck st))" using ok by (simp_all add: nav_ok_def Let_def)
  note c = where_current [OF w r(2,1)]
  have s: "skel (deck st) = skel (deck st')" and i: "indexh st' = indexh st" "indexv st' = indexv st" "current st' = current st"
    using w by (simp_all add: where_at_def)
  have so: "states_ok (deck st) = states_ok (deck st')" by (rule states_ok_shape) (use w in \<open>simp add: where_at_def\<close>)
  have e: "(vsecs (deck st ! nat (indexh st)) = []) = (vsecs (deck st' ! nat (indexh st)) = [])"
    using c i by (metis length_0_conv)
  show ?thesis
    using ok c skel_length [OF s] skel_present_h [OF s] skel_past_h [OF s] skel_present_v [OF s] skel_stacks [OF s] e so
    by (simp add: nav_ok_def i Let_def split: if_splits)
qed

lemma where_visibility [simp]: "where_at (st\<lparr>deck := updateSlidesVisibility C ov h v D, indexh := a, indexv := b, dstate := n\<rparr>) =
    where_at (st\<lparr>deck := D, indexh := a, indexv := b\<rparr>)"
proof -
  have "map tag (map_nth (\<lambda>y s. s\<lparr>sc_shown := g y\<rparr>) vs) = map tag vs" for g vs by (rule nth_equalityI) (simp_all add: tag_def)
  then have "shape (updateSlidesVisibility C ov h v D) = shape D"
    unfolding updateSlidesVisibility_def by (intro shape_map_nth) (simp add: visible_h_def Let_def, simp add: tag_def)
  then show ?thesis by (simp add: where_at_def)
qed

lemma where_dispatch [simp]: "where_at (dispatchEvent e st) = where_at st"
  by (simp add: dispatchEvent_def where_at_def)

lemma where_controls [simp]: "where_at (updateControls C st) = where_at st"
  by (simp add: updateControls_def where_at_def Let_def split: prod.split)

lemma where_url [simp]: "where_at (writeURL C st) = where_at st"
  by (simp add: writeURL_def where_at_def Let_def split: option.split)

lemma where_cue [simp]: "where_at (cueAutoSlide C st) = where_at st"
  by (simp add: cueAutoSlide_def where_at_def Let_def split: option.split)

text \<open>The states of a slide change only the classes of the document and the log of events.\<close>

lemma apply_states_only: "apply_states ss before st = Some st' \<Longrightarrow> \<exists>cs es. st' = st\<lparr>docClasses := cs, rlog := es\<rparr>"
proof (induction ss before st rule: apply_states.induct)
  case (1 before st)
  have "st\<lparr>docClasses := cs\<rparr> = st\<lparr>docClasses := cs, rlog := rlog st\<rparr>" for cs by simp
  with 1 show ?case by (simp only: apply_states.simps option.inject) blast
next
  case (2 s ss before st)
  then show ?case by (fastforce simp: dispatchEvent_def split: if_splits)
qed

lemma apply_states_ok: "\<forall>t \<in> set ss. class_token t \<Longrightarrow> \<exists>st'. apply_states ss before st = Some st'"
  by (induction ss before st rule: apply_states.induct) auto

lemma where_frags:
  "where_at (st\<lparr>deck := upd_sect r (\<lambda>s. s\<lparr>sc_frags := fs\<rparr>) (deck st)\<rparr>) = where_at st"
proof -
  let ?f = "\<lambda>s. s\<lparr>sc_frags := fs\<rparr>"
  define e where "e = (let h = deck st ! fst r in case snd r of None \<Rightarrow> h\<lparr>hsec := ?f (hsec h)\<rparr>
    | Some v \<Rightarrow> h\<lparr>vsecs := (vsecs h)[v := ?f (vsecs h ! v)]\<rparr>)"
  have m: "map g (vs[v := ?f (vs ! v)]) = map g vs" if "\<And>s. g (?f s) = g s" for g :: "sect \<Rightarrow> 'c" and vs v
    using that by (rule map_update_same)
  have d: "upd_sect r ?f (deck st) = (deck st)[fst r := e]" by (simp add: upd_sect_def e_def Let_def)
  have "hskel e = hskel (deck st ! fst r)"
    by (auto simp: e_def Let_def hskel_def flags_def m split: option.split)
  then have "skel ((deck st)[fst r := e]) = skel (deck st)" by (rule skel_update)
  moreover have "tag (hsec e) = tag (hsec (deck st ! fst r)) \<and> map tag (vsecs e) = map tag (vsecs (deck st ! fst r))"
    by (auto simp: e_def Let_def m tag_def split: option.split)
  then have "shape ((deck st)[fst r := e]) = shape (deck st)" using shape_update by blast
  ultimately show ?thesis by (simp add: where_at_def d)
qed

lemma where_fragment: "where_at (fst (navigateFragment C index offset st)) = where_at st"
  unfolding navigateFragment_def
  by (auto simp: Let_def where_frags split: option.split prod.split)

lemma where_try:
  "try_fragment (navigateFragment C index offset) st = (st1, go) \<Longrightarrow> where_at st1 = where_at st"
  using where_fragment [of C index offset st] by (auto simp: try_fragment_def split: if_splits prod.splits)

lemma where_eqD: "where_at st = where_at st' \<Longrightarrow> indexh st = indexh st' \<and> indexv st = indexv st' \<and> current st = current st' \<and>
    shape (deck st) = shape (deck st') \<and> skel (deck st) = skel (deck st') \<and> length (deck st) = length (deck st')"
  by (auto simp: where_at_def dest: shape_length)

section \<open>slide\<close>

lemma where_leave [simp]: "where_at (leave_stack st) = where_at st"
proof -
  have "skel (setPreviousVerticalIndex h v D) = skel D" for h v D
    unfolding setPreviousVerticalIndex_def by (rule skel_update) (simp add: hskel_def)
  moreover have "shape (setPreviousVerticalIndex h v D) = shape D" for h v D
    unfolding setPreviousVerticalIndex_def by (rule shape_update) simp_all
  ultimately show ?thesis by (auto simp: leave_stack_def where_at_def split: option.split)
qed

lemma show_indices_spec:
  fixes h :: int and v :: "int option"
  assumes "deck st \<noteq> []" "\<not> rc_printing C" "\<forall>h \<in> set (deck st). stack h \<longrightarrow> vsecs h \<noteq> []"
  defines "st' \<equiv> show_indices C h v st" and "x \<equiv> (case v of Some x \<Rightarrow> x | None \<Rightarrow> indexv st)"
  defines "k \<equiv> nat (indexh st')" and "vs \<equiv> vsecs (deck st ! nat (indexh st'))"
  shows "indexh st' = clamp_index C (length (deck st)) h" "0 \<le> indexh st'" "indexh st' < int (length (deck st))"
    and "indexv st' = (if vs = [] then 0 else clamp_index C (length vs) x)"
    and "shape (deck st') = shape (deck st)" "current st' = current st" "overview st' = overview st"
    and "present_h (deck st') k" "past_h C (deck st') k" "stacks_ok (deck st')"
    and "present_v (deck st) P \<Longrightarrow>
      present_v (deck st') ({p \<in> P. fst p \<noteq> k} \<union> (if vs = [] then {} else {(k, nat (indexv st'))}))"
proof -
  obtain D1 ih n1 where u: "update_h C h (deck st) = (D1, ih, n1)" by (cases "update_h C h (deck st)")
  obtain D2 iv n2 where w: "update_v C x D1 = (D2, iv, n2)" by (cases "update_v C x D1")
  note H = update_h_spec [OF assms(1,2) u]
  have k: "nat ih < length D1" using H(2,3) shape_length [OF H(4)] by simp
  note V = update_v_spec [OF H(5) k assms(2) w]
  have st': "st' = st\<lparr>deck := updateSlidesVisibility C (overview st) ih iv D2, indexh := ih, indexv := iv, dstate := n1 @ n2\<rparr>"
    by (simp add: st'_def show_indices_def u w [unfolded x_def])
  have i: "indexh st' = ih" "indexv st' = iv" by (simp_all add: st')
  have wh: "where_at st' = where_at (st\<lparr>deck := D2, indexh := ih, indexv := iv\<rparr>)" unfolding st' by (rule where_visibility)
  have sk: "skel (deck st') = skel D2" and sh: "shape (deck st') = shape D2" using where_eqD [OF wh] by simp_all
  have vl: "length (vsecs (D1 ! nat ih)) = length vs"
    using shape_vlength [OF H(4) k] by (simp add: vs_def i)
  have ve: "(vsecs (D1 ! nat ih) = []) = (vs = [])" using vl by (metis length_0_conv)
  show "indexh st' = clamp_index C (length (deck st)) h" "0 \<le> indexh st'" "indexh st' < int (length (deck st))"
    using H(1,2,3) by (simp_all add: i)
  show "indexv st' = (if vs = [] then 0 else clamp_index C (length vs) x)" using V(1) vl ve by (simp add: i)
  show "shape (deck st') = shape (deck st)" using sh V(2) H(4) by simp
  show "current st' = current st" "overview st' = overview st" by (simp_all add: st')
  show "present_h (deck st') k" using V(3) skel_present_h [OF sk] by (simp add: k_def i)
  show "past_h C (deck st') k" using V(4) [OF H(6)] skel_past_h [OF sk] by (simp add: k_def i)
  show "stacks_ok (deck st')" using V(5) [OF H(7) [OF assms(3)]] skel_stacks [OF sk] by simp
  show "present_v (deck st') ({p \<in> P. fst p \<noteq> k} \<union> (if vs = [] then {} else {(k, nat (indexv st'))}))"
    if P: "present_v (deck st) P" for P
  proof -
    have "present_v D2 ({p \<in> P. fst p \<noteq> nat ih} \<union> (if vs = [] then {} else {(nat ih, nat iv)}))"
      using V(6) [OF H(8) [OF P]] unfolding ve .
    then show ?thesis using skel_present_v [OF sk] unfolding k_def i by blast
  qed
qed

text \<open>The names of the states come from slides of the deck.\<close>

lemma state_names_of: "states_ok D \<Longrightarrow> h \<in> set D \<Longrightarrow> s \<in> set (hsec h # vsecs h) \<Longrightarrow> t \<in> set (state_names s) \<Longrightarrow> class_token t"
  unfolding states_ok_def by blast

lemma update_h_names:
  assumes "states_ok D" and "update_h C x D = (D1, i, n)" and "t \<in> set n"
  shows "class_token t"
proof -
  have ne: "D \<noteq> []" using assms(2,3) by (auto simp: update_h_def)
  then have n: "n = state_names (hsec (D ! nat (clamp_index C (length D) x)))" using assms(2) by (auto simp: update_h_def Let_def)
  have "nat (clamp_index C (length D) x) < length D" using ne clamp_range [of "length D" C x]
    by (simp add: nat_less_iff)
  from state_names_of [OF assms(1) nth_mem [OF this], of "hsec (D ! nat (clamp_index C (length D) x))" t] show ?thesis
    using assms(3) n by simp
qed

lemma update_v_names:
  assumes "states_ok D" and "update_v C x D = (D1, i, n)" and "t \<in> set n"
  shows "class_token t"
proof -
  let ?vs = "present_verticals D"
  have ne: "?vs \<noteq> []" using assms(2,3) by (auto simp: update_v_def)
  then have n: "n = state_names (?vs ! nat (clamp_index C (length ?vs) x))" using assms(2) by (auto simp: update_v_def Let_def)
  have "nat (clamp_index C (length ?vs) x) < length ?vs" using ne clamp_range [of "length ?vs" C x]
    by (simp add: nat_less_iff)
  then have "?vs ! nat (clamp_index C (length ?vs) x) \<in> set ?vs" by (rule nth_mem)
  then obtain h where h: "h \<in> set D" "?vs ! nat (clamp_index C (length ?vs) x) \<in> set (vsecs h)"
    by (auto simp: present_verticals_def split: if_splits)
  from state_names_of [OF assms(1) h(1), of "?vs ! nat (clamp_index C (length ?vs) x)" t] show ?thesis
    using assms(3) n h(2) by simp
qed

lemma show_indices_names:
  assumes "states_ok (deck st)" and "\<not> rc_printing C" and "deck st \<noteq> []" and "t \<in> set (dstate (show_indices C h v st))"
  shows "class_token t"
proof -
  obtain D1 ih n1 where u: "update_h C h (deck st) = (D1, ih, n1)" by (cases "update_h C h (deck st)")
  obtain D2 iv n2 where w: "update_v C (case v of Some x \<Rightarrow> x | None \<Rightarrow> indexv st) D1 = (D2, iv, n2)"
    by (cases "update_v C (case v of Some x \<Rightarrow> x | None \<Rightarrow> indexv st) D1")
  have "states_ok D1" using states_ok_shape [OF update_h_spec(4) [OF assms(3,2) u]] assms(1) by simp
  moreover have "t \<in> set n1 \<or> t \<in> set n2" using assms(4) by (simp add: show_indices_def u w)
  ultimately show ?thesis using update_h_names [OF assms(1) u] update_v_names [OF _ w] by blast
qed

text \<open>Taking the class off the slide that is left.\<close>

lemma drop_previous_h:
  assumes "present_h D h" "i \<noteq> h" "i < length D"
  shows "skel (upd_sect (i, None) (\<lambda>s. s\<lparr>sc_present := False, sc_aria := True\<rparr>) D) = skel D"
proof -
  have "\<not> sc_present (hsec (D ! i))" using assms by (simp add: present_h_def)
  then have "hskel ((D ! i)\<lparr>hsec := (hsec (D ! i))\<lparr>sc_present := False, sc_aria := True\<rparr>\<rparr>) = hskel (D ! i)"
    by (simp add: hskel_def flags_def)
  then show ?thesis by (simp add: upd_sect_def Let_def skel_update)
qed

lemma drop_previous_v:
  fixes i j :: nat
  assumes "present_v D P"
  defines "D' \<equiv> upd_sect (i, Some j) (\<lambda>s. s\<lparr>sc_present := False, sc_aria := True\<rparr>) D"
  shows "present_h D' h = present_h D h" "past_h C D' h = past_h C D h" "stacks_ok D \<Longrightarrow> stacks_ok D'"
    and "present_v D' (P - {(i, j)})"
proof -
  have at: "length D' = length D" "k < length D \<Longrightarrow> hsec (D' ! k) = hsec (D ! k) \<and> stack (D' ! k) = stack (D ! k) \<and>
      length (vsecs (D' ! k)) = length (vsecs (D ! k))" for k
    by (cases "i < length D"; simp add: D'_def upd_sect_def nth_list_update Let_def list_update_beyond not_less)+
  show "present_h D' h = present_h D h" "past_h C D' h = past_h C D h" using at by (simp_all add: present_h_def past_h_def)
  show "stacks_ok D'" if "stacks_ok D"
  proof -
    have "(vsecs (D' ! k) = []) = (vsecs (D ! k) = [])" if "k < length D" for k using at(2) [OF that] by (metis length_0_conv)
    then show ?thesis using that at by (simp add: stacks_ok_def all_set_conv_all_nth)
  qed
  show "present_v D' (P - {(i, j)})"
    unfolding present_v_def
  proof (intro allI impI)
    fix k l assume k: "k < length D'" "l < length (vsecs (D' ! k))"
    then have k': "k < length D" "l < length (vsecs (D ! k))" using at by auto
    have "vsecs (D' ! k) ! l = (if k = i \<and> l = j then (vsecs (D ! k) ! l)\<lparr>sc_present := False, sc_aria := True\<rparr> else vsecs (D ! k) ! l)"
      using k' by (cases "i < length D") (auto simp: D'_def upd_sect_def nth_list_update Let_def)
    then show "sc_present (vsecs (D' ! k) ! l) = ((k, l) \<in> P - {(i, j)})"
      using assms(1) k' by (auto simp: present_v_def)
  qed
qed

lemma drop_frame: "indexh (drop_previous r st) = indexh st" "indexv (drop_previous r st) = indexv st"
  "current (drop_previous r st) = current st"
  "deck (drop_previous r st) = (case r of None \<Rightarrow> deck st | Some r \<Rightarrow> upd_sect r (\<lambda>s. s\<lparr>sc_present := False, sc_aria := True\<rparr>) (deck st))"
  by (simp_all add: drop_previous_def Let_def split: option.split)

lemma drop_shape: "shape (upd_sect r (\<lambda>s. s\<lparr>sc_present := False, sc_aria := True\<rparr>) D) = shape D"
proof -
  have m: "map tag (vs[v := (vs ! v)\<lparr>sc_present := False, sc_aria := True\<rparr>]) = map tag vs" for vs v
    by (rule map_update_same) (simp add: tag_def)
  show ?thesis unfolding upd_sect_def Let_def
    by (rule shape_update) (simp_all add: m tag_def split: option.split)
qed

lemma drop_ok:
  assumes prev: "case prev of None \<Rightarrow> P \<subseteq> N | Some (i, None) \<Rightarrow> i \<noteq> nat (indexh st) \<and> i < length (deck st) \<and> P \<subseteq> N
      | Some (i, Some j) \<Rightarrow> P - {(i, j)} = N"
    and D: "present_h (deck st) (nat (indexh st))" "past_h C (deck st) (nat (indexh st))" "stacks_ok (deck st)" "present_v (deck st) P"
    and so: "states_ok (deck st)"
    and N: "N = (if vsecs (deck st ! nat (indexh st)) = [] then {} else {(nat (indexh st), nat (indexv st))})"
    and r: "0 \<le> indexh st" "indexh st < int (length (deck st))" "0 \<le> indexv st"
      "if vsecs (deck st ! nat (indexh st)) = [] then indexv st = 0 else indexv st < int (length (vsecs (deck st ! nat (indexh st))))"
    and c: "current st = Some (current_ref st)" and NP: "N \<subseteq> P"
  shows "nav_ok C (drop_previous prev st)"
proof -
  let ?st = "drop_previous prev st"
  have sh: "shape (deck ?st) = shape (deck st)" by (simp add: drop_frame drop_shape split: option.split)
  have l: "length (vsecs (deck ?st ! nat (indexh st))) = length (vsecs (deck st ! nat (indexh st)))"
    using shape_vlength [OF sh] shape_length [OF sh] r by simp
  have e: "(vsecs (deck ?st ! nat (indexh st)) = []) = (vsecs (deck st ! nat (indexh st)) = [])" using l by (metis length_0_conv)
  have "present_h (deck ?st) (nat (indexh st)) \<and> past_h C (deck ?st) (nat (indexh st)) \<and> stacks_ok (deck ?st) \<and> present_v (deck ?st) N"
  proof (cases prev)
    case None
    then have "P = N" using prev NP by auto
    with None D show ?thesis by (simp add: drop_frame)
  next
    case (Some q)
    obtain i jo where q: "q = (i, jo)" by (cases q)
    show ?thesis
    proof (cases jo)
      case None
      then have i: "i \<noteq> nat (indexh st)" "i < length (deck st)" "P = N" using prev NP Some q by auto
      have s: "skel (deck ?st) = skel (deck st)"
        using drop_previous_h [OF D(1) i(1,2)] Some q None by (simp add: drop_frame)
      show ?thesis using D i(3) skel_present_h [OF s] skel_past_h [OF s] skel_stacks [OF s] skel_present_v [OF s] by simp
    next
      case (Some j)
      then have "P - {(i, j)} = N" using prev \<open>prev = Some q\<close> q by simp
      then show ?thesis using drop_previous_v [OF D(4), where i = i and j = j] D(1,2,3) \<open>prev = Some q\<close> q Some by (simp add: drop_frame)
    qed
  qed
  then have m: "present_h (deck ?st) (nat (indexh st))" "past_h C (deck ?st) (nat (indexh st))" "stacks_ok (deck ?st)"
    "present_v (deck ?st) (if vsecs (deck st ! nat (indexh st)) = [] then {} else {(nat (indexh st), nat (indexv st))})"
    unfolding N(1) by blast+
  have "current_ref ?st = current_ref st" using l by (simp add: current_ref_def drop_frame(1,2) Let_def)
  then have cr: "current st = Some (current_ref ?st)" using c by simp
  have r': "indexh st < int (length (deck ?st))" using r(2) shape_length [OF sh] by simp
  have v: "if vsecs (deck st ! nat (indexh st)) = [] then indexv st = 0 else indexv st < int (length (vsecs (deck ?st ! nat (indexh st))))"
    using r(4) unfolding l .
  have "states_ok (deck ?st)" using so states_ok_shape [OF sh] by simp
  then show ?thesis unfolding nav_ok_def Let_def drop_frame(1,2,3) e using r(1,3) r' v cr m by blast
qed

text \<open>\<open>slide\<close> always comes back on a deck with slides, and leaves the state consistent.\<close>

definition position_after :: "rconfig \<Rightarrow> int \<Rightarrow> int option \<Rightarrow> rstate \<Rightarrow> rstate \<Rightarrow> bool" where
  "position_after C h v st st' \<longleftrightarrow>
     (let vs = vsecs (deck st ! nat (indexh st'))
      in shape (deck st') = shape (deck st) \<and>
         indexh st' = clamp_index C (length (deck st)) h \<and>
         indexv st' = (if vs = [] then 0
           else clamp_index C (length vs) (case slide_v h v st of Some x \<Rightarrow> x | None \<Rightarrow> indexv st)))"

lemma slide_ok:
  assumes np: "\<not> rc_printing C" and st: "nav_ok C st \<or> unvisited st"
  shows "\<exists>st'. slide C h v f st = Some st' \<and> nav_ok C st' \<and> position_after C h v st st'"
proof -
  let ?stA = "leave_stack st"
  have wA: "where_at ?stA = where_at st" by simp
  note eA = where_eqD [OF wA]
  have D: "deck st \<noteq> []" "\<forall>h \<in> set (deck st). stack h \<longrightarrow> vsecs h \<noteq> []"
    using st by (auto simp: nav_ok_def unvisited_def stacks_ok_def Let_def)
  have DA: "deck ?stA \<noteq> []" using D(1) eA by (metis length_0_conv)
  have skA: "\<forall>h \<in> set (deck ?stA). stack h \<longrightarrow> vsecs h \<noteq> []"
  proof -
    have "hskel (deck ?stA ! i) = hskel (deck st ! i)" if "i < length (deck st)" for i
      using skel_nth [of "deck ?stA" "deck st" i] eA that by simp
    then have "stack (deck ?stA ! i) \<longrightarrow> vsecs (deck ?stA ! i) \<noteq> []" if "i < length (deck st)" for i
      using D(2) that nth_mem [OF that] by (metis hskel_def list.map_disc_iff prod.inject)
    then show ?thesis using eA by (simp add: all_set_conv_all_nth)
  qed
  define P where "P = (if current st = None \<or> vsecs (deck st ! nat (indexh st)) = [] then {} else {(nat (indexh st), nat (indexv st))})"
  have P: "present_v (deck ?stA) P"
  proof -
    have "present_v (deck st) P" using st by (auto simp: P_def nav_ok_def unvisited_def Let_def)
    then show ?thesis using skel_present_v [of "deck ?stA" "deck st"] eA by simp
  qed
  define st1 where "st1 = show_indices C h (slide_v h v st) ?stA"
  define x where "x = (case slide_v h v st of Some x \<Rightarrow> x | None \<Rightarrow> indexv ?stA)"
  define k where "k = nat (indexh st1)"
  define vs where "vs = vsecs (deck ?stA ! k)"
  note S = show_indices_spec [OF DA np skA, where h = h and v = "slide_v h v st", folded st1_def x_def k_def vs_def]
  have S4: "indexv st1 = (if vs = [] then 0 else clamp_index C (length vs) x)" using S(4) unfolding vs_def .
  define N where "N = (if vs = [] then {} else {(k, nat (indexv st1))})"
  have pv: "present_v (deck st1) ({p \<in> P. fst p \<noteq> k} \<union> N)" using S(11) [OF P] unfolding N_def vs_def .
  have so: "states_ok (deck st)" using st by (auto simp: nav_ok_def unvisited_def Let_def)
  then have soA: "states_ok (deck ?stA)" using states_ok_shape [of "deck ?stA" "deck st"] eA by simp
  have "\<forall>t \<in> set (dstate st1). class_token t" using show_indices_names [OF soA np DA] by (simp add: st1_def)
  then obtain st2 where st2: "apply_states (dstate st1) (dstate st) st1 = Some st2" using apply_states_ok by blast
  have w2: "where_at st2 = where_at st1" using apply_states_only [OF st2] by (auto simp: where_at_def)
  define st3 where "st3 = st2\<lparr>current := Some (current_ref st2)\<rparr>"
  define st4 where "st4 = (case f of Some i \<Rightarrow> fst (navigateFragment C (Some i) None st3) | None \<Rightarrow> st3)"
  define changed where "changed = (indexh st4 \<noteq> indexh st \<or> indexv st4 \<noteq> indexv st)"
  define prev where "prev = (if changed then current st else None)"
  define st5 where "st5 = (if changed then dispatchEvent (SlideChanged (indexh st4) (indexv st4)) st4 else st4)\<lparr>previous := prev\<rparr>"
  define st6 where "st6 = drop_previous prev st5"
  have eq: "slide C h v f st = Some (cueAutoSlide C (writeURL C (updateControls C st6)))"
    unfolding slide_def Let_def st6_def st5_def prev_def changed_def st4_def st3_def
    using D(1) st2 [unfolded st1_def] by (simp only: if_False option.case)
  have w3: "where_at st3 = where_at (st1\<lparr>current := Some (current_ref st2)\<rparr>)"
    using w2 by (simp add: st3_def where_at_def)
  have w4: "where_at st4 = where_at st3" by (simp add: st4_def where_fragment split: option.split)
  have w5: "where_at st5 = where_at st4"
  proof -
    have "where_at (s\<lparr>previous := q\<rparr>) = where_at s" for s q by (simp add: where_at_def)
    then show ?thesis by (simp add: st5_def)
  qed
  have w: "where_at st5 = where_at (st1\<lparr>current := Some (current_ref st2)\<rparr>)"
    using w3 w4 w5 by simp
  note e5 = where_eqD [OF w, simplified]
  have i5: "indexh st5 = indexh st1" "indexv st5 = indexv st1" using e5 by auto
  have s5: "shape (deck st5) = shape (deck ?stA)" using S(5) e5 by simp
  have k5: "k < length (deck st5)" using S(2,3) shape_length [OF s5] by (simp add: k_def)
  have vl: "length (vsecs (deck st5 ! k)) = length vs" unfolding vs_def by (rule shape_vlength [OF s5 k5])
  have ve: "(vsecs (deck st5 ! k) = []) = (vs = [])" using vl by (metis length_0_conv)
  have cr: "current_ref st2 = current_ref st5"
  proof -
    note ea = where_eqD [OF w2]
    have sa: "shape (deck st2) = shape (deck ?stA)" using ea S(5) by simp
    have "k < length (deck st2)" using S(2,3) shape_length [OF sa] by (simp add: k_def)
    then have "length (vsecs (deck st2 ! k)) = length vs" unfolding vs_def by (rule shape_vlength [OF sa])
    then show ?thesis using ea i5 vl by (simp add: current_ref_def Let_def k_def)
  qed
  have e5': "length (deck st5) = length (deck ?stA)" "skel (deck st5) = skel (deck st1)" "current st5 = Some (current_ref st5)"
    using shape_length [OF s5] e5 cr by simp_all
  have vA: "length vs = length (vsecs (deck st ! k))"
    using shape_vlength [of "deck ?stA" "deck st" k] eA S(2,3) by (simp add: vs_def k_def)
  have veA: "(vs = []) = (vsecs (deck st ! k) = [])" using vA by (metis length_0_conv)
  have i4: "indexh st4 = indexh st1" "indexv st4 = indexv st1" using w3 w4 by (simp_all add: where_at_def)
  have prev_ok: "case prev of None \<Rightarrow> {p \<in> P. fst p \<noteq> k} \<union> N \<subseteq> N
      | Some (i, None) \<Rightarrow> i \<noteq> nat (indexh st5) \<and> i < length (deck st5) \<and> {p \<in> P. fst p \<noteq> k} \<union> N \<subseteq> N
      | Some (i, Some j) \<Rightarrow> ({p \<in> P. fst p \<noteq> k} \<union> N) - {(i, j)} = N"
  proof (cases "changed \<and> current st \<noteq> None")
    case False
    have "P = {} \<or> k = nat (indexh st)"
    proof (cases "current st = None")
      case True
      then show ?thesis by (simp add: P_def)
    next
      case False
      with \<open>\<not> (changed \<and> current st \<noteq> None)\<close> have "indexh st1 = indexh st" by (simp add: changed_def i4)
      then show ?thesis by (simp add: k_def)
    qed
    then have "{p \<in> P. fst p \<noteq> k} = {}" by (auto simp: P_def)
    moreover have "prev = None" using False unfolding prev_def by metis
    ultimately show ?thesis unfolding \<open>prev = None\<close> by auto
  next
    case True
    then have ok: "nav_ok C st" and c: "prev = current st" using st by (auto simp: unvisited_def prev_def)
    let ?h = "nat (indexh st)" and ?vs = "vsecs (deck st ! nat (indexh st))"
    have o: "0 \<le> indexh st" "?h < length (deck st)" "0 \<le> indexv st" "if ?vs = [] then indexv st = 0 else indexv st < int (length ?vs)"
      "current st = Some (current_ref st)" using ok by (auto simp: nav_ok_def Let_def)
    have ch: "indexh st1 \<noteq> indexh st \<or> indexv st1 \<noteq> indexv st" using True by (simp add: changed_def i4)
    have l5: "length (deck st5) = length (deck st)" using e5'(1) eA by simp
    show ?thesis
    proof (cases "?vs = []")
      case empty: True
      have "k \<noteq> ?h"
      proof
        assume kh: "k = ?h"
        then have "vs = []" using veA empty by simp
        then have "indexv st1 = indexv st" using S4 o(4) empty by simp
        moreover have "indexh st1 = indexh st" using kh o(1) S(2) by (simp add: k_def)
        ultimately show False using ch by blast
      qed
      moreover have "prev = Some (?h, None)" using c o(3,4,5) empty by (simp add: current_ref_def Let_def)
      moreover have "P = {}" using empty by (simp add: P_def)
      ultimately show ?thesis using o(2) l5 i5 by (auto simp: k_def)
    next
      case stk: False
      then have P: "P = {(?h, nat (indexv st))}" using True by (simp add: P_def)
      have pr: "prev = Some (?h, Some (nat (indexv st)))" using c o(4,5) stk by (simp add: current_ref_def Let_def)
      have "({p \<in> P. fst p \<noteq> k} \<union> N) - {(?h, nat (indexv st))} = N"
      proof (cases "k = ?h")
        case kh: True
        then have "indexh st1 = indexh st" using o(1) S(2) by (simp add: k_def)
        then have "indexv st1 \<noteq> indexv st" using ch by blast
        moreover have "0 \<le> indexv st1" using S4 clamp_range [of "length vs" C x] by auto
        ultimately have "nat (indexv st1) \<noteq> nat (indexv st)" using o(3) by simp
        then show ?thesis using kh by (auto simp: P N_def)
      qed (auto simp: P N_def)
      with pr show ?thesis by simp
    qed
  qed
  have "nav_ok C st6"
    unfolding st6_def
  proof (rule drop_ok [OF prev_ok])
    show "present_h (deck st5) (nat (indexh st5))" using S(8) skel_present_h [OF e5'(2)] i5 by (simp add: k_def)
    show "past_h C (deck st5) (nat (indexh st5))" using S(9) skel_past_h [OF e5'(2)] i5 by (simp add: k_def)
    show "stacks_ok (deck st5)" using S(10) skel_stacks [OF e5'(2)] by simp
    show "states_ok (deck st5)" using soA states_ok_shape [OF s5] by simp
    show "present_v (deck st5) ({p \<in> P. fst p \<noteq> k} \<union> N)" using pv skel_present_v [OF e5'(2)] by simp
    show "N = (if vsecs (deck st5 ! nat (indexh st5)) = [] then {} else {(nat (indexh st5), nat (indexv st5))})"
      using ve i5 by (simp add: N_def k_def)
    show "0 \<le> indexh st5" "indexh st5 < int (length (deck st5))" using S(2,3) i5 e5'(1) by simp_all
    have "0 \<le> indexv st1 \<and> (vs \<noteq> [] \<longrightarrow> indexv st1 < int (length vs)) \<and> (vs = [] \<longrightarrow> indexv st1 = 0)"
      using S4 clamp_range [of "length vs" C x] by auto
    then show "0 \<le> indexv st5"
      "if vsecs (deck st5 ! nat (indexh st5)) = [] then indexv st5 = 0 else indexv st5 < int (length (vsecs (deck st5 ! nat (indexh st5))))"
      using ve vl i5 by (simp_all add: k_def)
    show "current st5 = Some (current_ref st5)" by (rule e5'(3))
    show "N \<subseteq> {p \<in> P. fst p \<noteq> k} \<union> N" by blast
  qed
  moreover have f6: "where_at (cueAutoSlide C (writeURL C (updateControls C st6))) = where_at st6" by simp
  ultimately have ok: "nav_ok C (cueAutoSlide C (writeURL C (updateControls C st6)))" using nav_ok_where [OF f6 [symmetric]] by blast
  have sh6: "shape (deck st6) = shape (deck st)"
  proof -
    have "shape (deck st6) = shape (deck st5)" by (simp add: st6_def drop_frame drop_shape split: option.split)
    also have "\<dots> = shape (deck st)" using e5 S(5) eA by simp
    finally show ?thesis .
  qed
  have xe: "x = (case slide_v h v st of Some x \<Rightarrow> x | None \<Rightarrow> indexv st)" using eA by (simp add: x_def split: option.split)
  have i6: "indexh st6 = indexh st1" "indexv st6 = indexv st1" using i5 by (simp_all add: st6_def drop_frame)
  have "position_after C h v st (cueAutoSlide C (writeURL C (updateControls C st6)))"
    using where_eqD [OF f6] sh6 i6 S(1) S4 eA vA veA xe
    by (simp add: position_after_def Let_def k_def)
  with eq ok show ?thesis by blast
qed

section \<open>All inputs\<close>

text \<open>A consistent state of a presentation whose slides have the ids \<open>s\<close>.\<close>

definition placed :: "rconfig \<Rightarrow> deck_shape \<Rightarrow> rstate \<Rightarrow> bool" where
  "placed C s st \<longleftrightarrow> \<not> rc_printing C \<and> nav_ok C st \<and> shape (deck st) = s"

lemma placed_where: "placed C s st \<Longrightarrow> where_at st' = where_at st \<Longrightarrow> placed C s st'"
  using nav_ok_where [of st st' C] where_eqD [of st' st] by (simp add: placed_def)

lemma where_shown [simp]: "where_at (st\<lparr>deck := updateSlidesVisibility C b h v (deck st)\<rparr>) = where_at st"
  using where_visibility [where st = st and C = C and ov = b and h = h and v = v and D = "deck st" and a = "indexh st"
      and b = "indexv st" and n = "dstate st"] by (simp add: where_at_def)

lemma where_reset [simp]: "where_at (run_reset st) = where_at st"
proof -
  have "skel (map (\<lambda>h. if stack h then h\<lparr>prevv := Some 0\<rparr> else h) D) = skel D"
    "shape (map (\<lambda>h. if stack h then h\<lparr>prevv := Some 0\<rparr> else h) D) = shape D" for D
    by (simp_all add: skel_def shape_def hskel_def)
  then show ?thesis by (simp add: run_reset_def where_at_def)
qed

lemma where_outside [simp]:
  "where_at (st\<lparr>autoTimer := x1\<rparr>) = where_at st" "where_at (st\<lparr>autoSlidePaused := x2\<rparr>) = where_at st"
  "where_at (st\<lparr>paused := x3\<rparr>) = where_at st" "where_at (st\<lparr>overview := x4\<rparr>) = where_at st"
  "where_at (st\<lparr>rlog := x5\<rparr>) = where_at st" "where_at (st\<lparr>hash := x6\<rparr>) = where_at st"
  "where_at (st\<lparr>overlay := x7\<rparr>) = where_at st" "where_at (st\<lparr>lastWheel := x8\<rparr>) = where_at st"
  by (simp_all add: where_at_def)

interpretation position: navigation_invariant C "placed C s" for C s
proof unfold_locales
  show "safe (placed C s) (slide C h v f st)" if "placed C s st" for st h v f
    using slide_ok [of C st h v f] that by (auto simp: safe_def placed_def position_after_def Let_def)
qed (erule placed_where, simp add: where_fragment)+

section \<open>Starting\<close>

text \<open>
  A deck as its author writes it: no slide of a stack is marked present, nothing else a stack,
  and the states are names of classes with single spaces between them.
\<close>

definition authored :: "hsect list \<Rightarrow> bool" where
  "authored D \<longleftrightarrow> D \<noteq> [] \<and> states_ok D \<and> (\<forall>h \<in> set D. (stack h \<longrightarrow> vsecs h \<noteq> []) \<and> (\<forall>s \<in> set (vsecs h). \<not> sc_present s))"

text \<open>What \<open>start\<close> hands to \<open>readURL\<close>.\<close>

definition synced :: "rconfig \<Rightarrow> hsect list \<Rightarrow> string \<Rightarrow> rstate" where
  "synced C D url = (fresh_deck D url)\<lparr>deck := sortAllFragments (deck (fresh_deck D url)), autoSlide := rc_autoSlide C\<rparr>"

lemma start_synced: "start C inner D url = readURL C inner (synced C D url)"
  by (simp add: start_def synced_def Let_def)

lemma synced_frame [simp]: "current (synced C D url) = None" "hash (synced C D url) = url"
  by (simp_all add: synced_def fresh_deck_def)

lemma fresh_start:
  assumes "authored D"
  shows "unvisited (synced C D url)" "shape (deck (synced C D url)) = shape D"
proof -
  let ?st = "synced C D url"
  have at: "sortAllFragments (resetVerticalSlides D) ! i =
      (let sf = (\<lambda>s. s\<lparr>sc_frags := fst (sortFragments (sc_frags s))\<rparr>);
           h = (D ! i)\<lparr>vsecs := map_nth (\<lambda>y s. if y > 0 then s\<lparr>sc_present := False, sc_past := False, sc_future := True,
              sc_aria := True\<rparr> else s) (vsecs (D ! i))\<rparr>
       in if vsecs h = [] then h\<lparr>hsec := sf (hsec h)\<rparr> else h\<lparr>vsecs := map sf (vsecs h)\<rparr>)" if "i < length D" for i
    using that by (simp add: sortAllFragments_def resetVerticalSlides_def Let_def)
  have len: "length (sortAllFragments (resetVerticalSlides D)) = length D"
    by (simp add: sortAllFragments_def resetVerticalSlides_def Let_def)
  have sh: "shape (sortAllFragments (resetVerticalSlides D)) = shape D"
  proof -
    have m: "map g (map_nth f vs) = map g vs" if "\<And>y s. g (f y s) = g s" for g :: "sect \<Rightarrow> 'b" and f vs
      using that by (intro nth_equalityI) simp_all
    have tf: "tag (s\<lparr>sc_frags := fs\<rparr>) = tag s" for s fs by (simp add: tag_def)
    have "tag (hsec (sortAllFragments (resetVerticalSlides D) ! i)) = tag (hsec (D ! i)) \<and>
        map tag (vsecs (sortAllFragments (resetVerticalSlides D) ! i)) = map tag (vsecs (D ! i))" if "i < length D" for i
      unfolding at [OF that] Let_def by (simp add: comp_def tf) (intro conjI impI m, simp add: tag_def)
    then show ?thesis unfolding shape_def by (intro nth_equalityI) (simp_all add: len)
  qed
  have "present_v (sortAllFragments (resetVerticalSlides D)) {}"
  proof -
    have "\<not> sc_present (vsecs (D ! i) ! j)" if "i < length D" "j < length (vsecs (D ! i))" for i j
      using assms nth_mem [OF that(1)] nth_mem [OF that(2)] unfolding authored_def by blast
    then show ?thesis by (auto simp: present_v_def len at Let_def split: if_splits)
  qed
  moreover have "\<forall>h \<in> set (sortAllFragments (resetVerticalSlides D)). stack h \<longrightarrow> vsecs h \<noteq> []"
    using assms unfolding authored_def all_set_conv_all_nth len by (auto simp: at Let_def)
  moreover have "sortAllFragments (resetVerticalSlides D) \<noteq> []" using assms len by (auto simp: authored_def)
  moreover have "states_ok (sortAllFragments (resetVerticalSlides D))"
    using assms states_ok_shape [OF sh] by (simp add: authored_def)
  ultimately show "unvisited ?st" by (simp add: unvisited_def synced_def fresh_deck_def)
  show "shape (deck ?st) = shape D" using sh by (simp add: synced_def fresh_deck_def)
qed

lemma start_placed:
  assumes "\<not> rc_printing C" and "authored D" and "sound_hash url"
  shows "safe (placed C (shape D)) (start C inner D url)"
proof -
  have "safe (placed C (shape D)) (slide C h v f (synced C D url))" for h v f
    using slide_ok [OF assms(1) disjI2 [OF fresh_start(1) [OF assms(2)]]] fresh_start(2) [OF assms(2)] assms(1)
    by (force simp: safe_def placed_def position_after_def Let_def)
  then show ?thesis using assms(3) unfolding start_synced readURL_def Let_def by (auto split: option.split prod.split)
qed

lemma start_sound: "start C inner D url \<noteq> None \<Longrightarrow> sound_hash url"
  using readURL_sound [of C inner "synced C D url"] by (simp add: start_synced)

lemma start_keeps: "\<not> rc_printing C \<Longrightarrow> authored D \<Longrightarrow> start C inner D url = Some st \<Longrightarrow> placed C (shape D) st"
  using start_placed [of C D url inner] start_sound [of C inner D url] by simp

text \<open>
  C34: whatever is done with a presentation, from its start on, by keys, clicks, the mouse
  wheel, timers, the URL and the API, never makes it throw, and leaves the indices, the
  current slide and the classes of all slides in agreement: exactly one horizontal slide is
  present, the one of the horizontal index, with the slides before it past and those after it
  future (or the other way round from right to left), and of all vertical slides exactly the
  one of the indices is present. The states of the slides are names of classes, and the numbers
  in a hash are exact ones.
\<close>

theorem position_consistent:
  assumes "\<not> rc_printing C" and "authored D" and "sound_hash url" and "\<forall>i \<in> set is. sound_input i"
  shows "\<exists>st. Option.bind (start C inner D url) (inputs C bs inner is) = Some st \<and> nav_ok C st"
proof -
  have "safe (placed C (shape D)) (Option.bind (start C inner D url) (inputs C bs inner is))"
    by (intro safe_bind start_placed position.inputs_safe assms)
  then show ?thesis by (auto simp: safe_def placed_def)
qed

text \<open>A slide and a stack of two, without and with fragments.\<close>

definition plain_sect :: "string \<Rightarrow> int option list \<Rightarrow> sect" where
  "plain_sect name fs =
     \<lparr>sc_id = (if name = [] then None else Some name), sc_state = None, sc_auto = None, sc_media = [], sc_past = False,
      sc_present = False, sc_future = False, sc_hidden = False, sc_aria = False, sc_shown = False,
      sc_frags = map (\<lambda>i. \<lparr>fr_index = i, fr_visible = False, fr_current = False, fr_auto = None\<rparr>) fs\<rparr>"

definition plain_config :: rconfig where
  "plain_config =
     \<lparr>rc_loop = False, rc_rtl = False, rc_fragments = True, rc_overview = True, rc_pause = True, rc_history = True,
      rc_autoSlide = 0, rc_slidesAuto = None, rc_autoSlideStoppable = True, rc_viewDistance = 3, rc_mobile = False, rc_printing = False,
      rc_slideNumber = Some ''c/t'', rc_transforms3d = True\<rparr>"

definition small_deck :: "hsect list" where
  "small_deck =
     [\<lparr>hsec = plain_sect ''home'' [None], vsecs = [], stack = False, prevv = None, startv = None\<rparr>,
      \<lparr>hsec = plain_sect [] [], vsecs = [plain_sect ''a1'' [], plain_sect ''a2'' [Some 3, Some 3]], stack = False,
       prevv = None, startv = None\<rparr>]"

definition press :: "int \<Rightarrow> input" where
  "press code = IKey \<lparr>k_allowed = True, k_code = code, k_shift = False, k_modified = False, k_typing = False\<rparr>"

theorem position_consistent_witness:
  "\<exists>st. Option.bind (start plain_config (\<lambda>_. None) small_deck [])
     (inputs plain_config [] (\<lambda>_. None) [press 32, press 39, IHash ''#/a2'', press 37, IScroll 1000 1]) = Some st \<and> nav_ok plain_config st"
proof (rule position_consistent)
  show "\<not> rc_printing plain_config" by (simp add: plain_config_def)
  show "authored small_deck" by code_simp
  show "sound_hash []" "\<forall>i \<in> set [press 32, press 39, IHash ''#/a2'', press 37, IScroll 1000 1]. sound_input i" by code_simp+
qed

end
