(* ===== verification/RevealProgress.thy ===== *)
theory RevealProgress
  imports RevealPosition
begin

text \<open>
  What the presentation of \<open>doc/slides/js/reveal.js\<close> tells about its position: the slide number
  and the progress bar count the slides in the order of the document, and the hash of the URL
  names the slide that is shown.
\<close>

section \<open>Runs\<close>

definition run :: "rconfig \<Rightarrow> bindings \<Rightarrow> (string \<Rightarrow> found option) \<Rightarrow> hsect list \<Rightarrow> string \<Rightarrow> input list \<Rightarrow> rstate option" where
  "run C bs inner D url is = Option.bind (start C inner D url) (inputs C bs inner is)"

lemma run_good:
  assumes "run C bs inner D url is = Some st" and "\<not> rc_printing C" and "authored D"
  shows "nav_ok C st" "shape (deck st) = shape D"
proof -
  obtain st0 where st0: "start C inner D url = Some st0" "inputs C bs inner is st0 = Some st"
    using assms(1) by (auto simp: run_def bind_eq_Some_conv)
  have "placed C (shape D) st" by (rule position.inputs_keep [OF start_keeps [OF assms(2,3) st0(1)] st0(2)])
  then show "nav_ok C st" "shape (deck st) = shape D" by (simp_all add: placed_def)
qed

section \<open>Counting slides\<close>

text \<open>The slides that are shown one at a time: a stack is only there for those inside it.\<close>

definition h_leaves :: "nat \<Rightarrow> hsect \<Rightarrow> slideref list" where
  "h_leaves h d = (if vsecs d = [] then [(h, None)] else map (\<lambda>v. (h, Some v)) [0..<length (vsecs d)])"

definition leaves :: "hsect list \<Rightarrow> slideref list" where
  "leaves D = concat (map_nth h_leaves D)"

lemma map_nth_Cons: "map_nth f (x # xs) = f 0 x # map_nth (\<lambda>i. f (Suc i)) xs"
  unfolding map_nth_def by (simp del: upt_Suc add: upt_conv_Cons map_Suc_upt [symmetric])

text \<open>The slides before slide \<open>h\<close>, and those of one stack before its slide \<open>v\<close>.\<close>

fun before_h :: "nat \<Rightarrow> hsect list \<Rightarrow> nat" where
  "before_h 0 D = 0"
| "before_h (Suc h) (d # D) = length (h_leaves 0 d) + before_h h D"
| "before_h (Suc h) [] = 0"

lemma length_h_leaves [simp]: "length (h_leaves h d) = (if vsecs d = [] then 1 else length (vsecs d))"
  by (simp add: h_leaves_def)

lemma leaves_nth:
  "h < length D \<Longrightarrow> j < length (h_leaves 0 (D ! h)) \<Longrightarrow>
    concat (map_nth (\<lambda>i. h_leaves (k + i)) D) ! (before_h h D + j) = h_leaves (k + h) (D ! h) ! j \<and>
    before_h h D + j < length (concat (map_nth (\<lambda>i. h_leaves (k + i)) D))"
proof (induction D arbitrary: h k)
  case (Cons d D)
  show ?case
  proof (cases h)
    case 0
    with Cons.prems show ?thesis by (auto simp: map_nth_Cons nth_append split: if_splits)
  next
    case (Suc n)
    with Cons.prems have "n < length D" "j < length (h_leaves 0 (D ! n))" by simp_all
    note IH = Cons.IH [OF this, of "Suc k"]
    have l: "length (h_leaves k d) = length (h_leaves 0 d)" by simp
    show ?thesis using IH Suc by (simp add: map_nth_Cons nth_append l del: length_h_leaves)
  qed
qed simp

lemma past_in_stack_nth:
  "past_in_stack vs = (if \<exists>s \<in> set vs. sc_present s then (length (takeWhile (\<lambda>s. \<not> sc_present s) vs), True) else (length vs, False))"
  by (induction vs) auto

lemma past_in_stack_at:
  "v < length vs \<Longrightarrow> (\<And>j. j < length vs \<Longrightarrow> sc_present (vs ! j) = (j = v)) \<Longrightarrow> past_in_stack vs = (v, True)"
proof (induction vs arbitrary: v)
  case (Cons s vs)
  show ?case
  proof (cases v)
    case 0
    then show ?thesis using Cons.prems(2) [of 0] by simp
  next
    case (Suc n)
    then have "\<not> sc_present s" using Cons.prems(2) [of 0] by simp
    moreover have "past_in_stack vs = (n, True)"
      using Cons.prems(1) Cons.prems(2) [of "Suc _"] Suc by (intro Cons.IH) auto
    ultimately show ?thesis using Suc by simp
  qed
qed simp

lemma past_in_stack_none: "\<forall>j < length vs. \<not> sc_present (vs ! j) \<Longrightarrow> past_in_stack vs = (length vs, False)"
  by (auto simp: past_in_stack_nth in_set_conv_nth)

lemma past_count:
  "present_h D h \<Longrightarrow> stacks_ok D \<Longrightarrow> h < length D \<Longrightarrow>
    (if vsecs (D ! h) = [] then v = 0 else v < length (vsecs (D ! h))) \<Longrightarrow>
    present_v D (if vsecs (D ! h) = [] then {} else {(h, v)}) \<Longrightarrow> getSlidePastCount D = before_h h D + v"
proof (induction D arbitrary: h)
  case (Cons d D)
  have st: "stack d = (vsecs d \<noteq> [])" "stacks_ok D" using Cons.prems(2) by (simp_all add: stacks_ok_def)
  show ?case
  proof (cases h)
    case 0
    have p: "sc_present (hsec d)" using Cons.prems(1) 0 by (auto simp: present_h_def)
    show ?thesis
    proof (cases "vsecs d = []")
      case True
      with p 0 Cons.prems(4) show ?thesis by simp
    next
      case False
      then have "sc_present (vsecs d ! j) = (j = v)" if "j < length (vsecs d)" for j
        using Cons.prems(5) 0 that by (auto simp: present_v_def)
      then have "past_in_stack (vsecs d) = (v, True)" using Cons.prems(4) 0 False by (intro past_in_stack_at) auto
      with 0 show ?thesis by simp
    qed
  next
    case (Suc n)
    have np: "\<not> sc_present (hsec d)" using Cons.prems(1) Suc by (auto simp: present_h_def)
    have "\<not> sc_present (vsecs d ! j)" if "j < length (vsecs d)" for j
      using Cons.prems(5) Suc that by (fastforce simp: present_v_def split: if_splits)
    then have a: "past_in_stack (vsecs d) = (length (vsecs d), False)" by (intro past_in_stack_none) simp
    have "getSlidePastCount D = before_h n D + v"
    proof (rule Cons.IH)
      show "present_h D n" using Cons.prems(1) Suc by (auto simp: present_h_def)
      show "present_v D (if vsecs (D ! n) = [] then {} else {(n, v)})"
        unfolding present_v_def
      proof (intro allI impI)
        fix i j assume "i < length D" "j < length (vsecs (D ! i))"
        then show "sc_present (vsecs (D ! i) ! j) = ((i, j) \<in> (if vsecs (D ! n) = [] then {} else {(n, v)}))"
          using Cons.prems(5) [unfolded present_v_def, rule_format, of "Suc i" j] Suc by (simp split: if_splits)
      qed
      show "if vsecs (D ! n) = [] then v = 0 else v < length (vsecs (D ! n))"
        using Cons.prems(4) unfolding Suc nth_Cons_Suc .
    qed (use Cons.prems(3) Suc st in simp_all)
    then show ?thesis using a np st Suc by simp
  qed
qed simp

lemma total_leaves: "stacks_ok D \<Longrightarrow> getTotalSlides D = length (concat (map_nth (\<lambda>i. h_leaves (k + i)) D))"
proof (induction D arbitrary: k)
  case (Cons d D)
  have "stack d = (vsecs d \<noteq> [])" "stacks_ok D" using Cons.prems by (simp_all add: stacks_ok_def)
  then show ?case using Cons.IH [of "Suc k"] by (simp add: getTotalSlides_def map_nth_Cons)
qed (simp add: getTotalSlides_def map_nth_def)

lemma distinct_leaves: "distinct (leaves D)"
proof -
  have "distinct (concat (map_nth (\<lambda>i. h_leaves (k + i)) D)) \<and>
      (\<forall>r \<in> set (concat (map_nth (\<lambda>i. h_leaves (k + i)) D)). k \<le> fst r)" for k
  proof (induction D arbitrary: k)
    case (Cons d D)
    have "distinct (h_leaves k d)" by (simp add: h_leaves_def distinct_map inj_on_def)
    moreover have "\<forall>r \<in> set (h_leaves k d). fst r = k" by (auto simp: h_leaves_def)
    ultimately show ?case using Cons.IH [of "Suc k"] by (fastforce simp: map_nth_Cons)
  qed (simp add: map_nth_def)
  from this [of 0] show ?thesis by (simp add: leaves_def)
qed

lemma position_count:
  assumes "nav_ok C st"
  shows "getSlidePastCount (deck st) < length (leaves (deck st))"
    and "leaves (deck st) ! getSlidePastCount (deck st) = current_ref st"
    and "getTotalSlides (deck st) = length (leaves (deck st))"
proof -
  let ?D = "deck st" and ?h = "nat (indexh st)" and ?v = "nat (indexv st)"
  have n: "?h < length ?D" "if vsecs (?D ! ?h) = [] then ?v = 0 else ?v < length (vsecs (?D ! ?h))" "present_h ?D ?h" "stacks_ok ?D"
    "present_v ?D (if vsecs (?D ! ?h) = [] then {} else {(?h, ?v)})" "0 \<le> indexv st"
    using assms by (auto simp: nav_ok_def Let_def split: if_splits)
  have c: "getSlidePastCount ?D = before_h ?h ?D + ?v" by (rule past_count [OF n(3,4,1,2,5)])
  have j: "?v < length (h_leaves 0 (?D ! ?h))" using n(2) by (simp split: if_splits)
  note l = leaves_nth [OF n(1) j, of 0]
  show "getSlidePastCount ?D < length (leaves ?D)" using l c by (simp add: leaves_def)
  have "h_leaves ?h (?D ! ?h) ! ?v = current_ref st"
    using n(2,6) by (auto simp: h_leaves_def current_ref_def Let_def split: if_splits)
  then show "leaves ?D ! getSlidePastCount ?D = current_ref st" using l c by (simp add: leaves_def)
  show "getTotalSlides ?D = length (leaves ?D)" using total_leaves [OF n(4), of 0] by (simp add: leaves_def)
qed

text \<open>
  C35: in every state a presentation can be in, the slide number and the total count its slides
  in the order of the document: the slide that is shown is the one at the count of the slides
  before it, and the total is the number of slides, stacks themselves not counted.
\<close>

theorem slide_number_counts:
  assumes "run C bs inner D url is = Some st" and "\<not> rc_printing C" and "authored D"
  shows "getSlidePastCount (deck st) < getTotalSlides (deck st) \<and> getTotalSlides (deck st) = length (leaves (deck st)) \<and>
    current st = Some (leaves (deck st) ! getSlidePastCount (deck st)) \<and> distinct (leaves (deck st))"
proof -
  note ok = run_good(1) [OF assms]
  have "current st = Some (current_ref st)" using ok by (simp add: nav_ok_def Let_def)
  then show ?thesis using position_count [OF ok] distinct_leaves by simp
qed


section \<open>Progress\<close>

lemma before_h_Suc: "h < length D \<Longrightarrow> before_h (Suc h) D = before_h h D + length (h_leaves 0 (D ! h))"
proof (induction h D rule: before_h.induct)
  case (1 D)
  then show ?case by (cases D) simp_all
next
  case (2 h d D)
  then show ?case by (simp del: length_h_leaves)
qed simp

lemma before_h_all: "before_h (length D) D = length (leaves D)"
proof -
  have "before_h (length D) D = length (concat (map_nth (\<lambda>i. h_leaves (k + i)) D))" for k
  proof (induction D arbitrary: k)
    case (Cons d D)
    from Cons.IH [of "Suc k"] show ?case by (simp add: map_nth_Cons)
  qed (simp add: map_nth_def)
  from this [of 0] show ?thesis by (simp add: leaves_def)
qed

lemma before_h_mono: "h \<le> k \<Longrightarrow> k \<le> length D \<Longrightarrow> before_h h D \<le> before_h k D"
  by (induction rule: dec_induct) (simp_all add: before_h_Suc)

lemma last_slide:
  assumes "nav_ok C st"
  shows "isLastSlide st = (\<not> overview st \<and> Suc (getSlidePastCount (deck st)) = getTotalSlides (deck st))"
proof -
  let ?D = "deck st" and ?h = "nat (indexh st)" and ?v = "nat (indexv st)"
  have n: "?h < length ?D" "if vsecs (?D ! ?h) = [] then ?v = 0 else ?v < length (vsecs (?D ! ?h))" "present_h ?D ?h" "stacks_ok ?D"
    "present_v ?D (if vsecs (?D ! ?h) = [] then {} else {(?h, ?v)})" "0 \<le> indexv st" "current st = Some (current_ref st)"
    using assms by (auto simp: nav_ok_def Let_def split: if_splits)
  have c: "getSlidePastCount ?D = before_h ?h ?D + ?v" by (rule past_count [OF n(3,4,1,2,5)])
  have t: "getTotalSlides ?D = before_h (length ?D) ?D" using position_count(3) [OF assms] before_h_all by simp
  have l: "isLastSlide st = (\<not> overview st \<and> Suc ?h \<ge> length ?D \<and> Suc ?v \<ge> length (h_leaves 0 (?D ! ?h)))"
    using n(2,6,7) by (auto simp: isLastSlide_def current_ref_def Let_def split: if_splits)
  have v: "?v < length (h_leaves 0 (?D ! ?h))" using n(2) by (simp split: if_splits)
  show ?thesis
  proof (cases "Suc ?h = length ?D")
    case True
    then show ?thesis using before_h_Suc [OF n(1)] c t l v by (auto simp del: length_h_leaves)
  next
    case False
    then have h: "Suc ?h < length ?D" using n(1) by simp
    then have "before_h (Suc (Suc ?h)) ?D \<le> before_h (length ?D) ?D" by (intro before_h_mono) simp_all
    moreover have "0 < length (h_leaves 0 (?D ! Suc ?h))" by simp
    ultimately have "Suc (before_h ?h ?D + ?v) < before_h (length ?D) ?D"
      using before_h_Suc [OF n(1)] before_h_Suc [OF h] v by linarith
    then show ?thesis using h c t l by simp
  qed
qed

text \<open>
  C36: the progress of a presentation with more than one slide is never below 0 and always below 2;
  it is beyond 1, where the comment in the source promises a value between 0 and 1, exactly on the last
  slide as soon as a fragment of that slide is visible. With one slide it is no number.
\<close>

theorem progress_range:
  assumes "run C bs inner D url is = Some st" and "\<not> rc_printing C" and "authored D" and "getTotalSlides (deck st) \<noteq> 1"
  shows "\<exists>p. getProgress st = Some p \<and> 0 \<le> p \<and> p < 2 \<and>
    (1 < p \<longleftrightarrow> Suc (getSlidePastCount (deck st)) = getTotalSlides (deck st) \<and> (\<exists>f \<in> set (current_frags st). fr_visible f))"
proof -
  note ok = run_good(1) [OF assms(1-3)]
  define n where "n = getSlidePastCount (deck st)"
  define t where "t = getTotalSlides (deck st)"
  define fs where "fs = current_frags st"
  define x where "x = (if fs \<noteq> [] then of_nat (length (filter fr_visible fs)) / of_nat (length fs) * (9 / 10) else (0 :: rat))"
  have nt: "n < t" using position_count(1,3) [OF ok] by (simp add: n_def t_def)
  then have t: "2 \<le> t" using assms(4) by (simp add: t_def)
  have x: "0 \<le> x" "x < 1" "0 < x \<longleftrightarrow> (\<exists>f \<in> set fs. fr_visible f)"
  proof -
    define r :: rat where "r = of_nat (length (filter fr_visible fs)) / of_nat (length fs)"
    have "0 \<le> r" "r \<le> 1" by (simp_all add: r_def divide_le_eq_1)
    then have "0 \<le> r * (9 / 10)" "r * (9 / 10) < 1" by simp_all
    then show "0 \<le> x" "x < 1" by (simp_all add: x_def r_def)
    show "0 < x \<longleftrightarrow> (\<exists>f \<in> set fs. fr_visible f)"
      by (auto simp: x_def zero_less_divide_iff filter_empty_conv)
  qed
  have p: "getProgress st = Some ((of_nat n + x) / (of_nat t - 1))"
    using assms(4) by (simp add: getProgress_def n_def t_def x_def fs_def Let_def)
  have t1: "(1 :: rat) \<le> of_nat t - 1" using t by (metis le_diff_eq of_nat_le_iff of_nat_numeral one_add_one)
  have nt1: "(of_nat n :: rat) \<le> of_nat t - 1" using nt by (metis Suc_leI le_diff_eq of_nat_Suc of_nat_le_iff add.commute)
  have "1 < (of_nat n + x) / (of_nat t - 1) \<longleftrightarrow> of_nat t - 1 < of_nat n + x" using t1 by (simp add: less_divide_eq)
  also have "\<dots> \<longleftrightarrow> Suc n = t \<and> 0 < x"
  proof (cases "Suc n = t")
    case True
    then have "(of_nat t :: rat) = of_nat n + 1" by (metis add.commute of_nat_Suc)
    with True show ?thesis by simp
  next
    case False
    then have "Suc (Suc n) \<le> t" using nt by simp
    then have "(of_nat (Suc (Suc n)) :: rat) \<le> of_nat t" by (simp only: of_nat_le_iff)
    with False x(2) show ?thesis by simp
  qed
  finally have "1 < (of_nat n + x) / (of_nat t - 1) \<longleftrightarrow> Suc n = t \<and> (\<exists>f \<in> set fs. fr_visible f)" using x(3) by blast
  moreover have "(of_nat n + x) / (of_nat t - 1) < 2" using t1 nt1 x(2) by (simp add: divide_less_eq)
  moreover have "0 \<le> (of_nat n + x) / (of_nat t - 1)" using t1 x(1) by simp
  ultimately show ?thesis unfolding p fs_def n_def t_def by blast
qed


definition last_visible_deck :: "hsect list" where
  "last_visible_deck = [(small_deck ! 1), (small_deck ! 0)]"

theorem slide_number_counts_witness:
  "\<exists>st. run plain_config [] (\<lambda>_. None) small_deck [] [press 35, press 40] = Some st \<and>
    getSlidePastCount (deck st) = 2 \<and> getTotalSlides (deck st) = 3 \<and> current st = Some (leaves (deck st) ! 2)"
proof -
  have r: "case run plain_config [] (\<lambda>_. None) small_deck [] [press 35, press 40] of
      Some st \<Rightarrow> getSlidePastCount (deck st) = 2 \<and> getTotalSlides (deck st) = 3 | None \<Rightarrow> False" by code_simp
  then obtain st where st: "run plain_config [] (\<lambda>_. None) small_deck [] [press 35, press 40] = Some st"
    "getSlidePastCount (deck st) = 2" "getTotalSlides (deck st) = 3" by (auto split: option.splits)
  have "\<not> rc_printing plain_config" "authored small_deck"
    by code_simp+
  from slide_number_counts [OF st(1) this] st show ?thesis by auto
qed

theorem progress_range_witness:
  "\<exists>st p. run plain_config [] (\<lambda>_. None) last_visible_deck [] [press 35, press 32] = Some st \<and>
    getSlidePastCount (deck st) = 2 \<and> getProgress st = Some p \<and> 1 < p"
proof -
  have r: "case run plain_config [] (\<lambda>_. None) last_visible_deck [] [press 35, press 32] of
      Some st \<Rightarrow> getTotalSlides (deck st) = 3 \<and> getSlidePastCount (deck st) = 2 \<and> (\<exists>f \<in> set (current_frags st). fr_visible f) | None \<Rightarrow> False"
    by code_simp
  then obtain st where st: "run plain_config [] (\<lambda>_. None) last_visible_deck [] [press 35, press 32] = Some st"
    "getTotalSlides (deck st) = 3" "getSlidePastCount (deck st) = 2" "\<exists>f \<in> set (current_frags st). fr_visible f" by (auto split: option.splits)
  have "\<not> rc_printing plain_config" "authored last_visible_deck"
    by code_simp+
  from progress_range [OF st(1) this] st show ?thesis by auto
qed

end
