(* ===== verification/RevealUrl.thy ===== *)
theory RevealUrl
  imports RevealProgress
begin

text \<open>
  The hash that \<open>writeURL\<close> of \<open>doc/slides/js/reveal.js\<close> writes and \<open>readURL\<close> follows: loading a
  presentation with the hash of a position comes back to that position.
\<close>

section \<open>Numbers and names in a hash\<close>

lemma digit_plain: "is_digit c \<Longrightarrow> \<not> spacec c \<and> c \<noteq> CHR ''-'' \<and> c \<noteq> CHR ''+'' \<and> c \<noteq> CHR ''/'' \<and> c \<noteq> CHR ''#''"
  by (auto simp: is_digit_def spacec_def)

lemma parseInt_digits:
  assumes "ds \<noteq> []" and "\<And>c. c \<in> set ds \<Longrightarrow> is_digit c"
  shows "parseInt ds = Some (int (str_nat ds))"
proof -
  obtain d r where ds: "ds = d # r" using assms(1) by (cases ds) auto
  have d: "is_digit d" using assms(2) ds by simp
  have "takeWhile is_digit ds = ds" using assms(2) by simp
  then show ?thesis using digit_plain [OF d] by (simp add: parseInt_def ds Let_def)
qed

lemma int_str_digits: "0 \<le> n \<Longrightarrow> int_str n \<noteq> [] \<and> (\<forall>c \<in> set (int_str n). is_digit c) \<and> str_nat (int_str n) = nat n"
  by (auto simp: int_str_def dest: nat_str_digits)

lemma parseInt_int_str: "0 \<le> n \<Longrightarrow> parseInt (int_str n) = Some n"
  using int_str_digits [of n] parseInt_digits [of "int_str n"] by simp

text \<open>The ids that make a link: a letter and then what \<open>writeURL\<close> keeps.\<close>

fun name_ok :: "string \<Rightarrow> bool" where
  "name_ok [] = False"
| "name_ok (c # cs) = (wordc c \<and> c \<noteq> CHR ''_'' \<and> \<not> is_digit c \<and> list_all url_char cs)"

lemma name_ok_chars: "name_ok s \<Longrightarrow> c \<in> set s \<Longrightarrow> url_char c"
  by (cases s) (auto simp: url_char_def list_all_iff)

lemma url_char_plain: "url_char c \<Longrightarrow> c \<noteq> CHR ''/'' \<and> c \<noteq> CHR ''#''"
  by (auto simp: url_char_def wordc_def)

lemma name_ok_test: "name_ok s \<Longrightarrow> re_test rname s"
proof -
  assume n: "name_ok s"
  then obtain c cs where s: "s = c # cs" by (cases s) auto
  let ?p = "\<lambda>c. wordc c \<or> anyof '':.-'' c"
  have c: "wordc c \<and> c \<noteq> CHR ''_'' \<and> \<not> is_digit c" using n s by simp
  have "\<And>c. c \<in> set cs \<Longrightarrow> ?p c" using n s by (auto simp: url_char_def list_all_iff)
  then have tw: "takeWhile ?p cs = cs" by (simp add: takeWhile_eq_all_conv)
  have "run_at ?p s 1 = Suc (length (takeWhile ?p cs))" by (simp add: run_at_def s)
  then have "run_at ?p s 1 = length s" unfolding tw by (simp add: s)
  then have "(length s, []) \<in> set (matches s (Star True (Ch ?p)) (1, []))"
    unfolding star_class by (simp add: s)
  then have "matches s (seqs [Ch (\<lambda>c. wordc c \<and> c \<noteq> CHR ''_'' \<and> \<not> is_digit c), Star True (Ch ?p), Eol False]) (0, []) \<noteq> []"
    using c by (auto simp: seqs_def s simp del: matches.simps(5) intro!: bexI)
  then show ?thesis
    using exec_anchored [of "seqs [Ch (\<lambda>c. wordc c \<and> c \<noteq> CHR ''_'' \<and> \<not> is_digit c), Star True (Ch ?p), Eol False]" s]
    by (simp add: re_test_def rname_def seqs_def del: matches.simps split: list.splits)
qed

lemma name_ok_no_number: "name_ok s \<Longrightarrow> parseInt s = None"
proof -
  assume n: "name_ok s"
  then obtain c cs where s: "s = c # cs" "wordc c" "\<not> is_digit c" by (cases s) auto
  have "\<not> spacec c \<and> c \<noteq> CHR ''-'' \<and> c \<noteq> CHR ''+''" using s(2) by (auto simp: wordc_def spacec_def)
  with s show ?thesis by (simp add: parseInt_def Let_def)
qed


section \<open>Ids\<close>

lemma all_refs_mem:
  "r \<in> set (all_refs D) \<longleftrightarrow> fst r < length D \<and> (case snd r of None \<Rightarrow> True | Some v \<Rightarrow> v < length (vsecs (D ! fst r)))"
proof (cases r)
  case (Pair h v)
  show ?thesis by (cases v) (force simp: all_refs_def Pair)+
qed

text \<open>
  A deck whose ids are links: each begins with a letter and goes on with letters, digits and
  \<open>- _ : .\<close>, no other slide has it, and no other element before the slide; and whose indices are
  exact numbers. An id that begins with a digit is read as an index, see below.
\<close>

definition linkable :: "(string \<Rightarrow> found option) \<Rightarrow> hsect list \<Rightarrow> bool" where
  "linkable inner D \<longleftrightarrow>
     (\<forall>r \<in> set (all_refs D). \<forall>i \<in> set_option (sc_id (sect_at D r)). name_ok i \<and> inner i = None \<and>
        (\<forall>r' \<in> set (all_refs D). sc_id (sect_at D r') = Some i \<longrightarrow> r' = r)) \<and>
     int (length D) \<le> 2 ^ 53 \<and> (\<forall>h \<in> set D. int (length (vsecs h)) \<le> 2 ^ 53)"

lemma shape_ids:
  assumes "shape D = shape D'"
  shows "all_refs D = all_refs D'" and "r \<in> set (all_refs D) \<Longrightarrow> sc_id (sect_at D r) = sc_id (sect_at D' r)"
proof -
  note l = shape_length [OF assms]
  have v: "length (vsecs (D ! i)) = length (vsecs (D' ! i))" if "i < length D" for i by (rule shape_vlength [OF assms that])
  show "all_refs D = all_refs D'" unfolding all_refs_def l [symmetric] using v by (intro arg_cong [where f = concat] map_cong) auto
  assume r: "r \<in> set (all_refs D)"
  then have h: "fst r < length D" by (simp add: all_refs_mem)
  have e: "shape D ! fst r = shape D' ! fst r" using assms by simp
  then have i: "sc_id (hsec (D ! fst r)) = sc_id (hsec (D' ! fst r))" and m: "map tag (vsecs (D ! fst r)) = map tag (vsecs (D' ! fst r))"
    using h l by (simp_all add: shape_def tag_def)
  show "sc_id (sect_at D r) = sc_id (sect_at D' r)"
  proof (cases "snd r")
    case None
    with i show ?thesis by (simp add: sect_at_def)
  next
    case (Some w)
    with r have w: "w < length (vsecs (D ! fst r))" by (simp add: all_refs_mem)
    then have "map tag (vsecs (D ! fst r)) ! w = map tag (vsecs (D' ! fst r)) ! w" using m by simp
    with w v [OF h] Some show ?thesis by (simp add: sect_at_def tag_def)
  qed
qed

lemma shape_linkable:
  assumes "shape D = shape D'" and "linkable inner D"
  shows "linkable inner D'"
proof -
  have id: "sc_id (sect_at D' r) = sc_id (sect_at D r)" if "r \<in> set (all_refs D)" for r
    using shape_ids(2) [OF assms(1) that] by simp
  have un: "(\<forall>r' \<in> set (all_refs D). sc_id (sect_at D' r') = Some i \<longrightarrow> r' = r) =
      (\<forall>r' \<in> set (all_refs D). sc_id (sect_at D r') = Some i \<longrightarrow> r' = r)" for r i
    by (rule ball_cong) (simp_all only: id)
  have "int (length D') \<le> 2 ^ 53" "\<forall>h \<in> set D'. int (length (vsecs h)) \<le> 2 ^ 53"
    using assms(2) shape_length [OF assms(1)] shape_vlength [OF assms(1)]
    unfolding linkable_def all_set_conv_all_nth by metis+
  moreover have "\<forall>r \<in> set (all_refs D'). \<forall>i \<in> set_option (sc_id (sect_at D' r)). name_ok i \<and> inner i = None \<and>
        (\<forall>r' \<in> set (all_refs D'). sc_id (sect_at D' r') = Some i \<longrightarrow> r' = r)"
    unfolding shape_ids(1) [OF assms(1), symmetric] un
  proof (intro ballI)
    fix r i assume r: "r \<in> set (all_refs D)" and i: "i \<in> set_option (sc_id (sect_at D' r))"
    show "name_ok i \<and> inner i = None \<and> (\<forall>r' \<in> set (all_refs D). sc_id (sect_at D r') = Some i \<longrightarrow> r' = r)"
      using assms(2) r i unfolding linkable_def id [OF r] by blast
  qed
  ultimately show ?thesis by (simp add: linkable_def)
qed

lemma find_linked:
  assumes "linkable inner D" and "r \<in> set (all_refs D)" and "sc_id (sect_at D r) = Some i"
  shows "find_slide D i = Some r"
proof -
  have "\<exists>r'. find_slide D i = Some r'" unfolding find_slide_def
  proof (rule ccontr)
    assume "\<nexists>r'. List.find (\<lambda>r. sc_id (sect_at D r) = Some i) (all_refs D) = Some r'"
    then have "List.find (\<lambda>r. sc_id (sect_at D r) = Some i) (all_refs D) = None" by (metis option.exhaust)
    then show False using assms(2,3) unfolding find_None_iff by blast
  qed
  then obtain r' where f: "find_slide D i = Some r'" by blast
  then have "r' \<in> set (all_refs D)" "sc_id (sect_at D r') = Some i" by (auto simp: find_slide_def find_Some_iff)
  with assms f show ?thesis by (auto simp: linkable_def)
qed

section \<open>Following a hash\<close>

lemma read_name:
  assumes "hash st = ''#/'' @ i" and "name_ok i" and "find_slide (deck st) i = Some (h, v)" and "inner i = None"
  shows "readURL C inner st = slide C (int h) (map_option int v) None st"
proof -
  have c: "c \<in> set i \<Longrightarrow> c \<noteq> CHR ''/'' \<and> c \<noteq> CHR ''#''" for c using name_ok_chars [OF assms(2)] url_char_plain by blast
  have "split_on (CHR ''/'') i = [i]" using c by (intro split_on_no_sep) auto
  moreover have "filter (\<lambda>c. c \<noteq> CHR ''#'' \<and> c \<noteq> CHR ''/'') i = i" using c by (simp add: filter_id_conv)
  moreover have "i \<noteq> []" using assms(2) by auto
  ultimately show ?thesis
    using name_ok_no_number [OF assms(2)] name_ok_test [OF assms(2)] assms(1,3,4)
    by (simp add: readURL_def getIndices_of_def sound_hash_def Let_def)
qed

lemma read_index:
  assumes "hash st = CHR ''#'' # index_url h v" and "0 \<le> h" "0 \<le> v" and "current st = None"
    and "h \<le> 2 ^ 53" and "v \<le> 2 ^ 53"
  shows "readURL C inner st = slide C h (Some v) None st"
proof -
  have no: "c \<in> set (int_str n) \<Longrightarrow> 0 \<le> n \<Longrightarrow> c \<noteq> CHR ''/''" for c n using int_str_digits [of n] digit_plain by blast
  have s1: "0 \<le> n \<Longrightarrow> split_on (CHR ''/'') (int_str n) = [int_str n]" for n using no [of _ n] by (intro split_on_no_sep) auto
  have s2: "split_on (CHR ''/'') (int_str h @ CHR ''/'' # int_str v) = [int_str h, int_str v]"
    using split_on_append_sep [of "CHR ''/''" "int_str h" "int_str v"] no [of _ h] s1 [OF assms(3)] assms(2) by auto
  have p0: "parseInt [] = None" by (simp add: parseInt_def)
  have "sound_hash (CHR ''#'' # index_url h v)"
    using assms(2,3,5,6) s1 [OF assms(2)] s2 parseInt_int_str [OF assms(2)] parseInt_int_str [OF assms(3)] p0
    by (auto simp: sound_hash_def index_url_def)
  then show ?thesis
    using assms(2,3,4) s1 [OF assms(2)] s2 parseInt_int_str [OF assms(2)] parseInt_int_str [OF assms(3)] p0
    by (auto simp: readURL_def assms(1) index_url_def Let_def)
qed


text \<open>
  C37: loading a presentation with the hash that stands for its position comes back to that
  position, whether the slide has an id or is named by its indices, if the ids of the slides
  are \<open>linkable\<close>: each begins with a letter, has no characters that \<open>writeURL\<close> leaves out, and is that
  of no other element.
\<close>

theorem hash_returns:
  assumes "run C bs inner D url is = Some st" and "\<not> rc_printing C" and "authored D" and "rc_history C" and "linkable inner D"
  shows "\<exists>st'. start C inner D (hash (writeURL C st)) = Some st' \<and> nav_ok C st' \<and>
    indexh st' = indexh st \<and> indexv st' = indexv st \<and> current st' = current st"
proof -
  note ok = run_good [OF assms(1,2,3)]
  let ?h = "indexh st" and ?v = "indexv st"
  define r where "r = current_ref st"
  have cur: "current st = Some r" and h: "0 \<le> ?h" "?h < int (length (deck st))" and v: "0 \<le> ?v"
    "if vsecs (deck st ! nat ?h) = [] then ?v = 0 else ?v < int (length (vsecs (deck st ! nat ?h)))"
    using ok(1) by (simp_all add: nav_ok_def Let_def r_def)
  have rr: "r = (nat ?h, if vsecs (deck st ! nat ?h) = [] then None else Some (nat ?v))"
    using v by (auto simp: r_def current_ref_def Let_def)
  have mem: "r \<in> set (all_refs (deck st))" using h v unfolding rr all_refs_mem by (auto split: if_splits)
  define st0 where "st0 = synced C D (hash (writeURL C st))"
  have hash0: "hash st0 = hash (writeURL C st)" and cur0: "current st0 = None" by (simp_all add: st0_def)
  have un0: "unvisited st0" and sh0: "shape (deck st0) = shape D" unfolding st0_def by (rule fresh_start [OF assms(3)])+
  have sh: "shape (deck st0) = shape (deck st)" using sh0 ok(2) by simp
  have to: "\<exists>st'. slide C ?h vo None st0 = Some st' \<and> nav_ok C st' \<and> indexh st' = ?h \<and> indexv st' = ?v \<and> current st' = current st"
    if vo: "vsecs (deck st ! nat ?h) \<noteq> [] \<Longrightarrow> vo = Some ?v" for vo
  proof -
    obtain st' where s: "slide C ?h vo None st0 = Some st'" "nav_ok C st'" "position_after C ?h vo st0 st'"
      using slide_ok [OF assms(2) disjI2 [OF un0], of ?h vo None] by blast
    have l: "length (deck st0) = length (deck st)" by (rule shape_length [OF sh])
    have ih: "indexh st' = ?h" using s(3) clamp_in_range [OF h] l by (simp add: position_after_def Let_def)
    have lv: "length (vsecs (deck st0 ! nat ?h)) = length (vsecs (deck st ! nat ?h))" using shape_vlength [OF sh] l h by simp
    have iv: "indexv st' = ?v"
    proof (cases "vsecs (deck st ! nat ?h) = []")
      case True
      then show ?thesis using s(3) ih lv v(2) by (simp add: position_after_def Let_def)
    next
      case False
      then have "vsecs (deck st0 ! nat ?h) \<noteq> []" using lv by (metis length_0_conv)
      moreover have "clamp_index C (length (vsecs (deck st0 ! nat ?h))) ?v = ?v"
        using False lv v by (intro clamp_in_range) simp_all
      ultimately show ?thesis using s(3) ih vo [OF False] by (simp add: position_after_def slide_v_def Let_def)
    qed
    have sh': "shape (deck st') = shape (deck st)" using s(3) sh by (simp add: position_after_def Let_def)
    have "length (vsecs (deck st' ! nat ?h)) = length (vsecs (deck st ! nat ?h))"
      using shape_vlength [OF sh'] shape_length [OF sh'] h by simp
    then have "current_ref st' = current_ref st" using ih iv by (simp add: current_ref_def Let_def)
    moreover have "current st' = Some (current_ref st')" using s(2) by (simp add: nav_ok_def Let_def)
    ultimately show ?thesis using s(1,2) ih iv cur by (simp add: r_def)
  qed
  have small: "?h \<le> 2 ^ 53" "?v \<le> 2 ^ 53"
  proof -
    have l: "linkable inner (deck st)" using shape_linkable [OF ok(2) [symmetric] assms(5)] .
    moreover have "deck st ! nat ?h \<in> set (deck st)" using h by (intro nth_mem) (simp add: nat_less_iff)
    ultimately have "int (length (deck st)) \<le> 2 ^ 53" "int (length (vsecs (deck st ! nat ?h))) \<le> 2 ^ 53"
      unfolding linkable_def by blast+
    then show "?h \<le> 2 ^ 53" "?v \<le> 2 ^ 53" using h v by (auto split: if_splits)
  qed
  have "\<exists>vo. readURL C inner st0 = slide C ?h vo None st0 \<and> (vsecs (deck st ! nat ?h) \<noteq> [] \<longrightarrow> vo = Some ?v)"
  proof (cases "sc_id (sect_at (deck st) r)")
    case None
    then have "hash st0 = CHR ''#'' # index_url ?h ?v" by (simp add: hash0 writeURL_def cur url_name_def assms(4))
    from read_index [OF this h(1) v(1) cur0 small] show ?thesis by blast
  next
    case (Some i)
    have link: "linkable inner (deck st)" using shape_linkable [OF ok(2) [symmetric] assms(5)] .
    then have n: "name_ok i" "inner i = None" using mem Some by (auto simp: linkable_def)
    then have "filter url_char i = i" "i \<noteq> []" using name_ok_chars [OF n(1)] by (auto simp: filter_id_conv)
    then have hs: "hash st0 = ''#/'' @ i" using Some by (simp add: hash0 writeURL_def cur url_name_def assms(4) Let_def)
    have "sc_id (sect_at (deck st0) r) = Some i" "r \<in> set (all_refs (deck st0))"
      using shape_ids [OF sh] mem Some by simp_all
    then have "find_slide (deck st0) i = Some r" using find_linked shape_linkable [OF sh [symmetric] link] by blast
    from read_name [OF hs n(1) this [unfolded rr], of inner] n(2) show ?thesis using h v by (auto split: if_splits)
  qed
  then show ?thesis using to unfolding start_synced st0_def [symmetric] by force
qed

theorem hash_returns_witness:
  "\<exists>st st'. run plain_config [] (\<lambda>_. None) small_deck [] [press 35, press 40] = Some st \<and> indexh st = 1 \<and> indexv st = 1 \<and>
    start plain_config (\<lambda>_. None) small_deck (hash (writeURL plain_config st)) = Some st' \<and> indexh st' = 1 \<and> indexv st' = 1"
proof -
  have r: "case run plain_config [] (\<lambda>_. None) small_deck [] [press 35, press 40] of
      Some st \<Rightarrow> indexh st = 1 \<and> indexv st = 1 | None \<Rightarrow> False" by code_simp
  then obtain st where st: "run plain_config [] (\<lambda>_. None) small_deck [] [press 35, press 40] = Some st" "indexh st = 1" "indexv st = 1"
    by (auto split: option.splits)
  have c: "\<not> rc_printing plain_config" "authored small_deck" "rc_history plain_config"
    by code_simp+
  have "linkable (\<lambda>_. None) small_deck" by code_simp
  from hash_returns [OF st(1) c this] st show ?thesis by auto
qed

text \<open>
  An id that begins with a digit: the hash written for the second slide is read as the index 3,
  and the presentation starts at the fourth.
\<close>

definition digit_deck :: "hsect list" where
  "digit_deck = map (\<lambda>i. \<lparr>hsec = plain_sect i [], vsecs = [], stack = False, prevv = None, startv = None\<rparr>)
     [''home'', ''3d-view'', ''b'', ''c'', ''end'']"

lemma digit_id_misread:
  "case run plain_config [] (\<lambda>_. None) digit_deck [] [press 39] of None \<Rightarrow> False
   | Some st \<Rightarrow> indexh st = 1 \<and> hash (writeURL plain_config st) = ''#/3d-view'' \<and>
       (case start plain_config (\<lambda>_. None) digit_deck (hash (writeURL plain_config st)) of None \<Rightarrow> False | Some st' \<Rightarrow> indexh st' = 3)"
  by code_simp

end
