(* ===== verification/RevealGoal.thy ===== *)
theory RevealGoal
  imports RevealUrl
begin

text \<open>
  Going on in the presentation of \<open>doc/slides/js/reveal.js\<close>: the fragments keep proper indices
  whatever is done, so that each \<open>navigateNext\<close> shows a fragment or goes to a later slide
  until the end is reached; and timers only run while nothing holds the presentation.
\<close>

section \<open>Fragments keep their indices\<close>

definition few_sect :: "sect \<Rightarrow> bool" where
  "few_sect s = few (sc_frags s)"

definition frags_ok :: "hsect list \<Rightarrow> bool" where
  "frags_ok D \<longleftrightarrow> (\<forall>h \<in> set D. few_sect (hsec h) \<and> list_all few_sect (vsecs h))"

lemma few_map: "(\<And>f. fr_index (g f) = fr_index f) \<Longrightarrow> few (map g fs) = few fs"
  by (simp add: few_def valid_frag_def)

lemma few_mark [simp]: "few_sect (mark_frags C k i s) = few_sect s" "few_sect (mark_slide C r k i s) = few_sect s"
  by (simp_all add: few_sect_def mark_frags_def map_frags_def mark_slide_def few_map show_frag_def hide_frag_def Let_def)

lemma few_classes [simp]: "few_sect (s\<lparr>sc_shown := a\<rparr>) = few_sect s" "few_sect (s\<lparr>sc_present := b, sc_aria := c\<rparr>) = few_sect s"
  "few_sect (s\<lparr>sc_present := b, sc_past := d, sc_future := e, sc_aria := c\<rparr>) = few_sect s"
  by (simp_all add: few_sect_def)

lemma frags_ok_map:
  assumes "frags_ok D"
    and "\<And>i h. few_sect (hsec h) \<Longrightarrow> list_all few_sect (vsecs h) \<Longrightarrow> few_sect (hsec (f i h)) \<and> list_all few_sect (vsecs (f i h))"
  shows "frags_ok (map_nth f D)"
  using assms by (auto simp: frags_ok_def map_nth_def)

lemma list_all_map_nth: "list_all P vs \<Longrightarrow> (\<And>i s. P s \<Longrightarrow> P (f i s)) \<Longrightarrow> list_all P (map_nth f vs)"
  by (simp add: list_all_length)

lemma frags_ok_visibility: "frags_ok D \<Longrightarrow> frags_ok (updateSlidesVisibility C b h v D)"
  unfolding updateSlidesVisibility_def
  by (rule frags_ok_map) (simp_all add: visible_h_def Let_def list_all_map_nth)

lemma frags_ok_update_h: "frags_ok D \<Longrightarrow> update_h C x D = (D', i, n) \<Longrightarrow> frags_ok D'"
  by (auto simp: update_h_def Let_def mark_h_def list.pred_map comp_def intro!: frags_ok_map split: if_splits)

lemma frags_ok_put: "frags_ok D \<Longrightarrow> list_all few_sect vs \<Longrightarrow> frags_ok (put_verticals D vs)"
proof (induction D vs rule: put_verticals.induct)
  case (2 h D vs)
  have "list_all few_sect (take n vs)" "list_all few_sect (drop n vs)" for n
    using "2.prems"(2) by (auto simp: list_all_iff dest: in_set_takeD in_set_dropD)
  with 2 show ?case by (auto simp: frags_ok_def)
qed simp

lemma frags_ok_update_v: "frags_ok D \<Longrightarrow> update_v C x D = (D', i, n) \<Longrightarrow> frags_ok D'"
proof -
  assume f: "frags_ok D" and u: "update_v C x D = (D', i, n)"
  have "list_all few_sect (present_verticals D)"
    using f by (auto simp: frags_ok_def present_verticals_def list_all_iff)
  then have "list_all few_sect (map_nth (mark_v C i) (present_verticals D))"
    by (rule list_all_map_nth) (simp add: mark_v_def)
  then show ?thesis using f u by (auto simp: update_v_def Let_def frags_ok_put split: if_splits)
qed

lemma frags_ok_list_update: "frags_ok D \<Longrightarrow> few_sect (hsec e) \<Longrightarrow> list_all few_sect (vsecs e) \<Longrightarrow> frags_ok (D[i := e])"
  by (auto simp: frags_ok_def dest: set_update_subset_insert [THEN subsetD])

lemma frags_ok_upd:
  assumes "frags_ok D" and "few_sect (sect_at D r) \<Longrightarrow> few_sect (f (sect_at D r))"
  shows "frags_ok (upd_sect r f D)"
proof (cases "fst r < length D")
  case True
  define h where "h = D ! fst r"
  have h: "few_sect (hsec h)" "list_all few_sect (vsecs h)" using assms(1) True by (auto simp: frags_ok_def h_def)
  show ?thesis
  proof (cases "snd r")
    case None
    then have "few_sect (f (hsec h))" using assms(2) h by (simp add: sect_at_def h_def)
    with None h assms(1) show ?thesis
      unfolding upd_sect_def Let_def h_def [symmetric] by (simp add: frags_ok_list_update)
  next
    case (Some v)
    have "list_all few_sect ((vsecs h)[v := f (vsecs h ! v)])"
    proof (cases "v < length (vsecs h)")
      case True
      then have "few_sect (f (vsecs h ! v))" using assms(2) Some h(2) by (simp add: sect_at_def h_def list_all_length)
      then show ?thesis using h(2) by (auto simp: list_all_iff dest: set_update_subset_insert [THEN subsetD])
    qed (use h in \<open>simp add: list_update_beyond not_less\<close>)
    with Some h assms(1) show ?thesis
      unfolding upd_sect_def Let_def h_def [symmetric] by (simp add: frags_ok_list_update)
  qed
qed (use assms in \<open>simp add: upd_sect_def Let_def list_update_beyond not_less\<close>)

lemma deck_frame [simp]: "deck (dispatchEvent e st) = deck st" "deck (updateControls C st) = deck st"
  "deck (writeURL C st) = deck st" "deck (cueAutoSlide C st) = deck st"
  by (simp_all add: dispatchEvent_def updateControls_def writeURL_def cueAutoSlide_def Let_def split: prod.split option.split)

lemma deck_states: "apply_states ss before st = Some st' \<Longrightarrow> deck st' = deck st"
  using apply_states_only by fastforce

lemma frags_ok_fragment: "frags_ok (deck st) \<Longrightarrow> frags_ok (deck (fst (navigateFragment C index offset st)))"
proof -
  assume f: "frags_ok (deck st)"
  have "frags_ok (upd_sect r (\<lambda>s. s\<lparr>sc_frags := fs'\<rparr>) (deck st))"
    if "step_fragments index offset (sc_frags (sect_at (deck st) r)) = (fs', shown, hidden)" for r fs' shown hidden
    using few_step [OF that] by (intro frags_ok_upd [OF f]) (simp add: few_sect_def)
  then show ?thesis using f by (auto simp: navigateFragment_def Let_def split: option.split prod.split)
qed

lemma frags_ok_leave: "frags_ok (deck st) \<Longrightarrow> frags_ok (deck (leave_stack st))"
proof -
  assume f: "frags_ok (deck st)"
  have "frags_ok (setPreviousVerticalIndex h v (deck st))" for h v
  proof (cases "h < length (deck st)")
    case True
    then have "deck st ! h \<in> set (deck st)" by simp
    then show ?thesis using f unfolding setPreviousVerticalIndex_def
      by (intro frags_ok_list_update) (auto simp: frags_ok_def)
  qed (use f in \<open>simp add: setPreviousVerticalIndex_def list_update_beyond not_less\<close>)
  then show ?thesis using f by (auto simp: leave_stack_def split: option.split)
qed

lemma frags_ok_slide: "frags_ok (deck st) \<Longrightarrow> slide C h v f st = Some st' \<Longrightarrow> frags_ok (deck st')"
proof -
  assume f: "frags_ok (deck st)" and s: "slide C h v f st = Some st'"
  have show_ok: "frags_ok (deck (show_indices C h v s))" if "frags_ok (deck s)" for h v s
  proof -
    obtain D1 ih n1 where u: "update_h C h (deck s) = (D1, ih, n1)" by (cases "update_h C h (deck s)")
    obtain D2 iv n2 where w: "update_v C (case v of Some x \<Rightarrow> x | None \<Rightarrow> indexv s) D1 = (D2, iv, n2)"
      by (cases "update_v C (case v of Some x \<Rightarrow> x | None \<Rightarrow> indexv s) D1")
    show ?thesis using frags_ok_visibility [OF frags_ok_update_v [OF frags_ok_update_h [OF that u] w]]
      by (simp add: show_indices_def u w)
  qed
  have drop_ok: "frags_ok (deck (drop_previous r s))" if "frags_ok (deck s)" for r s
    using that by (simp add: drop_frame frags_ok_upd split: option.split)
  define st1 where "st1 = show_indices C h (slide_v h v st) (leave_stack st)"
  obtain st2 where st2: "apply_states (dstate st1) (dstate st) st1 = Some st2"
    using s by (auto simp: slide_def st1_def Let_def split: option.splits if_splits)
  define st3 where "st3 = st2\<lparr>current := Some (current_ref st2)\<rparr>"
  define st4 where "st4 = (case f of Some i \<Rightarrow> fst (navigateFragment C (Some i) None st3) | None \<Rightarrow> st3)"
  define prev where "prev = (if indexh st4 \<noteq> indexh st \<or> indexv st4 \<noteq> indexv st then current st else None)"
  define st5 where "st5 = (if indexh st4 \<noteq> indexh st \<or> indexv st4 \<noteq> indexv st
    then dispatchEvent (SlideChanged (indexh st4) (indexv st4)) st4 else st4)\<lparr>previous := prev\<rparr>"
  have ne: "deck st \<noteq> []" using s by (auto simp: slide_def)
  have eq: "slide C h v f st = Some (cueAutoSlide C (writeURL C (updateControls C (drop_previous prev st5))))"
    unfolding slide_def Let_def st5_def prev_def st4_def st3_def
    using ne st2 [unfolded st1_def] by (simp only: if_False option.case)
  have three: "frags_ok (deck st3)" using show_ok [OF frags_ok_leave [OF f]] by (simp add: st3_def deck_states [OF st2] st1_def)
  have "frags_ok (deck st4)" using three frags_ok_fragment [OF three] by (simp add: st4_def split: option.split)
  then have "frags_ok (deck st5)" by (simp add: st5_def)
  then show ?thesis using drop_ok s eq by auto
qed

lemma frags_ok_reset: "frags_ok (deck st) \<Longrightarrow> frags_ok (deck (run_reset st))"
  by (auto simp: run_reset_def frags_ok_def)

interpretation fragments: navigation_invariant C "\<lambda>st. placed C s st \<and> frags_ok (deck st)" for C s
proof unfold_locales
  show "safe (\<lambda>st. placed C s st \<and> frags_ok (deck st)) (slide C h v f st)" if "placed C s st \<and> frags_ok (deck st)" for st h v f
    using position.slide_safe [of C s st h v f] frags_ok_slide [of st C h v f] that by (auto simp: safe_def)
qed (simp_all add: frags_ok_fragment frags_ok_visibility frags_ok_reset position.fragment_keeps position.cue_keeps position.cancel_keeps
    position.halt_keeps position.visibility_keeps position.going_on_keeps position.reset_keeps position.outside_keeps)

lemma frags_ok_start:
  assumes "\<not> rc_printing C" and "authored D" and "frags_ok D" and "start C inner D url = Some st"
  shows "frags_ok (deck st)"
proof -
  have "frags_ok (deck (synced C D url))"
    using assms(3) by (auto simp: synced_def fresh_deck_def sortAllFragments_def resetVerticalSlides_def frags_ok_def Let_def
        few_sect_def few_sort map_nth_def list_all_iff)
  then show ?thesis using assms(4) frags_ok_slide
    unfolding start_synced readURL_def Let_def by (fastforce split: option.splits prod.splits if_splits)
qed


section \<open>Going on\<close>

lemma past_position:
  assumes "nav_ok C st"
  shows "getSlidePastCount (deck st) = before_h (nat (indexh st)) (deck st) + nat (indexv st)"
proof (rule past_count)
  show "present_v (deck st) (if vsecs (deck st ! nat (indexh st)) = [] then {} else {(nat (indexh st), nat (indexv st))})"
    using assms by (simp add: nav_ok_def Let_def)
qed (use assms in \<open>auto simp: nav_ok_def Let_def split: if_splits\<close>)

lemma before_h_shape:
  assumes "shape D = shape D'" and "h \<le> length D"
  shows "before_h h D = before_h h D'"
  using assms(2)
proof (induction h)
  case (Suc h)
  then have h: "h < length D" "h < length D'" using shape_length [OF assms(1)] by simp_all
  have "length (vsecs (D ! h)) = length (vsecs (D' ! h))" by (rule shape_vlength [OF assms(1) h(1)])
  moreover from this have "(vsecs (D ! h) = []) = (vsecs (D' ! h) = [])" by (metis length_0_conv)
  ultimately have "length (h_leaves 0 (D ! h)) = length (h_leaves 0 (D' ! h))" by simp
  with Suc h show ?case by (simp add: before_h_Suc del: length_h_leaves)
qed simp

lemma total_shape:
  assumes "nav_ok C st" and "nav_ok C st'" and "shape (deck st) = shape (deck st')"
  shows "getTotalSlides (deck st) = getTotalSlides (deck st')"
  using position_count(3) [OF assms(1)] position_count(3) [OF assms(2)] before_h_all [of "deck st"] before_h_all [of "deck st'"]
    before_h_shape [OF assms(3), of "length (deck st)"] shape_length [OF assms(3)] by simp

lemma sect_at_upd:
  "r \<in> set (all_refs D) \<Longrightarrow> sect_at (upd_sect r f D) r = f (sect_at D r)"
  by (auto simp: all_refs_mem sect_at_def upd_sect_def Let_def split: option.splits)

lemma current_mem: "nav_ok C st \<Longrightarrow> current st = Some (current_ref st) \<and> current_ref st \<in> set (all_refs (deck st))"
  by (auto simp: nav_ok_def current_ref_def all_refs_mem Let_def split: if_splits)

definition hidden_count :: "rstate \<Rightarrow> nat" where
  "hidden_count st = card {p. p < length (current_frags st) \<and> \<not> fr_visible (current_frags st ! p)}"

definition travelling :: "rconfig \<Rightarrow> deck_shape \<Rightarrow> rstate \<Rightarrow> bool" where
  "travelling C s st \<longleftrightarrow> placed C s st \<and> frags_ok (deck st) \<and> \<not> overview st \<and> \<not> rc_loop C"

definition at_end :: "rconfig \<Rightarrow> rstate \<Rightarrow> bool" where
  "at_end C st \<longleftrightarrow> isLastSlide st \<and> \<not> snd (availableFragments C st)"

lemma overview_frame [simp]: "overview (dispatchEvent e st) = overview st" "overview (updateControls C st) = overview st"
  "overview (writeURL C st) = overview st" "overview (cueAutoSlide C st) = overview st" "overview (leave_stack st) = overview st"
  "overview (show_indices C h v st) = overview st" "overview (drop_previous r st) = overview st"
  by (simp_all add: dispatchEvent_def updateControls_def writeURL_def cueAutoSlide_def leave_stack_def show_indices_def
      drop_previous_def Let_def split: prod.split option.split)

lemma overview_states: "apply_states ss before st = Some st' \<Longrightarrow> overview st' = overview st"
  using apply_states_only by fastforce

lemma overview_fragment [simp]: "overview (fst (navigateFragment C index offset st)) = overview st"
  by (simp add: navigateFragment_def Let_def split: option.split prod.split)

lemma overview_slide: "slide C h v None st = Some st' \<Longrightarrow> overview st' = overview st"
  by (auto simp: slide_def Let_def overview_states split: if_splits option.splits)

lemma hidden_available: "current st \<noteq> None \<Longrightarrow> snd (availableFragments C st) = (rc_fragments C \<and> 0 < hidden_count st)"
proof -
  assume c: "current st \<noteq> None"
  have "0 < hidden_count st \<longleftrightarrow> (\<exists>p < length (current_frags st). \<not> fr_visible (current_frags st ! p))"
    unfolding hidden_count_def by (subst card_gt_0_iff) auto
  also have "\<dots> \<longleftrightarrow> (\<exists>f \<in> set (current_frags st). \<not> fr_visible f)" by (metis in_set_conv_nth)
  finally show ?thesis using c by (auto simp: availableFragments_def Let_def filter_empty_conv)
qed

text \<open>One try with a fragment: it shows one, or there is none left to show.\<close>

lemma fragment_next:
  assumes "travelling C s st" and "nextFragment C st = (st1, b)"
  shows "travelling C s st1" "where_at st1 = where_at st"
    and "b \<Longrightarrow> snd (availableFragments C st) \<and> hidden_count st1 < hidden_count st"
    and "\<not> b \<Longrightarrow> \<not> snd (availableFragments C st) \<and> \<not> snd (availableFragments C st1)"
proof -
  note nf = assms(2) [unfolded nextFragment_def]
  have st1: "st1 = fst (navigateFragment C None (Some 1) st)" using nf by simp
  have p: "placed C s st \<and> frags_ok (deck st)" "\<not> overview st" "\<not> rc_loop C" using assms(1) by (simp_all add: travelling_def)
  show "travelling C s st1"
    unfolding travelling_def st1 using fragments.fragment_keeps [OF p(1)] p by simp
  show w: "where_at st1 = where_at st" unfolding st1 by (rule where_fragment)
  have ok: "nav_ok C st" using p by (simp add: placed_def)
  define r where "r = current_ref st"
  have c: "current st = Some r" and m: "r \<in> set (all_refs (deck st))" using current_mem [OF ok] by (simp_all add: r_def)
  have c1: "current st1 = Some r" using where_eqD [OF w] c by simp
  define fs where "fs = sc_frags (sect_at (deck st) r)"
  have cf: "current_frags st = fs" by (simp add: current_frags_def c fs_def)
  have few: "few fs"
    using p(1) m by (auto simp: frags_ok_def fs_def few_sect_def all_refs_mem sect_at_def list_all_length split: option.splits)
  have "(b \<longrightarrow> rc_fragments C \<and> hidden_count st1 < hidden_count st) \<and> (\<not> b \<longrightarrow> rc_fragments C \<longrightarrow> hidden_count st = 0 \<and> hidden_count st1 = 0)"
  proof (cases "rc_fragments C")
    case False
    then show ?thesis using nf c by (simp add: navigateFragment_def)
  next
    case True
    obtain fs' shown hidden where sf: "step_fragments None (Some 1) fs = (fs', shown, hidden)"
      by (cases "step_fragments None (Some 1) fs") auto
    note n = step_next [OF sf few]
    have d1: "deck st1 = upd_sect r (\<lambda>s. s\<lparr>sc_frags := fs'\<rparr>) (deck st)"
      using sf True c unfolding st1 by (simp add: navigateFragment_def fs_def Let_def)
    then have cf1: "current_frags st1 = fs'" using sect_at_upd [OF m] by (simp add: current_frags_def c1)
    have hid: "hidden_count st = card {p. p < length fs \<and> \<not> fr_visible (fs ! p)}"
      "hidden_count st1 = card {p. p < length fs \<and> \<not> fr_visible (fs' ! p)}"
      using n(1) by (simp_all add: hidden_count_def cf cf1)
    have b: "b \<Longrightarrow> shown \<noteq> []" "\<not> b \<Longrightarrow> shown \<noteq> [] \<Longrightarrow> fs = []"
    proof -
      have e: "snd (sortFragments fs) = [] \<Longrightarrow> fs = []"
      proof -
        assume o: "snd (sortFragments fs) = []"
        have "set (snd (sortFragments fs)) = {..<length fs}"
          using sorted_few(1) [OF surjective_pairing few] .
        then have "{..<length fs} = {}" unfolding o by simp
        then show "fs = []" by (simp add: lessThan_empty_iff)
      qed
      show "b \<Longrightarrow> shown \<noteq> []" "\<not> b \<Longrightarrow> shown \<noteq> [] \<Longrightarrow> fs = []"
        using nf c True sf n(3) e by (auto simp: navigateFragment_def fs_def Let_def split: if_splits)
    qed
    have sub: "{p. p < length fs \<and> \<not> fr_visible (fs' ! p)} \<subseteq> {p. p < length fs \<and> \<not> fr_visible (fs ! p)}"
      using n(4) by blast
    have "hidden_count st1 < hidden_count st" if b: "b"
    proof -
      obtain q where "q < length fs" "\<not> fr_visible (fs ! q)" "fr_visible (fs' ! q)" using n(8) \<open>b \<Longrightarrow> shown \<noteq> []\<close> b by blast
      then have "{p. p < length fs \<and> \<not> fr_visible (fs' ! p)} \<noteq> {p. p < length fs \<and> \<not> fr_visible (fs ! p)}" by blast
      with sub show ?thesis unfolding hid by (intro psubset_card_mono) auto
    qed
    moreover have "hidden_count st = 0 \<and> hidden_count st1 = 0" if "\<not> b"
    proof (cases "fs = []")
      case False
      then have "shown = []" using b(2) that by blast
      then have "{p. p < length fs \<and> \<not> fr_visible (fs ! p)} = {}" using n(5) by blast
      with sub show ?thesis unfolding hid by simp
    qed (simp add: hid)
    ultimately show ?thesis using True by blast
  qed
  then show "b \<Longrightarrow> snd (availableFragments C st) \<and> hidden_count st1 < hidden_count st"
    "\<not> b \<Longrightarrow> \<not> snd (availableFragments C st) \<and> \<not> snd (availableFragments C st1)"
    using hidden_available [of st C] hidden_available [of st1 C] c c1 by auto
qed


lemma travelling_where: "travelling C s st \<Longrightarrow> nav_ok C st \<and> shape (deck st) = s"
  by (simp add: travelling_def placed_def)

lemma past_same:
  assumes "nav_ok C st" and "nav_ok C st'" and "where_at st' = where_at st"
  shows "getSlidePastCount (deck st') = getSlidePastCount (deck st)"
proof -
  note e = where_eqD [OF assms(3)]
  have "nat (indexh st) \<le> length (deck st')" using assms(1) e by (auto simp: nav_ok_def Let_def)
  then show ?thesis using past_position [OF assms(1)] past_position [OF assms(2)] before_h_shape [of "deck st'" "deck st"] e by simp
qed

lemma try_exhausted:
  assumes "travelling C s st" and "\<not> snd (availableFragments C st)"
  shows "\<exists>st1. try_fragment (nextFragment C) st = (st1, True) \<and> travelling C s st1 \<and> where_at st1 = where_at st"
proof -
  obtain st1 b where n: "nextFragment C st = (st1, b)" by (cases "nextFragment C st")
  note f = fragment_next [OF assms(1) n]
  have "\<not> b" using f(3) assms(2) by blast
  moreover have "\<not> overview st" using assms(1) by (simp add: travelling_def)
  ultimately show ?thesis using n f(1,2) by (simp add: try_fragment_def)
qed

text \<open>Going to a later slide.\<close>

lemma slide_later:
  assumes "travelling C s st" and "h < int (length (deck st))"
    and "h = indexh st \<and> v = Some (indexv st + 1) \<and> indexv st + 1 < int (length (vsecs (deck st ! nat (indexh st)))) \<or> h = indexh st + 1"
  shows "\<exists>st'. slide C h v None st = Some st' \<and> travelling C s st' \<and> getSlidePastCount (deck st) < getSlidePastCount (deck st')"
proof -
  note w = travelling_where [OF assms(1)]
  have np: "\<not> rc_printing C" using assms(1) by (simp add: travelling_def placed_def)
  have r: "0 \<le> indexh st" "0 \<le> indexv st" "nat (indexh st) < length (deck st)"
    "nat (indexv st) < length (h_leaves 0 (deck st ! nat (indexh st)))"
    using w by (auto simp: nav_ok_def Let_def split: if_splits)
  obtain st' where s: "slide C h v None st = Some st'" "nav_ok C st'" "position_after C h v st st'"
    using slide_ok [OF np disjI1, of st h v None] w by blast
  have sh: "shape (deck st') = shape (deck st)" using s(3) by (simp add: position_after_def Let_def)
  note l = shape_length [OF sh]
  have f: "frags_ok (deck st')" using frags_ok_slide [OF _ s(1)] assms(1) by (simp add: travelling_def)
  have t: "travelling C s st'"
    using s(2) f overview_slide [OF s(1)] sh assms(1) by (simp add: travelling_def placed_def)
  have "0 \<le> h" using assms(3) r(1) by auto
  then have ih: "indexh st' = h" using s(3) clamp_in_range [of h "length (deck st)" C] assms(2) by (simp add: position_after_def Let_def)
  have same: "before_h k (deck st') = before_h k (deck st)" if "k \<le> length (deck st)" for k
    using before_h_shape [OF sh] that l by simp
  note old = past_position [OF conjunct1 [OF w]] and new = past_position [OF s(2)]
  have later: "before_h (nat (indexh st)) (deck st) + nat (indexv st) < before_h (nat (indexh st')) (deck st) + nat (indexv st')"
  proof (cases "h = indexh st + 1")
    case True
    then have "nat (indexh st') = Suc (nat (indexh st))" using ih r(1) by simp
    then show ?thesis using before_h_Suc [OF r(3)] r(4) by simp
  next
    case False
    then have d: "h = indexh st" "v = Some (indexv st + 1)" "indexv st + 1 < int (length (vsecs (deck st ! nat (indexh st))))"
      using assms(3) by simp_all
    then have "indexv st' = indexv st + 1"
      using s(3) ih clamp_in_range [of "indexv st + 1" "length (vsecs (deck st ! nat (indexh st)))" C] r(2)
      by (auto simp: position_after_def slide_v_def Let_def)
    then show ?thesis using ih d(1) r(2) by simp
  qed
  have "nat (indexh st') \<le> length (deck st)" using ih assms(2) by simp
  then have "getSlidePastCount (deck st) < getSlidePastCount (deck st')" unfolding old new using later same by simp
  with s(1) t show ?thesis by blast
qed

definition to_go :: "rstate \<Rightarrow> nat \<times> nat" where
  "to_go st = (getTotalSlides (deck st) - getSlidePastCount (deck st), hidden_count st)"

lemma next_progress:
  assumes "travelling C s st" and "\<not> at_end C st"
  shows "\<exists>st'. navigateNext C st = Some st' \<and> travelling C s st' \<and> (to_go st', to_go st) \<in> less_than <*lex*> less_than"
proof -
  obtain st1 b where n: "nextFragment C st = (st1, b)" by (cases "nextFragment C st")
  note f = fragment_next [OF assms(1) n]
  note w = travelling_where [OF assms(1)] and w1 = travelling_where [OF f(1)] and e = where_eqD [OF f(2)]
  have pc: "getSlidePastCount (deck st1) = getSlidePastCount (deck st)"
    by (rule past_same [OF conjunct1 [OF w] conjunct1 [OF w1] f(2)])
  have tot: "getTotalSlides (deck st') = getTotalSlides (deck st)" if "travelling C s st'" for st'
    using total_shape travelling_where [OF that] w by metis
  have cue: "travelling C s (cueAutoSlide C st')" "to_go (cueAutoSlide C st') = to_go st'" if "travelling C s st'" for st'
  proof -
    show "travelling C s (cueAutoSlide C st')" using that fragments.cue_keeps by (simp add: travelling_def)
    have "current (cueAutoSlide C st') = current st'" using where_cue [of C st'] by (simp add: where_at_def)
    then have "current_frags (cueAutoSlide C st') = current_frags st'" by (simp add: current_frags_def split: option.split)
    then show "to_go (cueAutoSlide C st') = to_go st'" by (simp add: to_go_def hidden_count_def)
  qed
  show ?thesis
  proof (cases b)
    case True
    then have "navigateNext C st = Some (cueAutoSlide C st1)" using n by (simp add: navigateNext_def)
    moreover have "(to_go st1, to_go st) \<in> less_than <*lex*> less_than" using f(3) True pc tot [OF f(1)] by (simp add: to_go_def)
    ultimately show ?thesis using cue [OF f(1)] by (intro exI [of _ "cueAutoSlide C st1"]) simp
  next
    case False
    obtain st2 where st2: "try_fragment (nextFragment C) st1 = (st2, True)" "travelling C s st2" "where_at st2 = where_at st1"
      using try_exhausted [OF f(1)] f(4) False by blast
    note e2 = where_eqD [OF st2(3)] and w2 = travelling_where [OF st2(2)]
    have nl: "rc_loop C = False" using assms(1) by (simp add: travelling_def)
    have pv: "present_verticals (deck st') = vsecs (deck st' ! nat (indexh st'))" if "nav_ok C st'" for st'
      using that by (intro present_verticals_one) (auto simp: nav_ok_def Let_def)
    have vl: "length (vsecs (deck st2 ! nat (indexh st2))) = length (vsecs (deck st1 ! nat (indexh st1)))"
      using shape_vlength [of "deck st2" "deck st1" "nat (indexh st1)"] e2 w1 by (auto simp: nav_ok_def Let_def)
    have i2: "indexh st2 = indexh st" "indexv st2 = indexv st" "length (deck st2) = length (deck st)" using e e2 by simp_all
    have nl2: "\<not> isLastSlide st2"
    proof -
      have "\<not> isLastSlide st" using assms(2) f(4) False by (simp add: at_end_def)
      moreover have "\<not> overview st" using assms(1) by (simp add: travelling_def)
      ultimately show ?thesis
        using last_slide [OF conjunct1 [OF w]] last_slide [OF conjunct1 [OF w2]] tot [OF st2(2)] past_same [OF conjunct1 [OF w] conjunct1 [OF w2]] f(2) st2(3) by simp
    qed
    have down: "route_down C st' = (indexv st' + 1 < int (length (vsecs (deck st' ! nat (indexh st')))))" if "nav_ok C st'" for st'
      using pv [OF that] by (auto simp: route_down_def availableRoutes_def Let_def)
    have d12: "route_down C st1 = route_down C st2" using down [OF conjunct1 [OF w1]] down [OF conjunct1 [OF w2]] vl e2 by simp
    have fin: ?thesis if nx: "navigateNext C st = map_option (cueAutoSlide C) (slide C h v None st2)" "h < int (length (deck st2))"
      "h = indexh st2 \<and> v = Some (indexv st2 + 1) \<and> indexv st2 + 1 < int (length (vsecs (deck st2 ! nat (indexh st2)))) \<or> h = indexh st2 + 1"
      for h v
    proof -
      obtain st' where s: "slide C h v None st2 = Some st'" "travelling C s st'" "getSlidePastCount (deck st2) < getSlidePastCount (deck st')"
        using slide_later [OF st2(2) nx(2,3)] by blast
      have "getSlidePastCount (deck st') < getTotalSlides (deck st')"
        using position_count(1,3) [OF conjunct1 [OF travelling_where [OF s(2)]]] by simp
      then have "(to_go st', to_go st) \<in> less_than <*lex*> less_than"
        using s(3) past_same [OF conjunct1 [OF w] conjunct1 [OF w2]] f(2) st2(3) tot [OF s(2)] by (auto simp: to_go_def)
      then show ?thesis using nx(1) s cue [OF s(2)] by (intro exI [of _ "cueAutoSlide C st'"]) simp
    qed
    show ?thesis
    proof (cases "route_down C st1")
      case True
      have "navigateNext C st = map_option (cueAutoSlide C) (slide C (indexh st2) (Some (indexv st2 + 1)) None st2)"
        using n False True d12 st2(1) by (simp add: navigateNext_def navigateDown_def)
      from fin [OF this] show ?thesis using True d12 down w2 by (simp add: nav_ok_def Let_def)
    next
      case False
      have cr: "current st2 = Some (current_ref st2)" using current_mem w2 by blast
      have "Suc (nat (indexh st2)) < length (deck st2)"
      proof (rule ccontr)
        assume "\<not> Suc (nat (indexh st2)) < length (deck st2)"
        moreover have "\<not> indexv st2 + 1 < int (length (vsecs (deck st2 ! nat (indexh st2))))" using False d12 down w2 by simp
        moreover have "\<not> overview st2" using st2(2) by (simp add: travelling_def)
        ultimately have "isLastSlide st2" using cr by (auto simp: isLastSlide_def current_ref_def Let_def)
        with nl2 show False by contradiction
      qed
      then have h: "indexh st2 + 1 < int (length (deck st2))" using w2 by (simp add: nav_ok_def Let_def)
      then have "if rc_rtl C then route_left C st2 else route_right C st2"
        by (simp add: route_left_def route_right_def availableRoutes_def Let_def)
      then have "navigateNext C st = map_option (cueAutoSlide C) (slide C (indexh st2 + 1) None None st2)"
        using n False \<open>\<not> b\<close> st2(1) by (simp add: navigateNext_def navigateLeft_def navigateRight_def split: if_splits)
      from fin [OF this h] show ?thesis by blast
    qed
  qed
qed

fun go_next :: "rconfig \<Rightarrow> nat \<Rightarrow> rstate \<Rightarrow> rstate option" where
  "go_next C 0 st = Some st"
| "go_next C (Suc n) st = Option.bind (navigateNext C st) (go_next C n)"

lemma next_arrives: "travelling C s st \<Longrightarrow> \<exists>n st'. go_next C n st = Some st' \<and> at_end C st'"
proof (induction "to_go st" arbitrary: st rule: wf_induct_rule [OF wf_lex_prod [OF wf_less_than wf_less_than]])
  case 1
  show ?case
  proof (cases "at_end C st")
    case True
    then show ?thesis by (intro exI [of _ 0] exI [of _ st]) simp
  next
    case False
    then obtain st1 where s: "navigateNext C st = Some st1" "travelling C s st1" "(to_go st1, to_go st) \<in> less_than <*lex*> less_than"
      using next_progress [OF 1(2)] by blast
    then obtain n st' where "go_next C n st1 = Some st'" "at_end C st'" using 1(1) by blast
    then show ?thesis using s(1) by (intro exI [of _ "Suc n"] exI [of _ st']) simp
  qed
qed

text \<open>
  C38: from every state of a presentation that does not loop, outside the overview, going on
  often enough comes to the last slide with all its fragments shown, from right to left as
  well, and whatever was done before.
\<close>

theorem going_on_arrives:
  assumes "run C bs inner D url is = Some st" and "\<not> rc_printing C" and "authored D" and "frags_ok D"
    and "\<not> rc_loop C" and "\<not> overview st"
  shows "\<exists>n st'. go_next C n st = Some st' \<and> isLastSlide st' \<and> \<not> snd (availableFragments C st')"
proof -
  obtain st0 where st0: "start C inner D url = Some st0" "inputs C bs inner is st0 = Some st"
    using assms(1) by (auto simp: run_def bind_eq_Some_conv)
  have "placed C (shape D) st0" by (rule start_keeps [OF assms(2,3) st0(1)])
  moreover have "frags_ok (deck st0)" by (rule frags_ok_start [OF assms(2-4) st0(1)])
  ultimately have "placed C (shape D) st \<and> frags_ok (deck st)"
    by (intro fragments.inputs_keep [OF _ st0(2)] conjI)
  then have "travelling C (shape D) st" using assms(5,6) by (simp add: travelling_def)
  from next_arrives [OF this] show ?thesis by (simp add: at_end_def)
qed

theorem going_on_arrives_witness:
  "\<exists>st n st'. run plain_config [] (\<lambda>_. None) small_deck [] [press 35, press 37] = Some st \<and> indexh st = 0 \<and>
    go_next plain_config n st = Some st' \<and> isLastSlide st' \<and> \<not> snd (availableFragments plain_config st')"
proof -
  have r: "case run plain_config [] (\<lambda>_. None) small_deck [] [press 35, press 37] of
      Some st \<Rightarrow> indexh st = 0 \<and> \<not> overview st | None \<Rightarrow> False" by code_simp
  then obtain st where st: "run plain_config [] (\<lambda>_. None) small_deck [] [press 35, press 37] = Some st" "indexh st = 0" "\<not> overview st"
    by (auto split: option.splits)
  have c: "\<not> rc_printing plain_config" "authored small_deck" "\<not> rc_loop plain_config"
    by code_simp+
  have "frags_ok small_deck"
    by (simp add: frags_ok_def small_deck_def plain_sect_def few_sect_def few_def valid_frag_def array_index_def)
  from going_on_arrives [OF st(1) c(1,2) this c(3) st(3)] st show ?thesis by blast
qed

section \<open>Timers\<close>

text \<open>Something holds the presentation: it is paused, the overview is shown, or the user has stopped it.\<close>

definition held :: "rstate \<Rightarrow> bool" where
  "held st \<longleftrightarrow> paused st \<or> overview st \<or> autoSlidePaused st"

definition timer_ok :: "rstate \<Rightarrow> bool" where
  "timer_ok st \<longleftrightarrow> autoTimer st \<noteq> Some 0 \<and> (held st \<longrightarrow> autoTimer st = None)"

lemma timer_cue: "timer_ok (cueAutoSlide C st)"
  by (simp add: timer_ok_def held_def cueAutoSlide_def Let_def split: option.split)

lemma timer_slide: "slide C h v f st = Some st' \<Longrightarrow> timer_ok st'"
  by (auto simp: slide_def Let_def timer_cue split: if_splits option.splits)

lemma timer_fragment: "timer_ok st \<Longrightarrow> timer_ok (fst (navigateFragment C index offset st))"
  by (simp add: navigateFragment_def timer_ok_def held_def updateControls_def dispatchEvent_def Let_def split: option.split prod.split)

interpretation timers: navigation_invariant C "\<lambda>st. placed C s st \<and> timer_ok st" for C s
proof unfold_locales
  show "safe (\<lambda>st. placed C s st \<and> timer_ok st) (slide C h v f st)" if "placed C s st \<and> timer_ok st" for st h v f
    using position.slide_safe [of C s st h v f] timer_slide [of C h v f st] that by (auto simp: safe_def)
  show "placed C s (run_reset st) \<and> timer_ok (run_reset st)" if "placed C s st \<and> timer_ok st" for st
    using that position.reset_keeps by (simp add: run_reset_def timer_ok_def held_def)
qed (simp_all add: timer_fragment timer_cue position.fragment_keeps position.cue_keeps position.cancel_keeps
    position.halt_keeps position.visibility_keeps position.going_on_keeps position.outside_keeps, simp_all add: timer_ok_def held_def)

text \<open>
  C39: while a presentation is paused, shows the overview or was stopped by its user, no timer is
  pending that would go on by itself, whatever led there, and a pending one has a delay.
\<close>

theorem held_presentations_wait:
  assumes "run C bs inner D url is = Some st" and "\<not> rc_printing C" and "authored D"
  shows "(paused st \<or> overview st \<or> autoSlidePaused st \<longrightarrow> autoTimer st = None \<and> input_step C bs inner ITimer st = Some st) \<and>
    autoTimer st \<noteq> Some 0"
proof -
  obtain st0 where st0: "start C inner D url = Some st0" "inputs C bs inner is st0 = Some st"
    using assms(1) by (auto simp: run_def bind_eq_Some_conv)
  have "placed C (shape D) st0" by (rule start_keeps [OF assms(2,3) st0(1)])
  moreover have "timer_ok st0" using st0(1) timer_slide
    unfolding start_synced readURL_def Let_def by (fastforce split: option.splits prod.splits if_splits)
  ultimately have "timer_ok st" using timers.inputs_keep [OF _ st0(2), of "shape D"] by simp
  then show ?thesis by (auto simp: timer_ok_def held_def input_step_def fire_timer_def)
qed

definition moving_config :: rconfig where
  "moving_config = plain_config\<lparr>rc_autoSlide := 5000\<rparr>"

theorem held_presentations_wait_witness:
  "\<exists>st0 st. run moving_config [] (\<lambda>_. None) small_deck [] [ITimer] = Some st0 \<and> autoTimer st0 = Some 5000 \<and>
    run moving_config [] (\<lambda>_. None) small_deck [] [ITimer, press 66] = Some st \<and> paused st \<and>
    input_step moving_config [] (\<lambda>_. None) ITimer st = Some st"
proof -
  have "case (run moving_config [] (\<lambda>_. None) small_deck [] [ITimer], run moving_config [] (\<lambda>_. None) small_deck [] [ITimer, press 66]) of
      (Some st0, Some st) \<Rightarrow> autoTimer st0 = Some 5000 \<and> paused st | _ \<Rightarrow> False" by code_simp
  then obtain st0 st where st: "run moving_config [] (\<lambda>_. None) small_deck [] [ITimer] = Some st0" "autoTimer st0 = Some 5000"
    "run moving_config [] (\<lambda>_. None) small_deck [] [ITimer, press 66] = Some st" "paused st" by (auto split: option.splits)
  have "\<not> rc_printing moving_config" "authored small_deck"
    by code_simp+
  from held_presentations_wait [OF st(3) this] st show ?thesis by blast
qed

end
